(* ===== verification/Prelude.thy ===== *)
theory Prelude
  imports "HOL-Library.Word" "HOL-Library.Monad_Syntax" "HOL-Library.Multiset"
begin

text \<open>
  Shared vocabulary of the development: bytes and machine words, byte buffers with
  checked and unchecked access, and the generic lemmas the components use.

  C memory is modelled by byte lists. A read or a write through a pointer is an
  operation of the option monad: \<open>None\<close> is an access outside the buffer (undefined
  behaviour in C), so a theorem that an operation returns \<open>Some\<close> is a memory-safety
  theorem. Error returns of the C code are ordinary values inside \<open>Some\<close>.
\<close>

unbundle bit_operations_syntax

type_synonym byte = "8 word"
type_synonym bytes = "8 word list"
type_synonym u16 = "16 word"
type_synonym u32 = "32 word"

named_theorems mem_simps \<open>reads and writes of byte buffers\<close>

subsection \<open>Buffers\<close>

definition chunk :: "'a list \<Rightarrow> nat \<Rightarrow> nat \<Rightarrow> 'a list" where
  "chunk p i n = take n (drop i p)"

definition patch :: "'a list \<Rightarrow> nat \<Rightarrow> 'a list \<Rightarrow> 'a list" where
  "patch p i v = take i p @ v @ drop (i + length v) p"

definition rd8 :: "'a list \<Rightarrow> nat \<Rightarrow> 'a option" where
  "rd8 p i = (if i < length p then Some (p ! i) else None)"

definition rd_mem :: "'a list \<Rightarrow> nat \<Rightarrow> nat \<Rightarrow> 'a list option" where
  "rd_mem p i n = (if i + n \<le> length p then Some (chunk p i n) else None)"

definition wr_mem :: "'a list \<Rightarrow> nat \<Rightarrow> 'a list \<Rightarrow> 'a list option" where
  "wr_mem p i v = (if i + length v \<le> length p then Some (patch p i v) else None)"

text \<open>Network byte order, 16 and 32 bits wide.\<close>

definition nbo16 :: "byte \<Rightarrow> byte \<Rightarrow> nat" where
  "nbo16 hi lo = 256 * unat hi + unat lo"

definition put16 :: "nat \<Rightarrow> bytes" where
  "put16 n = [word_of_nat (n div 256), word_of_nat n]"

definition put32 :: "nat \<Rightarrow> bytes" where
  "put32 n = [word_of_nat (n div 2 ^ 24), word_of_nat (n div 2 ^ 16),
              word_of_nat (n div 2 ^ 8), word_of_nat n]"

definition rd_nbo16 :: "bytes \<Rightarrow> nat \<Rightarrow> nat option" where
  "rd_nbo16 p i = do { hi \<leftarrow> rd8 p i; lo \<leftarrow> rd8 p (i + 1); Some (nbo16 hi lo) }"

subsection \<open>Lemmas on buffers\<close>

lemma length_chunk [simp]: "i + n \<le> length p \<Longrightarrow> length (chunk p i n) = n"
  by (simp add: chunk_def)

lemma chunk_eq_Nil [simp]: "i + n \<le> length p \<Longrightarrow> chunk p i n = [] \<longleftrightarrow> n = 0"
  by (auto simp: chunk_def)

lemma nth_chunk [simp]: "i + n \<le> length p \<Longrightarrow> k < n \<Longrightarrow> chunk p i n ! k = p ! (i + k)"
  by (simp add: chunk_def)

lemma length_patch [simp]: "i + length v \<le> length p \<Longrightarrow> length (patch p i v) = length p"
  by (simp add: patch_def)

lemma nth_patch:
  "i + length v \<le> length p \<Longrightarrow> k < length p \<Longrightarrow>
   patch p i v ! k = (if i \<le> k \<and> k < i + length v then v ! (k - i) else p ! k)"
  by (auto simp: patch_def nth_append min_def)

lemma nth_patch_out [simp]:
  "i + length v \<le> length p \<Longrightarrow> k < length p \<Longrightarrow> k < i \<or> i + length v \<le> k \<Longrightarrow> patch p i v ! k = p ! k"
  by (auto simp: nth_patch)

lemma patch_chunk_id [simp]: "i + n \<le> length p \<Longrightarrow> patch p i (chunk p i n) = p"
  by (intro nth_equalityI) (auto simp: nth_patch)

lemma patch_same [simp]:
  "length v = length w \<Longrightarrow> i + length w \<le> length p \<Longrightarrow> patch (patch p i v) i w = patch p i w"
  by (intro nth_equalityI) (auto simp: nth_patch)

lemma chunk_patch_same [simp]:
  "i + length v \<le> length p \<Longrightarrow> n = length v \<Longrightarrow> chunk (patch p i v) i n = v"
  by (intro nth_equalityI) (auto simp: nth_patch)

lemma patch_id: "chunk p i n = v \<Longrightarrow> i + n \<le> length p \<Longrightarrow> patch p i v = p"
  using patch_chunk_id by metis

lemma patch_id_iff:
  assumes "i + length v \<le> length p" "n = length v"
  shows "patch p i v = p \<longleftrightarrow> chunk p i n = v"
  using chunk_patch_same [OF assms] patch_chunk_id [of i n p] assms by metis

lemma chunk_patch_disjoint [simp]:
  "i + length v \<le> length p \<Longrightarrow> j + n \<le> length p \<Longrightarrow> j + n \<le> i \<or> i + length v \<le> j \<Longrightarrow>
   chunk (patch p i v) j n = chunk p j n"
  by (intro nth_equalityI) (auto simp: nth_patch)

lemma patch_swap:
  "i + length v \<le> length p \<Longrightarrow> j + length w \<le> length p \<Longrightarrow>
   j + length w \<le> i \<or> i + length v \<le> j \<Longrightarrow>
   patch (patch p i v) j w = patch (patch p j w) i v"
  by (intro nth_equalityI) (auto simp: nth_patch)

lemma rd8_Some_iff [mem_simps]: "rd8 p i = Some x \<longleftrightarrow> i < length p \<and> x = p ! i"
  by (auto simp: rd8_def)

lemma rd8_in [simp, mem_simps]: "i < length p \<Longrightarrow> rd8 p i = Some (p ! i)"
  by (simp add: rd8_def)

lemma rd_mem_in [simp, mem_simps]: "i + n \<le> length p \<Longrightarrow> rd_mem p i n = Some (chunk p i n)"
  by (simp add: rd_mem_def)

lemma wr_mem_in [simp, mem_simps]: "i + length v \<le> length p \<Longrightarrow> wr_mem p i v = Some (patch p i v)"
  by (simp add: wr_mem_def)

lemma rd_nbo16_in [simp, mem_simps]:
  "i + 1 < length p \<Longrightarrow> rd_nbo16 p i = Some (nbo16 (p ! i) (p ! (i + 1)))"
  by (simp add: rd_nbo16_def)

lemma rd_mem_Some_iff [mem_simps]: "rd_mem p i n = Some x \<longleftrightarrow> i + n \<le> length p \<and> x = chunk p i n"
  by (auto simp: rd_mem_def)

lemma wr_mem_Some_iff [mem_simps]:
  "wr_mem p i v = Some q \<longleftrightarrow> i + length v \<le> length p \<and> q = patch p i v"
  by (auto simp: wr_mem_def)

subsection \<open>Lemmas on network byte order\<close>

lemma length_put [simp]: "length (put16 n) = 2" "length (put32 n) = 4"
  by (simp_all add: put16_def put32_def)

lemma unat_byte_le [simp]: "unat (b :: byte) < 256"
  using unsigned_less [of b, where ?'a = nat] by simp

lemma nbo16_less [simp]: "nbo16 a b < 65536"
proof -
  have "unat a < 256" "unat b < 256" by simp_all
  then show ?thesis unfolding nbo16_def by linarith
qed

lemma unat_byte_of_nat [simp]: "unat (word_of_nat n :: byte) = n mod 256"
  by (simp add: unat_of_nat)

lemma nbo16_put16:
  "n < 65536 \<Longrightarrow> nbo16 (word_of_nat (n div 256)) (word_of_nat n) = n"
  by (simp add: nbo16_def unat_of_nat)

lemma put16_nbo16 [simp]: "put16 (nbo16 a b) = [a, b]"
proof -
  have "(256 * unat a + unat b) div 256 = unat a" by simp
  moreover have "(word_of_nat (256 * unat a + unat b) :: byte) = b"
    by (simp only: word_unat_eq_iff unat_byte_of_nat) simp
  ultimately show ?thesis by (simp add: put16_def nbo16_def)
qed

subsection \<open>Bytewise exclusive or\<close>

definition xor_bytes :: "bytes \<Rightarrow> bytes \<Rightarrow> bytes" where
  "xor_bytes a b = map2 (XOR) a b"

lemma length_xor_bytes [simp]: "length (xor_bytes a b) = min (length a) (length b)"
  by (simp add: xor_bytes_def)

lemma nth_xor_bytes [simp]:
  "i < length a \<Longrightarrow> i < length b \<Longrightarrow> xor_bytes a b ! i = a ! i XOR b ! i"
  by (simp add: xor_bytes_def)

lemma xor_bytes_cancel [simp]:
  "length a \<le> length b \<Longrightarrow> xor_bytes (xor_bytes a b) b = a"
  by (intro nth_equalityI) (auto simp: xor.assoc)

end
