(* ===== verification/Md5.thy ===== *)
theory Md5
  imports Prelude
begin

text \<open>
  The internal MD5 implementation of \<^verbatim>\<open>src/lib/util/md5.c\<close> (the function pointers
  \<open>fr_md5_update\<close> etc. start out as these \<open>fr_md5_local_*\<close> functions) and the
  internal HMAC of \<^verbatim>\<open>src/lib/util/hmac_md5.c\<close>. A context is a record with the chaining
  state, the two 32-bit halves of the bit count and the 64-byte block buffer.

  The lemmas show that feeding a context in pieces computes the one-shot digest of
  the concatenation (\<open>md5_hash\<close>, the RFC 1321 padding and block iteration), for
  total lengths below 512 MB, and that \<open>fr_hmac_md5\<close> is the RFC 2104 construction
  over that digest. The theory also provides the interface \<open>stream_digest\<close> its clients
  rely on.
\<close>

type_synonym md5_state = "u32 \<times> u32 \<times> u32 \<times> u32"

record md5_ctx =
  md5_st :: md5_state
  md5_count0 :: u32
  md5_count1 :: u32
  md5_buffer :: bytes

subsection \<open>The block transform\<close>

definition MD5_F1 :: "u32 \<Rightarrow> u32 \<Rightarrow> u32 \<Rightarrow> u32" where
  "MD5_F1 x y z = z XOR (x AND (y XOR z))"

definition MD5_F2 :: "u32 \<Rightarrow> u32 \<Rightarrow> u32 \<Rightarrow> u32" where
  "MD5_F2 x y z = MD5_F1 z x y"

definition MD5_F3 :: "u32 \<Rightarrow> u32 \<Rightarrow> u32 \<Rightarrow> u32" where
  "MD5_F3 x y z = x XOR y XOR z"

definition MD5_F4 :: "u32 \<Rightarrow> u32 \<Rightarrow> u32 \<Rightarrow> u32" where
  "MD5_F4 x y z = y XOR (x OR NOT z)"

definition MD5STEP :: "(u32 \<Rightarrow> u32 \<Rightarrow> u32 \<Rightarrow> u32) \<Rightarrow> u32 \<Rightarrow> u32 \<Rightarrow> u32 \<Rightarrow> u32 \<Rightarrow> u32 \<Rightarrow> nat \<Rightarrow> u32" where
  "MD5STEP f w x y z data s =
     (let w = w + (f x y z + data);
          w = push_bit s w OR drop_bit (32 - s) w
      in w + x)"

definition md5_word :: "bytes \<Rightarrow> nat \<Rightarrow> u32" where
  "md5_word block a =
     (let idx = a * 4 in
      ucast (block ! (idx + 0)) OR push_bit 8 (ucast (block ! (idx + 1))) OR
      push_bit 16 (ucast (block ! (idx + 2))) OR push_bit 24 (ucast (block ! (idx + 3))))"

definition fr_md5_local_transform :: "md5_state \<Rightarrow> bytes \<Rightarrow> md5_state" where
  "fr_md5_local_transform state block =
     (let inw = md5_word block;
      (a0, b0, c0, d0) = state;
      a = a0; b = b0; c = c0; d = d0;
      a = MD5STEP MD5_F1 a b c d (inw 0 + 0xd76aa478) 7;
      d = MD5STEP MD5_F1 d a b c (inw 1 + 0xe8c7b756) 12;
      c = MD5STEP MD5_F1 c d a b (inw 2 + 0x242070db) 17;
      b = MD5STEP MD5_F1 b c d a (inw 3 + 0xc1bdceee) 22;
      a = MD5STEP MD5_F1 a b c d (inw 4 + 0xf57c0faf) 7;
      d = MD5STEP MD5_F1 d a b c (inw 5 + 0x4787c62a) 12;
      c = MD5STEP MD5_F1 c d a b (inw 6 + 0xa8304613) 17;
      b = MD5STEP MD5_F1 b c d a (inw 7 + 0xfd469501) 22;
      a = MD5STEP MD5_F1 a b c d (inw 8 + 0x698098d8) 7;
      d = MD5STEP MD5_F1 d a b c (inw 9 + 0x8b44f7af) 12;
      c = MD5STEP MD5_F1 c d a b (inw 10 + 0xffff5bb1) 17;
      b = MD5STEP MD5_F1 b c d a (inw 11 + 0x895cd7be) 22;
      a = MD5STEP MD5_F1 a b c d (inw 12 + 0x6b901122) 7;
      d = MD5STEP MD5_F1 d a b c (inw 13 + 0xfd987193) 12;
      c = MD5STEP MD5_F1 c d a b (inw 14 + 0xa679438e) 17;
      b = MD5STEP MD5_F1 b c d a (inw 15 + 0x49b40821) 22;
      a = MD5STEP MD5_F2 a b c d (inw 1 + 0xf61e2562) 5;
      d = MD5STEP MD5_F2 d a b c (inw 6 + 0xc040b340) 9;
      c = MD5STEP MD5_F2 c d a b (inw 11 + 0x265e5a51) 14;
      b = MD5STEP MD5_F2 b c d a (inw 0 + 0xe9b6c7aa) 20;
      a = MD5STEP MD5_F2 a b c d (inw 5 + 0xd62f105d) 5;
      d = MD5STEP MD5_F2 d a b c (inw 10 + 0x02441453) 9;
      c = MD5STEP MD5_F2 c d a b (inw 15 + 0xd8a1e681) 14;
      b = MD5STEP MD5_F2 b c d a (inw 4 + 0xe7d3fbc8) 20;
      a = MD5STEP MD5_F2 a b c d (inw 9 + 0x21e1cde6) 5;
      d = MD5STEP MD5_F2 d a b c (inw 14 + 0xc33707d6) 9;
      c = MD5STEP MD5_F2 c d a b (inw 3 + 0xf4d50d87) 14;
      b = MD5STEP MD5_F2 b c d a (inw 8 + 0x455a14ed) 20;
      a = MD5STEP MD5_F2 a b c d (inw 13 + 0xa9e3e905) 5;
      d = MD5STEP MD5_F2 d a b c (inw 2 + 0xfcefa3f8) 9;
      c = MD5STEP MD5_F2 c d a b (inw 7 + 0x676f02d9) 14;
      b = MD5STEP MD5_F2 b c d a (inw 12 + 0x8d2a4c8a) 20;
      a = MD5STEP MD5_F3 a b c d (inw 5 + 0xfffa3942) 4;
      d = MD5STEP MD5_F3 d a b c (inw 8 + 0x8771f681) 11;
      c = MD5STEP MD5_F3 c d a b (inw 11 + 0x6d9d6122) 16;
      b = MD5STEP MD5_F3 b c d a (inw 14 + 0xfde5380c) 23;
      a = MD5STEP MD5_F3 a b c d (inw 1 + 0xa4beea44) 4;
      d = MD5STEP MD5_F3 d a b c (inw 4 + 0x4bdecfa9) 11;
      c = MD5STEP MD5_F3 c d a b (inw 7 + 0xf6bb4b60) 16;
      b = MD5STEP MD5_F3 b c d a (inw 10 + 0xbebfbc70) 23;
      a = MD5STEP MD5_F3 a b c d (inw 13 + 0x289b7ec6) 4;
      d = MD5STEP MD5_F3 d a b c (inw 0 + 0xeaa127fa) 11;
      c = MD5STEP MD5_F3 c d a b (inw 3 + 0xd4ef3085) 16;
      b = MD5STEP MD5_F3 b c d a (inw 6 + 0x04881d05) 23;
      a = MD5STEP MD5_F3 a b c d (inw 9 + 0xd9d4d039) 4;
      d = MD5STEP MD5_F3 d a b c (inw 12 + 0xe6db99e5) 11;
      c = MD5STEP MD5_F3 c d a b (inw 15 + 0x1fa27cf8) 16;
      b = MD5STEP MD5_F3 b c d a (inw 2 + 0xc4ac5665) 23;
      a = MD5STEP MD5_F4 a b c d (inw 0 + 0xf4292244) 6;
      d = MD5STEP MD5_F4 d a b c (inw 7 + 0x432aff97) 10;
      c = MD5STEP MD5_F4 c d a b (inw 14 + 0xab9423a7) 15;
      b = MD5STEP MD5_F4 b c d a (inw 5 + 0xfc93a039) 21;
      a = MD5STEP MD5_F4 a b c d (inw 12 + 0x655b59c3) 6;
      d = MD5STEP MD5_F4 d a b c (inw 3 + 0x8f0ccc92) 10;
      c = MD5STEP MD5_F4 c d a b (inw 10 + 0xffeff47d) 15;
      b = MD5STEP MD5_F4 b c d a (inw 1 + 0x85845dd1) 21;
      a = MD5STEP MD5_F4 a b c d (inw 8 + 0x6fa87e4f) 6;
      d = MD5STEP MD5_F4 d a b c (inw 15 + 0xfe2ce6e0) 10;
      c = MD5STEP MD5_F4 c d a b (inw 6 + 0xa3014314) 15;
      b = MD5STEP MD5_F4 b c d a (inw 13 + 0x4e0811a1) 21;
      a = MD5STEP MD5_F4 a b c d (inw 4 + 0xf7537e82) 6;
      d = MD5STEP MD5_F4 d a b c (inw 11 + 0xbd3af235) 10;
      c = MD5STEP MD5_F4 c d a b (inw 2 + 0x2ad7d2bb) 15;
      b = MD5STEP MD5_F4 b c d a (inw 9 + 0xeb86d391) 21
      in (a0 + a, b0 + b, c0 + c, d0 + d))"

subsection \<open>Contexts\<close>

definition fr_md5_local_ctx_reset :: "md5_ctx \<Rightarrow> md5_ctx" where
  "fr_md5_local_ctx_reset ctx =
     \<lparr>md5_st = (0x67452301, 0xefcdab89, 0x98badcfe, 0x10325476),
      md5_count0 = 0, md5_count1 = 0, md5_buffer = replicate 64 0\<rparr>"

definition fr_md5_local_ctx_copy :: "md5_ctx \<Rightarrow> md5_ctx \<Rightarrow> md5_ctx" where
  "fr_md5_local_ctx_copy dst src = src"

definition md5_ctx_zero :: md5_ctx where
  "md5_ctx_zero = \<lparr>md5_st = (0, 0, 0, 0), md5_count0 = 0, md5_count1 = 0,
     md5_buffer = replicate 64 0\<rparr>"

definition fr_md5_local_ctx_alloc :: md5_ctx where
  "fr_md5_local_ctx_alloc = fr_md5_local_ctx_reset md5_ctx_zero"

text \<open>The loop \<open>while (inlen >= MD5_BLOCK_LENGTH)\<close>: the new state and the bytes left.\<close>

function md5_blocks :: "md5_state \<Rightarrow> bytes \<Rightarrow> md5_state \<times> bytes" where
  "md5_blocks st data =
     (if 64 \<le> length data
      then md5_blocks (fr_md5_local_transform st (take 64 data)) (drop 64 data)
      else (st, data))"
  by pat_completeness auto
termination by (relation "measure (\<lambda>(st, data). length data)") auto

declare md5_blocks.simps [simp del]

definition fr_md5_local_update :: "md5_ctx \<Rightarrow> bytes \<Rightarrow> md5_ctx" where
  "fr_md5_local_update ctx data =
     (let inlen = length data;
          have' = unat (drop_bit 3 (md5_count0 ctx) AND 63);
          need = 64 - have';
          inlen32 = (word_of_nat inlen :: u32);
          count0 = md5_count0 ctx + push_bit 3 inlen32;
          count1 = (if count0 < inlen32 then md5_count1 ctx + 1 else md5_count1 ctx);
          count1 = count1 + drop_bit 29 inlen32;
          ctx = ctx\<lparr>md5_count0 := count0, md5_count1 := count1\<rparr>
      in if need \<le> inlen then
           (let (ctx, data, have') =
                  (if have' \<noteq> 0 then
                     let buf = patch (md5_buffer ctx) have' (take need data) in
                     (ctx\<lparr>md5_buffer := buf, md5_st := fr_md5_local_transform (md5_st ctx) buf\<rparr>,
                      drop need data, 0)
                   else (ctx, data, have'));
                (st, data) = md5_blocks (md5_st ctx) data
            in ctx\<lparr>md5_st := st, md5_buffer := patch (md5_buffer ctx) have' data\<rparr>)
         else ctx\<lparr>md5_buffer := patch (md5_buffer ctx) have' data\<rparr>)"

definition PUT_64BIT_LE :: "u32 \<Rightarrow> u32 \<Rightarrow> bytes" where
  "PUT_64BIT_LE lo hi =
     [ucast lo, ucast (drop_bit 8 lo), ucast (drop_bit 16 lo), ucast (drop_bit 24 lo),
      ucast hi, ucast (drop_bit 8 hi), ucast (drop_bit 16 hi), ucast (drop_bit 24 hi)]"

definition PUT_32BIT_LE :: "u32 \<Rightarrow> bytes" where
  "PUT_32BIT_LE v = [ucast v, ucast (drop_bit 8 v), ucast (drop_bit 16 v), ucast (drop_bit 24 v)]"

definition PADDING :: bytes where
  "PADDING = 0x80 # replicate 63 0"

definition md5_out :: "md5_state \<Rightarrow> bytes" where
  "md5_out st = (case st of (a, b, c, d) \<Rightarrow>
     PUT_32BIT_LE a @ PUT_32BIT_LE b @ PUT_32BIT_LE c @ PUT_32BIT_LE d)"

text \<open>The digest, and the context wiped by the final \<open>memset\<close>.\<close>

definition fr_md5_local_final :: "md5_ctx \<Rightarrow> bytes \<times> md5_ctx" where
  "fr_md5_local_final ctx =
     (let count = PUT_64BIT_LE (md5_count0 ctx) (md5_count1 ctx);
          padlen = 64 - unat (drop_bit 3 (md5_count0 ctx) AND 63);
          padlen = (if padlen < 1 + 8 then padlen + 64 else padlen);
          ctx = fr_md5_local_update ctx (take (padlen - 8) PADDING);
          ctx = fr_md5_local_update ctx count
      in (md5_out (md5_st ctx), md5_ctx_zero))"

definition fr_md5_calc :: "bytes \<Rightarrow> bytes" where
  "fr_md5_calc data = fst (fr_md5_local_final (fr_md5_local_update fr_md5_local_ctx_alloc data))"

subsection \<open>HMAC\<close>

definition fr_hmac_md5 :: "bytes \<Rightarrow> bytes \<Rightarrow> bytes" where
  "fr_hmac_md5 data key =
     (let ctx = fr_md5_local_ctx_alloc;
          (key, ctx) =
            (if 64 < length key
             then let (tk, ctx) = fr_md5_local_final (fr_md5_local_update ctx key)
                  in (tk, fr_md5_local_ctx_reset ctx)
             else (key, ctx));
          k_ipad = patch (replicate 65 0) 0 key;
          k_opad = patch (replicate 65 0) 0 key;
          k_ipad = map (\<lambda>b. b XOR 0x36) (take 64 k_ipad) @ drop 64 k_ipad;
          k_opad = map (\<lambda>b. b XOR 0x5c) (take 64 k_opad) @ drop 64 k_opad;
          ctx = fr_md5_local_update ctx (take 64 k_ipad);
          ctx = fr_md5_local_update ctx data;
          (digest, ctx) = fr_md5_local_final ctx;
          ctx = fr_md5_local_ctx_reset ctx;
          ctx = fr_md5_local_update ctx (take 64 k_opad);
          ctx = fr_md5_local_update ctx (take 16 digest)
      in fst (fr_md5_local_final ctx))"

subsection \<open>The transform is the one of RFC 1321\<close>

text \<open>RFC 1321, section 3.4: the auxiliary functions, the sine table, the order of the words and
  the shift amounts of the four rounds, and the sixty-four operations as one fold.\<close>

definition rfc_F :: "nat \<Rightarrow> u32 \<Rightarrow> u32 \<Rightarrow> u32 \<Rightarrow> u32" where
  "rfc_F r x y z =
     (if r = 0 then (x AND y) OR (NOT x AND z)
      else if r = 1 then (x AND z) OR (y AND NOT z)
      else if r = 2 then x XOR y XOR z
      else y XOR (x OR NOT z))"

definition rfc_T :: "u32 list" where
  "rfc_T =
    [0xd76aa478, 0xe8c7b756, 0x242070db, 0xc1bdceee, 0xf57c0faf, 0x4787c62a,
     0xa8304613, 0xfd469501, 0x698098d8, 0x8b44f7af, 0xffff5bb1, 0x895cd7be,
     0x6b901122, 0xfd987193, 0xa679438e, 0x49b40821, 0xf61e2562, 0xc040b340,
     0x265e5a51, 0xe9b6c7aa, 0xd62f105d, 0x02441453, 0xd8a1e681, 0xe7d3fbc8,
     0x21e1cde6, 0xc33707d6, 0xf4d50d87, 0x455a14ed, 0xa9e3e905, 0xfcefa3f8,
     0x676f02d9, 0x8d2a4c8a, 0xfffa3942, 0x8771f681, 0x6d9d6122, 0xfde5380c,
     0xa4beea44, 0x4bdecfa9, 0xf6bb4b60, 0xbebfbc70, 0x289b7ec6, 0xeaa127fa,
     0xd4ef3085, 0x04881d05, 0xd9d4d039, 0xe6db99e5, 0x1fa27cf8, 0xc4ac5665,
     0xf4292244, 0x432aff97, 0xab9423a7, 0xfc93a039, 0x655b59c3, 0x8f0ccc92,
     0xffeff47d, 0x85845dd1, 0x6fa87e4f, 0xfe2ce6e0, 0xa3014314, 0x4e0811a1,
     0xf7537e82, 0xbd3af235, 0x2ad7d2bb, 0xeb86d391]"

definition rfc_k :: "nat \<Rightarrow> nat" where
  "rfc_k i = [i, 5 * i + 1, 3 * i + 5, 7 * i] ! (i div 16) mod 16"

definition rfc_s :: "nat \<Rightarrow> nat" where
  "rfc_s i = [[7, 12, 17, 22], [5, 9, 14, 20], [4, 11, 16, 23], [6, 10, 15, 21]] ! (i div 16) ! (i mod 4)"

definition rfc_round :: "bytes \<Rightarrow> md5_state \<Rightarrow> nat \<Rightarrow> md5_state" where
  "rfc_round block st i =
     (let (a, b, c, d) = st;
          f = a + rfc_F (i div 16) b c d + md5_word block (rfc_k i) + rfc_T ! i
      in (d, b + word_rotl (rfc_s i) f, b, c))"

definition rfc_transform :: "md5_state \<Rightarrow> bytes \<Rightarrow> md5_state" where
  "rfc_transform st block =
     (let (a0, b0, c0, d0) = st; (a, b, c, d) = foldl (rfc_round block) st [0..<64]
      in (a0 + a, b0 + b, c0 + c, d0 + d))"

lemma MD5_F_rfc:
  "MD5_F1 = rfc_F 0" "MD5_F2 = rfc_F 1" "MD5_F3 = rfc_F 2" "MD5_F4 = rfc_F 3"
  by (intro ext bit_eqI; auto simp: MD5_F1_def MD5_F2_def MD5_F3_def MD5_F4_def rfc_F_def
      bit_or_iff bit_and_iff bit_xor_iff bit_not_iff)+

lemma word_rotl_shifts:
  "0 < s \<Longrightarrow> s < 32 \<Longrightarrow> word_rotl s (w :: u32) = push_bit s w OR drop_bit (32 - s) w"
proof (rule bit_word_eqI)
  fix n assume "0 < s" "s < 32" "n < LENGTH(32)"
  then show "bit (word_rotl s w) n = bit (push_bit s w OR drop_bit (32 - s) w) n"
    by (cases "n < s")
      (auto simp: bit_word_rotl_iff bit_or_iff bit_push_bit_iff bit_drop_bit_eq mod_if not_less add.commute [of 32 n]
        dest: bit_imp_le_length)
qed

lemma MD5STEP_rfc:
  "0 < s \<Longrightarrow> s < 32 \<Longrightarrow> MD5STEP f w x y z (m + t) s = x + word_rotl s (w + f x y z + m + t)"
  by (simp add: MD5STEP_def Let_def word_rotl_shifts ac_simps)

text \<open>One operation, as the code writes it, and the table of the sixty-four operations.\<close>

fun md5_op :: "bytes \<Rightarrow> md5_state \<Rightarrow> (u32 \<Rightarrow> u32 \<Rightarrow> u32 \<Rightarrow> u32) \<times> nat \<times> u32 \<times> nat \<Rightarrow> md5_state" where
  "md5_op block (a, b, c, d) (f, k, t, s) =
     (let x = MD5STEP f a b c d (md5_word block k + t) s in (d, x, b, c))"

lemma rfc_s_bounds: "i < 64 \<Longrightarrow> 0 < rfc_s i \<and> rfc_s i < 32"
proof -
  have "list_all (\<lambda>i. 0 < rfc_s i \<and> rfc_s i < 32) [0..<64]" by code_simp
  then show "i < 64 \<Longrightarrow> 0 < rfc_s i \<and> rfc_s i < 32" by (simp add: list_all_iff)
qed

lemma rfc_round_op:
  assumes "i < 64"
  shows "rfc_round block st i = md5_op block st (rfc_F (i div 16), rfc_k i, rfc_T ! i, rfc_s i)"
  using rfc_s_bounds [OF assms] by (cases st) (simp add: rfc_round_def MD5STEP_rfc Let_def)

lemma rfc_rounds_ops:
  "\<forall>i \<in> set is. i < 64 \<Longrightarrow> foldl (rfc_round block) st is =
    foldl (md5_op block) st (map (\<lambda>i. (rfc_F (i div 16), rfc_k i, rfc_T ! i, rfc_s i)) is)"
  by (induction "is" arbitrary: st) (simp_all add: rfc_round_op)

definition md5_ops :: "((u32 \<Rightarrow> u32 \<Rightarrow> u32 \<Rightarrow> u32) \<times> nat \<times> u32 \<times> nat) list" where
  "md5_ops =
   [(MD5_F1, 0, 0xd76aa478, 7), (MD5_F1, 1, 0xe8c7b756, 12), (MD5_F1, 2, 0x242070db, 17),
    (MD5_F1, 3, 0xc1bdceee, 22), (MD5_F1, 4, 0xf57c0faf, 7), (MD5_F1, 5, 0x4787c62a, 12),
    (MD5_F1, 6, 0xa8304613, 17), (MD5_F1, 7, 0xfd469501, 22), (MD5_F1, 8, 0x698098d8, 7),
    (MD5_F1, 9, 0x8b44f7af, 12), (MD5_F1, 10, 0xffff5bb1, 17), (MD5_F1, 11, 0x895cd7be, 22),
    (MD5_F1, 12, 0x6b901122, 7), (MD5_F1, 13, 0xfd987193, 12), (MD5_F1, 14, 0xa679438e, 17),
    (MD5_F1, 15, 0x49b40821, 22), (MD5_F2, 1, 0xf61e2562, 5), (MD5_F2, 6, 0xc040b340, 9),
    (MD5_F2, 11, 0x265e5a51, 14), (MD5_F2, 0, 0xe9b6c7aa, 20), (MD5_F2, 5, 0xd62f105d, 5),
    (MD5_F2, 10, 0x02441453, 9), (MD5_F2, 15, 0xd8a1e681, 14), (MD5_F2, 4, 0xe7d3fbc8, 20),
    (MD5_F2, 9, 0x21e1cde6, 5), (MD5_F2, 14, 0xc33707d6, 9), (MD5_F2, 3, 0xf4d50d87, 14),
    (MD5_F2, 8, 0x455a14ed, 20), (MD5_F2, 13, 0xa9e3e905, 5), (MD5_F2, 2, 0xfcefa3f8, 9),
    (MD5_F2, 7, 0x676f02d9, 14), (MD5_F2, 12, 0x8d2a4c8a, 20), (MD5_F3, 5, 0xfffa3942, 4),
    (MD5_F3, 8, 0x8771f681, 11), (MD5_F3, 11, 0x6d9d6122, 16), (MD5_F3, 14, 0xfde5380c, 23),
    (MD5_F3, 1, 0xa4beea44, 4), (MD5_F3, 4, 0x4bdecfa9, 11), (MD5_F3, 7, 0xf6bb4b60, 16),
    (MD5_F3, 10, 0xbebfbc70, 23), (MD5_F3, 13, 0x289b7ec6, 4), (MD5_F3, 0, 0xeaa127fa, 11),
    (MD5_F3, 3, 0xd4ef3085, 16), (MD5_F3, 6, 0x04881d05, 23), (MD5_F3, 9, 0xd9d4d039, 4),
    (MD5_F3, 12, 0xe6db99e5, 11), (MD5_F3, 15, 0x1fa27cf8, 16), (MD5_F3, 2, 0xc4ac5665, 23),
    (MD5_F4, 0, 0xf4292244, 6), (MD5_F4, 7, 0x432aff97, 10), (MD5_F4, 14, 0xab9423a7, 15),
    (MD5_F4, 5, 0xfc93a039, 21), (MD5_F4, 12, 0x655b59c3, 6), (MD5_F4, 3, 0x8f0ccc92, 10),
    (MD5_F4, 10, 0xffeff47d, 15), (MD5_F4, 1, 0x85845dd1, 21), (MD5_F4, 8, 0x6fa87e4f, 6),
    (MD5_F4, 15, 0xfe2ce6e0, 10), (MD5_F4, 6, 0xa3014314, 15), (MD5_F4, 13, 0x4e0811a1, 21),
    (MD5_F4, 4, 0xf7537e82, 6), (MD5_F4, 11, 0xbd3af235, 10), (MD5_F4, 2, 0x2ad7d2bb, 15),
    (MD5_F4, 9, 0xeb86d391, 21)]"

lemma md5_ops_table: "map (\<lambda>i. (rfc_F (i div 16), rfc_k i, rfc_T ! i, rfc_s i)) [0..<64] = md5_ops"
  by (simp add: upt_rec md5_ops_def MD5_F_rfc rfc_k_def rfc_s_def rfc_T_def)

lemma foldl_md5_op:
  "foldl (md5_op block) (a, b, c, d) ((f, k, t, s) # ops) =
    (let x = MD5STEP f a b c d (md5_word block k + t) s in foldl (md5_op block) (d, x, b, c) ops)"
  by (simp add: Let_def)

lemma let_let_state: "(let (a, b, c, d) = (let x = e in g x) in h a b c d) = (let x = e in let (a, b, c, d) = g x in h a b c d)"
  by (simp add: Let_def)

lemma let_state: "(let (a, b, c, d) = (a', b', c', d') in h a b c d) = h a' b' c' d'"
  by simp

lemma fr_md5_local_transform_rfc: "fr_md5_local_transform st block = rfc_transform st block"
proof (cases st)
  case (fields a0 b0 c0 d0)
  have ops: "foldl (rfc_round block) st [0..<64] = foldl (md5_op block) st md5_ops"
    unfolding md5_ops_table [symmetric] by (rule rfc_rounds_ops) simp
  show ?thesis
    unfolding rfc_transform_def ops unfolding fields md5_ops_def foldl_md5_op foldl_Nil
      let_let_state let_state fr_md5_local_transform_def
      Let_def [of "md5_word block"] Let_def [of a0] Let_def [of b0] Let_def [of c0] Let_def [of d0]
    by (rule refl)
qed

subsection \<open>The reference digest\<close>

text \<open>RFC 1321: pad with \<open>0x80\<close> and zeros to 56 modulo 64, append the 64-bit bit
  count in little-endian order, and chain the transform over the 64-byte blocks.\<close>

definition md5_init :: md5_state where
  "md5_init = (0x67452301, 0xefcdab89, 0x98badcfe, 0x10325476)"

definition md5_absorb :: "md5_state \<Rightarrow> bytes \<Rightarrow> md5_state" where
  "md5_absorb st bs =
     foldl (\<lambda>s i. rfc_transform s (chunk bs (64 * i) 64)) st [0..<length bs div 64]"

definition le64 :: "nat \<Rightarrow> bytes" where
  "le64 n = map (\<lambda>i. word_of_nat (n div 256 ^ i)) [0..<8]"

definition md5_pad :: "bytes \<Rightarrow> bytes" where
  "md5_pad bs = bs @ 0x80 # replicate ((119 - length bs mod 64) mod 64) 0 @ le64 (8 * length bs)"

definition md5_hash :: "bytes \<Rightarrow> bytes" where
  "md5_hash bs = md5_out (md5_absorb md5_init (md5_pad bs))"

definition hmac_md5_spec :: "bytes \<Rightarrow> bytes \<Rightarrow> bytes" where
  "hmac_md5_spec data key =
     (let k = (if 64 < length key then md5_hash key else key);
          k = k @ replicate (64 - length k) 0
      in md5_hash (map (\<lambda>b. b XOR 0x5c) k @ md5_hash (map (\<lambda>b. b XOR 0x36) k @ data)))"

definition md5_tail :: "bytes \<Rightarrow> bytes" where
  "md5_tail a = drop (64 * (length a div 64)) a"

text \<open>A context has absorbed \<open>a\<close>: the state covers the whole blocks of \<open>a\<close>, the buffer
  starts with the rest, and the count is the number of bits of \<open>a\<close>.\<close>

definition md5_absorbed :: "md5_ctx \<Rightarrow> bytes \<Rightarrow> bool" where
  "md5_absorbed ctx a \<longleftrightarrow>
     length a < 2 ^ 29 \<and> md5_count0 ctx = word_of_nat (8 * length a) \<and> md5_count1 ctx = 0 \<and>
     length (md5_buffer ctx) = 64 \<and>
     take (length a mod 64) (md5_buffer ctx) = md5_tail a \<and>
     md5_st ctx = md5_absorb md5_init a"

subsection \<open>Block iteration\<close>

lemma md5_absorb_short: "length bs < 64 \<Longrightarrow> md5_absorb st bs = st"
  by (simp add: md5_absorb_def)

lemma md5_absorb_append:
  assumes "length a = 64 * n"
  shows "md5_absorb st (a @ b) = md5_absorb (md5_absorb st a) b"
proof -
  let ?t = "\<lambda>bs s i. rfc_transform s (chunk bs (64 * i) 64)"
  have len: "length (a @ b) div 64 = n + length b div 64" using assms by simp
  have up: "[0..<n + length b div 64] = [0..<n] @ map (\<lambda>i. i + n) [0..<length b div 64]"
    using upt_add_eq_append [of 0 n "length b div 64"] by (simp add: map_add_upt add.commute)
  have "foldl (?t (a @ b)) st [0..<n] = foldl (?t a) st [0..<n]"
    using assms by (intro foldl_cong) (auto simp: chunk_def)
  moreover have "foldl (?t (a @ b)) s (map (\<lambda>i. i + n) [0..<length b div 64])
      = foldl (?t b) s [0..<length b div 64]" for s
    using assms by (simp add: foldl_map chunk_def add_mult_distrib2)
  ultimately show ?thesis
    using assms unfolding md5_absorb_def len up by simp
qed

lemma md5_absorb_block: "length b = 64 \<Longrightarrow> md5_absorb st b = fr_md5_local_transform st b"
  by (simp add: md5_absorb_def chunk_def fr_md5_local_transform_rfc)

lemma md5_blocks_eq:
  "md5_blocks st data = (md5_absorb st data, drop (64 * (length data div 64)) data)"
proof (induction st data rule: md5_blocks.induct)
  case (1 st data)
  show ?case
  proof (cases "64 \<le> length data")
    case True
    have "md5_absorb st data = md5_absorb st (take 64 data @ drop 64 data)" by simp
    also have "\<dots> = md5_absorb (fr_md5_local_transform st (take 64 data)) (drop 64 data)"
      using True by (subst md5_absorb_append [where n = 1]) (simp_all add: md5_absorb_block)
    finally have "md5_absorb st data = md5_absorb (fr_md5_local_transform st (take 64 data)) (drop 64 data)" .
    moreover have "64 * (length data div 64) = 64 * ((length data - 64) div 64) + 64"
      using True by (simp add: div_le_dividend le_div_geq)
    ultimately show ?thesis
      using 1 True by (subst md5_blocks.simps) simp
  next
    case False
    then show ?thesis by (subst md5_blocks.simps) (simp add: md5_absorb_short)
  qed
qed

lemma md5_have:
  assumes "8 * n < 2 ^ 32"
  shows "unat (drop_bit 3 (word_of_nat (8 * n) :: u32) AND 63) = n mod 64"
proof -
  have "unat (word_of_nat (8 * n) :: u32) = 8 * n"
    using assms by (simp add: unat_of_nat del: of_nat_mult)
  then have "unat (drop_bit 3 (word_of_nat (8 * n) :: u32)) = n"
    unfolding unat_drop_bit_eq by (simp add: drop_bit_eq_div)
  moreover have "w AND 63 = take_bit 6 w" for w :: u32
    by (simp add: take_bit_eq_mask mask_eq_exp_minus_1)
  ultimately show ?thesis
    by (simp add: unsigned_take_bit_eq) (simp add: take_bit_eq_mod)
qed

subsection \<open>Updates\<close>

lemma length_md5_tail [simp]: "length (md5_tail a) = length a mod 64"
  by (simp add: md5_tail_def minus_mult_div_eq_mod)

lemma md5_head_tail [simp]: "take (64 * (length a div 64)) a @ md5_tail a = a"
  by (simp add: md5_tail_def)

lemma md5_head_tail2 [simp]: "take (64 * (length a div 64)) a @ md5_tail a @ b = a @ b"
  using md5_head_tail [of a] by (metis append.assoc)

lemma md5_absorb_head: "md5_absorb st (take (64 * (length a div 64)) a) = md5_absorb st a"
  using md5_absorb_append [of "take (64 * (length a div 64)) a" "length a div 64" st "md5_tail a"]
  by (simp add: md5_absorb_short)

lemma md5_absorb_split: "md5_absorb st (a @ b) = md5_absorb (md5_absorb st a) (md5_tail a @ b)"
  using md5_absorb_append [of "take (64 * (length a div 64)) a" "length a div 64" st "md5_tail a @ b"]
  by (simp add: md5_absorb_head)

lemma md5_tail_split: "md5_tail (a @ b) = md5_tail (md5_tail a @ b)"
proof -
  have "length a + length b = (length a mod 64 + length b) + 64 * (length a div 64)" by simp
  then have "(length a + length b) div 64 = ((length a mod 64 + length b) + 64 * (length a div 64)) div 64"
    by (simp only:)
  then have "(length a + length b) div 64 = length a div 64 + (length a mod 64 + length b) div 64"
    by (simp only: div_mult_self2)
  then have "64 * (length (a @ b) div 64) =
      64 * (length (md5_tail a @ b) div 64) + 64 * (length a div 64)" by simp
  then have "md5_tail (a @ b) =
      drop (64 * (length (md5_tail a @ b) div 64)) (drop (64 * (length a div 64)) (a @ b))"
    by (simp only: md5_tail_def drop_drop)
  then show ?thesis
    by (simp add: md5_tail_def)
qed

lemma md5_patch_prefix:
  "k + length b \<le> length buf \<Longrightarrow> take (k + length b) (patch buf k b) = take k buf @ b"
  by (simp add: patch_def)

lemma md5_tail_short: "length a < 64 \<Longrightarrow> md5_tail a = a"
  by (simp add: md5_tail_def)

lemma md5_tail_block: "length a = 64 \<Longrightarrow> md5_tail (a @ b) = md5_tail b"
  by (subst md5_tail_split) (simp add: md5_tail_def)

lemma fr_md5_local_update_data:
  fixes b :: bytes
  assumes h: "unat (drop_bit 3 (md5_count0 ctx) AND 63) = k" and k: "k < 64"
    and len: "length (md5_buffer ctx) = 64"
  defines "t \<equiv> take k (md5_buffer ctx)" and "ctx' \<equiv> fr_md5_local_update ctx b"
  shows "md5_st ctx' = md5_absorb (md5_st ctx) (t @ b) \<and> length (md5_buffer ctx') = 64 \<and>
         take ((k + length b) mod 64) (md5_buffer ctx') = md5_tail (t @ b)"
proof (cases "64 - k \<le> length b")
  case False
  then have "length (t @ b) < 64" and sum: "k + length b < 64" using len k by (auto simp: t_def)
  then show ?thesis
    using False h len k unfolding ctx'_def fr_md5_local_update_def
    by (simp add: Let_def md5_absorb_short md5_tail_short md5_patch_prefix t_def)
next
  case True
  define b1 where "b1 = take (64 - k) b"
  define b2 where "b2 = drop (64 - k) b"
  define buf where "buf = patch (md5_buffer ctx) k b1"
  have b: "b = b1 @ b2" and lb1: "length b1 = 64 - k" using True by (simp_all add: b1_def b2_def)
  have blk: "length (t @ b1) = 64" using len k lb1 by (simp add: t_def)
  have bufeq: "buf = t @ b1" using len k lb1 by (simp add: buf_def patch_def t_def)
  have st: "md5_absorb (md5_st ctx) (t @ b)
      = md5_absorb (fr_md5_local_transform (md5_st ctx) buf) b2"
    using md5_absorb_append [of "t @ b1" 1 "md5_st ctx" b2] blk b
    by (simp add: bufeq md5_absorb_block)
  have tl: "md5_tail (t @ b) = md5_tail b2"
    using md5_tail_block [OF blk, of b2] b by simp
  have "k + length b = length b2 + 64" using True k by (simp add: b2_def)
  then have "(k + length b) mod 64 = length b2 mod 64" by simp
  have upd: "md5_st ctx' = md5_absorb (md5_st ctx) (t @ b) \<and>
     (\<exists>bf. length bf = 64 \<and> md5_buffer ctx' = patch bf 0 (md5_tail b2))"
  proof (cases "k = 0")
    case True
    then have "b2 = drop 64 b" "t = []" by (simp_all add: b2_def t_def)
    then show ?thesis
      using \<open>64 - k \<le> length b\<close> h len True tl unfolding ctx'_def fr_md5_local_update_def
      by (auto simp: Let_def md5_blocks_eq md5_tail_def [symmetric])
  next
    case False
    then show ?thesis
      using True h len st bufeq blk unfolding ctx'_def fr_md5_local_update_def
      by (auto simp: Let_def md5_blocks_eq md5_tail_def [symmetric] buf_def [symmetric]
          b1_def [symmetric] b2_def [symmetric] intro!: exI [of _ "t @ b1"])
  qed
  then show ?thesis
    using tl \<open>(k + length b) mod 64 = length b2 mod 64\<close>
    by (auto simp: patch_def)
qed


lemma md5_count_carry:
  assumes "la + lb < 2 ^ 29"
  shows "word_of_nat (8 * la) + push_bit 3 (word_of_nat lb) = (word_of_nat (8 * (la + lb)) :: u32)"
    and "\<not> (word_of_nat (8 * (la + lb)) :: u32) < word_of_nat lb"
    and "drop_bit 29 (word_of_nat lb :: u32) = 0"
proof -
  show "word_of_nat (8 * la) + push_bit 3 (word_of_nat lb) = (word_of_nat (8 * (la + lb)) :: u32)"
    by (simp add: push_bit_eq_mult algebra_simps)
  have n: "8 * (la + lb) < 2 ^ 32" "lb < 2 ^ 32" using assms by simp_all
  then show "\<not> (word_of_nat (8 * (la + lb)) :: u32) < word_of_nat lb"
    by (simp add: word_less_nat_alt unat_of_nat del: of_nat_mult of_nat_add)
  have "unat (drop_bit 29 (word_of_nat lb :: u32)) = 0"
    unfolding unat_drop_bit_eq using assms n by (simp add: unat_of_nat drop_bit_eq_div)
  then show "drop_bit 29 (word_of_nat lb :: u32) = 0" by (simp add: unat_eq_zero)
qed

lemma md5_absorbed_update:
  assumes abs: "md5_absorbed ctx a" and lim: "length a + length b < 2 ^ 29"
  shows "md5_absorbed (fr_md5_local_update ctx b) (a @ b)"
proof -
  from abs have cnt: "md5_count0 ctx = word_of_nat (8 * length a)" "md5_count1 ctx = 0"
    and len: "length (md5_buffer ctx) = 64"
    and tk: "take (length a mod 64) (md5_buffer ctx) = md5_tail a"
    and st: "md5_st ctx = md5_absorb md5_init a"
    by (simp_all add: md5_absorbed_def)
  have h: "unat (drop_bit 3 (md5_count0 ctx) AND 63) = length a mod 64"
    unfolding cnt by (rule md5_have) (use lim in simp)
  note data = fr_md5_local_update_data [OF h _ len, of b]
  have count: "md5_count0 (fr_md5_local_update ctx b) = word_of_nat (8 * length (a @ b))"
    "md5_count1 (fr_md5_local_update ctx b) = 0"
    using cnt md5_count_carry [OF lim] unfolding fr_md5_local_update_def
    by (simp_all add: Let_def split: prod.splits if_splits del: of_nat_mult of_nat_add)
  have mod: "(length a mod 64 + length b) mod 64 = length (a @ b) mod 64"
    by (simp add: mod_add_left_eq)
  have "md5_st (fr_md5_local_update ctx b) = md5_absorb md5_init (a @ b)"
    using data st tk by (simp add: md5_absorb_split [of _ a b])
  moreover have "take (length (a @ b) mod 64) (md5_buffer (fr_md5_local_update ctx b)) = md5_tail (a @ b)"
    using data tk mod by (simp add: md5_tail_split [of a b] del: length_append)
  ultimately show ?thesis
    using data count lim by (simp add: md5_absorbed_def del: of_nat_mult of_nat_add)
qed

lemma md5_absorbed_reset: "md5_absorbed (fr_md5_local_ctx_reset ctx) []"
  by (simp add: md5_absorbed_def fr_md5_local_ctx_reset_def md5_absorb_short md5_init_def md5_tail_short)

subsection \<open>The final block\<close>

lemma ucast_drop_bit_of_nat:
  assumes "n < 2 ^ 32"
  shows "(ucast (drop_bit (8 * i) (word_of_nat n :: u32)) :: byte) = word_of_nat (n div 256 ^ i)"
proof -
  have "unat (drop_bit (8 * i) (word_of_nat n :: u32)) = n div 256 ^ i"
    unfolding unat_drop_bit_eq using assms
    by (simp add: unat_of_nat drop_bit_eq_div power_mult)
  then have "unat (ucast (drop_bit (8 * i) (word_of_nat n :: u32)) :: byte) = n div 256 ^ i mod 256"
    by (simp add: unsigned_ucast_eq) (simp add: take_bit_eq_mod)
  then show ?thesis by (simp add: word_unat_eq_iff)
qed

lemma PUT_64BIT_LE_le64:
  assumes "n < 2 ^ 32"
  shows "PUT_64BIT_LE (word_of_nat n) 0 = le64 n"
proof -
  have up: "[0..<8] = [0, 1, 2, 3, 4, 5, 6, 7::nat]" by (simp add: upt_rec)
  have hi: "n div 256 ^ i = 0" if "4 \<le> i" for i
  proof -
    have "(256::nat) ^ 4 \<le> 256 ^ i" using that by (intro power_increasing) auto
    with assms have "n < 256 ^ i" by simp
    then show ?thesis by simp
  qed
  show ?thesis
    using ucast_drop_bit_of_nat [OF assms, of 0] ucast_drop_bit_of_nat [OF assms, of 1]
      ucast_drop_bit_of_nat [OF assms, of 2] ucast_drop_bit_of_nat [OF assms, of 3]
      hi [of 4] hi [of 5] hi [of 6] hi [of 7]
    by (simp add: PUT_64BIT_LE_def le64_def up)
qed

lemma length_le64 [simp]: "length (le64 n) = 8"
  by (simp add: le64_def)

lemma take_PADDING: "0 < n \<Longrightarrow> n \<le> 64 \<Longrightarrow> take n PADDING = 0x80 # replicate (n - 1) 0"
  by (cases n) (simp_all add: PADDING_def min_def)

lemma md5_padlen:
  assumes "k < 64"
  defines "p \<equiv> if 64 - k < 1 + 8 then 64 - k + 64 else 64 - k"
  shows "take (p - 8) PADDING = 0x80 # replicate ((119 - k) mod 64) 0"
proof -
  have "p - 8 - 1 = (119 - k) mod 64" "0 < p - 8" "p - 8 \<le> 64"
    using assms by (auto simp: p_def mod_if)
  then show ?thesis by (simp add: take_PADDING)
qed

lemma length_md5_out [simp]: "length (md5_out st) = 16"
  by (simp add: md5_out_def PUT_32BIT_LE_def split: prod.splits)

lemma length_md5_hash [simp]: "length (md5_hash bs) = 16"
  by (simp add: md5_hash_def)

lemma fr_md5_local_final_hash:
  assumes abs: "md5_absorbed ctx a" and lim: "length a < 2 ^ 29 - 128"
  shows "fst (fr_md5_local_final ctx) = md5_hash a"
proof -
  let ?k = "length a mod 64"
  let ?pad = "0x80 # replicate ((119 - ?k) mod 64) (0::byte)"
  have cnt: "md5_count0 ctx = word_of_nat (8 * length a)" "md5_count1 ctx = 0"
    using abs by (simp_all add: md5_absorbed_def)
  have h: "unat (drop_bit 3 (md5_count0 ctx) AND 63) = ?k"
    unfolding cnt by (rule md5_have) (use lim in simp)
  have c: "PUT_64BIT_LE (md5_count0 ctx) (md5_count1 ctx) = le64 (8 * length a)"
    unfolding cnt by (rule PUT_64BIT_LE_le64) (use lim in simp)
  have "md5_absorbed (fr_md5_local_update ctx ?pad) (a @ ?pad)"
    using lim by (intro md5_absorbed_update [OF abs]) simp
  then have "md5_absorbed (fr_md5_local_update (fr_md5_local_update ctx ?pad) (le64 (8 * length a)))
      ((a @ ?pad) @ le64 (8 * length a))"
    by (rule md5_absorbed_update) (use lim in simp)
  then have "md5_st (fr_md5_local_update (fr_md5_local_update ctx ?pad) (le64 (8 * length a))) =
      md5_absorb md5_init (md5_pad a)"
    by (simp add: md5_absorbed_def md5_pad_def)
  then show ?thesis
    unfolding fr_md5_local_final_def h c Let_def
    using md5_padlen [of ?k] by (simp add: md5_hash_def)
qed

subsection \<open>The interface of a streaming digest\<close>

locale stream_digest =
  fixes reset :: "'c \<Rightarrow> 'c" and update :: "'c \<Rightarrow> bytes \<Rightarrow> 'c" and final :: "'c \<Rightarrow> bytes \<times> 'c"
    and hash :: "bytes \<Rightarrow> bytes" and absorbed :: "'c \<Rightarrow> bytes \<Rightarrow> bool"
    and limit :: nat and dlen :: nat
  assumes absorbed_reset: "absorbed (reset c) []"
    and absorbed_update: "absorbed c a \<Longrightarrow> length a + length b < limit \<Longrightarrow> absorbed (update c b) (a @ b)"
    and final_hash: "absorbed c a \<Longrightarrow> fst (final c) = hash a"
    and length_hash: "length (hash a) = dlen"
begin

lemma absorbed_reset_update:
  "length a < limit \<Longrightarrow> absorbed (update (reset c) a) a"
  using absorbed_update [OF absorbed_reset, of a] by simp

lemma final_update:
  "absorbed c a \<Longrightarrow> length a + length b < limit \<Longrightarrow> fst (final (update c b)) = hash (a @ b)"
  by (rule final_hash) (rule absorbed_update)

lemma digest1: "length a < limit \<Longrightarrow> fst (final (update (reset c) a)) = hash a"
  using final_update [OF absorbed_reset, of a] by simp

lemma digest2:
  "length a + length b < limit \<Longrightarrow> fst (final (update (update (reset c) a) b)) = hash (a @ b)"
  by (rule final_update) (simp_all add: absorbed_reset_update)

lemma digest3:
  assumes "length a + length b + length d < limit"
  shows "fst (final (update (update (update (reset c) a) b) d)) = hash (a @ b @ d)"
proof -
  have "absorbed (update (update (reset c) a) b) (a @ b)"
    using assms by (intro absorbed_update absorbed_reset_update) simp_all
  from final_update [OF this] assms show ?thesis by simp
qed

lemma digest_pieces:
  assumes "length (concat pieces) < limit"
  shows "fst (final (foldl update (reset c) pieces)) = hash (concat pieces)"
proof -
  have "absorbed d a \<Longrightarrow> length a + length (concat pieces) < limit \<Longrightarrow>
      absorbed (foldl update d pieces) (a @ concat pieces)" for d a
  proof (induction pieces arbitrary: d a)
    case (Cons p ps)
    then show ?case using absorbed_update [of d a p] Cons.IH [of "update d p" "a @ p"] by simp
  qed simp
  from this [OF absorbed_reset] assms show ?thesis by (simp add: final_hash)
qed

end

definition md5_limit :: nat where
  "md5_limit = 2 ^ 29 - 128"

interpretation md5d: stream_digest fr_md5_local_ctx_reset fr_md5_local_update fr_md5_local_final
  md5_hash "\<lambda>ctx a. md5_absorbed ctx a \<and> length a < md5_limit" md5_limit 16
  by unfold_locales
    (auto simp: md5_limit_def md5_absorbed_reset fr_md5_local_final_hash intro: md5_absorbed_update)

lemma fr_md5_calc_hash: "length a < md5_limit \<Longrightarrow> fr_md5_calc a = md5_hash a"
  by (simp add: fr_md5_calc_def fr_md5_local_ctx_alloc_def md5d.digest1)

subsection \<open>HMAC is the RFC 2104 construction\<close>

lemma hmac_key_pad:
  "length key \<le> 64 \<Longrightarrow>
   take 64 (patch (replicate 65 0) 0 key) = key @ replicate (64 - length key) 0"
  by (simp add: patch_def min_def)

lemma fr_hmac_md5_short:
  assumes "length key \<le> 64" and "length data + 64 < md5_limit"
  shows "fr_hmac_md5 data key = hmac_md5_spec data key"
proof -
  let ?k = "key @ replicate (64 - length key) 0"
  have len: "length (map f ?k) = 64" for f :: "byte \<Rightarrow> byte" using assms by simp
  have inner: "fst (fr_md5_local_final (fr_md5_local_update (fr_md5_local_update
      (fr_md5_local_ctx_reset c) (map f ?k)) data)) = md5_hash (map f ?k @ data)" for f c
    using assms by (intro md5d.digest2) simp
  have outer: "fst (fr_md5_local_final (fr_md5_local_update (fr_md5_local_update
      (fr_md5_local_ctx_reset c) (map f ?k)) (md5_hash x))) = md5_hash (map f ?k @ md5_hash x)" for f c x
    using assms by (intro md5d.digest2) (simp add: md5_limit_def)
  show ?thesis
    using assms(1) inner outer
    unfolding fr_hmac_md5_def hmac_md5_spec_def fr_md5_local_ctx_alloc_def
    by (simp add: hmac_key_pad Let_def split_beta del: map_append)
qed

lemma fr_hmac_md5_long_key:
  assumes "64 < length key" and "length key < md5_limit"
  shows "fr_hmac_md5 data key = fr_hmac_md5 data (md5_hash key)"
  using assms md5d.digest1 [of key]
  unfolding fr_hmac_md5_def fr_md5_local_ctx_alloc_def
  by (simp add: Let_def split_beta fr_md5_local_ctx_reset_def)

lemma hmac_md5_spec_long_key:
  "64 < length key \<Longrightarrow> hmac_md5_spec data key = hmac_md5_spec data (md5_hash key)"
  by (simp add: hmac_md5_spec_def Let_def)

lemma fr_hmac_md5_eq:
  assumes "length key < md5_limit" and "length data + 64 < md5_limit"
  shows "fr_hmac_md5 data key = hmac_md5_spec data key"
proof (cases "64 < length key")
  case True
  with assms show ?thesis
    by (simp add: fr_hmac_md5_long_key hmac_md5_spec_long_key fr_hmac_md5_short)
next
  case False
  with assms show ?thesis by (simp add: fr_hmac_md5_short)
qed

lemma length_fr_md5_local_final [simp]: "length (fst (fr_md5_local_final ctx)) = 16"
  by (simp add: fr_md5_local_final_def Let_def)

lemma length_fr_hmac_md5 [simp]: "length (fr_hmac_md5 data key) = 16"
  by (simp add: fr_hmac_md5_def Let_def split_beta)


section \<open>Properties\<close>

text \<open>(C11) The unrolled transform of the code is the sixty-four operations of RFC 1321: its four
  auxiliary functions, word order, shift amounts and constants.\<close>

theorem md5_transform_rfc1321:
  "fr_md5_local_transform state block = rfc_transform state block"
  by (rule fr_md5_local_transform_rfc)

text \<open>(C12) A context that is reset, fed any pieces and finalised yields the RFC 1321 digest of
  their concatenation, however the bytes are split, as long as they are fewer than \<open>md5_limit\<close>
  (512 MB less two blocks).\<close>

theorem md5_streaming_rfc1321:
  "length (concat pieces) < md5_limit \<Longrightarrow>
   fst (fr_md5_local_final (foldl fr_md5_local_update (fr_md5_local_ctx_reset ctx) pieces)) =
   md5_hash (concat pieces)"
  by (rule md5d.digest_pieces)

theorem md5_streaming_rfc1321_witness:
  "fst (fr_md5_local_final (foldl fr_md5_local_update (fr_md5_local_ctx_reset md5_ctx_zero)
     [replicate 63 1, [2, 3], [], replicate 130 4])) =
   md5_hash (replicate 63 1 @ [2, 3] @ replicate 130 4)"
  using md5_streaming_rfc1321 [of "[replicate 63 1, [2, 3], [], replicate 130 4]" md5_ctx_zero]
  by (simp add: md5_limit_def)

text \<open>(C13) \<open>fr_hmac_md5\<close> is the HMAC of RFC 2104 over that digest, for keys of any length
  below the limit: longer than a block they are hashed first.\<close>

theorem hmac_md5_rfc2104:
  assumes "length key < md5_limit" "length data + 64 < md5_limit"
  shows "fr_hmac_md5 data key = hmac_md5_spec data key"
  by (rule fr_hmac_md5_eq [OF assms])

theorem hmac_md5_rfc2104_witness:
  "fr_hmac_md5 [1, 2, 3] (replicate 70 7) = hmac_md5_spec [1, 2, 3] (replicate 70 7)"
  by (rule hmac_md5_rfc2104) (simp_all add: md5_limit_def)

text \<open>The carry into the upper half of the bit count is lost when the lower half wraps to a
  value that is still at least the number of bytes added: the test compares the bit count
  with a byte count. A context that has absorbed 512 MB less one byte and takes 64 more bytes
  counts 504 bits.\<close>

theorem md5_count_carry_lost:
  "md5_count0 ctx = - 8 \<Longrightarrow> length data = 64 \<Longrightarrow>
   md5_count1 (fr_md5_local_update ctx data) = md5_count1 ctx \<and>
   md5_count0 (fr_md5_local_update ctx data) = 504"
  by (simp add: fr_md5_local_update_def Let_def split_beta)

theorem md5_count_carry_lost_witness:
  "md5_count1 (fr_md5_local_update (md5_ctx_zero\<lparr>md5_count0 := - 8\<rparr>) (replicate 64 1)) = 0"
  using md5_count_carry_lost [of "md5_ctx_zero\<lparr>md5_count0 := - 8\<rparr>" "replicate 64 1"]
  by (simp add: md5_ctx_zero_def)

end
