(* ===== verification/Radius_Packet.thy ===== *)
theory Radius_Packet
  imports Md5
begin

text \<open>
  Validation, signing and verification of RADIUS packets, from
  \<^verbatim>\<open>src/protocols/radius/base.c\<close>: \<open>fr_radius_ok\<close>, \<open>fr_radius_sign\<close>,
  \<open>fr_radius_verify\<close>, and the constant-time comparison \<open>fr_digest_cmp\<close> of
  \<^verbatim>\<open>src/lib/util/misc.c\<close>. Pointers into the packet are offsets; reads and writes
  are checked against the buffer (\<open>None\<close> is an access outside it).

  The lemmas show that \<open>fr_radius_ok\<close> accepts exactly the packets whose attributes tile
  the packet, that signing and verifying an accepted packet stays inside the buffer,
  that a signed packet verifies, and that verification never changes the packet.
\<close>

subsection \<open>Packet codes and failures\<close>

datatype decode_fail =
    DECODE_FAIL_NONE | DECODE_FAIL_MIN_LENGTH_PACKET | DECODE_FAIL_MIN_LENGTH_FIELD
  | DECODE_FAIL_MIN_LENGTH_MISMATCH | DECODE_FAIL_HEADER_OVERFLOW
  | DECODE_FAIL_UNKNOWN_PACKET_CODE | DECODE_FAIL_INVALID_ATTRIBUTE
  | DECODE_FAIL_ATTRIBUTE_TOO_SHORT | DECODE_FAIL_ATTRIBUTE_OVERFLOW
  | DECODE_FAIL_MA_INVALID_LENGTH | DECODE_FAIL_ATTRIBUTE_UNDERFLOW
  | DECODE_FAIL_TOO_MANY_ATTRIBUTES | DECODE_FAIL_MA_MISSING
  | DECODE_FAIL_MA_INVALID | DECODE_FAIL_UNKNOWN | DECODE_FAIL_MAX

abbreviation FR_RADIUS_CODE_ACCESS_REQUEST :: byte where "FR_RADIUS_CODE_ACCESS_REQUEST \<equiv> 1"
abbreviation FR_RADIUS_CODE_ACCESS_ACCEPT :: byte where "FR_RADIUS_CODE_ACCESS_ACCEPT \<equiv> 2"
abbreviation FR_RADIUS_CODE_ACCESS_REJECT :: byte where "FR_RADIUS_CODE_ACCESS_REJECT \<equiv> 3"
abbreviation FR_RADIUS_CODE_ACCOUNTING_REQUEST :: byte where "FR_RADIUS_CODE_ACCOUNTING_REQUEST \<equiv> 4"
abbreviation FR_RADIUS_CODE_ACCOUNTING_RESPONSE :: byte where "FR_RADIUS_CODE_ACCOUNTING_RESPONSE \<equiv> 5"
abbreviation FR_RADIUS_CODE_ACCESS_CHALLENGE :: byte where "FR_RADIUS_CODE_ACCESS_CHALLENGE \<equiv> 11"
abbreviation FR_RADIUS_CODE_STATUS_SERVER :: byte where "FR_RADIUS_CODE_STATUS_SERVER \<equiv> 12"
abbreviation FR_RADIUS_CODE_DISCONNECT_REQUEST :: byte where "FR_RADIUS_CODE_DISCONNECT_REQUEST \<equiv> 40"
abbreviation FR_RADIUS_CODE_DISCONNECT_ACK :: byte where "FR_RADIUS_CODE_DISCONNECT_ACK \<equiv> 41"
abbreviation FR_RADIUS_CODE_DISCONNECT_NAK :: byte where "FR_RADIUS_CODE_DISCONNECT_NAK \<equiv> 42"
abbreviation FR_RADIUS_CODE_COA_REQUEST :: byte where "FR_RADIUS_CODE_COA_REQUEST \<equiv> 43"
abbreviation FR_RADIUS_CODE_COA_ACK :: byte where "FR_RADIUS_CODE_COA_ACK \<equiv> 44"
abbreviation FR_RADIUS_CODE_COA_NAK :: byte where "FR_RADIUS_CODE_COA_NAK \<equiv> 45"
abbreviation FR_RADIUS_CODE_PROTOCOL_ERROR :: byte where "FR_RADIUS_CODE_PROTOCOL_ERROR \<equiv> 52"
abbreviation FR_RADIUS_CODE_MAX :: byte where "FR_RADIUS_CODE_MAX \<equiv> 53"

abbreviation FR_EAP_MESSAGE :: byte where "FR_EAP_MESSAGE \<equiv> 79"
abbreviation FR_MESSAGE_AUTHENTICATOR :: byte where "FR_MESSAGE_AUTHENTICATOR \<equiv> 80"

abbreviation RADIUS_HEADER_LENGTH :: nat where "RADIUS_HEADER_LENGTH \<equiv> 20"
abbreviation RADIUS_AUTH_VECTOR_LENGTH :: nat where "RADIUS_AUTH_VECTOR_LENGTH \<equiv> 16"

subsection \<open>fr_radius_ok\<close>

text \<open>The loop over the attributes: an error, or the final pointer, the two flags and
  the number of attributes.\<close>

function fr_radius_ok_attrs ::
  "bytes \<Rightarrow> nat \<Rightarrow> nat \<Rightarrow> bool \<Rightarrow> bool \<Rightarrow> u32 \<Rightarrow> (decode_fail + nat \<times> bool \<times> bool \<times> u32) option" where
  "fr_radius_ok_attrs packet attr end' require_ma seen_ma num_attributes =
     (if attr < end' then
        if end' - attr < 2 then Some (Inl DECODE_FAIL_HEADER_OVERFLOW)
        else do {
          t \<leftarrow> rd8 packet attr;
          if t = 0 then Some (Inl DECODE_FAIL_INVALID_ATTRIBUTE)
          else do {
            l \<leftarrow> rd8 packet (attr + 1);
            if unat l < 2 then Some (Inl DECODE_FAIL_ATTRIBUTE_TOO_SHORT)
            else if end' < attr + unat l then Some (Inl DECODE_FAIL_ATTRIBUTE_OVERFLOW)
            else if t = FR_EAP_MESSAGE then
              fr_radius_ok_attrs packet (attr + unat l) end' True seen_ma (num_attributes + 1)
            else if t = FR_MESSAGE_AUTHENTICATOR then
              if unat l \<noteq> 2 + RADIUS_AUTH_VECTOR_LENGTH then Some (Inl DECODE_FAIL_MA_INVALID_LENGTH)
              else fr_radius_ok_attrs packet (attr + unat l) end' require_ma True (num_attributes + 1)
            else fr_radius_ok_attrs packet (attr + unat l) end' require_ma seen_ma (num_attributes + 1)
          }
        }
      else Some (Inr (attr, require_ma, seen_ma, num_attributes)))"
  by pat_completeness auto
termination
  by (relation "measure (\<lambda>(p, attr, end', _). end' - attr)") auto

declare fr_radius_ok_attrs.simps [simp del]

text \<open>The checks after the loop.\<close>

definition fr_radius_ok_counts :: "nat \<Rightarrow> nat \<Rightarrow> bool \<Rightarrow> bool \<Rightarrow> u32 \<Rightarrow> u32 \<Rightarrow> decode_fail" where
  "fr_radius_ok_counts attr end' require_ma seen_ma num_attributes max_attributes =
     (if attr \<noteq> end' then DECODE_FAIL_ATTRIBUTE_UNDERFLOW
      else if 0 < max_attributes \<and> max_attributes < num_attributes then DECODE_FAIL_TOO_MANY_ATTRIBUTES
      else if require_ma \<and> \<not> seen_ma then DECODE_FAIL_MA_MISSING
      else DECODE_FAIL_NONE)"

text \<open>The failure written to \<open>*reason\<close> (the function returns whether it is
  \<open>DECODE_FAIL_NONE\<close>) and the value left in \<open>*packet_len_p\<close>.\<close>

definition fr_radius_ok :: "bytes \<Rightarrow> nat \<Rightarrow> u32 \<Rightarrow> bool \<Rightarrow> (decode_fail \<times> nat) option" where
  "fr_radius_ok packet packet_len max_attributes require_ma =
     (if packet_len < RADIUS_HEADER_LENGTH then Some (DECODE_FAIL_MIN_LENGTH_PACKET, packet_len)
      else do {
        totallen \<leftarrow> rd_nbo16 packet 2;
        code \<leftarrow> rd8 packet 0;
        if code = 0 \<or> FR_RADIUS_CODE_MAX \<le> code then Some (DECODE_FAIL_UNKNOWN_PACKET_CODE, packet_len)
        else do {
          let require_ma = (if code = FR_RADIUS_CODE_STATUS_SERVER then True else require_ma);
          if totallen < RADIUS_HEADER_LENGTH then Some (DECODE_FAIL_MIN_LENGTH_FIELD, packet_len)
          else if packet_len < totallen then Some (DECODE_FAIL_MIN_LENGTH_MISMATCH, packet_len)
          else do {
            let packet_len = (if totallen < packet_len then totallen else packet_len);
            r \<leftarrow> fr_radius_ok_attrs packet RADIUS_HEADER_LENGTH packet_len require_ma False 0;
            case r of
              Inl failure \<Rightarrow> Some (failure, packet_len)
            | Inr (attr, require_ma, seen_ma, num_attributes) \<Rightarrow>
                Some (fr_radius_ok_counts attr packet_len require_ma seen_ma num_attributes max_attributes,
                      packet_len)
          }
        }
      })"

subsection \<open>Finding Message-Authenticator\<close>

datatype ma_search = MA_invalid nat | MA_too_small | MA_at nat | MA_none

text \<open>The search loop, the same in \<open>fr_radius_sign\<close> and \<open>fr_radius_verify\<close>.\<close>

function find_ma :: "bytes \<Rightarrow> nat \<Rightarrow> nat \<Rightarrow> ma_search option" where
  "find_ma packet msg end' =
     (if msg < end' then
        if end' - msg < 2 then Some (MA_invalid msg)
        else do {
          t \<leftarrow> rd8 packet msg;
          l \<leftarrow> rd8 packet (msg + 1);
          if t \<noteq> FR_MESSAGE_AUTHENTICATOR then
            if unat l < 2 then Some (MA_invalid msg)
            else if end' < msg + unat l then Some (MA_invalid msg)
            else find_ma packet (msg + unat l) end'
          else if unat l < 18 then Some MA_too_small
          else Some (MA_at msg)
        }
      else Some MA_none)"
  by pat_completeness auto
termination
  by (relation "measure (\<lambda>(p, msg, end'). end' - msg)") auto

declare find_ma.simps [simp del]

subsection \<open>fr_radius_sign\<close>

definition zero_vector :: bytes where
  "zero_vector = replicate RADIUS_AUTH_VECTOR_LENGTH 0"

text \<open>The \<open>switch\<close> before the HMAC: the packet with its vector field prepared, or
  \<open>Some None\<close> for the jumps to \<open>need_original\<close> and \<open>bad_packet\<close>.\<close>

definition sign_ma_vector :: "bytes \<Rightarrow> bytes option \<Rightarrow> bytes option option" where
  "sign_ma_vector packet original = do {
     code \<leftarrow> rd8 packet 0;
     let clear = do { p \<leftarrow> wr_mem packet 4 zero_vector; Some (Some p) };
     let do_ack = (case original of
                     None \<Rightarrow> Some None
                   | Some orig \<Rightarrow> do {
                       v \<leftarrow> rd_mem orig 4 RADIUS_AUTH_VECTOR_LENGTH;
                       p \<leftarrow> wr_mem packet 4 v;
                       Some (Some p) });
     if code \<in> {FR_RADIUS_CODE_ACCOUNTING_RESPONSE, FR_RADIUS_CODE_DISCONNECT_ACK,
                FR_RADIUS_CODE_DISCONNECT_NAK, FR_RADIUS_CODE_COA_ACK, FR_RADIUS_CODE_COA_NAK} then
       (case original of
          None \<Rightarrow> Some None
        | Some orig \<Rightarrow> do {
            ocode \<leftarrow> rd8 orig 0;
            if ocode = FR_RADIUS_CODE_STATUS_SERVER then do_ack else clear })
     else if code \<in> {FR_RADIUS_CODE_ACCOUNTING_REQUEST, FR_RADIUS_CODE_DISCONNECT_REQUEST,
                     FR_RADIUS_CODE_COA_REQUEST} then clear
     else if code \<in> {FR_RADIUS_CODE_ACCESS_ACCEPT, FR_RADIUS_CODE_ACCESS_REJECT,
                     FR_RADIUS_CODE_ACCESS_CHALLENGE} then do_ack
     else if code \<in> {FR_RADIUS_CODE_ACCESS_REQUEST, FR_RADIUS_CODE_STATUS_SERVER} then
       Some (Some packet)
     else Some None }"

text \<open>The second \<open>switch\<close> and the MD5 over packet and secret.\<close>

definition sign_authenticator :: "bytes \<Rightarrow> nat \<Rightarrow> bytes option \<Rightarrow> bytes \<Rightarrow> (int \<times> bytes) option" where
  "sign_authenticator packet packet_len original secret = do {
     code \<leftarrow> rd8 packet 0;
     let digest = (\<lambda>p. do {
           data \<leftarrow> rd_mem p 0 packet_len;
           let md5_ctx = fr_md5_local_ctx_alloc;
           let md5_ctx = fr_md5_local_update md5_ctx data;
           let md5_ctx = fr_md5_local_update md5_ctx secret;
           p \<leftarrow> wr_mem p 4 (fst (fr_md5_local_final md5_ctx));
           Some (0, p) });
     if code \<in> {FR_RADIUS_CODE_ACCOUNTING_REQUEST, FR_RADIUS_CODE_DISCONNECT_REQUEST,
                FR_RADIUS_CODE_COA_REQUEST} then
       do { p \<leftarrow> wr_mem packet 4 zero_vector; digest p }
     else if code \<in> {FR_RADIUS_CODE_ACCESS_ACCEPT, FR_RADIUS_CODE_ACCESS_REJECT,
                     FR_RADIUS_CODE_ACCESS_CHALLENGE, FR_RADIUS_CODE_ACCOUNTING_RESPONSE,
                     FR_RADIUS_CODE_DISCONNECT_ACK, FR_RADIUS_CODE_DISCONNECT_NAK,
                     FR_RADIUS_CODE_COA_ACK, FR_RADIUS_CODE_COA_NAK, FR_RADIUS_CODE_PROTOCOL_ERROR} then
       (case original of
          None \<Rightarrow> Some (-1, packet)
        | Some orig \<Rightarrow> do {
            v \<leftarrow> rd_mem orig 4 RADIUS_AUTH_VECTOR_LENGTH;
            p \<leftarrow> wr_mem packet 4 v;
            digest p })
     else if code \<in> {FR_RADIUS_CODE_ACCESS_REQUEST, FR_RADIUS_CODE_STATUS_SERVER} then Some (0, packet)
     else Some (-1, packet) }"

text \<open>Return code (0 or -1) and the packet.\<close>

definition fr_radius_sign :: "bytes \<Rightarrow> bytes option \<Rightarrow> bytes \<Rightarrow> (int \<times> bytes) option" where
  "fr_radius_sign packet original secret = do {
     packet_len \<leftarrow> rd_nbo16 packet 2;
     if 65535 < length secret then Some (-1, packet)
     else if packet_len < RADIUS_HEADER_LENGTH then Some (-1, packet)
     else do {
       m \<leftarrow> find_ma packet RADIUS_HEADER_LENGTH packet_len;
       case m of
         MA_invalid _ \<Rightarrow> Some (-1, packet)
       | MA_too_small \<Rightarrow> Some (-1, packet)
       | MA_none \<Rightarrow> sign_authenticator packet packet_len original secret
       | MA_at msg \<Rightarrow> do {
           v \<leftarrow> sign_ma_vector packet original;
           case v of
             None \<Rightarrow> Some (-1, packet)
           | Some packet \<Rightarrow> do {
               packet \<leftarrow> wr_mem packet (msg + 2) zero_vector;
               data \<leftarrow> rd_mem packet 0 packet_len;
               packet \<leftarrow> wr_mem packet (msg + 2) (fr_hmac_md5 data secret);
               sign_authenticator packet packet_len original secret } } } }"

subsection \<open>fr_radius_verify\<close>

definition fr_digest_cmp :: "bytes \<Rightarrow> bytes \<Rightarrow> byte" where
  "fr_digest_cmp a b = foldl (OR) 0 (map2 (XOR) a b)"

definition fr_radius_verify ::
  "bytes \<Rightarrow> bytes option \<Rightarrow> bytes \<Rightarrow> bool \<Rightarrow> (int \<times> bytes) option" where
  "fr_radius_verify packet original secret require_ma = do {
     packet_len \<leftarrow> rd_nbo16 packet 2;
     if packet_len < RADIUS_HEADER_LENGTH then Some (-1, packet)
     else do {
       request_authenticator \<leftarrow> rd_mem packet 4 RADIUS_AUTH_VECTOR_LENGTH;
       m \<leftarrow> find_ma packet RADIUS_HEADER_LENGTH packet_len;
       case m of
         MA_invalid _ \<Rightarrow> Some (-1, packet)
       | MA_too_small \<Rightarrow> Some (-1, packet)
       | _ \<Rightarrow> do {
           found \<leftarrow> (case m of
                       MA_at msg \<Rightarrow> do {
                         message_authenticator \<leftarrow> rd_mem packet (msg + 2) RADIUS_AUTH_VECTOR_LENGTH;
                         Some (Some (msg, message_authenticator)) }
                     | _ \<Rightarrow> Some None);
           code \<leftarrow> rd8 packet 0;
           if code = FR_RADIUS_CODE_ACCESS_REQUEST \<and> require_ma \<and> found = None then Some (-1, packet)
           else do {
             (rcode, packet) \<leftarrow> fr_radius_sign packet original secret;
             if rcode < 0 then Some (-1, packet)
             else do {
               bad_ma \<leftarrow> (case found of
                            None \<Rightarrow> Some False
                          | Some (msg, message_authenticator) \<Rightarrow> do {
                              computed \<leftarrow> rd_mem packet (msg + 2) RADIUS_AUTH_VECTOR_LENGTH;
                              Some (fr_digest_cmp message_authenticator computed \<noteq> 0) });
               if bad_ma then
                 (case found of
                    None \<Rightarrow> Some (-1, packet)
                  | Some (msg, message_authenticator) \<Rightarrow> do {
                      packet \<leftarrow> wr_mem packet (msg + 2) message_authenticator;
                      packet \<leftarrow> wr_mem packet 4 request_authenticator;
                      Some (-1, packet) })
               else if code = FR_RADIUS_CODE_ACCESS_REQUEST \<or> code = FR_RADIUS_CODE_STATUS_SERVER then
                 Some (0, packet)
               else do {
                 computed \<leftarrow> rd_mem packet 4 RADIUS_AUTH_VECTOR_LENGTH;
                 if fr_digest_cmp request_authenticator computed \<noteq> 0 then do {
                   packet \<leftarrow> wr_mem packet 4 request_authenticator;
                   Some (-1, packet) }
                 else Some (0, packet) } } } } } }"

subsection \<open>Attribute lists\<close>

text \<open>What a well-formed packet carries: attributes as (type, value) pairs, each
  encoded as type, length and value.\<close>

type_synonym radius_attr = "byte \<times> bytes"

definition enc_attr :: "radius_attr \<Rightarrow> bytes" where
  "enc_attr a = fst a # (word_of_nat (length (snd a)) + 2) # snd a"

definition wf_attr :: "radius_attr \<Rightarrow> bool" where
  "wf_attr a \<longleftrightarrow> fst a \<noteq> 0 \<and> length (snd a) \<le> 253 \<and>
     (fst a = FR_MESSAGE_AUTHENTICATOR \<longrightarrow> length (snd a) = RADIUS_AUTH_VECTOR_LENGTH)"

abbreviation has_attr :: "byte \<Rightarrow> radius_attr list \<Rightarrow> bool" where
  "has_attr t as \<equiv> t \<in> fst ` set as"

lemma chunk_Cons2:
  assumes "attr + 2 \<le> end'" and "end' \<le> length packet"
  shows "chunk packet attr (end' - attr) =
    packet ! attr # packet ! (attr + 1) # chunk packet (attr + 2) (end' - (attr + 2))"
proof -
  have "drop attr packet = packet ! attr # packet ! (attr + 1) # drop (attr + 2) packet"
    using assms by (simp add: Cons_nth_drop_Suc Suc_eq_plus1 [symmetric] del: Suc_eq_plus1)
  moreover have "end' - attr = Suc (Suc (end' - (attr + 2)))" using assms by simp
  ultimately show ?thesis by (simp add: chunk_def)
qed

lemma chunk_append: "chunk p i (m + n) = chunk p i m @ chunk p (i + m) n"
  by (simp add: chunk_def take_add add.commute)

lemma chunk_split:
  "attr + l \<le> end' \<Longrightarrow> chunk packet attr (end' - attr) =
   chunk packet attr l @ chunk packet (attr + l) (end' - (attr + l))"
  using chunk_append [of packet attr l "end' - (attr + l)"] by simp

lemma unat_attr_len [simp]: "n \<le> 253 \<Longrightarrow> unat (word_of_nat n + 2 :: byte) = n + 2"
  by (simp add: unat_word_ariths unat_of_nat)

lemma unat_byte_sub2 [simp]: "unat (l :: byte) - 2 \<le> 253"
proof -
  have "unat l < 256" by simp
  then show ?thesis by linarith
qed

lemma fr_radius_ok_attrs_safe:
  "end' \<le> length packet \<Longrightarrow> fr_radius_ok_attrs packet attr end' r s n \<noteq> None"
proof (induction packet attr end' r s n rule: fr_radius_ok_attrs.induct)
  case (1 packet attr end' r s n)
  show ?case
    using 1 by (subst fr_radius_ok_attrs.simps) auto
qed

text \<open>One attribute at the front of the range.\<close>

lemma fr_radius_ok_attrs_step:
  assumes "attr + unat l \<le> end'" "end' \<le> length packet" "packet ! attr = t" "packet ! (attr + 1) = l"
    and "t \<noteq> 0" "2 \<le> unat l" "t = FR_MESSAGE_AUTHENTICATOR \<longrightarrow> unat l = 18"
  shows "fr_radius_ok_attrs packet attr end' r s n =
    fr_radius_ok_attrs packet (attr + unat l) end' (r \<or> t = FR_EAP_MESSAGE)
      (s \<or> t = FR_MESSAGE_AUTHENTICATOR) (n + 1)"
  using assms by (subst fr_radius_ok_attrs.simps) auto

lemma fr_radius_ok_attrs_sound:
  assumes "fr_radius_ok_attrs packet attr end' r s n = Some (Inr (a, r', s', n'))"
    and "attr \<le> end'" and "end' \<le> length packet"
  shows "a = end' \<and> (\<exists>as. chunk packet attr (end' - attr) = concat (map enc_attr as) \<and>
    list_all wf_attr as \<and> r' = (r \<or> has_attr FR_EAP_MESSAGE as) \<and>
    s' = (s \<or> has_attr FR_MESSAGE_AUTHENTICATOR as) \<and> n' = n + word_of_nat (length as))"
  using assms
proof (induction "end' - attr" arbitrary: attr r s n rule: less_induct)
  case less
  show ?case
  proof (cases "attr < end'")
    case False
    with less show ?thesis
      by (auto simp: fr_radius_ok_attrs.simps [of packet attr] chunk_def intro!: exI [of _ "[]"])
  next
    case True
    define t where "t = packet ! attr"
    define l where "l = packet ! (attr + 1)"
    from True less.prems have ok: "attr + 2 \<le> end'" "t \<noteq> 0" "2 \<le> unat l" "attr + unat l \<le> end'"
      "t = FR_MESSAGE_AUTHENTICATOR \<longrightarrow> unat l = 18"
      by (auto simp: fr_radius_ok_attrs.simps [of packet attr] t_def l_def split: if_splits)
    let ?r = "r \<or> t = FR_EAP_MESSAGE" and ?s = "s \<or> t = FR_MESSAGE_AUTHENTICATOR"
    have "fr_radius_ok_attrs packet (attr + unat l) end' ?r ?s (n + 1) = Some (Inr (a, r', s', n'))"
      using less.prems fr_radius_ok_attrs_step [of attr l end' packet t r s n] ok t_def l_def by simp
    from less.hyps [OF _ this] ok True less.prems
    have "a = end' \<and> (\<exists>as. chunk packet (attr + unat l) (end' - (attr + unat l)) = concat (map enc_attr as) \<and>
      list_all wf_attr as \<and> r' = (?r \<or> has_attr FR_EAP_MESSAGE as) \<and>
      s' = (?s \<or> has_attr FR_MESSAGE_AUTHENTICATOR as) \<and> n' = n + 1 + word_of_nat (length as))"
      by simp
    then obtain as where as: "a = end'"
      "chunk packet (attr + unat l) (end' - (attr + unat l)) = concat (map enc_attr as)"
      "list_all wf_attr as" "r' = (?r \<or> has_attr FR_EAP_MESSAGE as)"
      "s' = (?s \<or> has_attr FR_MESSAGE_AUTHENTICATOR as)" "n' = n + 1 + word_of_nat (length as)"
      by blast
    define v where "v = chunk packet (attr + 2) (unat l - 2)"
    have lv: "length v = unat l - 2" using ok less.prems by (simp add: v_def)
    have "chunk packet attr (attr + unat l - attr) = t # l # v"
      using chunk_Cons2 [of attr "attr + unat l" packet] ok less.prems by (simp add: t_def l_def v_def)
    then have "chunk packet attr (unat l) = enc_attr (t, v)"
      using ok lv by (simp add: enc_attr_def)
    then have "chunk packet attr (end' - attr) = concat (map enc_attr ((t, v) # as))"
      using chunk_split [OF ok(4), of packet] as by simp
    moreover have "wf_attr (t, v)" using ok lv by (auto simp: wf_attr_def)
    ultimately show ?thesis
      using as by (intro conjI exI [of _ "(t, v) # as"]) auto
  qed
qed

lemma length_enc_attr [simp]: "length (enc_attr a) = length (snd a) + 2"
  by (simp add: enc_attr_def)

text \<open>The first attribute of a tiled range.\<close>

lemma tile_Cons:
  assumes "chunk packet attr (end' - attr) = concat (map enc_attr ((t, v) # as))"
    and "list_all wf_attr ((t, v) # as)" and "attr \<le> end'" "end' \<le> length packet"
  shows "attr + (length v + 2) \<le> end'"
    and "packet ! attr = t" and "packet ! (attr + 1) = word_of_nat (length v) + 2"
    and "unat (packet ! (attr + 1)) = length v + 2"
    and "chunk packet (attr + (length v + 2)) (end' - (attr + (length v + 2))) = concat (map enc_attr as)"
proof -
  let ?l = "length v + 2"
  have wf: "length v \<le> 253" using assms(2) by (auto simp: wf_attr_def)
  have "length (concat (map enc_attr ((t, v) # as))) = end' - attr"
    by (metis assms(1,3,4) length_chunk le_add_diff_inverse)
  then show le: "attr + ?l \<le> end'" by simp
  have "chunk packet attr ?l @ chunk packet (attr + ?l) (end' - (attr + ?l))
      = enc_attr (t, v) @ concat (map enc_attr as)"
    using assms(1) chunk_split [OF le, of packet] by simp
  moreover have "length (chunk packet attr ?l) = length (enc_attr (t, v))"
    using assms le by simp
  ultimately have hd: "chunk packet attr ?l = enc_attr (t, v)"
    and "chunk packet (attr + ?l) (end' - (attr + ?l)) = concat (map enc_attr as)"
    by (simp_all add: append_eq_append_conv)
  then show "chunk packet (attr + ?l) (end' - (attr + ?l)) = concat (map enc_attr as)" by simp
  show "packet ! attr = t" "packet ! (attr + 1) = word_of_nat (length v) + 2"
    using arg_cong [OF hd, of "\<lambda>x. x ! 0"] arg_cong [OF hd, of "\<lambda>x. x ! 1"] le assms
    by (simp_all add: enc_attr_def)
  with wf show "unat (packet ! (attr + 1)) = length v + 2" by simp
qed

lemma fr_radius_ok_attrs_complete:
  assumes "chunk packet attr (end' - attr) = concat (map enc_attr as)" "list_all wf_attr as"
    and "attr \<le> end'" "end' \<le> length packet"
  shows "fr_radius_ok_attrs packet attr end' r s n =
    Some (Inr (end', r \<or> has_attr FR_EAP_MESSAGE as, s \<or> has_attr FR_MESSAGE_AUTHENTICATOR as,
               n + word_of_nat (length as)))"
  using assms
proof (induction as arbitrary: attr r s n)
  case Nil
  then have "attr = end'" by (auto simp: chunk_def)
  then show ?case by (simp add: fr_radius_ok_attrs.simps)
next
  case (Cons a as)
  obtain t v where a: "a = (t, v)" by fastforce
  note tile = tile_Cons [OF Cons.prems(1,2) [unfolded a] Cons.prems(3,4)]
  have wf: "t \<noteq> 0" "t = FR_MESSAGE_AUTHENTICATOR \<longrightarrow> length v = 16"
    using Cons.prems a by (auto simp: wf_attr_def)
  have "fr_radius_ok_attrs packet attr end' r s n =
      fr_radius_ok_attrs packet (attr + (length v + 2)) end' (r \<or> t = FR_EAP_MESSAGE)
        (s \<or> t = FR_MESSAGE_AUTHENTICATOR) (n + 1)"
    using fr_radius_ok_attrs_step [of attr "packet ! (attr + 1)" end' packet t r s n]
      tile wf Cons.prems(4) by simp
  also have "\<dots> = Some (Inr (end', (r \<or> t = FR_EAP_MESSAGE) \<or> has_attr FR_EAP_MESSAGE as,
      (s \<or> t = FR_MESSAGE_AUTHENTICATOR) \<or> has_attr FR_MESSAGE_AUTHENTICATOR as,
      n + 1 + word_of_nat (length as)))"
    using Cons.prems tile by (intro Cons.IH) simp_all
  finally show ?case using a by (auto simp: add.assoc)
qed

lemma length_attrs: "2 * length as \<le> length (concat (map enc_attr as))"
  by (induction as) simp_all

text \<open>The attribute lists an accepted packet may carry.\<close>

definition attrs_ok :: "byte \<Rightarrow> u32 \<Rightarrow> bool \<Rightarrow> radius_attr list \<Rightarrow> bool" where
  "attrs_ok code max_attributes require_ma as \<longleftrightarrow>
     list_all wf_attr as \<and> (max_attributes = 0 \<or> length as \<le> unat max_attributes) \<and>
     (require_ma \<or> code = FR_RADIUS_CODE_STATUS_SERVER \<or> has_attr FR_EAP_MESSAGE as \<longrightarrow>
      has_attr FR_MESSAGE_AUTHENTICATOR as)"

definition radius_wf :: "bytes \<Rightarrow> nat \<Rightarrow> u32 \<Rightarrow> bool \<Rightarrow> radius_attr list \<Rightarrow> bool" where
  "radius_wf packet packet_len max_attributes require_ma as \<longleftrightarrow>
     (let n = nbo16 (packet ! 2) (packet ! 3) in
      RADIUS_HEADER_LENGTH \<le> n \<and> n \<le> packet_len \<and> packet ! 0 \<noteq> 0 \<and> packet ! 0 < FR_RADIUS_CODE_MAX \<and>
      chunk packet RADIUS_HEADER_LENGTH (n - RADIUS_HEADER_LENGTH) = concat (map enc_attr as) \<and>
      attrs_ok (packet ! 0) max_attributes require_ma as)"

lemma num_attributes_le:
  assumes "2 * length as < 65536"
  shows "(0 < m \<and> m < (word_of_nat (length as) :: u32)) \<longleftrightarrow> \<not> (m = 0 \<or> length as \<le> unat m)"
proof -
  have "unat (word_of_nat (length as) :: u32) = length as" using assms by (simp add: unat_of_nat)
  then show ?thesis by (auto simp: word_less_nat_alt unat_gt_0)
qed

subsection \<open>fr_radius_ok accepts exactly the well-formed packets\<close>

text \<open>The header checks: a failure with the length unchanged, or the attribute loop over
  the length the header claims.\<close>

definition radius_header_ok :: "bytes \<Rightarrow> nat \<Rightarrow> bool" where
  "radius_header_ok packet packet_len \<longleftrightarrow>
     (let n = nbo16 (packet ! 2) (packet ! 3) in
      RADIUS_HEADER_LENGTH \<le> n \<and> n \<le> packet_len \<and> packet ! 0 \<noteq> 0 \<and> packet ! 0 < FR_RADIUS_CODE_MAX)"

lemma radius_header_reads:
  assumes "RADIUS_HEADER_LENGTH \<le> length packet"
  shows "rd_nbo16 packet 2 = Some (nbo16 (packet ! 2) (packet ! 3))" "rd8 packet 0 = Some (packet ! 0)"
proof -
  show "rd_nbo16 packet 2 = Some (nbo16 (packet ! 2) (packet ! 3))" using assms by simp
  show "rd8 packet 0 = Some (packet ! 0)" by (rule rd8_in) (use assms in linarith)
qed

lemma fr_radius_ok_bad_header:
  assumes "packet_len \<le> length packet" "RADIUS_HEADER_LENGTH \<le> packet_len" "\<not> radius_header_ok packet packet_len"
  shows "\<exists>f. f \<noteq> DECODE_FAIL_NONE \<and> fr_radius_ok packet packet_len m require_ma = Some (f, packet_len)"
  using assms radius_header_reads [of packet]
  by (auto simp: fr_radius_ok_def radius_header_ok_def Let_def not_le not_less)

lemma fr_radius_ok_good_header:
  assumes "packet_len \<le> length packet" "RADIUS_HEADER_LENGTH \<le> packet_len" "radius_header_ok packet packet_len"
  defines "n \<equiv> nbo16 (packet ! 2) (packet ! 3)"
  shows "fr_radius_ok packet packet_len m require_ma =
     do { r \<leftarrow> fr_radius_ok_attrs packet RADIUS_HEADER_LENGTH n
                 (if packet ! 0 = FR_RADIUS_CODE_STATUS_SERVER then True else require_ma) False 0;
          case r of
            Inl failure \<Rightarrow> Some (failure, n)
          | Inr (attr, require_ma, seen_ma, num_attributes) \<Rightarrow>
              Some (fr_radius_ok_counts attr n require_ma seen_ma num_attributes m, n) }"
proof -
  have h: "(if n < packet_len then n else packet_len) = n" "packet ! 0 \<noteq> 0"
    "\<not> FR_RADIUS_CODE_MAX \<le> packet ! 0" "\<not> n < RADIUS_HEADER_LENGTH" "\<not> packet_len < n"
    using assms(3) by (auto simp: radius_header_ok_def n_def Let_def)
  then show ?thesis
    using radius_header_reads [of packet] assms(1,2) by (simp add: fr_radius_ok_def n_def Let_def)
qed

lemma fr_radius_ok_attrs_fail:
  "fr_radius_ok_attrs packet attr end' r s n \<noteq> Some (Inl DECODE_FAIL_NONE)"
proof (induction "end' - attr" arbitrary: attr r s n rule: less_induct)
  case less
  show ?case
    using less by (subst fr_radius_ok_attrs.simps) (auto split: Option.bind_splits)
qed

lemma fr_radius_ok_safe:
  assumes "packet_len \<le> length packet"
  shows "fr_radius_ok packet packet_len m require_ma \<noteq> None"
proof (cases "RADIUS_HEADER_LENGTH \<le> packet_len \<and> radius_header_ok packet packet_len")
  case True
  then have "nbo16 (packet ! 2) (packet ! 3) \<le> length packet"
    using assms by (simp add: radius_header_ok_def Let_def)
  from fr_radius_ok_attrs_safe [OF this] obtain x where
    "fr_radius_ok_attrs packet RADIUS_HEADER_LENGTH (nbo16 (packet ! 2) (packet ! 3))
       (if packet ! 0 = FR_RADIUS_CODE_STATUS_SERVER then True else require_ma) False 0 = Some x"
    by fastforce
  with True assms show ?thesis
    by (subst fr_radius_ok_good_header) (auto split: sum.splits)
next
  case False
  show ?thesis
  proof (cases "RADIUS_HEADER_LENGTH \<le> packet_len")
    case True
    with False assms fr_radius_ok_bad_header [of packet_len packet m require_ma] show ?thesis by auto
  qed (simp add: fr_radius_ok_def)
qed

text \<open>An accepted walk is an attribute list.\<close>

lemma fr_radius_ok_walk_iff:
  assumes "end' \<le> length packet" "RADIUS_HEADER_LENGTH \<le> end'" "end' < 65536"
  shows "(do { x \<leftarrow> fr_radius_ok_attrs packet RADIUS_HEADER_LENGTH end' r False 0;
               case x of Inl f \<Rightarrow> Some (f, end')
               | Inr (a, r', s', k) \<Rightarrow> Some (fr_radius_ok_counts a end' r' s' k m, end') }) =
            Some (DECODE_FAIL_NONE, n) \<longleftrightarrow>
     n = end' \<and> (\<exists>as. chunk packet RADIUS_HEADER_LENGTH (end' - RADIUS_HEADER_LENGTH) = concat (map enc_attr as) \<and>
          list_all wf_attr as \<and> (m = 0 \<or> length as \<le> unat m) \<and>
          (r \<or> has_attr FR_EAP_MESSAGE as \<longrightarrow> has_attr FR_MESSAGE_AUTHENTICATOR as))"
    (is "?walk = _ \<longleftrightarrow> n = end' \<and> (\<exists>as. ?tile as \<and> _ \<and> _ \<and> _)")
proof -
  have walk: "?walk = Some (fr_radius_ok_counts end' end' (r \<or> has_attr FR_EAP_MESSAGE as)
      (has_attr FR_MESSAGE_AUTHENTICATOR as) (word_of_nat (length as)) m, end')"
    if "?tile as" "list_all wf_attr as" for as
    using fr_radius_ok_attrs_complete [OF that] assms by simp
  have cnt: "fr_radius_ok_counts end' end' r' s' (word_of_nat (length as)) m = DECODE_FAIL_NONE
      \<longleftrightarrow> (m = 0 \<or> length as \<le> unat m) \<and> (r' \<longrightarrow> s')" if "?tile as" for as r' s'
  proof -
    have "length (concat (map enc_attr as)) = end' - RADIUS_HEADER_LENGTH"
      using assms that by (metis length_chunk le_add_diff_inverse)
    then have "2 * length as < 65536" using length_attrs [of as] assms by linarith
    from num_attributes_le [OF this, of m] show ?thesis
      by (auto simp: fr_radius_ok_counts_def)
  qed
  have ex: "\<exists>as. ?tile as \<and> list_all wf_attr as" if w: "?walk = Some (DECODE_FAIL_NONE, n)"
  proof -
    obtain x where x: "fr_radius_ok_attrs packet RADIUS_HEADER_LENGTH end' r False 0 = Some x"
      using fr_radius_ok_attrs_safe [of end' packet] assms by fastforce
    then have "x \<noteq> Inl DECODE_FAIL_NONE"
      using fr_radius_ok_attrs_fail [of packet RADIUS_HEADER_LENGTH end' r False 0] by auto
    with w x obtain y where "x = Inr y" by (cases x) auto
    with x fr_radius_ok_attrs_sound [of packet RADIUS_HEADER_LENGTH end'] assms
    show ?thesis by (cases y) blast
  qed
  show ?thesis
  proof
    assume w: "?walk = Some (DECODE_FAIL_NONE, n)"
    from ex [OF this] obtain as where as: "?tile as" "list_all wf_attr as" by blast
    with w walk [OF as] cnt [OF as(1)] show "n = end' \<and> (\<exists>as. ?tile as \<and> list_all wf_attr as \<and>
        (m = 0 \<or> length as \<le> unat m) \<and> (r \<or> has_attr FR_EAP_MESSAGE as \<longrightarrow> has_attr FR_MESSAGE_AUTHENTICATOR as))"
      by (intro conjI exI [of _ as]) simp_all
  next
    assume "n = end' \<and> (\<exists>as. ?tile as \<and> list_all wf_attr as \<and>
        (m = 0 \<or> length as \<le> unat m) \<and> (r \<or> has_attr FR_EAP_MESSAGE as \<longrightarrow> has_attr FR_MESSAGE_AUTHENTICATOR as))"
    then obtain as where as: "?tile as" "list_all wf_attr as" and n: "n = end'"
      and c: "m = 0 \<or> length as \<le> unat m" "r \<or> has_attr FR_EAP_MESSAGE as \<longrightarrow> has_attr FR_MESSAGE_AUTHENTICATOR as"
      by blast
    from walk [OF as] cnt [OF as(1)] n c show "?walk = Some (DECODE_FAIL_NONE, n)" by simp
  qed
qed

lemma fr_radius_ok_iff:
  assumes "packet_len \<le> length packet" "RADIUS_HEADER_LENGTH \<le> packet_len"
  shows "fr_radius_ok packet packet_len m require_ma = Some (DECODE_FAIL_NONE, n) \<longleftrightarrow>
    n = nbo16 (packet ! 2) (packet ! 3) \<and> (\<exists>as. radius_wf packet packet_len m require_ma as)"
proof (cases "radius_header_ok packet packet_len")
  case False
  with fr_radius_ok_bad_header [OF assms, of m require_ma] show ?thesis
    by (auto simp: radius_wf_def radius_header_ok_def Let_def)
next
  case True
  then have "nbo16 (packet ! 2) (packet ! 3) \<le> length packet" "RADIUS_HEADER_LENGTH \<le> nbo16 (packet ! 2) (packet ! 3)"
    using assms by (simp_all add: radius_header_ok_def Let_def)
  note walk = fr_radius_ok_walk_iff [OF this]
  show ?thesis
    unfolding fr_radius_ok_good_header [OF assms True] walk [OF nbo16_less]
    using True by (auto simp: radius_wf_def radius_header_ok_def attrs_ok_def Let_def)
qed

subsection \<open>Searching for Message-Authenticator\<close>

lemma find_ma_unfold:
  assumes "msg + 1 < length p" "msg + 2 \<le> e"
  shows "find_ma p msg e =
    (if p ! msg \<noteq> FR_MESSAGE_AUTHENTICATOR then
       if unat (p ! (msg + 1)) < 2 \<or> e < msg + unat (p ! (msg + 1)) then Some (MA_invalid msg)
       else find_ma p (msg + unat (p ! (msg + 1))) e
     else if unat (p ! (msg + 1)) < 18 then Some MA_too_small else Some (MA_at msg))"
proof -
  have "msg < e" "\<not> e - msg < 2" using assms by linarith+
  then show ?thesis using assms by (subst find_ma.simps) simp
qed

lemma find_ma_at_reads:
  "find_ma p msg e = Some (MA_at m) \<Longrightarrow> msg + 1 < length p \<and> msg + 2 \<le> e"
  by (subst (asm) find_ma.simps) (auto simp: mem_simps split: if_splits Option.bind_splits)

lemma find_ma_tile:
  assumes "chunk packet attr (end' - attr) = concat (map enc_attr as)" "list_all wf_attr as"
    and "attr \<le> end'" "end' \<le> length packet"
  shows "if has_attr FR_MESSAGE_AUTHENTICATOR as
         then \<exists>m. find_ma packet attr end' = Some (MA_at m) \<and> attr \<le> m \<and> m + 18 \<le> end'
         else find_ma packet attr end' = Some MA_none"
  using assms
proof (induction as arbitrary: attr)
  case Nil
  then have "attr = end'" by (auto simp: chunk_def)
  then show ?case by (simp add: find_ma.simps)
next
  case (Cons a as)
  obtain t v where a: "a = (t, v)" by fastforce
  note tile = tile_Cons [OF Cons.prems(1,2) [unfolded a] Cons.prems(3,4)]
  show ?case
  proof (cases "t = FR_MESSAGE_AUTHENTICATOR")
    case True
    with Cons.prems a have "length v = 16" by (auto simp: wf_attr_def)
    then show ?thesis
      using True a tile Cons.prems(4) by (subst find_ma_unfold) simp_all
  next
    case False
    have "find_ma packet attr end' = find_ma packet (attr + (length v + 2)) end'"
      using False tile Cons.prems(4) by (subst find_ma_unfold) (simp_all add: not_less)
    moreover have "if has_attr FR_MESSAGE_AUTHENTICATOR as
        then \<exists>m. find_ma packet (attr + (length v + 2)) end' = Some (MA_at m) \<and>
             attr + (length v + 2) \<le> m \<and> m + 18 \<le> end'
        else find_ma packet (attr + (length v + 2)) end' = Some MA_none"
      using Cons.prems tile by (intro Cons.IH) simp_all
    ultimately show ?thesis using False a by (auto split: if_splits)
  qed
qed

lemma find_ma_bounds: "find_ma p msg e = Some (MA_at m) \<Longrightarrow> msg \<le> m \<and> m + 2 \<le> e"
proof (induction "e - msg" arbitrary: msg rule: less_induct)
  case less
  from less.prems show ?case
    by (subst (asm) find_ma.simps)
      (auto split: if_splits Option.bind_splits simp: not_less dest: less.hyps [rotated])
qed

text \<open>The search reads the range up to the attribute it finds and nothing else.\<close>

lemma find_ma_cong:
  assumes "find_ma p msg e = Some (MA_at m)" "length q = length p"
    and "\<And>i. msg \<le> i \<Longrightarrow> i < m + 2 \<Longrightarrow> q ! i = p ! i"
  shows "find_ma q msg e = Some (MA_at m)"
  using assms
proof (induction "e - msg" arbitrary: msg rule: less_induct)
  case less
  note b = find_ma_bounds [OF less.prems(1)] and r = find_ma_at_reads [OF less.prems(1)]
  have same: "q ! msg = p ! msg" "q ! (msg + 1) = p ! (msg + 1)"
    using less.prems b by simp_all
  note unf = find_ma_unfold [of msg p e] find_ma_unfold [of msg q e]
  show ?case
  proof (cases "p ! msg = FR_MESSAGE_AUTHENTICATOR")
    case True
    then show ?thesis using less.prems(1,2) same r unf by simp
  next
    case False
    let ?l = "unat (p ! (msg + 1))"
    from False less.prems(1) r unf(1) have st: "find_ma p (msg + ?l) e = Some (MA_at m)" "2 \<le> ?l" "msg + ?l \<le> e"
      by (auto split: if_splits)
    then have "find_ma q (msg + ?l) e = Some (MA_at m)"
      using less.prems(2,3) r by (intro less.hyps) auto
    then show ?thesis using False less.prems(2) same r st unf by simp
  qed
qed

subsection \<open>Signing as buffer updates\<close>

definition radius_digest :: "bytes \<Rightarrow> bytes \<Rightarrow> bytes" where
  "radius_digest data secret =
     fst (fr_md5_local_final (fr_md5_local_update (fr_md5_local_update fr_md5_local_ctx_alloc data) secret))"

definition ma_vector :: "byte \<Rightarrow> bytes \<Rightarrow> bytes option \<Rightarrow> bytes option" where
  "ma_vector code v original =
     (if code \<in> {5, 41, 42, 44, 45} then
        map_option (\<lambda>orig. if orig ! 0 = FR_RADIUS_CODE_STATUS_SERVER then chunk orig 4 16 else zero_vector) original
      else if code \<in> {4, 40, 43} then Some zero_vector
      else if code \<in> {2, 3, 11} then map_option (\<lambda>orig. chunk orig 4 16) original
      else if code \<in> {1, 12} then Some v
      else None)"

definition auth_vector :: "byte \<Rightarrow> bytes option \<Rightarrow> bytes option option" where
  "auth_vector code original =
     (if code \<in> {4, 40, 43} then Some (Some zero_vector)
      else if code \<in> {2, 3, 11, 5, 41, 42, 44, 45, 52} then
        map_option (\<lambda>orig. Some (chunk orig 4 16)) original
      else if code \<in> {1, 12} then Some None
      else None)"

definition sign_finish :: "bytes \<Rightarrow> nat \<Rightarrow> bytes option \<Rightarrow> bytes \<Rightarrow> int \<times> bytes" where
  "sign_finish p n original secret =
     (case auth_vector (p ! 0) original of
        None \<Rightarrow> (-1, p)
      | Some None \<Rightarrow> (0, p)
      | Some (Some v) \<Rightarrow> (0, patch p 4 (radius_digest (take n (patch p 4 v)) secret)))"

definition sign_hmac :: "bytes \<Rightarrow> nat \<Rightarrow> nat \<Rightarrow> bytes \<Rightarrow> bytes \<Rightarrow> bytes" where
  "sign_hmac p n m v secret =
     (let p2 = patch (patch p 4 v) (m + 2) zero_vector
      in patch p2 (m + 2) (fr_hmac_md5 (take n p2) secret))"

definition orig_ok :: "bytes option \<Rightarrow> bool" where
  "orig_ok original \<longleftrightarrow> (\<forall>orig. original = Some orig \<longrightarrow> RADIUS_HEADER_LENGTH \<le> length orig)"

lemma length_zero_vector [simp]: "length zero_vector = 16"
  by (simp add: zero_vector_def)

lemma length_radius_digest [simp]: "length (radius_digest data secret) = 16"
  by (simp add: radius_digest_def)

lemma rd8_0: "0 < length p \<Longrightarrow> rd8 p 0 = Some (p ! 0)"
  by (rule rd8_in)

lemma sign_ma_vector_eq:
  assumes "RADIUS_HEADER_LENGTH \<le> length packet" "orig_ok original"
  shows "sign_ma_vector packet original =
    Some (map_option (patch packet 4) (ma_vector (packet ! 0) (chunk packet 4 16) original))"
proof (cases original)
  case None
  then show ?thesis using assms(1) radius_header_reads [of packet]
    by (simp add: sign_ma_vector_def ma_vector_def Let_def)
next
  case (Some orig)
  then have "RADIUS_HEADER_LENGTH \<le> length orig" using assms(2) by (simp add: orig_ok_def)
  then show ?thesis using Some assms(1) radius_header_reads [of packet] radius_header_reads [of orig]
    by (simp add: sign_ma_vector_def ma_vector_def Let_def)
qed

lemma sign_authenticator_eq:
  assumes "RADIUS_HEADER_LENGTH \<le> length packet" "n \<le> length packet" "orig_ok original"
  shows "sign_authenticator packet n original secret = Some (sign_finish packet n original secret)"
proof (cases original)
  case None
  then show ?thesis using assms radius_header_reads [of packet]
    by (simp add: sign_authenticator_def sign_finish_def auth_vector_def radius_digest_def Let_def chunk_def)
next
  case (Some orig)
  then have "RADIUS_HEADER_LENGTH \<le> length orig" using assms(3) by (simp add: orig_ok_def)
  then show ?thesis using Some assms radius_header_reads [of packet]
    by (simp add: sign_authenticator_def sign_finish_def auth_vector_def radius_digest_def Let_def chunk_def)
qed

lemma length_ma_vector:
  "orig_ok original \<Longrightarrow> length v = 16 \<Longrightarrow> ma_vector code v original = Some w \<Longrightarrow> length w = 16"
  by (auto simp: ma_vector_def orig_ok_def split: if_splits)

lemma length_auth_vector:
  "orig_ok original \<Longrightarrow> auth_vector code original = Some (Some w) \<Longrightarrow> length w = 16"
  by (auto simp: auth_vector_def orig_ok_def split: if_splits)

text \<open>The whole of \<open>fr_radius_sign\<close>, by what the search finds.\<close>

lemma fr_radius_sign_none:
  assumes "RADIUS_HEADER_LENGTH \<le> length packet" "orig_ok original" "length secret \<le> 65535"
    and "n = nbo16 (packet ! 2) (packet ! 3)" "RADIUS_HEADER_LENGTH \<le> n" "n \<le> length packet"
    and "find_ma packet RADIUS_HEADER_LENGTH n = Some MA_none"
  shows "fr_radius_sign packet original secret = Some (sign_finish packet n original secret)"
  using assms radius_header_reads [of packet] sign_authenticator_eq [of packet n]
  by (simp add: fr_radius_sign_def)

lemma fr_radius_sign_at:
  assumes "RADIUS_HEADER_LENGTH \<le> length packet" "orig_ok original" "length secret \<le> 65535"
    and "n = nbo16 (packet ! 2) (packet ! 3)" "RADIUS_HEADER_LENGTH \<le> n" "n \<le> length packet"
    and "find_ma packet RADIUS_HEADER_LENGTH n = Some (MA_at m)" "m + 18 \<le> length packet"
  shows "fr_radius_sign packet original secret =
    Some (case ma_vector (packet ! 0) (chunk packet 4 16) original of
            None \<Rightarrow> (-1, packet)
          | Some v \<Rightarrow> sign_finish (sign_hmac packet n m v secret) n original secret)"
proof (cases "ma_vector (packet ! 0) (chunk packet 4 16) original")
  case None
  then show ?thesis
    using assms radius_header_reads [of packet] sign_ma_vector_eq [of packet original]
    by (simp add: fr_radius_sign_def)
next
  case (Some v)
  have "length v = 16" using length_ma_vector [OF assms(2) _ Some] assms(1) by simp
  then show ?thesis
    using Some assms radius_header_reads [of packet] sign_ma_vector_eq [of packet original]
      sign_authenticator_eq [of "sign_hmac packet n m v secret" n original secret]
    by (simp add: fr_radius_sign_def sign_hmac_def Let_def chunk_def)
qed

subsection \<open>Signing twice\<close>

lemma find_ma_cong_all:
  assumes "length q = length p" and "\<And>i. msg \<le> i \<Longrightarrow> i < length p \<Longrightarrow> q ! i = p ! i"
  shows "find_ma q msg e = find_ma p msg e"
  using assms(2)
proof (induction "e - msg" arbitrary: msg rule: less_induct)
  case less
  have rd: "rd8 q msg = rd8 p msg" "rd8 q (msg + 1) = rd8 p (msg + 1)"
    using less.prems assms(1) by (simp_all add: rd8_def)
  have step: "find_ma q (msg + l) e = find_ma p (msg + l) e" if "2 \<le> l" "msg < e" for l
    using less that by simp
  show ?case
    unfolding find_ma.simps [of q msg e] find_ma.simps [of p msg e] rd
    by (intro if_cong Option.bind_cong refl) (simp add: step)
qed

text \<open>Where a packet keeps its Message-Authenticator, if anywhere; the field is inside the buffer.\<close>

definition ma_field :: "bytes \<Rightarrow> nat \<Rightarrow> nat option \<Rightarrow> bool" where
  "ma_field p n mo \<longleftrightarrow>
     (case mo of
        None \<Rightarrow> find_ma p RADIUS_HEADER_LENGTH n = Some MA_none
      | Some m \<Rightarrow> find_ma p RADIUS_HEADER_LENGTH n = Some (MA_at m) \<and> m + 18 \<le> length p)"

text \<open>Two packets that agree outside the vector and the Message-Authenticator value.\<close>

definition same_outside :: "nat option \<Rightarrow> bytes \<Rightarrow> bytes \<Rightarrow> bool" where
  "same_outside mo p q \<longleftrightarrow> length q = length p \<and>
     (\<forall>i < length p. \<not> (4 \<le> i \<and> i < 20) \<longrightarrow>
        (\<forall>m. mo = Some m \<longrightarrow> \<not> (m + 2 \<le> i \<and> i < m + 18)) \<longrightarrow> q ! i = p ! i)"

lemma same_outside_nth:
  assumes "same_outside mo p q" "i < length p" "\<not> (4 \<le> i \<and> i < 20)"
    and "\<And>m. mo = Some m \<Longrightarrow> i < m + 2 \<or> m + 18 \<le> i"
  shows "q ! i = p ! i"
  using assms unfolding same_outside_def by (metis not_le)

lemma same_outside_length: "same_outside mo p q \<Longrightarrow> length q = length p"
  by (simp add: same_outside_def)

lemma ma_field_bounds: "ma_field p n (Some m) \<Longrightarrow> 20 \<le> m \<and> m + 18 \<le> length p"
  by (auto simp: ma_field_def dest: find_ma_bounds)

lemma ma_field_same:
  assumes "ma_field p n mo" "same_outside mo p q"
  shows "ma_field q n mo"
proof (cases mo)
  case None
  have "find_ma q RADIUS_HEADER_LENGTH n = find_ma p RADIUS_HEADER_LENGTH n"
    using None by (intro find_ma_cong_all same_outside_nth [OF assms(2)] same_outside_length [OF assms(2)]) simp_all
  with None assms show ?thesis by (simp add: ma_field_def)
next
  case (Some m)
  with assms have b: "find_ma p RADIUS_HEADER_LENGTH n = Some (MA_at m)" "20 \<le> m" "m + 18 \<le> length p"
    using ma_field_bounds [of p n m] by (simp_all add: ma_field_def)
  have "find_ma q RADIUS_HEADER_LENGTH n = Some (MA_at m)"
    using Some b by (intro find_ma_cong [OF b(1)] same_outside_nth [OF assms(2)] same_outside_length [OF assms(2)]) auto
  with Some b same_outside_length [OF assms(2)] show ?thesis by (simp add: ma_field_def)
qed

lemma same_outside_refl [simp]: "same_outside mo p p"
  by (simp add: same_outside_def)

lemma same_outside_trans: "same_outside mo p q \<Longrightarrow> same_outside mo q r \<Longrightarrow> same_outside mo p r"
  by (simp add: same_outside_def)

lemma same_outside_header:
  assumes "same_outside mo p q" "\<And>m. mo = Some m \<Longrightarrow> 20 \<le> m" "20 \<le> length p"
  shows "q ! 0 = p ! 0" "q ! 2 = p ! 2" "q ! 3 = p ! 3"
proof -
  have "q ! i = p ! i" if "i < 4" for i
    using assms(2,3) that by (intro same_outside_nth [OF assms(1)]) fastforce+
  then show "q ! 0 = p ! 0" "q ! 2 = p ! 2" "q ! 3 = p ! 3" by simp_all
qed

lemma same_outside_vector: "20 \<le> length p \<Longrightarrow> length v = 16 \<Longrightarrow> same_outside mo p (patch p 4 v)"
  by (auto simp: same_outside_def nth_patch)

lemma same_outside_ma: "m + 18 \<le> length p \<Longrightarrow> length v = 16 \<Longrightarrow> same_outside (Some m) p (patch p (m + 2) v)"
  by (auto simp: same_outside_def nth_patch)

lemma same_outside_norm:
  assumes "same_outside (Some m) p q" "20 \<le> m" "m + 18 \<le> length p" "length v = 16" "length w = 16"
  shows "patch (patch q 4 v) (m + 2) w = patch (patch p 4 v) (m + 2) w"
  using assms by (intro nth_equalityI) (auto simp: nth_patch same_outside_def)

lemma same_outside_norm_none:
  assumes "same_outside None p q" "20 \<le> length p" "length v = 16"
  shows "patch q 4 v = patch p 4 v"
  using assms by (intro nth_equalityI) (auto simp: nth_patch same_outside_def)

lemma sign_hmac_alt:
  assumes "m + 18 \<le> length p" "20 \<le> length p" "length v = 16"
  shows "sign_hmac p n m v secret =
      patch (patch p 4 v) (m + 2) (fr_hmac_md5 (take n (patch (patch p 4 v) (m + 2) zero_vector)) secret)"
  using assms by (simp add: sign_hmac_def Let_def length_fr_hmac_md5)

lemma sign_hmac_same:
  assumes "20 \<le> m" "m + 18 \<le> length p" "length v = 16"
  shows "same_outside (Some m) p (sign_hmac p n m v secret)"
proof -
  have "20 \<le> length p" using assms by simp
  then have "same_outside (Some m) p (patch p 4 v)" "m + 18 \<le> length (patch p 4 v)"
    using assms by (simp_all add: same_outside_vector)
  from same_outside_trans [OF this(1) same_outside_ma [OF this(2) length_fr_hmac_md5]]
  show ?thesis unfolding sign_hmac_alt [OF assms(2) \<open>20 \<le> length p\<close> assms(3)] .
qed

lemma sign_finish_same:
  assumes "20 \<le> length p" "orig_ok original"
  shows "same_outside mo p (snd (sign_finish p n original secret))"
  using assms by (auto simp: sign_finish_def split: option.splits intro: same_outside_vector)

lemma fr_radius_sign_field:
  assumes "20 \<le> length p" "orig_ok original" "length secret \<le> 65535"
    and "n = nbo16 (p ! 2) (p ! 3)" "20 \<le> n" "n \<le> length p" "ma_field p n mo"
  shows "fr_radius_sign p original secret = Some
    (case mo of
       None \<Rightarrow> sign_finish p n original secret
     | Some m \<Rightarrow> (case ma_vector (p ! 0) (chunk p 4 16) original of
          None \<Rightarrow> (-1, p)
        | Some v \<Rightarrow> sign_finish (sign_hmac p n m v secret) n original secret))"
  using assms fr_radius_sign_none [OF assms(1-6)] fr_radius_sign_at [OF assms(1-6)]
  by (cases mo) (simp_all add: ma_field_def)

lemma auth_vector_of_ma: "ma_vector code v original = Some w \<Longrightarrow> auth_vector code original \<noteq> None"
  by (auto simp: ma_vector_def auth_vector_def split: if_splits)

lemma auth_vector_kept: "auth_vector code original = Some None \<longleftrightarrow> code \<in> {1, 12}"
  by (auto simp: auth_vector_def split: if_splits)

lemma vector_kept:
  assumes "20 \<le> length p" "p ! 0 \<in> {1, 12}"
  shows "sign_finish p n original secret = (0, p)"
  using assms by (auto simp: sign_finish_def auth_vector_def)

text \<open>What the lemmas below assume of a packet, its original and the secret.\<close>

definition sign_pre :: "bytes \<Rightarrow> bytes option \<Rightarrow> bytes \<Rightarrow> nat \<Rightarrow> nat option \<Rightarrow> bool" where
  "sign_pre p original secret n mo \<longleftrightarrow> 20 \<le> length p \<and> orig_ok original \<and> length secret \<le> 65535 \<and>
     n = nbo16 (p ! 2) (p ! 3) \<and> 20 \<le> n \<and> n \<le> length p \<and> ma_field p n mo"

lemma sign_preD:
  assumes "sign_pre p original secret n mo"
  shows "20 \<le> length p" "orig_ok original" "length secret \<le> 65535" "n = nbo16 (p ! 2) (p ! 3)"
    "20 \<le> n" "n \<le> length p" "ma_field p n mo" "\<And>m. mo = Some m \<Longrightarrow> 20 \<le> m \<and> m + 18 \<le> length p"
  using assms ma_field_bounds by (auto simp: sign_pre_def)

lemma sign_pre_same:
  assumes pre: "sign_pre p original secret n mo" and same: "same_outside mo p q"
  shows "sign_pre q original secret n mo" "q ! 0 = p ! 0"
proof -
  note d = sign_preD [OF pre]
  note h = same_outside_header [OF same _ d(1)]
  have "q ! 0 = p ! 0" "q ! 2 = p ! 2" "q ! 3 = p ! 3" using h d(8) by blast+
  then show "sign_pre q original secret n mo" "q ! 0 = p ! 0"
    using d ma_field_same [OF d(7) same] same_outside_length [OF same] by (simp_all add: sign_pre_def)
qed

lemma sign_pre_sign:
  assumes "sign_pre p original secret n mo"
  shows "fr_radius_sign p original secret = Some
    (case mo of
       None \<Rightarrow> sign_finish p n original secret
     | Some m \<Rightarrow> (case ma_vector (p ! 0) (chunk p 4 16) original of
          None \<Rightarrow> (-1, p)
        | Some v \<Rightarrow> sign_finish (sign_hmac p n m v secret) n original secret))"
  using sign_preD [OF assms] by (intro fr_radius_sign_field)

lemma sign_finish_cases:
  assumes "20 \<le> length p" "orig_ok original"
  shows "sign_finish p n original secret = (-1, p) \<and> auth_vector (p ! 0) original = None \<or>
    (\<exists>r. sign_finish p n original secret = (0, r) \<and> same_outside mo p r \<and>
         (p ! 0 \<in> {1, 12} \<longrightarrow> r = p))"
  using sign_finish_same [OF assms, of mo n secret] vector_kept [OF assms(1), of n original secret]
  by (auto simp: sign_finish_def split: option.splits)

text \<open>Signing fails and leaves the packet alone, or changes at most the vector and the value
  of the Message-Authenticator, and never the vector of an Access-Request or Status-Server.\<close>

lemma fr_radius_sign_cases:
  assumes pre: "sign_pre p original secret n mo"
  shows "fr_radius_sign p original secret = Some (-1, p) \<or>
    (\<exists>r. fr_radius_sign p original secret = Some (0, r) \<and> same_outside mo p r \<and>
         (p ! 0 \<in> {1, 12} \<longrightarrow> chunk r 4 16 = chunk p 4 16))"
proof (cases mo)
  case None
  then show ?thesis
    using sign_finish_cases [OF sign_preD(1,2) [OF pre], where mo = mo and n = n and secret = secret]
    by (subst (1 2) sign_pre_sign [OF pre]) auto
next
  case (Some m)
  note b = sign_preD(8) [OF pre Some]
  show ?thesis
  proof (cases "ma_vector (p ! 0) (chunk p 4 16) original")
    case None
    then show ?thesis using Some by (subst sign_pre_sign [OF pre]) simp
  next
    case v: (Some v)
    have lv: "length v = 16"
      using length_ma_vector [OF sign_preD(2) [OF pre] _ v] sign_preD(1) [OF pre] by simp
    let ?q = "sign_hmac p n m v secret"
    have same: "same_outside mo p ?q" unfolding Some using b lv by (intro sign_hmac_same) auto
    note q = sign_pre_same [OF pre same]
    have vec: "chunk ?q 4 16 = v"
      using b lv sign_preD(1) [OF pre] by (simp add: sign_hmac_alt)
    have "p ! 0 \<in> {1, 12} \<Longrightarrow> v = chunk p 4 16" using v by (auto simp: ma_vector_def)
    with sign_finish_cases [OF sign_preD(1,2) [OF q(1)], where mo = mo and n = n and secret = secret]
      auth_vector_of_ma [OF v] q(2) vec
    show ?thesis
      by (subst (2) sign_pre_sign [OF pre]) (auto simp: Some v intro: same_outside_trans [OF same [unfolded Some]])
  qed
qed

text \<open>The signature depends only on what lies outside the fields it fills.\<close>

lemma fr_radius_sign_congruent:
  assumes pre: "sign_pre p original secret n mo" and same: "same_outside mo p q"
    and vec: "p ! 0 \<in> {1, 12} \<Longrightarrow> chunk q 4 16 = chunk p 4 16"
    and ok: "fr_radius_sign p original secret = Some (0, r)"
  shows "fr_radius_sign q original secret = Some (0, r)"
proof -
  note d = sign_preD [OF pre] and q = sign_pre_same [OF pre same]
  show ?thesis
  proof (cases mo)
    case None
    have norm: "patch q 4 v = patch p 4 v" if "length v = 16" for v
      using same_outside_norm_none [OF same [unfolded None] d(1) that] .
    have "q = p" if "p ! 0 \<in> {1, 12}"
    proof -
      have "q = patch q 4 (chunk q 4 16)"
        using d(1) same_outside_length [OF same] by (intro patch_chunk_id [symmetric]) simp
      also have "\<dots> = patch p 4 (chunk p 4 16)"
        unfolding vec [OF that] using d(1) by (intro norm length_chunk) simp
      also have "\<dots> = p" using d(1) by (intro patch_chunk_id) simp
      finally show ?thesis .
    qed
    then show ?thesis
    proof (cases "p ! 0 \<in> {1, 12}")
      case False
      with norm ok show ?thesis
        unfolding sign_pre_sign [OF pre] sign_pre_sign [OF q(1)] None
        using q(2) length_auth_vector [OF d(2)]
        by (auto simp: sign_finish_def auth_vector_kept split: option.splits)
    qed (use ok in simp)
  next
    case (Some m)
    note b = d(8) [OF Some]
    have "ma_vector (p ! 0) (chunk q 4 16) original = ma_vector (p ! 0) (chunk p 4 16) original"
      using vec by (auto simp: ma_vector_def)
    moreover have "sign_hmac q n m v secret = sign_hmac p n m v secret" if "length v = 16" for v
      using same_outside_norm [OF same [unfolded Some]] b that d(1) same_outside_length [OF same]
      by (simp add: sign_hmac_alt)
    moreover have "length w = 16" if "ma_vector (p ! 0) (chunk p 4 16) original = Some w" for w
      using length_ma_vector [OF d(2) _ that] d(1) by simp
    ultimately show ?thesis
      using ok q(2)
      unfolding sign_pre_sign [OF pre] sign_pre_sign [OF q(1)] Some
      by (auto split: option.splits)
  qed
qed

lemma fr_radius_sign_idem:
  assumes pre: "sign_pre p original secret n mo" and ok: "fr_radius_sign p original secret = Some (0, r)"
  shows "fr_radius_sign r original secret = Some (0, r)" "same_outside mo p r"
proof -
  from fr_radius_sign_cases [OF pre] ok
  have "same_outside mo p r" "p ! 0 \<in> {1, 12} \<Longrightarrow> chunk r 4 16 = chunk p 4 16" by auto
  with fr_radius_sign_congruent [OF pre _ _ ok]
  show "fr_radius_sign r original secret = Some (0, r)" "same_outside mo p r" by blast+
qed

subsection \<open>Verification is signing and comparing\<close>

lemma foldl_or_zero: "foldl (OR) (a :: byte) xs = 0 \<longleftrightarrow> a = 0 \<and> (\<forall>x \<in> set xs. x = 0)"
  by (induction xs arbitrary: a) (auto simp: or_eq_0_iff)

lemma xor_zero_iff: "(a :: byte) XOR b = 0 \<longleftrightarrow> a = b"
proof
  assume "a XOR b = 0"
  then have "(a XOR b) XOR b = 0 XOR b" by (rule arg_cong)
  then show "a = b" by (simp add: xor.assoc)
qed simp

lemma fr_digest_cmp_eq:
  assumes "length a = length b"
  shows "fr_digest_cmp a b = 0 \<longleftrightarrow> a = b"
  using assms by (induction a b rule: list_induct2) (auto simp: fr_digest_cmp_def foldl_or_zero xor_zero_iff)

lemma same_outside_eqI:
  assumes same: "same_outside mo p r" and "20 \<le> length p" "chunk r 4 16 = chunk p 4 16"
    and "\<And>m. mo = Some m \<Longrightarrow> m + 18 \<le> length p \<and> chunk r (m + 2) 16 = chunk p (m + 2) 16"
  shows "r = p"
proof (rule nth_equalityI)
  show len: "length r = length p" using same_outside_length [OF same] .
  have field: "r ! i = p ! i" if "chunk r j 16 = chunk p j 16" "j + 16 \<le> length p" "j \<le> i" "i < j + 16" for i j
  proof -
    have "chunk r j 16 ! (i - j) = chunk p j 16 ! (i - j)" using that by simp
    moreover have "chunk r j 16 ! (i - j) = r ! (j + (i - j))" using that len by (intro nth_chunk) simp_all
    moreover have "chunk p j 16 ! (i - j) = p ! (j + (i - j))" using that by (intro nth_chunk) simp_all
    ultimately show ?thesis using that by simp
  qed
  fix i assume "i < length r"
  then have i: "i < length p" using len by simp
  show "r ! i = p ! i"
  proof (cases "(4 \<le> i \<and> i < 20) \<or> (\<exists>m. mo = Some m \<and> m + 2 \<le> i \<and> i < m + 18)")
    case True
    then show ?thesis using field [of 4 i] field [of "_ + 2" i] assms by fastforce
  next
    case False
    then show ?thesis using i by (intro same_outside_nth [OF same]) (auto simp: not_le not_less)
  qed
qed

lemma restore_vector:
  assumes same: "same_outside mo p r" and p: "20 \<le> length p"
    and b: "\<And>m. mo = Some m \<Longrightarrow> 20 \<le> m \<and> m + 18 \<le> length p"
    and ma: "\<And>m. mo = Some m \<Longrightarrow> chunk r (m + 2) 16 = chunk p (m + 2) 16"
  shows "patch r 4 (chunk p 4 16) = p"
proof (rule same_outside_eqI [of mo])
  note len = same_outside_length [OF same]
  show "same_outside mo p (patch r 4 (chunk p 4 16))"
    using p len by (intro same_outside_trans [OF same] same_outside_vector) simp_all
  show "chunk (patch r 4 (chunk p 4 16)) 4 16 = chunk p 4 16"
    using p len by (intro chunk_patch_same) simp_all
  fix m assume m: "mo = Some m"
  then show "m + 18 \<le> length p \<and> chunk (patch r 4 (chunk p 4 16)) (m + 2) 16 = chunk p (m + 2) 16"
    using b [OF m] len ma by (subst chunk_patch_disjoint) simp_all
qed (rule p)

lemma restore_fields:
  assumes same: "same_outside (Some m) p r" and b: "20 \<le> m \<and> m + 18 \<le> length p"
  shows "patch (patch r (m + 2) (chunk p (m + 2) 16)) 4 (chunk p 4 16) = p"
proof -
  have "patch (patch r (m + 2) (chunk p (m + 2) 16)) 4 (chunk p 4 16) =
      patch (patch r 4 (chunk p 4 16)) (m + 2) (chunk p (m + 2) 16)"
    using b same_outside_length [OF same] by (intro patch_swap) simp_all
  also have "\<dots> = patch (patch p 4 (chunk p 4 16)) (m + 2) (chunk p (m + 2) 16)"
    using b by (intro same_outside_norm [OF same]) simp_all
  also have "\<dots> = p" using b by simp
  finally show ?thesis .
qed

lemma fr_radius_verify_eq:
  assumes pre: "sign_pre p original secret n mo"
  shows "fr_radius_verify p original secret require_ma =
    Some (if p ! 0 = FR_RADIUS_CODE_ACCESS_REQUEST \<and> require_ma \<and> mo = None then -1
          else if fr_radius_sign p original secret = Some (0, p) then 0 else -1, p)"
proof -
  note d = sign_preD [OF pre] and c = fr_radius_sign_cases [OF pre]
  have rd: "rd_nbo16 p 2 = Some n" "rd8 p 0 = Some (p ! 0)" "rd_mem p 4 16 = Some (chunk p 4 16)"
    "\<not> n < 20" using d radius_header_reads [OF d(1)] by simp_all
  show ?thesis
  proof (cases "fr_radius_sign p original secret = Some (-1, p)")
    case True
    then show ?thesis using d rd
      by (cases mo) (simp_all add: fr_radius_verify_def ma_field_def)
  next
    case False
    with c obtain r where r: "fr_radius_sign p original secret = Some (0, r)" "same_outside mo p r"
      and vec: "p ! 0 \<in> {1, 12} \<longrightarrow> chunk r 4 16 = chunk p 4 16" by blast
    have len: "length r = length p" using same_outside_length [OF r(2)] .
    have eq: "r = p \<longleftrightarrow> chunk r 4 16 = chunk p 4 16 \<and> (\<forall>m. mo = Some m \<longrightarrow> chunk r (m + 2) 16 = chunk p (m + 2) 16)"
      using same_outside_eqI [OF r(2) d(1)] d(8) by blast
    note rest = restore_vector [OF r(2) d(1,8)]
    have cmp: "fr_digest_cmp (chunk p j 16) (chunk r j 16) \<noteq> 0 \<longleftrightarrow> chunk r j 16 \<noteq> chunk p j 16"
      if "j + 16 \<le> length p" for j
      using that len by (subst fr_digest_cmp_eq) auto
    show ?thesis
    proof (cases mo)
      case None
      have "fr_radius_verify p original secret require_ma =
        Some (if p ! 0 = 1 \<and> require_ma then (-1, p)
              else if p ! 0 = 1 \<or> p ! 0 = 12 then (0, r)
              else if chunk r 4 16 \<noteq> chunk p 4 16 then (-1, patch r 4 (chunk p 4 16)) else (0, r))"
        using d(1,7) rd r(1) None len cmp [of 4] by (simp add: fr_radius_verify_def ma_field_def)
      then show ?thesis using None r(1) vec eq rest by auto
    next
      case (Some m)
      have "patch (patch r (m + 2) (chunk p (m + 2) 16)) 4 (chunk p 4 16) = p"
        using restore_fields [OF r(2) [unfolded Some]] d(8) [OF Some] by blast
      then have "fr_radius_verify p original secret require_ma =
        Some (if chunk r (m + 2) 16 \<noteq> chunk p (m + 2) 16 then (-1, p)
              else if p ! 0 = 1 \<or> p ! 0 = 12 then (0, r)
              else if chunk r 4 16 \<noteq> chunk p 4 16 then (-1, patch r 4 (chunk p 4 16)) else (0, r))"
        using d(1,7) d(8) [OF Some] rd r(1) Some len cmp [of 4] cmp [of "m + 2"]
        by (simp add: fr_radius_verify_def ma_field_def)
      then show ?thesis using Some r(1) vec eq rest by auto
    qed
  qed
qed

subsection \<open>Accepted packets\<close>

lemma accepted_sign_pre:
  assumes acc: "fr_radius_ok p len mx req = Some (DECODE_FAIL_NONE, n)" and len: "len \<le> length p"
    and "orig_ok original" "length secret \<le> 65535"
  obtains mo where "sign_pre p original secret n mo" "mo = None \<longleftrightarrow> find_ma p RADIUS_HEADER_LENGTH n = Some MA_none"
    "\<And>m. mo = Some m \<longleftrightarrow> find_ma p RADIUS_HEADER_LENGTH n = Some (MA_at m)"
proof -
  have "20 \<le> len" using acc by (simp add: fr_radius_ok_def split: if_splits)
  from fr_radius_ok_iff [OF len this] acc obtain as where n: "n = nbo16 (p ! 2) (p ! 3)"
    and wf: "radius_wf p len mx req as" by blast
  then have b: "20 \<le> n" "n \<le> length p" and tile: "chunk p 20 (n - 20) = concat (map enc_attr as)"
    "list_all wf_attr as" using len by (simp_all add: radius_wf_def attrs_ok_def Let_def)
  obtain mo where mo: "ma_field p n mo" "mo = None \<longleftrightarrow> find_ma p 20 n = Some MA_none"
    "\<And>m. mo = Some m \<longleftrightarrow> find_ma p 20 n = Some (MA_at m)"
  proof (cases "has_attr FR_MESSAGE_AUTHENTICATOR as")
    case True
    with find_ma_tile [OF tile b] b obtain m where "find_ma p 20 n = Some (MA_at m)" "m + 18 \<le> length p" by auto
    then show ?thesis by (intro that [of "Some m"]) (auto simp: ma_field_def)
  next
    case False
    with find_ma_tile [OF tile b] show ?thesis by (intro that [of None]) (auto simp: ma_field_def)
  qed
  then show thesis using assms b n by (intro that [of mo]) (auto simp: sign_pre_def)
qed

definition expected_ma :: "bytes \<Rightarrow> nat \<Rightarrow> nat \<Rightarrow> bytes \<Rightarrow> bytes \<Rightarrow> bytes" where
  "expected_ma p n m v secret = hmac_md5_spec (take n (patch (patch p 4 v) (m + 2) zero_vector)) secret"

definition expected_auth :: "bytes \<Rightarrow> nat \<Rightarrow> bytes \<Rightarrow> bytes \<Rightarrow> bytes" where
  "expected_auth p n v secret = md5_hash (take n (patch p 4 v) @ secret)"

lemma radius_digest_hash:
  "length data + length secret < md5_limit \<Longrightarrow> radius_digest data secret = md5_hash (data @ secret)"
  by (simp add: radius_digest_def fr_md5_local_ctx_alloc_def md5d.digest2)

lemma sign_pre_limit:
  assumes "sign_pre p original secret n mo"
  shows "length (take n q) + length secret < md5_limit" "length (take n q) + 64 < md5_limit" "length secret < md5_limit"
proof -
  have "n < 65536" "length secret \<le> 65535" "length (take n q) \<le> n"
    using sign_preD [OF assms] nbo16_less [of "p ! 2" "p ! 3"] by simp_all
  moreover have "md5_limit = 536870784" by (simp add: md5_limit_def)
  ultimately show "length (take n q) + length secret < md5_limit" "length (take n q) + 64 < md5_limit"
    "length secret < md5_limit" by linarith+
qed

lemma sign_hmac_expected:
  assumes pre: "sign_pre p original secret n (Some m)" and "length v = 16"
  shows "sign_hmac p n m v secret = patch (patch p 4 v) (m + 2) (expected_ma p n m v secret)"
  unfolding expected_ma_def fr_hmac_md5_eq [OF sign_pre_limit(3,2) [OF pre], symmetric]
  using sign_preD(1,8) [OF pre] assms(2) by (intro sign_hmac_alt) simp_all

lemma length_expected_ma [simp]: "length (expected_ma p n m v secret) = 16"
  by (simp add: expected_ma_def hmac_md5_spec_def Let_def)

lemma length_expected_auth [simp]: "length (expected_auth p n v secret) = 16"
  by (simp add: expected_auth_def)

lemma ma_vector_request: "code \<in> {1, 12} \<Longrightarrow> ma_vector code v original = Some v"
  by (auto simp: ma_vector_def)

text \<open>The two checks, by the code of the packet.\<close>

lemma sign_fix_request:
  assumes pre: "sign_pre p original secret n (Some m)" and "p ! 0 \<in> {1, 12}"
  shows "fr_radius_sign p original secret = Some (0, p) \<longleftrightarrow>
    chunk p (m + 2) 16 = expected_ma p n m (chunk p 4 16) secret"
proof -
  note d = sign_preD [OF pre]
  have b: "20 \<le> m" "m + 18 \<le> length p" using d(8) by simp_all
  let ?h = "expected_ma p n m (chunk p 4 16) secret"
  have "patch p 4 (chunk p 4 16) = p" "length (chunk p 4 16) = 16" using d(1) by simp_all
  then have q: "sign_hmac p n m (chunk p 4 16) secret = patch p (m + 2) ?h"
    using sign_hmac_expected [OF pre] by simp
  have "patch p (m + 2) ?h ! 0 = p ! 0" using b by (subst nth_patch) auto
  then have "fr_radius_sign p original secret = Some (0, patch p (m + 2) ?h)"
    using vector_kept [of "patch p (m + 2) ?h" n original secret] assms(2) b
      ma_vector_request [OF assms(2), of "chunk p 4 16" original]
    by (simp only: sign_pre_sign [OF pre] option.case q) simp
  moreover have "patch p (m + 2) ?h = p \<longleftrightarrow> chunk p (m + 2) 16 = ?h"
    using b by (intro patch_id_iff) simp_all
  ultimately show ?thesis by simp
qed

lemma sign_fix_reply:
  assumes pre: "sign_pre p (Some orig) secret n mo" and code: "p ! 0 \<in> {2, 3, 11}"
  shows "fr_radius_sign p (Some orig) secret = Some (0, p) \<longleftrightarrow>
    chunk p 4 16 = expected_auth p n (chunk orig 4 16) secret \<and>
    (\<forall>m. mo = Some m \<longrightarrow> chunk p (m + 2) 16 = expected_ma p n m (chunk orig 4 16) secret)"
proof -
  note d = sign_preD [OF pre]
  let ?v = "chunk orig 4 16"
  have lv: "length ?v = 16" using d(2) by (simp add: orig_ok_def)
  have av: "auth_vector (p ! 0) (Some orig) = Some (Some ?v)" and mv: "ma_vector (p ! 0) w (Some orig) = Some ?v" for w
    using code by (auto simp: auth_vector_def ma_vector_def)
  have dig: "radius_digest (take n (patch q 4 ?v)) secret = expected_auth q n ?v secret" for q
    unfolding expected_auth_def by (intro radius_digest_hash sign_pre_limit(1) [OF pre])
  show ?thesis
  proof (cases mo)
    case None
    have "patch p 4 (expected_auth p n ?v secret) = p \<longleftrightarrow> chunk p 4 16 = expected_auth p n ?v secret"
      using d(1) by (intro patch_id_iff) simp_all
    then show ?thesis using None av dig by (simp add: sign_pre_sign [OF pre] sign_finish_def)
  next
    case (Some m)
    have b: "20 \<le> m" "m + 18 \<le> length p" using d(8) [OF Some] by simp_all
    let ?h = "expected_ma p n m ?v secret"
    let ?q = "patch (patch p 4 ?v) (m + 2) ?h"
    let ?r = "patch ?q 4 (expected_auth ?q n ?v secret)"
    have q0: "?q ! 0 = p ! 0"
      using sign_pre_same(2) [OF pre sign_hmac_same [of m p ?v n secret, folded Some]] b lv
      by (simp add: sign_hmac_expected [OF pre [unfolded Some] lv])
    have sign: "fr_radius_sign p (Some orig) secret = Some (0, ?r)"
      using Some mv q0 av dig
      by (simp only: sign_pre_sign [OF pre] option.case sign_finish_def sign_hmac_expected [OF pre [unfolded Some] lv])
    then have same: "same_outside mo p ?r" using fr_radius_sign_idem(2) [OF pre] by blast
    have "?r = p \<longleftrightarrow> chunk ?r 4 16 = chunk p 4 16 \<and> chunk ?r (m + 2) 16 = chunk p (m + 2) 16"
      using same_outside_eqI [OF same d(1)] Some b by auto
    moreover have "chunk ?r 4 16 = expected_auth ?q n ?v secret" "chunk ?r (m + 2) 16 = ?h"
      using b lv by simp_all
    moreover have "expected_auth ?q n ?v secret = expected_auth p n ?v secret" if "?h = chunk p (m + 2) 16"
    proof -
      have "chunk ?q 4 16 = chunk (patch p 4 ?v) 4 16"
        using b lv by (intro chunk_patch_disjoint) simp_all
      then have "chunk ?q 4 16 = ?v" using b lv by simp
      from patch_id [OF this] have "patch ?q 4 ?v = ?q" using b lv by simp
      also have "?q = patch p 4 ?v" unfolding that
      proof (rule patch_id)
        show "chunk (patch p 4 ?v) (m + 2) 16 = chunk p (m + 2) 16"
          using b lv by (intro chunk_patch_disjoint) simp_all
      qed (use b lv in simp)
      finally show ?thesis by (simp add: expected_auth_def)
    qed
    ultimately show ?thesis using sign Some by auto
  qed
qed


section \<open>Properties\<close>

text \<open>Packets the witnesses use: an Access-Request with a Message-Authenticator and a
  User-Name, and the reply to it.\<close>

definition ex_request :: bytes where
  "ex_request = [1, 7, 0, 43] @ replicate 16 5 @ [80, 18] @ replicate 16 9 @ [1, 5, 97, 98, 99]"

definition ex_reply :: bytes where
  "ex_reply = [2, 7, 0, 43] @ replicate 16 5 @ [80, 18] @ replicate 16 9 @ [1, 5, 97, 98, 99]"

text \<open>Codes from 16 to 52 are accepted, although the comment says that they are not understood;
  the bound is \<open>FR_RADIUS_CODE_MAX\<close>.\<close>

lemma fr_radius_ok_code_above_15:
  assumes "16 \<le> code" "code < FR_RADIUS_CODE_MAX"
  shows "fr_radius_ok ([code, 7, 0, 20] @ replicate 16 5) 20 0 False = Some (DECODE_FAIL_NONE, 20)"
proof -
  have "code \<noteq> 0" "code \<noteq> FR_RADIUS_CODE_STATUS_SERVER" using assms(1) by auto
  then show ?thesis using assms(2)
    by (simp add: fr_radius_ok_def fr_radius_ok_attrs.simps fr_radius_ok_counts_def rd8_def rd_nbo16_def nbo16_def Let_def)
qed

text \<open>(C18) \<open>fr_radius_ok\<close> accepts a packet, with length \<open>n\<close>, exactly when \<open>n\<close> is the length the
  header claims, it lies between 20 and the bytes received, the code is one of 1 to 52, and the bytes
  after the header are a sequence of well-formed attributes that respects the attribute limit
  and the Message-Authenticator rules. The comment in the code calls codes from 16 on unknown; it
  accepts them (\<open>fr_radius_ok_code_above_15\<close>).\<close>

theorem fr_radius_ok_exact:
  assumes "packet_len \<le> length packet"
  shows "(\<exists>f k. fr_radius_ok packet packet_len m require_ma = Some (f, k)) \<and>
    (fr_radius_ok packet packet_len m require_ma = Some (DECODE_FAIL_NONE, n) \<longleftrightarrow>
     n = nbo16 (packet ! 2) (packet ! 3) \<and> (\<exists>as. radius_wf packet packet_len m require_ma as))"
proof (cases "RADIUS_HEADER_LENGTH \<le> packet_len")
  case True
  then show ?thesis using fr_radius_ok_iff [OF assms] fr_radius_ok_safe [OF assms] by fastforce
next
  case False
  then show ?thesis by (auto simp: fr_radius_ok_def radius_wf_def Let_def)
qed

theorem fr_radius_ok_exact_witness:
  "43 \<le> length ex_request \<and> fr_radius_ok ex_request 43 0 True = Some (DECODE_FAIL_NONE, 43) \<and>
   (\<exists>as. radius_wf ex_request 43 0 True as)"
proof -
  have l: "43 \<le> length ex_request" by (simp add: ex_request_def)
  have "fr_radius_ok ex_request 43 0 True = Some (DECODE_FAIL_NONE, 43)" by code_simp
  with l fr_radius_ok_exact [OF l, of 0 True 43] show ?thesis by blast
qed

text \<open>(C17) Signing an accepted packet stays inside the buffer; it either fails and leaves the
  packet alone, or changes at most the authenticator field and the value of the
  Message-Authenticator attribute.\<close>

theorem fr_radius_sign_accepted:
  assumes "fr_radius_ok p len mx req = Some (DECODE_FAIL_NONE, n)" "len \<le> length p"
    and "orig_ok original" "length secret \<le> 65535"
  shows "fr_radius_sign p original secret = Some (-1, p) \<or>
    (\<exists>r. fr_radius_sign p original secret = Some (0, r) \<and> length r = length p \<and>
      (\<forall>i < length p. r ! i \<noteq> p ! i \<longrightarrow> (4 \<le> i \<and> i < 20) \<or>
        (\<exists>m. find_ma p RADIUS_HEADER_LENGTH n = Some (MA_at m) \<and> m + 2 \<le> i \<and> i < m + 18)))"
proof -
  obtain mo where pre: "sign_pre p original secret n mo"
    and mo: "\<And>m. mo = Some m \<longleftrightarrow> find_ma p RADIUS_HEADER_LENGTH n = Some (MA_at m)"
    by (rule accepted_sign_pre [OF assms]) blast
  from fr_radius_sign_cases [OF pre] show ?thesis
    unfolding same_outside_def mo by blast
qed

theorem fr_radius_sign_accepted_witness:
  "fr_radius_sign ex_request None [1, 2, 3] = Some (-1, ex_request) \<or>
    (\<exists>r. fr_radius_sign ex_request None [1, 2, 3] = Some (0, r) \<and> length r = 43)"
proof -
  have l: "length ex_request = 43" by (simp add: ex_request_def)
  have "fr_radius_ok ex_request 43 0 True = Some (DECODE_FAIL_NONE, 43)" by code_simp
  from fr_radius_sign_accepted [OF this, of None "[1, 2, 3]"] l show ?thesis
    by (auto simp: orig_ok_def)
qed



text \<open>(C16) Verifying an accepted packet stays inside the buffer and hands the packet back
  byte for byte, on success and on every error. It succeeds exactly when signing the
  packet reproduces it and an Access-Request has the Message-Authenticator if one is required.\<close>

theorem fr_radius_verify_accepted:
  assumes "fr_radius_ok p len mx req = Some (DECODE_FAIL_NONE, n)" "len \<le> length p"
    and "orig_ok original" "length secret \<le> 65535"
  shows "fr_radius_verify p original secret require_ma =
    Some (if fr_radius_sign p original secret = Some (0, p) \<and>
             (p ! 0 = FR_RADIUS_CODE_ACCESS_REQUEST \<and> require_ma \<longrightarrow>
              find_ma p RADIUS_HEADER_LENGTH n \<noteq> Some MA_none) then 0 else -1, p)"
proof -
  obtain mo where pre: "sign_pre p original secret n mo"
    and mo: "mo = None \<longleftrightarrow> find_ma p RADIUS_HEADER_LENGTH n = Some MA_none"
    by (rule accepted_sign_pre [OF assms]) blast
  show ?thesis unfolding fr_radius_verify_eq [OF pre] using mo by auto
qed

theorem fr_radius_verify_accepted_witness:
  "\<exists>rc. fr_radius_verify ex_request None [1, 2, 3] True = Some (rc, ex_request)"
proof -
  have "fr_radius_ok ex_request 43 0 True = Some (DECODE_FAIL_NONE, 43)" by code_simp
  from fr_radius_verify_accepted [OF this, of None "[1, 2, 3]" True] show ?thesis
    by (simp add: orig_ok_def ex_request_def)
qed

text \<open>(C14) An Access-Request or Status-Server packet with a Message-Authenticator verifies
  exactly when the attribute holds the HMAC-MD5 (RFC 2104, under the shared secret) of the packet
  with that value set to zero.\<close>

theorem fr_radius_verify_request:
  assumes "fr_radius_ok p len mx req = Some (DECODE_FAIL_NONE, n)" "len \<le> length p"
    and "orig_ok original" "length secret \<le> 65535"
    and code: "p ! 0 = FR_RADIUS_CODE_ACCESS_REQUEST \<or> p ! 0 = FR_RADIUS_CODE_STATUS_SERVER"
    and ma: "find_ma p RADIUS_HEADER_LENGTH n = Some (MA_at m)"
  shows "fr_radius_verify p original secret require_ma = Some (0, p) \<longleftrightarrow>
    chunk p (m + 2) 16 = hmac_md5_spec (take n (patch p (m + 2) zero_vector)) secret"
proof -
  obtain mo where pre: "sign_pre p original secret n mo"
    and mo: "\<And>m. mo = Some m \<longleftrightarrow> find_ma p RADIUS_HEADER_LENGTH n = Some (MA_at m)"
    by (rule accepted_sign_pre [OF assms(1-4)]) blast
  with ma have [simp]: "mo = Some m" by simp
  have "patch p 4 (chunk p 4 16) = p" using sign_preD(1) [OF pre] by simp
  then show ?thesis
    using sign_fix_request [of p original secret n m] pre code
    unfolding fr_radius_verify_eq [OF pre] by (auto simp: expected_ma_def)
qed

theorem fr_radius_verify_request_witness:
  "fr_radius_verify ex_request None [1, 2, 3] True = Some (0, ex_request) \<longleftrightarrow>
    chunk ex_request (20 + 2) 16 = hmac_md5_spec (take 43 (patch ex_request (20 + 2) zero_vector)) [1, 2, 3]"
proof (rule fr_radius_verify_request)
  show "fr_radius_ok ex_request 43 0 True = Some (DECODE_FAIL_NONE, 43)" by code_simp
  show "find_ma ex_request 20 43 = Some (MA_at 20)" by code_simp
qed (simp_all add: orig_ok_def ex_request_def)

text \<open>(C3) An Access-Accept, Access-Reject or Access-Challenge verifies exactly when its Response
  Authenticator is the MD5 of the packet carrying the request's authenticator followed by the
  secret, and its Message-Authenticator, if it has one, is the HMAC-MD5 of the packet
  carrying the request's authenticator and a zero value.\<close>

theorem fr_radius_verify_reply:
  assumes "fr_radius_ok p len mx req = Some (DECODE_FAIL_NONE, n)" "len \<le> length p"
    and "RADIUS_HEADER_LENGTH \<le> length orig" "length secret \<le> 65535"
    and code: "p ! 0 \<in> {FR_RADIUS_CODE_ACCESS_ACCEPT, FR_RADIUS_CODE_ACCESS_REJECT, FR_RADIUS_CODE_ACCESS_CHALLENGE}"
  shows "fr_radius_verify p (Some orig) secret require_ma = Some (0, p) \<longleftrightarrow>
    chunk p 4 16 = expected_auth p n (chunk orig 4 16) secret \<and>
    (\<forall>m. find_ma p RADIUS_HEADER_LENGTH n = Some (MA_at m) \<longrightarrow>
         chunk p (m + 2) 16 = expected_ma p n m (chunk orig 4 16) secret)"
proof -
  have "orig_ok (Some orig)" using assms(3) by (simp add: orig_ok_def)
  then obtain mo where pre: "sign_pre p (Some orig) secret n mo"
    and mo: "\<And>m. mo = Some m \<longleftrightarrow> find_ma p RADIUS_HEADER_LENGTH n = Some (MA_at m)"
    by (rule accepted_sign_pre [OF assms(1,2) _ assms(4)]) blast
  show ?thesis
    using sign_fix_reply [OF pre code] code unfolding fr_radius_verify_eq [OF pre] mo by auto
qed

theorem fr_radius_verify_reply_witness:
  "fr_radius_verify ex_reply (Some ex_request) [1, 2, 3] False = Some (0, ex_reply) \<longleftrightarrow>
    chunk ex_reply 4 16 = expected_auth ex_reply 43 (chunk ex_request 4 16) [1, 2, 3] \<and>
    (\<forall>m. find_ma ex_reply RADIUS_HEADER_LENGTH 43 = Some (MA_at m) \<longrightarrow>
         chunk ex_reply (m + 2) 16 = expected_ma ex_reply 43 m (chunk ex_request 4 16) [1, 2, 3])"
proof (rule fr_radius_verify_reply)
  show "fr_radius_ok ex_reply 43 0 True = Some (DECODE_FAIL_NONE, 43)" by code_simp
qed (simp_all add: ex_reply_def ex_request_def)

text \<open>Signing on its own trusts the length octet of the Message-Authenticator: a packet that
  ends inside the attribute makes \<open>fr_radius_sign\<close> write beyond the packet, so the bounds
  above depend on \<open>fr_radius_ok\<close> having accepted the packet.\<close>

theorem fr_radius_sign_truncated_ma:
  assumes v: "length v = 16" "length secret \<le> 65535"
  shows "fr_radius_sign ([1, 7, 0, 22] @ v @ [80, 18]) None secret = None"
proof -
  let ?p = "[1, 7, 0, 22] @ v @ [80, 18 :: byte]"
  have nth: "?p ! 20 = 80" "?p ! 21 = 18" "length ?p = 22" using v by (simp_all add: nth_append)
  have "find_ma ?p 20 22 = Some (MA_at 20)" using nth by (subst find_ma_unfold) simp_all
  moreover have "rd_nbo16 ?p 2 = Some 22" "rd8 ?p 0 = Some 1" by (simp_all add: nbo16_def rd8_def rd_nbo16_def)
  ultimately show ?thesis using v nth
    by (simp add: fr_radius_sign_def sign_ma_vector_def wr_mem_def del: append_Cons)
qed

theorem fr_radius_sign_truncated_ma_witness:
  "fr_radius_sign ([1, 7, 0, 22] @ replicate 16 5 @ [80, 18]) None [1, 2, 3] = None"
  by (rule fr_radius_sign_truncated_ma) simp_all

text \<open>A Protocol-Error reply that carries a Message-Authenticator cannot be signed: the
  switch before the HMAC has no case for the code, although the one after it does.\<close>

theorem fr_radius_sign_protocol_error:
  assumes "fr_radius_ok p len mx req = Some (DECODE_FAIL_NONE, n)" "len \<le> length p"
    and "orig_ok original" "length secret \<le> 65535" and "p ! 0 = FR_RADIUS_CODE_PROTOCOL_ERROR"
    and ma: "find_ma p RADIUS_HEADER_LENGTH n = Some (MA_at m)"
  shows "fr_radius_sign p original secret = Some (-1, p)"
proof -
  obtain mo where pre: "sign_pre p original secret n mo"
    and mo: "\<And>m. mo = Some m \<longleftrightarrow> find_ma p RADIUS_HEADER_LENGTH n = Some (MA_at m)"
    by (rule accepted_sign_pre [OF assms(1-4)]) blast
  have "mo = Some m" using mo ma by simp
  then show ?thesis unfolding sign_pre_sign [OF pre] using assms(5) by (simp add: ma_vector_def)
qed

theorem fr_radius_sign_protocol_error_witness:
  "fr_radius_sign (ex_request[0 := 52]) (Some ex_request) [1, 2, 3] = Some (-1, ex_request[0 := 52])"
proof (rule fr_radius_sign_protocol_error)
  show "fr_radius_ok (ex_request[0 := 52]) 43 0 True = Some (DECODE_FAIL_NONE, 43)" by code_simp
  show "find_ma (ex_request[0 := 52]) 20 43 = Some (MA_at 20)" by code_simp
qed (simp_all add: orig_ok_def ex_request_def)

end
