(* ===== verification/Radius_Password.thy ===== *)
theory Radius_Password
  imports Radius_Packet
begin

text \<open>
  Passwords hidden in RADIUS attributes: \<^verbatim>\<open>encode_password\<close> and \<^verbatim>\<open>encode_tunnel_password\<close> of
  \<^verbatim>\<open>src/protocols/radius/encode.c\<close>, their inverses in \<^verbatim>\<open>decode.c\<close> with the steps of
  \<open>fr_radius_decode_pair_value\<close> that take off a tag and decrypt, \<open>fr_radius_ascend_secret\<close> of \<^verbatim>\<open>base.c\<close>, CHAP passwords, the fast
  random numbers of \<^verbatim>\<open>src/lib/util/rand.c\<close> that pad tunnel passwords.

  An output \<open>dbuff\<close> is the room left in it; what is written is the result. The digests are the
  streaming MD5 of \<open>Md5\<close>. The inner loops that combine a block with a digest octet by octet are
  one exclusive or of the block.

  The lemmas show that both encodings are the chained hiding of RFC 2865 and RFC 2868 over
  MD5 and that decoding yields the password, for any padding and whatever is in the buffers.
\<close>

abbreviation AUTH_PASS_LEN :: nat where "AUTH_PASS_LEN \<equiv> 16"
abbreviation RADIUS_MAX_PASS_LENGTH :: nat where "RADIUS_MAX_PASS_LENGTH \<equiv> 128"
abbreviation RADIUS_MAX_STRING_LENGTH :: nat where "RADIUS_MAX_STRING_LENGTH \<equiv> 253"

subsection \<open>Types\<close>

record fast_rand =
  fast_a :: u32
  fast_b :: u32

record radius_ctx =
  rc_vector :: bytes
  rc_secret :: bytes
  rc_rand :: fast_rand
  rc_salt_offset :: u32
  rc_tunnel_password_zeros :: bool

datatype attr_flag =
    FLAG_NONE | FLAG_EXTENDED_ATTR | FLAG_LONG_EXTENDED_ATTR | FLAG_CONCAT | FLAG_HAS_TAG | FLAG_ABINARY
  | FLAG_TAGGED_TUNNEL_PASSWORD | FLAG_ENCRYPT_USER_PASSWORD | FLAG_ENCRYPT_TUNNEL_PASSWORD
  | FLAG_ENCRYPT_ASCEND_SECRET

definition ROUND_UP :: "nat \<Rightarrow> nat \<Rightarrow> nat" where
  "ROUND_UP num mul = ((num + (mul - 1)) div mul) * mul"

text \<open>The C string in a buffer ends before the first NUL; reading past the buffer is \<open>None\<close>.\<close>

fun strlen :: "bytes \<Rightarrow> nat option" where
  "strlen [] = None"
| "strlen (c # cs) = (if c = 0 then Some 0 else map_option Suc (strlen cs))"

definition fr_fast_rand :: "fast_rand \<Rightarrow> u32 \<times> fast_rand" where
  "fr_fast_rand ctx =
     (let a = 36969 * (fast_a ctx AND 0xffff) + drop_bit 16 (fast_a ctx);
          b = 18000 * (fast_b ctx AND 0xffff) + drop_bit 16 (fast_b ctx)
      in (push_bit 16 a + b, ctx\<lparr>fast_a := a, fast_b := b\<rparr>))"

fun rand_fill :: "nat \<Rightarrow> fast_rand \<Rightarrow> bytes \<times> fast_rand" where
  "rand_fill 0 ctx = ([], ctx)"
| "rand_fill (Suc n) ctx =
     (let (r, ctx) = fr_fast_rand ctx; (rs, ctx) = rand_fill n ctx in (ucast r # rs, ctx))"

subsection \<open>CHAP and Ascend secrets\<close>

definition fr_radius_encode_chap_password :: "byte \<Rightarrow> bytes \<Rightarrow> bytes \<Rightarrow> bytes" where
  "fr_radius_encode_chap_password ident vector password =
     (let md5_ctx = fr_md5_local_ctx_alloc;
          md5_ctx = fr_md5_local_update md5_ctx [ident];
          md5_ctx = fr_md5_local_update md5_ctx password;
          md5_ctx = fr_md5_local_update md5_ctx vector
      in ident # fst (fr_md5_local_final md5_ctx))"

text \<open>\<open>Inl\<close> is a negative return, the octets missing in the output.\<close>

definition fr_radius_ascend_secret :: "nat \<Rightarrow> bytes \<Rightarrow> bytes \<Rightarrow> bytes \<Rightarrow> int + bytes" where
  "fr_radius_ascend_secret room inp secret vector =
     (if room < 16 then Inl (- int (16 - room))
      else
        let md5_ctx = fr_md5_local_ctx_alloc;
            md5_ctx = fr_md5_local_update md5_ctx vector;
            md5_ctx = fr_md5_local_update md5_ctx secret;
            digest = fst (fr_md5_local_final md5_ctx);
            inlen = (if 16 < length inp then 16 else length inp)
        in Inr (patch digest 0 (xor_bytes (take inlen digest) (take inlen inp))))"

subsection \<open>User passwords\<close>

text \<open>The loop over the blocks: \<open>md5_ctx_old\<close>, the length, the position, \<open>md5_ctx\<close> and the array.\<close>

function encode_blocks :: "md5_ctx \<Rightarrow> nat \<Rightarrow> nat \<Rightarrow> md5_ctx \<Rightarrow> bytes \<Rightarrow> bytes option" where
  "encode_blocks md5_ctx_old len n md5_ctx passwd =
     (if n < len then do {
        md5_ctx \<leftarrow> (if 0 < n then do {
                       prev \<leftarrow> rd_mem passwd (n - AUTH_PASS_LEN) AUTH_PASS_LEN;
                       Some (fr_md5_local_update (fr_md5_local_ctx_copy md5_ctx md5_ctx_old) prev) }
                     else Some md5_ctx);
        let (digest, md5_ctx) = fr_md5_local_final md5_ctx;
        block \<leftarrow> rd_mem passwd n AUTH_PASS_LEN;
        passwd \<leftarrow> wr_mem passwd n (xor_bytes block digest);
        encode_blocks md5_ctx_old len (n + AUTH_PASS_LEN) md5_ctx passwd }
      else Some passwd)"
  by pat_completeness auto
termination
  by (relation "measure (\<lambda>(old, len, n, ctx, passwd). len - n)") auto

declare encode_blocks.simps [simp del]

definition encode_password :: "nat \<Rightarrow> bytes \<Rightarrow> bytes \<Rightarrow> bytes \<Rightarrow> (int + bytes) option" where
  "encode_password room inp secret vector = do {
     let len = length inp;
     let len = (if RADIUS_MAX_PASS_LENGTH < len then RADIUS_MAX_PASS_LENGTH else len);
     passwd \<leftarrow> wr_mem (replicate RADIUS_MAX_PASS_LENGTH 0) 0 (take len inp);
     let len = (if len = 0 then AUTH_PASS_LEN
                else if len mod 16 \<noteq> 0 then 16 * ((len + 15) div 16) else len);
     let md5_ctx_old = fr_md5_local_update fr_md5_local_ctx_alloc secret;
     let md5_ctx = fr_md5_local_update md5_ctx_old vector;
     passwd \<leftarrow> encode_blocks md5_ctx_old len 0 md5_ctx passwd;
     Some (if room < len then Inl (- int (len - room)) else Inr (take len passwd)) }"

function decode_blocks :: "md5_ctx \<Rightarrow> nat \<Rightarrow> nat \<Rightarrow> md5_ctx \<Rightarrow> bytes \<Rightarrow> bytes \<Rightarrow> bytes option" where
  "decode_blocks md5_ctx_old pwlen n md5_ctx vector passwd =
     (if n < pwlen then do {
        let md5_ctx = (if n = 0 then fr_md5_local_update md5_ctx vector else md5_ctx);
        let (digest, md5_ctx) = fr_md5_local_final md5_ctx;
        let md5_ctx = fr_md5_local_ctx_copy md5_ctx md5_ctx_old;
        md5_ctx \<leftarrow> (if n + AUTH_PASS_LEN < pwlen then do {
                       block \<leftarrow> rd_mem passwd n AUTH_PASS_LEN;
                       Some (fr_md5_local_update md5_ctx block) }
                     else Some md5_ctx);
        block \<leftarrow> rd_mem passwd n AUTH_PASS_LEN;
        passwd \<leftarrow> wr_mem passwd n (xor_bytes block digest);
        decode_blocks md5_ctx_old pwlen (n + AUTH_PASS_LEN) md5_ctx vector passwd }
      else Some passwd)"
  by pat_completeness auto
termination
  by (relation "measure (\<lambda>(old, len, n, ctx, v, passwd). len - n)") auto

declare decode_blocks.simps [simp del]

text \<open>The length of the string, and the buffer.\<close>

definition fr_radius_decode_password :: "bytes \<Rightarrow> nat \<Rightarrow> bytes \<Rightarrow> bytes \<Rightarrow> (nat \<times> bytes) option" where
  "fr_radius_decode_password passwd pwlen secret vector = do {
     let pwlen = (if 128 < pwlen then 128 else pwlen);
     passwd \<leftarrow> (if pwlen = 0 then Some passwd
                else
                  let md5_ctx = fr_md5_local_update fr_md5_local_ctx_alloc secret
                  in decode_blocks md5_ctx pwlen 0 md5_ctx vector passwd);
     passwd \<leftarrow> wr_mem passwd pwlen [0];
     n \<leftarrow> strlen passwd;
     Some (n, passwd) }"

subsection \<open>Tunnel passwords\<close>

function tunnel_encode_blocks :: "md5_ctx \<Rightarrow> nat \<Rightarrow> nat \<Rightarrow> md5_ctx \<Rightarrow> bytes \<Rightarrow> bytes option" where
  "tunnel_encode_blocks md5_ctx_old encrypted_len n md5_ctx tpasswd =
     (if n < encrypted_len then do {
        md5_ctx \<leftarrow> (if 0 < n then do {
                       prev \<leftarrow> rd_mem tpasswd (2 + n - AUTH_PASS_LEN) AUTH_PASS_LEN;
                       Some (fr_md5_local_update (fr_md5_local_ctx_copy md5_ctx md5_ctx_old) prev) }
                     else Some md5_ctx);
        let (digest, md5_ctx) = fr_md5_local_final md5_ctx;
        let block_len = encrypted_len - n;
        let block_len = (if AUTH_PASS_LEN < block_len then AUTH_PASS_LEN else block_len);
        block \<leftarrow> rd_mem tpasswd (2 + n) block_len;
        tpasswd \<leftarrow> wr_mem tpasswd (2 + n) (xor_bytes block digest);
        tunnel_encode_blocks md5_ctx_old encrypted_len (n + AUTH_PASS_LEN) md5_ctx tpasswd }
      else Some tpasswd)"
  by pat_completeness auto
termination
  by (relation "measure (\<lambda>(old, len, n, ctx, passwd). len - n)") auto

declare tunnel_encode_blocks.simps [simp del]

definition encode_tunnel_password :: "nat \<Rightarrow> bytes \<Rightarrow> radius_ctx \<Rightarrow> ((int + bytes) \<times> radius_ctx) option" where
  "encode_tunnel_password room inp packet_ctx =
     (let inlen = length inp;
          room = (if RADIUS_MAX_STRING_LENGTH < room then RADIUS_MAX_STRING_LENGTH else room);
          fail = Some (Inl (- int (inlen + 3)), packet_ctx)
      in if RADIUS_MAX_STRING_LENGTH - 3 < inlen then fail
         else
           let encrypted_len = ROUND_UP (inlen + 1) 16;
               encrypted_len = (if RADIUS_MAX_STRING_LENGTH - 2 < encrypted_len
                                then RADIUS_MAX_STRING_LENGTH - 2 else encrypted_len);
               padding = encrypted_len - (inlen + 1);
               output_len = encrypted_len + 2
           in if room < output_len \<and> padding < output_len - room then fail
              else do {
                let output_len = (if room < output_len then room else output_len);
                let (fill, rand_ctx) = rand_fill (RADIUS_MAX_STRING_LENGTH - (3 + inlen)) (rc_rand packet_ctx);
                let (r, rand_ctx) = fr_fast_rand rand_ctx;
                let salt0 = 0x80 OR push_bit 4 (ucast (rc_salt_offset packet_ctx) AND 0x07) OR
                            (ucast (drop_bit 8 r) AND 0x0f);
                let tpasswd = [salt0, ucast r, word_of_nat inlen] @ inp @ fill;
                let md5_ctx_old = fr_md5_local_update fr_md5_local_ctx_alloc (rc_secret packet_ctx);
                let md5_ctx = fr_md5_local_update md5_ctx_old (rc_vector packet_ctx);
                let md5_ctx = fr_md5_local_update md5_ctx (take 2 tpasswd);
                tpasswd \<leftarrow> tunnel_encode_blocks md5_ctx_old encrypted_len 0 md5_ctx tpasswd;
                out \<leftarrow> rd_mem tpasswd 0 output_len;
                Some (Inr out, packet_ctx\<lparr>rc_rand := rand_ctx, rc_salt_offset := rc_salt_offset packet_ctx + 1\<rparr>) })"

text \<open>The loop of the decoder; \<open>Inl\<close> when the embedded length is too long.\<close>

function tunnel_decode_blocks ::
  "md5_ctx \<Rightarrow> nat \<Rightarrow> nat \<Rightarrow> md5_ctx \<Rightarrow> nat \<Rightarrow> bytes \<Rightarrow> (bytes + nat \<times> bytes) option" where
  "tunnel_decode_blocks md5_ctx_old pwlen n md5_ctx embedded_len passwd =
     (let encrypted_len = pwlen - 2 in
      if n < encrypted_len then do {
        let block_len = (if pwlen < n + 2 + AUTH_PASS_LEN then pwlen - n - 2 else AUTH_PASS_LEN);
        let base = (if n = 0 then 1 else 0);
        let (digest, md5_ctx) = fr_md5_local_final md5_ctx;
        let md5_ctx = fr_md5_local_ctx_copy md5_ctx md5_ctx_old;
        c \<leftarrow> rd8 passwd 2;
        let embedded_len = (if n = 0 then unat (c XOR digest ! 0) else embedded_len);
        if n = 0 \<and> encrypted_len < embedded_len then Some (Inl passwd)
        else do {
          block \<leftarrow> rd_mem passwd (n + 2) block_len;
          let md5_ctx = fr_md5_local_update md5_ctx block;
          passwd \<leftarrow> wr_mem passwd (n + base - 1) (drop base (xor_bytes block digest));
          tunnel_decode_blocks md5_ctx_old pwlen (n + AUTH_PASS_LEN) md5_ctx embedded_len passwd } }
      else Some (Inr (embedded_len, passwd)))"
  by pat_completeness auto
termination
  by (relation "measure (\<lambda>(old, pwlen, n, ctx, e, passwd). pwlen - n)") auto

declare tunnel_decode_blocks.simps [simp del]

text \<open>The return value, \<open>*pwlen\<close> and the buffer.\<close>

definition fr_radius_decode_tunnel_password ::
  "bytes \<Rightarrow> nat \<Rightarrow> bytes \<Rightarrow> bytes \<Rightarrow> bool \<Rightarrow> (int \<times> nat \<times> bytes) option" where
  "fr_radius_decode_tunnel_password passwd pwlen secret vector tunnel_password_zeros =
     (let encrypted_len = pwlen in
      if encrypted_len < 2 then Some (-1, pwlen, passwd)
      else if encrypted_len \<le> 3 then do {
        passwd \<leftarrow> wr_mem passwd 0 [0];
        Some (0, 0, passwd) }
      else do {
        let encrypted_len = encrypted_len - 2;
        let md5_ctx_old = fr_md5_local_update fr_md5_local_ctx_alloc secret;
        let md5_ctx = fr_md5_local_update md5_ctx_old vector;
        salt \<leftarrow> rd_mem passwd 0 2;
        let md5_ctx = fr_md5_local_update md5_ctx salt;
        res \<leftarrow> tunnel_decode_blocks md5_ctx_old pwlen 0 md5_ctx 0 passwd;
        (case res of
           Inl passwd \<Rightarrow> Some (-1, pwlen, passwd)
         | Inr (embedded_len, passwd) \<Rightarrow>
             if tunnel_password_zeros \<and> list_ex (\<lambda>i. passwd ! i \<noteq> 0) [embedded_len..<encrypted_len - 1]
             then Some (-1, pwlen, passwd)
             else do {
               passwd \<leftarrow> wr_mem passwd embedded_len [0];
               Some (int embedded_len, embedded_len, passwd) }) })"

subsection \<open>Decrypting an attribute\<close>

fun strip_zeros :: "bytes \<Rightarrow> nat \<Rightarrow> nat" where
  "strip_zeros buffer 0 = 0"
| "strip_zeros buffer (Suc n) = (if buffer ! n = 0 then strip_zeros buffer n else Suc n)"

text \<open>What the dictionary says of an attribute: its data type, whether its flags have an \<open>extra\<close> meaning, and its subtype.\<close>

datatype attr_type = FR_TYPE_STRING | FR_TYPE_OCTETS | FR_TYPE_UINT32 | FR_TYPE_OTHER

definition flag_has_tag :: "bool \<Rightarrow> attr_flag \<Rightarrow> bool" where
  "flag_has_tag extra subtype \<longleftrightarrow> \<not> extra \<and> (subtype = FLAG_HAS_TAG \<or> subtype = FLAG_TAGGED_TUNNEL_PASSWORD)"

definition flag_encrypted :: "bool \<Rightarrow> attr_flag \<Rightarrow> bool" where
  "flag_encrypted extra subtype \<longleftrightarrow> \<not> extra \<and>
     subtype \<in> {FLAG_TAGGED_TUNNEL_PASSWORD, FLAG_ENCRYPT_USER_PASSWORD, FLAG_ENCRYPT_TUNNEL_PASSWORD, FLAG_ENCRYPT_ASCEND_SECRET}"

text \<open>The tag in front of the value: the tag, whether the value was copied to the buffer on the stack (\<open>p = buffer\<close>), \<open>data_len\<close> and the buffer;
  the inner \<open>None\<close> is \<open>goto raw\<close>.\<close>

definition decode_tag :: "bool \<Rightarrow> attr_flag \<Rightarrow> attr_type \<Rightarrow> bytes \<Rightarrow> bytes \<Rightarrow> (byte \<times> bool \<times> nat \<times> bytes) option option" where
  "decode_tag extra subtype ty buffer data =
     (let attr_len = length data in
      if \<not> flag_has_tag extra subtype then Some (Some (0, False, attr_len, buffer))
      else do {
        t \<leftarrow> rd8 data 0;
        if ty = FR_TYPE_UINT32 \<and> (attr_len \<noteq> 4 \<or> 0x20 \<le> t) then Some None
        else if ty \<noteq> FR_TYPE_UINT32 \<and> ty \<noteq> FR_TYPE_STRING then Some None
        else if t < 0x20 then
          if length buffer \<le> attr_len then Some None
          else if ty = FR_TYPE_STRING then do {
            v \<leftarrow> rd_mem data 1 (attr_len - 1);
            buffer \<leftarrow> wr_mem buffer 0 v;
            Some (Some (t, True, attr_len - 1, buffer)) }
          else do {
            buffer \<leftarrow> wr_mem buffer 0 data;
            buffer \<leftarrow> wr_mem buffer 0 [0];
            Some (Some (t, True, attr_len, buffer)) }
        else Some (Some (0, False, attr_len, buffer)) })"

text \<open>The switch over the kinds of encryption, on the buffer: the new \<open>data_len\<close> and buffer, or \<open>goto raw\<close>. \<open>flags_length\<close> is the length in the dictionary.\<close>

definition decrypt_buffer :: "attr_flag \<Rightarrow> attr_type \<Rightarrow> nat \<Rightarrow> radius_ctx \<Rightarrow> nat \<Rightarrow> nat \<Rightarrow> bytes \<Rightarrow> (nat \<times> bytes) option option" where
  "decrypt_buffer subtype ty flags_length packet_ctx attr_len data_len buffer =
     (case subtype of
        FLAG_ENCRYPT_USER_PASSWORD \<Rightarrow> do {
          (n, buffer) \<leftarrow> fr_radius_decode_password buffer attr_len (rc_secret packet_ctx) (rc_vector packet_ctx);
          buffer \<leftarrow> wr_mem buffer 253 [0];
          let data_len = (if flags_length \<noteq> 0 then if flags_length < data_len then flags_length else data_len
                          else strip_zeros buffer data_len);
          Some (Some (data_len, buffer)) }
      | FLAG_TAGGED_TUNNEL_PASSWORD \<Rightarrow> do {
          (rc, data_len, buffer) \<leftarrow> fr_radius_decode_tunnel_password buffer data_len
            (rc_secret packet_ctx) (rc_vector packet_ctx) (rc_tunnel_password_zeros packet_ctx);
          Some (if rc < 0 then None else Some (data_len, buffer)) }
      | FLAG_ENCRYPT_TUNNEL_PASSWORD \<Rightarrow> do {
          (rc, data_len, buffer) \<leftarrow> fr_radius_decode_tunnel_password buffer data_len
            (rc_secret packet_ctx) (rc_vector packet_ctx) (rc_tunnel_password_zeros packet_ctx);
          Some (if rc < 0 then None else Some (data_len, buffer)) }
      | FLAG_ENCRYPT_ASCEND_SECRET \<Rightarrow> do {
          p \<leftarrow> rd_mem buffer 0 data_len;
          buffer \<leftarrow> (case fr_radius_ascend_secret (length buffer) p (rc_secret packet_ctx) (rc_vector packet_ctx) of
                       Inl e \<Rightarrow> Some buffer
                     | Inr out \<Rightarrow> wr_mem buffer 0 out);
          buffer \<leftarrow> wr_mem buffer 16 [0];
          data_len \<leftarrow> strlen buffer;
          Some (Some (data_len, buffer)) }
      | _ \<Rightarrow>
          let data_len = (if ty = FR_TYPE_OCTETS \<and> flags_length \<noteq> 0 \<and> flags_length < data_len then flags_length else data_len)
          in Some (Some (data_len, buffer)))"

text \<open>What \<open>fr_radius_decode_pair_value\<close> makes of an attribute before it looks at its type: an empty one is ignored, a bad one kept raw, any other
  one has a tag (or \<open>0\<close>) and a value, decrypted where the dictionary says so. \<open>buffer\<close> is the array on the stack.\<close>

datatype decoded = Ignored | Raw | Value byte bytes

definition decrypt_value ::
  "bool \<Rightarrow> attr_flag \<Rightarrow> attr_type \<Rightarrow> nat \<Rightarrow> radius_ctx \<Rightarrow> bytes \<Rightarrow> bytes \<Rightarrow> decoded option" where
  "decrypt_value extra subtype ty flags_length packet_ctx buffer data =
     (let attr_len = length data in
      if attr_len = 0 then Some Ignored
      else do {
        tagged \<leftarrow> decode_tag extra subtype ty buffer data;
        (case tagged of
           None \<Rightarrow> Some Raw
         | Some (tag, copied, data_len, buffer) \<Rightarrow>
             if flag_encrypted extra subtype then
               if 253 < attr_len then Some Raw
               else do {
                 buffer \<leftarrow> (if copied then Some buffer else wr_mem buffer 0 data);
                 res \<leftarrow> decrypt_buffer subtype ty flags_length packet_ctx attr_len data_len buffer;
                 Some (case res of None \<Rightarrow> Raw | Some (data_len, buffer) \<Rightarrow> Value tag (take data_len buffer)) }
             else Some (Value tag (take data_len (if copied then buffer else data)))) })"


section \<open>Chained hiding\<close>

text \<open>RFC 2865, section 5.2, and RFC 2868, section 3.5: each block is combined with the digest of the
  secret and the hidden block before it, the first with the digest of the secret and an initial value.\<close>

function hide :: "(bytes \<Rightarrow> bytes) \<Rightarrow> bytes \<Rightarrow> bytes \<Rightarrow> bytes \<Rightarrow> bytes" where
  "hide h secret iv p =
     (if p = [] then []
      else let c = xor_bytes (take 16 p) (h (secret @ iv)) in c @ hide h secret c (drop 16 p))"
  by pat_completeness auto
termination by (relation "measure (\<lambda>(h, secret, iv, p). length p)") auto

function unhide :: "(bytes \<Rightarrow> bytes) \<Rightarrow> bytes \<Rightarrow> bytes \<Rightarrow> bytes \<Rightarrow> bytes" where
  "unhide h secret iv c =
     (if c = [] then []
      else xor_bytes (take 16 c) (h (secret @ iv)) @ unhide h secret (take 16 c) (drop 16 c))"
  by pat_completeness auto
termination by (relation "measure (\<lambda>(h, secret, iv, p). length p)") auto

declare hide.simps [simp del] unhide.simps [simp del]

locale hiding =
  fixes h :: "bytes \<Rightarrow> bytes"
  assumes length_h: "length (h x) = 16"
begin

lemma hide_Nil [simp]: "hide h secret iv [] = []"
  by (simp add: hide.simps)

lemma unhide_Nil [simp]: "unhide h secret iv [] = []"
  by (simp add: unhide.simps)

lemma hide_block:
  "p \<noteq> [] \<Longrightarrow> hide h secret iv p =
     xor_bytes (take 16 p) (h (secret @ iv)) @ hide h secret (xor_bytes (take 16 p) (h (secret @ iv))) (drop 16 p)"
  by (simp add: hide.simps [of h secret iv p] Let_def)

lemma unhide_block:
  "c \<noteq> [] \<Longrightarrow> unhide h secret iv c =
     xor_bytes (take 16 c) (h (secret @ iv)) @ unhide h secret (take 16 c) (drop 16 c)"
  by (simp add: unhide.simps [of h secret iv c])

lemma length_hide [simp]: "length (hide h secret iv p) = length p"
proof (induction p arbitrary: iv rule: length_induct)
  case (1 p)
  then show ?case by (cases "p = []") (simp_all add: hide_block length_h)
qed

lemma length_unhide [simp]: "length (unhide h secret iv c) = length c"
proof (induction c arbitrary: iv rule: length_induct)
  case (1 c)
  then show ?case by (cases "c = []") (simp_all add: unhide_block length_h)
qed

lemma unhide_hide: "unhide h secret iv (hide h secret iv p) = p"
proof (induction p arbitrary: iv rule: length_induct)
  case (1 p)
  show ?case
  proof (cases "p = []")
    case False
    let ?c = "xor_bytes (take 16 p) (h (secret @ iv))"
    have len: "length ?c = min 16 (length p)" by (simp add: length_h)
    have x: "xor_bytes ?c (h (secret @ iv)) = take 16 p" by (simp add: length_h)
    have IH: "unhide h secret iv' (hide h secret iv' (drop 16 p)) = drop 16 p" for iv'
      using 1 False by simp
    have t: "take 16 (?c @ hide h secret ?c (drop 16 p)) = ?c" "drop 16 (?c @ hide h secret ?c (drop 16 p)) = hide h secret ?c (drop 16 p)"
      using len by (cases "16 \<le> length p"; simp)+
    have "0 < length ?c" using False len by simp
    then have ne: "?c @ hide h secret ?c (drop 16 p) \<noteq> []"
      by (simp only: append_is_Nil_conv length_greater_0_conv) simp
    show ?thesis unfolding hide_block [OF False] unhide_block [OF ne] t x IH by simp
  qed simp
qed

text \<open>Hiding works octet by octet from the front: a truncated ciphertext still yields its part.\<close>

lemma unhide_take: "unhide h secret iv (take k c) = take k (unhide h secret iv c)"
proof (induction c arbitrary: iv k rule: length_induct)
  case (1 c)
  show ?case
  proof (cases "c = [] \<or> k = 0")
    case False
    then have c: "c \<noteq> []" "take k c \<noteq> []" by auto
    have IH: "unhide h secret iv' (take k' (drop 16 c)) = take k' (unhide h secret iv' (drop 16 c))" for iv' k'
      using 1 c(1) by simp
    show ?thesis
    proof (cases "k \<le> 16")
      case True
      have "xor_bytes (take k c) (h (secret @ iv)) = take k (xor_bytes (take 16 c) (h (secret @ iv)))"
        using True by (intro nth_equalityI) (auto simp: length_h)
      then show ?thesis using True unfolding unhide_block [OF c(1)] unhide_block [OF c(2)]
        by (cases "k \<le> length c") (simp_all add: length_h)
    next
      case False
      then have "take 16 (take k c) = take 16 c" "drop 16 (take k c) = take (k - 16) (drop 16 c)"
        by (simp_all add: drop_take)
      then show ?thesis using False unfolding unhide_block [OF c(1)] unhide_block [OF c(2)]
        by (cases "16 \<le> length c") (simp_all add: length_h IH)
    qed
  qed auto
qed

end

interpretation md5h: hiding md5_hash
  by unfold_locales simp


section \<open>The loops hide and reveal\<close>

definition secret_ok :: "bytes \<Rightarrow> bool" where
  "secret_ok secret \<longleftrightarrow> length secret + 128 < md5_limit"

abbreviation old_ctx :: "bytes \<Rightarrow> md5_ctx" where
  "old_ctx secret \<equiv> fr_md5_local_update fr_md5_local_ctx_alloc secret"

lemma digest_after_secret:
  "secret_ok secret \<Longrightarrow> length b \<le> 16 \<Longrightarrow>
   fst (fr_md5_local_final (fr_md5_local_update (old_ctx secret) b)) = md5_hash (secret @ b)"
  unfolding fr_md5_local_ctx_alloc_def secret_ok_def by (rule md5d.digest2) simp

lemma digest_after_secret2:
  "secret_ok secret \<Longrightarrow> length b + length d \<le> 32 \<Longrightarrow>
   fst (fr_md5_local_final (fr_md5_local_update (fr_md5_local_update (old_ctx secret) b) d)) = md5_hash (secret @ b @ d)"
  unfolding fr_md5_local_ctx_alloc_def secret_ok_def by (rule md5d.digest3) simp

text \<open>One step of a loop on the part of a buffer it works on.\<close>

lemma chunk_0 [simp]: "chunk p i 0 = []"
  by (simp add: chunk_def)

lemma patch_parts: "i + length v \<le> length p \<Longrightarrow> patch p i v = take i p @ v @ drop (i + length v) p"
  by (simp add: patch_def)

lemma hide_step:
  assumes "i + length b \<le> length p" "b \<noteq> []" "chunk p i (length b) = b" "length b = 16 \<or> m = 0"
    and "i + length b + m \<le> length p" "c = xor_bytes b (md5_hash (secret @ iv))" "length b \<le> 16"
  shows "take (i + length b) (patch p i c) @ hide md5_hash secret c (chunk (patch p i c) (i + length b) m) @ drop (i + length b + m) (patch p i c)
    = take i p @ hide md5_hash secret iv (chunk p i (length b + m)) @ drop (i + length b + m) p"
proof -
  have c: "length c = length b" using assms(6,7) by simp
  have ne: "chunk p i (length b + m) \<noteq> []" using assms(2,5) by simp
  have t: "take 16 (chunk p i (length b + m)) = b" "drop 16 (chunk p i (length b + m)) = chunk p (i + length b) m"
    using assms(3,4,5,7) by (auto simp: chunk_append)
  have r: "chunk (patch p i c) (i + length b) m = chunk p (i + length b) m" using c assms(1,5) by simp
  have "hide md5_hash secret iv (chunk p i (length b + m)) = c @ hide md5_hash secret c (chunk p (i + length b) m)"
    unfolding md5h.hide_block [OF ne] t assms(6) ..
  moreover have "take (i + length b) (patch p i c) = take i p @ c" "drop (i + length b + m) (patch p i c) = drop (i + length b + m) p"
    using c assms(1) by (simp_all add: patch_def add.commute add.left_commute)
  ultimately show ?thesis using r by simp
qed

lemma encode_blocks_hide:
  assumes "secret_ok secret" "n + 16 * k \<le> length passwd" "16 dvd n"
    and "fst (fr_md5_local_final (if 0 < n then fr_md5_local_update (old_ctx secret) (chunk passwd (n - 16) 16) else md5_ctx))
         = md5_hash (secret @ iv)"
  shows "encode_blocks (old_ctx secret) (n + 16 * k) n md5_ctx passwd =
    Some (take n passwd @ hide md5_hash secret iv (chunk passwd n (16 * k)) @ drop (n + 16 * k) passwd)"
  using assms
proof (induction k arbitrary: n md5_ctx passwd iv)
  case 0
  then show ?case by (simp add: encode_blocks.simps chunk_def)
next
  case (Suc k)
  define c where "c = xor_bytes (chunk passwd n 16) (md5_hash (secret @ iv))"
  have n16: "0 < n \<Longrightarrow> 16 \<le> n" using Suc.prems(3) by (auto dest: dvd_imp_le)
  have lc: "length c = 16" using Suc.prems(2) by (simp add: c_def)
  let ?p = "patch passwd n c"
  have prev: "chunk ?p (n + 16 - 16) 16 = c" using lc Suc.prems(2) by simp
  define ctx0 where "ctx0 = (if 0 < n then fr_md5_local_update (old_ctx secret) (chunk passwd (n - 16) 16) else md5_ctx)"
  obtain ctx' where f: "fr_md5_local_final ctx0 = (md5_hash (secret @ iv), ctx')"
    using Suc.prems(4) by (cases "fr_md5_local_final ctx0") (simp add: ctx0_def)
  have step: "encode_blocks (old_ctx secret) (n + 16 * Suc k) n md5_ctx passwd =
      encode_blocks (old_ctx secret) ((n + 16) + 16 * k) (n + 16) ctx' ?p"
    by (subst encode_blocks.simps, cases "0 < n")
       (use f Suc.prems(2) n16 lc in \<open>simp_all add: fr_md5_local_ctx_copy_def c_def ctx0_def add.assoc\<close>)
  have "encode_blocks (old_ctx secret) ((n + 16) + 16 * k) (n + 16) ctx' ?p =
      Some (take (n + 16) ?p @ hide md5_hash secret c (chunk ?p (n + 16) (16 * k)) @ drop ((n + 16) + 16 * k) ?p)"
    by (rule Suc.IH) (use Suc.prems prev lc in \<open>simp_all add: digest_after_secret\<close>)
  moreover have "take (n + 16) ?p @ hide md5_hash secret c (chunk ?p (n + 16) (16 * k)) @ drop (n + 16 + 16 * k) ?p =
      take n passwd @ hide md5_hash secret iv (chunk passwd n (16 + 16 * k)) @ drop (n + 16 + 16 * k) passwd"
    using hide_step [of n "chunk passwd n 16" passwd "16 * k" c secret iv] Suc.prems(2) c_def by simp
  ultimately show ?case using step by (simp add: add.assoc)
qed


lemma unhide_step:
  assumes "b \<noteq> []" "chunk p i (length b) = b" "length b = 16 \<or> m = 0"
    and "i + length b + m \<le> length p" "c = xor_bytes b (md5_hash (secret @ iv))" "length b \<le> 16"
  shows "unhide md5_hash secret iv (chunk p i (length b + m)) = c @ unhide md5_hash secret b (chunk p (i + length b) m)"
proof -
  have ne: "chunk p i (length b + m) \<noteq> []" using assms(1,4) by simp
  have t: "take 16 (chunk p i (length b + m)) = b" "drop 16 (chunk p i (length b + m)) = chunk p (i + length b) m"
    using assms(2,3,4,6) by (auto simp: chunk_append)
  show ?thesis unfolding md5h.unhide_block [OF ne] t assms(5) ..
qed

lemma decode_blocks_unhide:
  assumes "secret_ok secret" "n + 16 * k \<le> length passwd" "16 dvd n"
    and "pwlen \<le> n + 16 * k" "0 < k \<Longrightarrow> n + 16 * k < pwlen + 16"
    and "0 < k \<Longrightarrow> fst (fr_md5_local_final (if n = 0 then fr_md5_local_update md5_ctx vector else md5_ctx))
         = md5_hash (secret @ iv)"
  shows "decode_blocks (old_ctx secret) pwlen n md5_ctx vector passwd =
    Some (take n passwd @ unhide md5_hash secret iv (chunk passwd n (16 * k)) @ drop (n + 16 * k) passwd)"
  using assms
proof (induction k arbitrary: n md5_ctx passwd iv)
  case 0
  then show ?case by (simp add: decode_blocks.simps)
next
  case (Suc k)
  define b where "b = chunk passwd n 16"
  define c where "c = xor_bytes b (md5_hash (secret @ iv))"
  have lb: "length b = 16" "length c = 16" using Suc.prems(2) by (simp_all add: b_def c_def)
  have nlt: "n < pwlen" using Suc.prems(5) by simp
  let ?p = "patch passwd n c"
  define ctx0 where "ctx0 = (if n = 0 then fr_md5_local_update md5_ctx vector else md5_ctx)"
  obtain ctx1 where f: "fr_md5_local_final ctx0 = (md5_hash (secret @ iv), ctx1)"
    using Suc.prems(6) by (cases "fr_md5_local_final ctx0") (simp add: ctx0_def)
  define ctx' where "ctx' = (if n + 16 < pwlen then fr_md5_local_update (old_ctx secret) b else old_ctx secret)"
  have step: "decode_blocks (old_ctx secret) pwlen n md5_ctx vector passwd =
      decode_blocks (old_ctx secret) pwlen (n + 16) ctx' vector ?p"
    by (subst decode_blocks.simps)
       (use f Suc.prems(2) nlt lb in \<open>simp add: fr_md5_local_ctx_copy_def c_def b_def ctx0_def ctx'_def Let_def\<close>)
  have "decode_blocks (old_ctx secret) pwlen (n + 16) ctx' vector ?p =
      Some (take (n + 16) ?p @ unhide md5_hash secret b (chunk ?p (n + 16) (16 * k)) @ drop ((n + 16) + 16 * k) ?p)"
    by (rule Suc.IH) (use Suc.prems lb in \<open>auto simp: digest_after_secret ctx'_def\<close>)
  moreover have "take (n + 16) ?p = take n passwd @ c" "drop (n + 16 + 16 * k) ?p = drop (n + 16 + 16 * k) passwd"
      "chunk ?p (n + 16) (16 * k) = chunk passwd (n + 16) (16 * k)"
    using lb Suc.prems(2) by (simp_all add: patch_def [of passwd n c] chunk_def ac_simps)
  moreover have "unhide md5_hash secret iv (chunk passwd n (16 + 16 * k)) = c @ unhide md5_hash secret b (chunk passwd (n + 16) (16 * k))"
    using unhide_step [of b passwd n "16 * k" c secret iv] lb Suc.prems(2) c_def b_def by fastforce
  ultimately show ?case using step by (simp add: add.assoc)
qed


subsection \<open>User passwords\<close>

definition padded_len :: "nat \<Rightarrow> nat" where
  "padded_len n = (if n = 0 then 16 else 16 * ((n + 15) div 16))"

definition pad_password :: "bytes \<Rightarrow> bytes" where
  "pad_password pw = pw @ replicate (padded_len (length pw) - length pw) 0"

lemma padded_len_bounds: "n \<le> padded_len n" "0 < padded_len n" "16 dvd padded_len n" "n \<le> 128 \<Longrightarrow> padded_len n \<le> 128"
  by (auto simp: padded_len_def)

lemma length_pad_password [simp]: "length (pad_password pw) = padded_len (length pw)"
  using padded_len_bounds(1) [of "length pw"] by (simp add: pad_password_def)

lemma encode_password_hide:
  assumes "secret_ok secret" "length vector = 16"
  shows "encode_password room inp secret vector =
    (let pw = take 128 inp; len = padded_len (length pw) in
     Some (if room < len then Inl (- int (len - room)) else Inr (hide md5_hash secret vector (pad_password pw))))"
proof -
  define pw where "pw = take 128 inp"
  define len where "len = padded_len (length pw)"
  have l: "(if 128 < length inp then 128 else length inp) = length pw" "take (length pw) inp = pw"
    by (auto simp: pw_def min_def)
  have rl: "(if length pw = 0 then 16 else if length pw mod 16 \<noteq> 0 then 16 * ((length pw + 15) div 16) else length pw) = len"
    by (auto simp: len_def padded_len_def)
  have b: "length pw \<le> 128" "length pw \<le> len" "len \<le> 128" "16 dvd len"
    using padded_len_bounds [of "length pw"] by (simp_all add: pw_def len_def)
  obtain k where k: "len = 16 * k" using b(4) by blast
  have w: "wr_mem (replicate 128 0) 0 pw = Some (pw @ replicate (128 - length pw) 0)"
    using b(1) by (simp add: patch_def)
  have c: "chunk (pw @ replicate (128 - length pw) 0) 0 len = pad_password pw"
    using b by (simp add: chunk_def pad_password_def len_def)
  have e: "encode_blocks (old_ctx secret) len 0 (fr_md5_local_update (old_ctx secret) vector) (pw @ replicate (128 - length pw) 0)
      = Some (hide md5_hash secret vector (pad_password pw) @ drop len (pw @ replicate (128 - length pw) 0))"
    using encode_blocks_hide [of secret 0 k "pw @ replicate (128 - length pw) 0" "fr_md5_local_update (old_ctx secret) vector" vector]
      assms b c by (simp add: k digest_after_secret)
  show ?thesis
    unfolding encode_password_def Let_def l rl
    using w e len_def by (simp add: Let_def flip: pw_def)
qed

lemma strlen_total: "0 \<in> set b \<Longrightarrow> \<exists>n. strlen b = Some n"
  by (induction b) auto

lemma strip_zeros_eq:
  "m \<le> n \<Longrightarrow> (\<And>i. m \<le> i \<Longrightarrow> i < n \<Longrightarrow> b ! i = 0) \<Longrightarrow> (0 < m \<Longrightarrow> b ! (m - 1) \<noteq> 0) \<Longrightarrow> strip_zeros b n = m"
proof (induction n)
  case (Suc n)
  then show ?case by (cases "m = Suc n") auto
qed simp

lemma fr_radius_decode_password_unhide:
  assumes "secret_ok secret" "length vector = 16" "length passwd = 16 * k" "0 < k" "k \<le> 8" "129 \<le> length (passwd @ rest)"
  obtains n where "fr_radius_decode_password (passwd @ rest) (16 * k) secret vector =
    Some (n, unhide md5_hash secret vector passwd @ 0 # drop 1 rest)"
proof -
  let ?u = "unhide md5_hash secret vector passwd"
  have r: "rest \<noteq> []" using assms(3,5,6) by auto
  have d: "decode_blocks (old_ctx secret) (16 * k) 0 (old_ctx secret) vector (passwd @ rest) = Some (?u @ rest)"
    using decode_blocks_unhide [of secret 0 k "passwd @ rest" "16 * k" "old_ctx secret" vector vector] assms(1-4)
    by (simp add: digest_after_secret chunk_def)
  have w: "wr_mem (?u @ rest) (16 * k) [0] = Some (?u @ 0 # drop 1 rest)"
    using r assms(3) by (cases rest) (simp_all add: patch_def)
  obtain n where "strlen (?u @ 0 # drop 1 rest) = Some n" using strlen_total [of "?u @ 0 # drop 1 rest"] by auto
  then show thesis
    using that assms(4,5) d w by (simp add: fr_radius_decode_password_def Let_def)
qed

lemma user_password_roundtrip:
  assumes "secret_ok (rc_secret ctx)" "length (rc_vector ctx) = 16" "length pw \<le> 128" "pw = [] \<or> last pw \<noteq> 0"
    and "length buffer = 256"
  shows "decrypt_value False FLAG_ENCRYPT_USER_PASSWORD ty 0 ctx buffer
      (hide md5_hash (rc_secret ctx) (rc_vector ctx) (pad_password pw)) = Some (Value 0 pw)"
proof -
  let ?h = "hide md5_hash (rc_secret ctx) (rc_vector ctx) (pad_password pw)"
  let ?n = "padded_len (length pw)"
  have b: "0 < ?n" "16 dvd ?n" "?n \<le> 128" "length pw \<le> ?n" using padded_len_bounds [of "length pw"] assms(3) by simp_all
  then obtain k where k: "?n = 16 * k" by blast
  have w: "wr_mem buffer 0 ?h = Some (?h @ drop ?n buffer)" using b assms(5) by (simp add: patch_def)
  obtain n where d: "fr_radius_decode_password (?h @ drop ?n buffer) ?n (rc_secret ctx) (rc_vector ctx) =
      Some (n, pad_password pw @ 0 # drop 1 (drop ?n buffer))"
    using fr_radius_decode_password_unhide [OF assms(1,2), of ?h k "drop ?n buffer"] b assms(5) k
    by (auto simp: md5h.unhide_hide)
  define buf where "buf = patch (pad_password pw @ 0 # drop 1 (drop ?n buffer)) 253 [0]"
  have w2: "wr_mem (pad_password pw @ 0 # drop 1 (drop ?n buffer)) 253 [0] = Some buf"
    using b assms(5) by (simp add: buf_def)
  have nth: "buf ! i = pad_password pw ! i" if "i < ?n" for i
    using that b assms(5) by (simp add: buf_def nth_patch nth_append)
  have strip: "strip_zeros buf ?n = length pw"
  proof (rule strip_zeros_eq [OF b(4)])
    show "buf ! i = 0" if "length pw \<le> i" "i < ?n" for i
      using that nth by (simp add: pad_password_def nth_append)
    show "buf ! (length pw - 1) \<noteq> 0" if "0 < length pw"
      using that nth [OF less_le_trans [OF _ b(4)], of "length pw - 1"] assms(4) by (auto simp: pad_password_def nth_append last_conv_nth)
  qed
  have "take (length pw) buf = pw"
    using nth b assms(5) by (intro nth_equalityI) (auto simp: buf_def pad_password_def nth_append)
  then show ?thesis using w d w2 strip b
    by (simp add: decrypt_value_def decrypt_buffer_def decode_tag_def flag_has_tag_def flag_encrypted_def Let_def)
qed


subsection \<open>Tunnel passwords\<close>

lemma tunnel_encode_blocks_hide:
  assumes "secret_ok secret" "2 + len \<le> length tp" "16 dvd n" "n \<le> len"
    and "n < len \<Longrightarrow> fst (fr_md5_local_final (if 0 < n then fr_md5_local_update (old_ctx secret) (chunk tp (2 + n - 16) 16) else md5_ctx))
         = md5_hash (secret @ iv)"
  shows "tunnel_encode_blocks (old_ctx secret) len n md5_ctx tp =
    Some (take (2 + n) tp @ hide md5_hash secret iv (chunk tp (2 + n) (len - n)) @ drop (2 + len) tp)"
  using assms
proof (induction "len - n" arbitrary: n md5_ctx tp iv rule: less_induct)
  case less
  show ?case
  proof (cases "n < len")
    case False
    then show ?thesis using less.prems(4) by (simp add: tunnel_encode_blocks.simps)
  next
    case True
    define bl where "bl = min 16 (len - n)"
    define b where "b = chunk tp (2 + n) bl"
    define c where "c = xor_bytes b (md5_hash (secret @ iv))"
    have bl: "bl \<le> 16" "0 < bl" "n + bl \<le> len" "bl = 16 \<or> n + bl = len" "bl < 16 \<longrightarrow> len < n + 16" using True by (auto simp: bl_def)
    have lb: "length b = bl" "length c = bl" using less.prems(2) bl by (simp_all add: b_def c_def)
    have n16: "0 < n \<Longrightarrow> 16 \<le> n" using less.prems(3) by (auto dest: dvd_imp_le)
    let ?p = "patch tp (2 + n) c"
    define ctx0 where "ctx0 = (if 0 < n then fr_md5_local_update (old_ctx secret) (chunk tp (2 + n - 16) 16) else md5_ctx)"
    obtain ctx' where f: "fr_md5_local_final ctx0 = (md5_hash (secret @ iv), ctx')"
      using less.prems(5) [OF True] by (cases "fr_md5_local_final ctx0") (simp add: ctx0_def)
    have bl': "(if 16 < len - n then 16 else len - n) = bl" by (simp add: bl_def)
    have step: "tunnel_encode_blocks (old_ctx secret) len n md5_ctx tp =
        tunnel_encode_blocks (old_ctx secret) len (n + 16) ctx' ?p"
      by (subst tunnel_encode_blocks.simps, unfold Let_def bl', cases "0 < n")
         (use f less.prems(2) n16 lb True bl in \<open>simp_all add: fr_md5_local_ctx_copy_def c_def b_def ctx0_def Let_def\<close>)
    have hs: "take (2 + n + bl) ?p @ hide md5_hash secret c (chunk ?p (2 + n + bl) (len - n - bl)) @ drop (2 + n + bl + (len - n - bl)) ?p =
        take (2 + n) tp @ hide md5_hash secret iv (chunk tp (2 + n) (bl + (len - n - bl))) @ drop (2 + n + bl + (len - n - bl)) tp"
      using hide_step [of "2 + n" b tp "len - n - bl" c secret iv] less.prems(2) bl lb b_def c_def by fastforce
    show ?thesis
    proof (cases "bl = 16 \<and> n + 16 \<le> len")
      case T: True
      have "tunnel_encode_blocks (old_ctx secret) len (n + 16) ctx' ?p =
          Some (take (2 + (n + 16)) ?p @ hide md5_hash secret c (chunk ?p (2 + (n + 16)) (len - (n + 16))) @ drop (2 + len) ?p)"
        by (rule less.hyps) (use less.prems T lb True in \<open>auto simp: digest_after_secret\<close>)
      then show ?thesis using step hs T bl by (simp add: add.assoc)
    next
      case F: False
      then have "\<not> n + 16 < len" "n + bl = len" "len - n = bl" using bl by auto
      then show ?thesis using step hs lb less.prems(2) by (simp add: tunnel_encode_blocks.simps [of _ _ "n + 16"])
    qed
  qed
qed

lemma tunnel_decode_rest:
  assumes "secret_ok secret" "pwlen \<le> length passwd" "16 dvd n" "0 < n" "n \<le> pwlen - 2" "2 \<le> pwlen"
    and "n < pwlen - 2 \<Longrightarrow> fst (fr_md5_local_final md5_ctx) = md5_hash (secret @ iv)"
  shows "tunnel_decode_blocks (old_ctx secret) pwlen n md5_ctx e passwd =
    Some (Inr (e, take (n - 1) passwd @ unhide md5_hash secret iv (chunk passwd (n + 2) (pwlen - 2 - n)) @ drop (pwlen - 3) passwd))"
  using assms
proof (induction "pwlen - n" arbitrary: n md5_ctx passwd iv rule: less_induct)
  case less
  show ?case
  proof (cases "n < pwlen - 2")
    case False
    then have "n - 1 = pwlen - 3" "pwlen - 2 - n = 0" using less.prems by auto
    then show ?thesis using False by (simp add: tunnel_decode_blocks.simps)
  next
    case True
    define len where "len = pwlen - 2"
    define bl where "bl = min 16 (len - n)"
    define b where "b = chunk passwd (n + 2) bl"
    define c where "c = xor_bytes b (md5_hash (secret @ iv))"
    have pw: "pwlen = len + 2" "pwlen - 3 = len - 1" using less.prems(6) by (simp_all add: len_def)
    have bl: "bl \<le> 16" "0 < bl" "n + bl \<le> len" "bl = 16 \<or> n + bl = len" using True by (auto simp: bl_def len_def)
    have lb: "length b = bl" "length c = bl" using less.prems(2) bl pw by (simp_all add: b_def c_def)
    have n16: "16 \<le> n" using less.prems(3,4) by (auto dest: dvd_imp_le)
    let ?p = "patch passwd (n - 1) c"
    obtain ctx1 where f: "fr_md5_local_final md5_ctx = (md5_hash (secret @ iv), ctx1)"
      using less.prems(7) [OF True] by (cases "fr_md5_local_final md5_ctx") simp
    have bl': "(if pwlen < n + 2 + 16 then pwlen - n - 2 else 16) = bl" by (auto simp: bl_def len_def)
    have step: "tunnel_decode_blocks (old_ctx secret) pwlen n md5_ctx e passwd =
        tunnel_decode_blocks (old_ctx secret) pwlen (n + 16) (fr_md5_local_update (old_ctx secret) b) e ?p"
      by (subst tunnel_decode_blocks.simps)
         (use f less.prems(2,4) n16 lb True bl bl' pw in \<open>simp add: fr_md5_local_ctx_copy_def c_def b_def Let_def\<close>)
    have rest: "chunk ?p (18 + n) k = chunk passwd (18 + n) k" "drop (len - 1) ?p = drop (len - 1) passwd"
        "take (15 + n) ?p = take (n - 1) passwd @ c" if "bl = 16" "n + 16 \<le> len" for k
      using that lb less.prems(2) pw n16 by (simp_all add: chunk_def patch_def ac_simps)
    have un: "unhide md5_hash secret iv (chunk passwd (n + 2) (len - n)) = c @ unhide md5_hash secret b (chunk passwd (n + 2 + bl) (len - n - bl))"
      using unhide_step [of b passwd "n + 2" "len - n - bl" c secret iv] less.prems(2) bl lb b_def c_def pw by fastforce
    show ?thesis
    proof (cases "bl = 16 \<and> n + 16 \<le> len")
      case T: True
      have "tunnel_decode_blocks (old_ctx secret) pwlen (n + 16) (fr_md5_local_update (old_ctx secret) b) e ?p =
          Some (Inr (e, take (n + 16 - 1) ?p @ unhide md5_hash secret b (chunk ?p (n + 16 + 2) (pwlen - 2 - (n + 16))) @ drop (pwlen - 3) ?p))"
        by (rule less.hyps) (use less.prems T lb True pw n16 in \<open>auto simp: digest_after_secret\<close>)
      then show ?thesis using step rest un T pw by simp
    next
      case F: False
      then have "\<not> n + 16 < len" "n + bl = len" using bl by auto
      moreover have "?p = take (n - 1) passwd @ c @ drop (len - 1) passwd" using lb n16 \<open>n + bl = len\<close> by (simp add: patch_def)
      ultimately show ?thesis using step un pw by (simp add: tunnel_decode_blocks.simps [of _ _ "n + 16"])
    qed
  qed
qed


lemma tunnel_decode_all:
  assumes sec: "secret_ok secret" and len: "2 \<le> len" "len + 2 \<le> length passwd"
    and dig: "fst (fr_md5_local_final md5_ctx) = md5_hash (secret @ iv)"
  defines "u \<equiv> unhide md5_hash secret iv (chunk passwd 2 len)"
  shows "tunnel_decode_blocks (old_ctx secret) (len + 2) 0 md5_ctx 0 passwd =
    Some (if len < unat (u ! 0) then Inl passwd else Inr (unat (u ! 0), drop 1 u @ drop (len - 1) passwd))"
proof -
  define bl where "bl = min 16 len"
  define b where "b = chunk passwd 2 bl"
  define c where "c = xor_bytes b (md5_hash (secret @ iv))"
  have bl: "bl \<le> 16" "2 \<le> bl" "bl \<le> len" "bl = 16 \<or> bl = len" using len by (auto simp: bl_def)
  have lb: "length b = bl" "length c = bl" using len bl by (simp_all add: b_def c_def)
  let ?p = "patch passwd 0 (drop 1 c)" and ?ctx = "fr_md5_local_update (old_ctx secret) b"
  have un: "u = c @ unhide md5_hash secret b (chunk passwd (2 + bl) (len - bl))"
    using unhide_step [of b passwd 2 "len - bl" c secret iv] len bl lb b_def c_def u_def by fastforce
  have u0: "u ! 0 = c ! 0" using un lb bl by (simp add: nth_append)
  have b0: "b ! 0 = passwd ! 2" using bl len by (simp add: b_def)
  have c0: "c ! 0 = passwd ! 2 XOR md5_hash (secret @ iv) ! 0" using lb bl b0 by (simp add: c_def)
  obtain ctx1 where f: "fr_md5_local_final md5_ctx = (md5_hash (secret @ iv), ctx1)"
    using dig by (cases "fr_md5_local_final md5_ctx") simp
  have bl': "(if len + 2 < 0 + 2 + 16 then len + 2 - 0 - 2 else 16) = bl" by (auto simp: bl_def)
  have step: "tunnel_decode_blocks (old_ctx secret) (len + 2) 0 md5_ctx 0 passwd =
      (if len < unat (u ! 0) then Some (Inl passwd)
       else tunnel_decode_blocks (old_ctx secret) (len + 2) 16 ?ctx (unat (u ! 0)) ?p)"
    by (subst tunnel_decode_blocks.simps, unfold Let_def bl')
       (use f len lb bl c0 u0 in \<open>simp add: fr_md5_local_ctx_copy_def c_def b_def flip: numeral_2_eq_2\<close>)
  show ?thesis
  proof (cases "16 \<le> len")
    case True
    then have bl16: "bl = 16" by (simp add: bl_def)
    have "tunnel_decode_blocks (old_ctx secret) (len + 2) 16 ?ctx (unat (u ! 0)) ?p =
        Some (Inr (unat (u ! 0), take (16 - 1) ?p @ unhide md5_hash secret b (chunk ?p (16 + 2) (len + 2 - 2 - 16)) @ drop (len + 2 - 3) ?p))"
      by (rule tunnel_decode_rest) (use sec len lb bl16 True in \<open>simp_all add: digest_after_secret\<close>)
    moreover have "take 15 ?p = drop 1 c" "chunk ?p 18 k = chunk passwd 18 k" "drop (len - 1) ?p = drop (len - 1) passwd" for k
      using lb bl16 True by (simp_all add: patch_def chunk_def)
    ultimately show ?thesis using step un bl16 lb by simp
  next
    case False
    then have bll: "bl = len" by (simp add: bl_def)
    then have "u = c" using un by simp
    moreover have "?p = drop 1 c @ drop (len - 1) passwd" using lb bll by (simp add: patch_def)
    ultimately show ?thesis using step False by (simp add: tunnel_decode_blocks.simps [of _ _ 16])
  qed
qed

lemma decode_tunnel_password_unhide:
  assumes "secret_ok secret" "length vector = 16" "4 \<le> pwlen" "pwlen \<le> length passwd"
  defines "u \<equiv> unhide md5_hash secret (vector @ take 2 passwd) (chunk passwd 2 (pwlen - 2))"
  defines "q \<equiv> drop 1 u @ drop (pwlen - 3) passwd" and "e \<equiv> unat (u ! 0)"
  shows "fr_radius_decode_tunnel_password passwd pwlen secret vector zeros =
    Some (if pwlen - 2 < e then (-1, pwlen, passwd)
          else if zeros \<and> list_ex (\<lambda>i. q ! i \<noteq> 0) [e..<pwlen - 3] then (-1, pwlen, q)
          else (int e, e, patch q e [0]))"
proof -
  define len where "len = pwlen - 2"
  have len: "2 \<le> len" "len + 2 \<le> length passwd" "pwlen = len + 2" using assms(3,4) by (simp_all add: len_def)
  have salt: "rd_mem passwd 0 2 = Some (take 2 passwd)" using len by (simp add: chunk_def)
  have dig: "fst (fr_md5_local_final (fr_md5_local_update (fr_md5_local_update (old_ctx secret) vector) (take 2 passwd))) =
      md5_hash (secret @ vector @ take 2 passwd)"
    using assms(1,2) by (intro digest_after_secret2) simp_all
  have lu: "length q = length passwd"
    using len by (simp add: q_def u_def)
  have w: "\<not> len < e \<Longrightarrow> wr_mem q e [0] = Some (patch q e [0])" using lu len by simp
  show ?thesis
    using tunnel_decode_all [OF assms(1) len(1,2) dig] salt w len
    by (simp add: fr_radius_decode_tunnel_password_def Let_def u_def q_def e_def)
qed


lemma length_rand_fill [simp]: "length (fst (rand_fill n ctx)) = n"
  by (induction n arbitrary: ctx) (auto simp: split_beta Let_def)

lemma encode_tunnel_password_hide:
  assumes sec: "secret_ok (rc_secret ctx)" and vec: "length (rc_vector ctx) = 16"
    and inp: "length inp \<le> 250" and room: "length inp + 3 \<le> room"
  obtains s0 s1 pad k ctx' where
    "encode_tunnel_password room inp ctx =
       Some (Inr ([s0, s1] @ take k (hide md5_hash (rc_secret ctx) (rc_vector ctx @ [s0, s1]) (word_of_nat (length inp) # inp @ pad))), ctx')"
    "length inp + 1 \<le> k" "k \<le> length inp + 1 + length pad" "k \<le> 251" "k + 2 \<le> room" "s0 = s0 OR 0x80"
    "length inp + length pad \<le> 250"
proof -
  let ?secret = "rc_secret ctx" and ?n = "length inp"
  define elen where "elen = min 251 (ROUND_UP (?n + 1) 16)"
  have ru: "?n + 1 \<le> ROUND_UP (?n + 1) 16" by (auto simp: ROUND_UP_def)
  have el: "?n + 1 \<le> elen" "elen \<le> 251" using ru inp by (auto simp: elen_def)
  obtain fill rand1 where fill: "rand_fill (253 - (3 + ?n)) (rc_rand ctx) = (fill, rand1)" by fastforce
  obtain r rand2 where r: "fr_fast_rand rand1 = (r, rand2)" by fastforce
  have lf: "length fill = 250 - ?n" using arg_cong [OF fill, of "\<lambda>x. length (fst x)"] by simp
  define s0 where "s0 = 0x80 OR push_bit 4 (ucast (rc_salt_offset ctx) AND 0x07) OR (ucast (drop_bit 8 r) AND (0x0f :: byte))"
  define s1 where "s1 = (ucast r :: byte)"
  define pad where "pad = take (elen - (?n + 1)) fill"
  define k where "k = min elen (min 253 room - 2)"
  define tp where "tp = [s0, s1, word_of_nat ?n] @ inp @ fill"
  let ?ctx = "fr_md5_local_update (fr_md5_local_update (old_ctx ?secret) (rc_vector ctx)) (take 2 tp)"
  have tp: "length tp = 253" "take 2 tp = [s0, s1]" using lf inp by (simp_all add: tp_def)
  have ch: "chunk tp 2 elen = word_of_nat ?n # inp @ pad"
    using el by (cases elen) (simp_all add: tp_def chunk_def pad_def)
  define out where "out = [s0, s1] @ hide md5_hash ?secret (rc_vector ctx @ [s0, s1]) (word_of_nat ?n # inp @ pad) @ drop (2 + elen) tp"
  have e: "tunnel_encode_blocks (old_ctx ?secret) elen 0 ?ctx tp = Some out"
    using tunnel_encode_blocks_hide [OF sec, of elen tp 0 ?ctx "rc_vector ctx @ [s0, s1]"] el tp vec ch
      digest_after_secret2 [OF sec, of "rc_vector ctx" "[s0, s1]"] by (simp add: out_def)
  have lp: "length pad = elen - (?n + 1)" using lf el by (simp add: pad_def)
  have olen: "(if min 253 room < elen + 2 then min 253 room else elen + 2) = k + 2"
    using el room by (auto simp: k_def)
  have lo: "length out = 253" using tp el lp by (simp add: out_def)
  have rd: "rd_mem out 0 (k + 2) = Some ([s0, s1] @ take k (hide md5_hash ?secret (rc_vector ctx @ [s0, s1]) (word_of_nat ?n # inp @ pad)))"
    using lo el lp by (simp add: k_def chunk_def out_def)
  have fits: "\<not> (min 253 room < elen + 2 \<and> elen - (?n + 1) < elen + 2 - min 253 room)" using el room inp by auto
  have e': "(if 253 - 2 < ROUND_UP (?n + 1) 16 then 253 - 2 else ROUND_UP (?n + 1) 16) = elen"
    "(if 253 < room then 253 else room) = min 253 room" by (simp_all add: elen_def)
  have "encode_tunnel_password room inp ctx =
      Some (Inr ([s0, s1] @ take k (hide md5_hash ?secret (rc_vector ctx @ [s0, s1]) (word_of_nat ?n # inp @ pad))),
        ctx\<lparr>rc_rand := rand2, rc_salt_offset := rc_salt_offset ctx + 1\<rparr>)"
    unfolding encode_tunnel_password_def Let_def e' fill r prod.case olen
      s0_def [symmetric] s1_def [symmetric] tp_def [symmetric]
    using inp fits e rd by simp
  then show thesis
    by (rule that) (use el lp room inp in \<open>simp_all add: k_def s0_def ac_simps\<close>)
qed


text \<open>A decoder that does not insist on zero padding reveals a tunnel password from the first octets of the buffer, whatever follows.\<close>

lemma tunnel_password_revealed:
  fixes s0 s1 :: byte
  assumes sec: "secret_ok (rc_secret ctx)" and vec: "length (rc_vector ctx) = 16" and zeros: "\<not> rc_tunnel_password_zeros ctx"
    and k: "length inp + 1 \<le> k" "k \<le> length inp + 1 + length pad" and inp: "length inp \<le> 250"
  defines "d \<equiv> [s0, s1] @ take k (hide md5_hash (rc_secret ctx) (rc_vector ctx @ [s0, s1]) (word_of_nat (length inp) # inp @ pad))"
  shows "\<exists>q. fr_radius_decode_tunnel_password (d @ rest) (k + 2) (rc_secret ctx) (rc_vector ctx) (rc_tunnel_password_zeros ctx) =
      Some (int (length inp), length inp, q) \<and> take (length inp) q = inp"
proof -
  let ?p = "word_of_nat (length inp) # inp @ pad"
  let ?h = "hide md5_hash (rc_secret ctx) (rc_vector ctx @ [s0, s1]) ?p"
  define p where "p = d @ rest"
  have ld: "length d = k + 2" using k by (simp add: d_def)
  show ?thesis
  proof (cases "k = 1")
    case True
    then have "inp = []" using k by simp
    then show ?thesis using True ld by (cases d) (simp_all add: fr_radius_decode_tunnel_password_def Let_def)
  next
    case False
    define u where "u = unhide md5_hash (rc_secret ctx) (rc_vector ctx @ take 2 p) (chunk p 2 (k + 2 - 2))"
    have "chunk p 2 k = take k ?h" "take 2 p = [s0, s1]" using k by (simp_all add: p_def d_def chunk_def)
    then have u: "u = take k ?p" by (simp add: u_def md5h.unhide_take md5h.unhide_hide)
    have u0: "unat (u ! 0) = length inp" using k(1) inp u by simp
    have "fr_radius_decode_tunnel_password p (k + 2) (rc_secret ctx) (rc_vector ctx) False =
        Some (int (length inp), length inp, patch (drop 1 u @ drop (k + 2 - 3) p) (length inp) [0])"
      using decode_tunnel_password_unhide [OF sec vec, of "k + 2" p False] False ld k u0 by (simp add: u_def p_def)
    moreover have "take (length inp) (patch (drop 1 u @ drop (k - 1) p) (length inp) [0]) = inp"
      using k(1) u by (cases k) (simp_all add: patch_def)
    ultimately show ?thesis using zeros by (simp add: p_def)
  qed
qed

lemma tunnel_password_roundtrip:
  fixes s0 s1 :: byte
  assumes "secret_ok (rc_secret ctx)" "length (rc_vector ctx) = 16" "\<not> rc_tunnel_password_zeros ctx"
    and "length inp + 1 \<le> k" "k \<le> length inp + 1 + length pad" "length inp \<le> 250" and buf: "length buffer = 256"
  defines "d \<equiv> [s0, s1] @ take k (hide md5_hash (rc_secret ctx) (rc_vector ctx @ [s0, s1]) (word_of_nat (length inp) # inp @ pad))"
  shows "k \<le> 251 \<Longrightarrow> decrypt_value False FLAG_ENCRYPT_TUNNEL_PASSWORD ty n ctx buffer d = Some (Value 0 inp)"
    "k \<le> 250 \<Longrightarrow> tag < 0x20 \<Longrightarrow> decrypt_value False FLAG_TAGGED_TUNNEL_PASSWORD FR_TYPE_STRING n ctx buffer (tag # d) = Some (Value tag inp)"
proof -
  have ld: "length d = k + 2" using assms(5) by (simp add: d_def)
  obtain q where q: "fr_radius_decode_tunnel_password (d @ drop (k + 2) buffer) (k + 2) (rc_secret ctx) (rc_vector ctx) (rc_tunnel_password_zeros ctx) =
      Some (int (length inp), length inp, q)" "take (length inp) q = inp"
    using tunnel_password_revealed [OF assms(1-6), of s0 s1 "drop (k + 2) buffer"] by (auto simp: d_def)
  have w: "wr_mem buffer 0 d = Some (d @ drop (k + 2) buffer)" if "k \<le> 251" using that ld buf by (simp add: patch_def)
  show "decrypt_value False FLAG_ENCRYPT_TUNNEL_PASSWORD ty n ctx buffer d = Some (Value 0 inp)" if "k \<le> 251"
    using q w [OF that] ld that by (simp add: decrypt_value_def decrypt_buffer_def decode_tag_def flag_has_tag_def flag_encrypted_def)
  show "decrypt_value False FLAG_TAGGED_TUNNEL_PASSWORD FR_TYPE_STRING n ctx buffer (tag # d) = Some (Value tag inp)" if "k \<le> 250" "tag < 0x20"
    using q w ld buf that
    by (simp add: decrypt_value_def decrypt_buffer_def decode_tag_def flag_has_tag_def flag_encrypted_def rd_mem_def rd8_def chunk_def)
qed

lemma decode_password_safe:
  assumes "secret_ok secret" "length vector = 16" "129 \<le> length passwd"
  shows "\<exists>n q. fr_radius_decode_password passwd pwlen secret vector = Some (n, q) \<and> length q = length passwd"
proof -
  define m where "m = (if 128 < pwlen then 128 else pwlen)"
  define k where "k = (m + 15) div 16"
  have k: "m \<le> 16 * k" "0 < k \<Longrightarrow> 16 * k < m + 16" "16 * k \<le> 128" "m \<le> 128" by (auto simp: m_def k_def)
  have d: "\<exists>q. (if m = 0 then Some passwd else decode_blocks (old_ctx secret) m 0 (old_ctx secret) vector passwd) = Some q \<and> length q = length passwd"
    using decode_blocks_unhide [of secret 0 k passwd m "old_ctx secret" vector vector] assms k by (simp add: digest_after_secret)
  then obtain q where q: "(if m = 0 then Some passwd else decode_blocks (old_ctx secret) m 0 (old_ctx secret) vector passwd) = Some q"
      "length q = length passwd" by blast
  have w: "wr_mem q m [0] = Some (patch q m [0])" using q(2) k(4) assms(3) by simp
  have "0 \<in> set (patch q m [0])" using q(2) k(4) assms(3) by (simp add: patch_def)
  then obtain n where "strlen (patch q m [0]) = Some n" using strlen_total by blast
  then show ?thesis using q w k(4) assms(3) unfolding fr_radius_decode_password_def Let_def m_def [symmetric] by simp
qed

lemma strip_zeros_le: "strip_zeros b n \<le> n"
  by (induction n) (auto intro: le_SucI)

lemma strlen_le: "b ! i = 0 \<Longrightarrow> i < length b \<Longrightarrow> \<exists>n \<le> i. strlen b = Some n"
proof (induction b arbitrary: i)
  case (Cons c b)
  then show ?case by (cases i) (auto, metis Suc_le_mono)
qed simp

lemma decode_tunnel_password_safe:
  assumes "secret_ok secret" "length vector = 16" "pwlen \<le> length passwd"
  shows "\<exists>rc e q. fr_radius_decode_tunnel_password passwd pwlen secret vector zeros = Some (rc, e, q) \<and> e \<le> pwlen"
proof (cases "4 \<le> pwlen")
  case True
  then show ?thesis unfolding decode_tunnel_password_unhide [OF assms(1,2) True assms(3)] by auto
next
  case False
  then show ?thesis using assms(3) by (auto simp: fr_radius_decode_tunnel_password_def)
qed

lemma ascend_secret_ok:
  "16 \<le> room \<Longrightarrow> \<exists>out. fr_radius_ascend_secret room inp secret vector = Inr out \<and> length out = 16"
  by (auto simp: fr_radius_ascend_secret_def Let_def)

lemma decrypt_buffer_in_bounds:
  assumes sec: "secret_ok (rc_secret ctx)" and vec: "length (rc_vector ctx) = 16" and buf: "length buffer = 256" and len: "data_len \<le> 253"
  shows "\<exists>r. decrypt_buffer subtype ty n ctx attr_len data_len buffer = Some r \<and> (\<forall>l b. r = Some (l, b) \<longrightarrow> l \<le> 253)"
proof -
  let ?secret = "rc_secret ctx" and ?vector = "rc_vector ctx"
  obtain m q where user: "fr_radius_decode_password buffer attr_len ?secret ?vector = Some (m, q)" "length q = 256"
    using decode_password_safe [OF sec vec, of buffer attr_len] buf by auto
  obtain rc e q' where tun: "fr_radius_decode_tunnel_password buffer data_len ?secret ?vector (rc_tunnel_password_zeros ctx) = Some (rc, e, q')" "e \<le> data_len"
    using decode_tunnel_password_safe [OF sec vec, of data_len buffer "rc_tunnel_password_zeros ctx"] buf len by auto
  have rd: "rd_mem buffer 0 data_len = Some (take data_len buffer)" using buf len by (simp add: chunk_def)
  obtain out where asc: "fr_radius_ascend_secret 256 (take data_len buffer) ?secret ?vector = Inr out" "length out = 16"
    using ascend_secret_ok [of 256 "take data_len buffer" ?secret ?vector] by auto
  have "patch (patch buffer 0 out) 16 [0] ! 16 = 0" using asc buf by (simp add: nth_patch)
  then obtain l where l: "strlen (patch (patch buffer 0 out) 16 [0]) = Some l" "l \<le> 16"
    using strlen_le [of "patch (patch buffer 0 out) 16 [0]" 16] asc buf by auto
  show ?thesis
    using buf len rd user tun asc l order_trans [OF strip_zeros_le [of "patch q 253 [0]" data_len] len]
    by (cases subtype) (auto simp: decrypt_buffer_def Let_def)
qed

lemma decode_tag_in_bounds:
  assumes "data \<noteq> []" "length buffer = 256"
  shows "\<exists>r. decode_tag extra subtype ty buffer data = Some r \<and>
    (\<forall>tag copied l b. r = Some (tag, copied, l, b) \<longrightarrow> tag < 0x20 \<and> l \<le> length data \<and> length b = 256 \<and> (copied \<longrightarrow> length data < 256))"
  using assms by (auto simp: decode_tag_def rd8_def rd_mem_def Let_def)

lemma decrypt_value_in_bounds:
  assumes "secret_ok (rc_secret ctx)" "length (rc_vector ctx) = 16" "length buffer = 256"
  shows "\<exists>r. decrypt_value extra subtype ty n ctx buffer data = Some r \<and>
    (\<forall>tag v. r = Value tag v \<longrightarrow> tag < 0x20 \<and> length v \<le> (if flag_encrypted extra subtype then 253 else length data))"
proof (cases "data = []")
  case False
  then obtain x where x: "decode_tag extra subtype ty buffer data = Some x"
    "\<forall>tag copied l b. x = Some (tag, copied, l, b) \<longrightarrow> tag < 0x20 \<and> l \<le> length data \<and> length b = 256 \<and> (copied \<longrightarrow> length data < 256)"
    using decode_tag_in_bounds [OF _ assms(3)] by blast
  show ?thesis
  proof (cases "x = None \<or> \<not> flag_encrypted extra subtype \<or> 253 < length data")
    case True
    then show ?thesis using False x by (cases x) (auto simp: decrypt_value_def Let_def)
  next
    case enc: False
    then obtain tag copied l b where t: "x = Some (tag, copied, l, b)" by (cases x) auto
    let ?b = "if copied then b else patch b 0 data"
    have b: "tag < 0x20" "l \<le> 253" "length ?b = 256" "(if copied then Some b else wr_mem b 0 data) = Some ?b" using x(2) t enc by auto
    obtain r where r: "decrypt_buffer subtype ty n ctx (length data) l ?b = Some r" "\<forall>l b. r = Some (l, b) \<longrightarrow> l \<le> 253"
      using decrypt_buffer_in_bounds [OF assms(1,2) b(3,2)] by blast
    then show ?thesis using False x(1) t enc b by (cases r) (auto simp: decrypt_value_def Let_def)
  qed
qed (simp add: decrypt_value_def)


section \<open>Properties\<close>

definition ex_radius_ctx :: radius_ctx where
  "ex_radius_ctx = \<lparr>rc_vector = replicate 16 9, rc_secret = [115, 51, 99, 114], rc_rand = \<lparr>fast_a = 1, fast_b = 2\<rparr>,
     rc_salt_offset = 0, rc_tunnel_password_zeros = False\<rparr>"

lemma ex_radius_ctx_ok:
  "secret_ok (rc_secret ex_radius_ctx)" "length (rc_vector ex_radius_ctx) = 16" "\<not> rc_tunnel_password_zeros ex_radius_ctx"
  by (simp_all add: ex_radius_ctx_def secret_ok_def md5_limit_def)

text \<open>(C26) \<open>encode_password\<close> is the hiding of RFC 2865: the password, cut at 128 octets and padded with zeros to a
  multiple of sixteen (an empty one to sixteen), chained through MD5 of the secret and the block before. Without
  room it returns how much is missing and nothing else.\<close>

theorem encode_password_rfc2865:
  assumes "secret_ok secret" "length vector = 16"
  shows "encode_password room inp secret vector =
    Some (if room < padded_len (length (take 128 inp)) then Inl (- int (padded_len (length (take 128 inp)) - room))
          else Inr (hide md5_hash secret vector (pad_password (take 128 inp))))"
  using encode_password_hide [OF assms] by (simp add: Let_def)

theorem encode_password_rfc2865_witness:
  "encode_password 16 [104, 105] (rc_secret ex_radius_ctx) (rc_vector ex_radius_ctx) =
     Some (Inr (hide md5_hash (rc_secret ex_radius_ctx) (rc_vector ex_radius_ctx) ([104, 105] @ replicate 14 0)))"
  using encode_password_rfc2865 [OF ex_radius_ctx_ok(1,2), of 16 "[104, 105]"]
  by (simp add: padded_len_def pad_password_def)

text \<open>(C27) A User-Password of at most 128 octets that does not end with NUL comes back from the attribute: whatever the
  buffer on the stack holds, \<open>fr_radius_decode_pair_value\<close> decrypts what \<open>encode_password\<close> wrote to the password.\<close>

theorem radius_user_password_roundtrip:
  assumes "secret_ok (rc_secret ctx)" "length (rc_vector ctx) = 16" "length buffer = 256"
    and "length pw \<le> 128" "pw = [] \<or> last pw \<noteq> 0" "128 \<le> room"
  shows "\<exists>c. encode_password room pw (rc_secret ctx) (rc_vector ctx) = Some (Inr c) \<and>
    decrypt_value False FLAG_ENCRYPT_USER_PASSWORD ty 0 ctx buffer c = Some (Value 0 pw)"
  using encode_password_hide [OF assms(1,2), of room pw] user_password_roundtrip [OF assms(1,2,4,5,3), of ty]
    padded_len_bounds(4) [OF assms(4)] assms(4,6)
  by (simp add: Let_def)

theorem radius_user_password_roundtrip_witness:
  "\<exists>c. encode_password 253 [104, 105] (rc_secret ex_radius_ctx) (rc_vector ex_radius_ctx) = Some (Inr c) \<and>
    decrypt_value False FLAG_ENCRYPT_USER_PASSWORD FR_TYPE_STRING 0 ex_radius_ctx (replicate 256 170) c = Some (Value 0 [104, 105])"
  using radius_user_password_roundtrip [OF ex_radius_ctx_ok(1,2), of "replicate 256 170" "[104, 105]" 253 FR_TYPE_STRING] by simp

text \<open>(C28) A Tunnel-Password of at most 250 octets comes back from the attribute, for any random padding and salt, and
  also when the output has no room for the padding, which is then dropped; with a tag in front of it, when it is shorter than 253 octets, the tag comes back too.
  The decoder must not be configured to reject padding that is not zero (\<open>tunnel_password_zeros\<close>): the encoder pads with random octets.\<close>

theorem radius_tunnel_password_roundtrip:
  assumes "secret_ok (rc_secret ctx)" "length (rc_vector ctx) = 16" "length buffer = 256" "\<not> rc_tunnel_password_zeros ctx"
    and "length pw \<le> 250" "length pw + 3 \<le> room"
  shows "\<exists>c ctx'. encode_tunnel_password room pw ctx = Some (Inr c, ctx') \<and> length c \<le> room \<and> 0x80 AND hd c = 0x80 \<and>
    decrypt_value False FLAG_ENCRYPT_TUNNEL_PASSWORD ty n ctx buffer c = Some (Value 0 pw) \<and>
    (length c < 253 \<longrightarrow> (\<forall>tag < 0x20. decrypt_value False FLAG_TAGGED_TUNNEL_PASSWORD FR_TYPE_STRING n ctx buffer (tag # c) = Some (Value tag pw)))"
proof -
  have *: "0x80 AND s = 0x80" if "s = s OR 0x80" for s :: byte
    by (subst that) (simp add: bit.conj_disj_distrib)
  show ?thesis
    by (rule encode_tunnel_password_hide [OF assms(1,2,5,6)])
       (use tunnel_password_roundtrip [OF assms(1,2,4) _ _ assms(5,3)] * in auto)
qed

theorem radius_tunnel_password_roundtrip_witness:
  "\<exists>c ctx'. encode_tunnel_password 5 [104, 105] ex_radius_ctx = Some (Inr c, ctx') \<and> length c \<le> 5 \<and>
    decrypt_value False FLAG_ENCRYPT_TUNNEL_PASSWORD FR_TYPE_STRING 0 ex_radius_ctx (replicate 256 170) c = Some (Value 0 [104, 105]) \<and>
    decrypt_value False FLAG_TAGGED_TUNNEL_PASSWORD FR_TYPE_STRING 0 ex_radius_ctx (replicate 256 170) (7 # c) = Some (Value 7 [104, 105])"
proof -
  obtain c ctx' where c: "encode_tunnel_password 5 [104, 105] ex_radius_ctx = Some (Inr c, ctx')" "length c \<le> 5"
    "decrypt_value False FLAG_ENCRYPT_TUNNEL_PASSWORD FR_TYPE_STRING 0 ex_radius_ctx (replicate 256 170) c = Some (Value 0 [104, 105])"
    "length c < 253 \<longrightarrow> (\<forall>tag < 0x20. decrypt_value False FLAG_TAGGED_TUNNEL_PASSWORD FR_TYPE_STRING 0 ex_radius_ctx (replicate 256 170) (tag # c) = Some (Value tag [104, 105]))"
    using radius_tunnel_password_roundtrip [OF ex_radius_ctx_ok(1,2) _ ex_radius_ctx_ok(3), of "replicate 256 170" "[104, 105]" 5 FR_TYPE_STRING 0] by auto
  moreover have "(7 :: byte) < 0x20" by simp
  ultimately show ?thesis by fastforce
qed

text \<open>(C29) Whatever the dictionary says of an attribute, taking off its tag and decrypting it stays inside the attribute and inside the 256 octets of the buffer on the stack.
  The tag is below 32, a decrypted value has at most 253 octets, and one that is not encrypted at most those of the attribute.\<close>

theorem decrypt_value_memory_safe:
  assumes "secret_ok (rc_secret ctx)" "length (rc_vector ctx) = 16" "length buffer = 256"
  shows "\<exists>r. decrypt_value extra subtype ty n ctx buffer data = Some r \<and>
    (\<forall>tag v. r = Value tag v \<longrightarrow> tag < 0x20 \<and> length v \<le> (if flag_encrypted extra subtype then 253 else length data))"
  by (rule decrypt_value_in_bounds [OF assms])

theorem decrypt_value_memory_safe_witness:
  "\<exists>r. decrypt_value False FLAG_TAGGED_TUNNEL_PASSWORD FR_TYPE_STRING 0 ex_radius_ctx (replicate 256 170) (replicate 253 1) = Some r"
  using decrypt_value_memory_safe [OF ex_radius_ctx_ok(1,2), of "replicate 256 170" False FLAG_TAGGED_TUNNEL_PASSWORD FR_TYPE_STRING 0 "replicate 253 1"]
  by auto

text \<open>The embedded length of a Tunnel-Password may be one more than there are password octets: it is compared with
  the encrypted length, which counts the length octet too, and the last octet of the password is then
  the ciphertext octet that was in the buffer.\<close>

theorem tunnel_password_length_off_by_one:
  assumes "secret_ok secret" "length vector = 16" "4 \<le> pwlen" "pwlen \<le> length passwd"
    and "unat (unhide md5_hash secret (vector @ take 2 passwd) (chunk passwd 2 (pwlen - 2)) ! 0) = pwlen - 2"
  shows "\<exists>q. fr_radius_decode_tunnel_password passwd pwlen secret vector zeros = Some (int (pwlen - 2), pwlen - 2, q) \<and>
    q ! (pwlen - 3) = passwd ! (pwlen - 3)"
  unfolding decode_tunnel_password_unhide [OF assms(1-4)]
  using assms(3-5) by (auto simp: nth_patch nth_append)

theorem tunnel_password_length_off_by_one_witness:
  "\<exists>q. fr_radius_decode_tunnel_password
      ([128, 1] @ hide md5_hash (rc_secret ex_radius_ctx) (rc_vector ex_radius_ctx @ [128, 1]) [2, 65]) 4
      (rc_secret ex_radius_ctx) (rc_vector ex_radius_ctx) True = Some (2, 2, q)"
  using tunnel_password_length_off_by_one [OF ex_radius_ctx_ok(1,2), of 4
      "[128, 1] @ hide md5_hash (rc_secret ex_radius_ctx) (rc_vector ex_radius_ctx @ [128, 1]) [2, 65]" True]
  by (auto simp: chunk_def md5h.unhide_hide)

end
