(* ===== verification/Radius_Tlv.thy ===== *)
theory Radius_Tlv
  imports Prelude
begin

text \<open>
  The check \<open>fr_radius_decode_tlv_ok\<close> of \<^verbatim>\<open>src/protocols/radius/decode.c\<close>, which every decoder of nested TLVs
  and vendor attributes runs before it walks them: the widths of the type and the length fields are
  parameters (\<open>dv_type\<close>, \<open>dv_length\<close>), as vendors choose them. The list is what is left of the TLVs.

  The lemmas show that it reads inside its input, that it ends for every input, and that it accepts exactly
  the inputs that are a sequence of whole TLVs, or, without a length field, one attribute.
\<close>

function tlv_loop :: "nat \<Rightarrow> nat \<Rightarrow> bytes \<Rightarrow> int option" where
  "tlv_loop dv_type dv_length data =
     (if data = [] then Some 0
      else if length data < dv_type + dv_length then Some (-1)
      else do {
        type_ok \<leftarrow> (if dv_type = 4 then do {
                       t \<leftarrow> rd_mem data 0 4;
                       Some (t \<noteq> [0, 0, 0, 0] \<and> t ! 0 = 0) }
                     else if dv_type = 2 then do {
                       t \<leftarrow> rd_mem data 0 2;
                       Some (t \<noteq> [0, 0]) }
                     else Some (dv_type = 1));
        if \<not> type_ok then Some (-1)
        else if dv_length = 0 then Some 0
        else if dv_length \<noteq> 1 \<and> dv_length \<noteq> 2 then Some (-1)
        else do {
          hi \<leftarrow> (if dv_length = 2 then rd8 data dv_type else Some 0);
          if hi \<noteq> 0 then Some (-1)
          else do {
            lo \<leftarrow> rd8 data (dv_type + dv_length - 1);
            let attrlen = unat lo;
            if attrlen < dv_type + dv_length then Some (-1)
            else if length data < attrlen then Some (-1)
            else tlv_loop dv_type dv_length (drop attrlen data) } } })"
  by pat_completeness auto
termination
  by (relation "measure (\<lambda>(t, l, data). length data)") auto

declare tlv_loop.simps [simp del]

definition fr_radius_decode_tlv_ok :: "bytes \<Rightarrow> nat \<Rightarrow> nat \<Rightarrow> int option" where
  "fr_radius_decode_tlv_ok data dv_type dv_length =
     (if 2 < dv_length \<or> dv_type = 0 \<or> 4 < dv_type then Some (-1) else tlv_loop dv_type dv_length data)"

section \<open>Sequences of TLVs\<close>

text \<open>A whole TLV: header and value, the length field counts both; attribute zero only in one octet, four-octet
  types below \<open>2 ^ 24\<close>.\<close>

definition tlv_type_ok :: "nat \<Rightarrow> bytes \<Rightarrow> bool" where
  "tlv_type_ok dv_type data \<longleftrightarrow>
     dv_type = 1 \<or> dv_type = 2 \<and> take 2 data \<noteq> [0, 0] \<or> dv_type = 4 \<and> take 4 data \<noteq> [0, 0, 0, 0] \<and> data ! 0 = 0"

definition tlv_head_ok :: "nat \<Rightarrow> nat \<Rightarrow> bytes \<Rightarrow> bool" where
  "tlv_head_ok dv_type dv_length data \<longleftrightarrow> (dv_length = 2 \<longrightarrow> data ! dv_type = 0) \<and> tlv_type_ok dv_type data"

definition whole_tlv :: "nat \<Rightarrow> nat \<Rightarrow> bytes \<Rightarrow> bool" where
  "whole_tlv dv_type dv_length t \<longleftrightarrow>
     dv_type + dv_length \<le> length t \<and> length t < 256 \<and>
     t ! (dv_type + dv_length - 1) = word_of_nat (length t) \<and> tlv_head_ok dv_type dv_length t"

lemma tlv_head_ok_append:
  assumes "t + l \<le> length v" "0 < t"
  shows "tlv_head_ok t l (v @ rest) = tlv_head_ok t l v"
proof -
  have "t = k \<Longrightarrow> take k (v @ rest) = take k v" for k using assms by simp
  moreover have "(v @ rest) ! 0 = v ! 0" "l = 2 \<Longrightarrow> (v @ rest) ! t = v ! t" using assms by (auto simp: nth_append)
  ultimately show ?thesis unfolding tlv_head_ok_def tlv_type_ok_def by metis
qed

lemma tlv_loop_Nil [simp]: "tlv_loop t l [] = Some 0"
  by (simp add: tlv_loop.simps)

lemma tlv_loop_short: "data \<noteq> [] \<Longrightarrow> length data < t + l \<Longrightarrow> tlv_loop t l data = Some (-1)"
  by (simp add: tlv_loop.simps)

lemma tlv_loop_step:
  assumes "l = 1 \<or> l = 2" "0 < t" "t + l \<le> length data"
  defines "n \<equiv> unat (data ! (t + l - 1))"
  shows "tlv_loop t l data =
    (if tlv_head_ok t l data \<and> t + l \<le> n \<and> n \<le> length data then tlv_loop t l (drop n data) else Some (-1))"
proof -
  have ne: "data \<noteq> []" using assms(2,3) by auto
  have ty: "(if t = 4 then do { t \<leftarrow> rd_mem data 0 4; Some (t \<noteq> [0, 0, 0, 0] \<and> t ! 0 = 0) }
      else if t = 2 then do { t \<leftarrow> rd_mem data 0 2; Some (t \<noteq> [0, 0]) } else Some (t = 1)) =
      Some (tlv_type_ok t data)"
    using assms(3) by (simp add: chunk_def tlv_type_ok_def)
  have hi: "(if l = 2 then rd8 data t else Some 0) = Some (if l = 2 then data ! t else 0)"
    and lo: "rd8 data (t + l - 1) = Some (data ! (t + l - 1))"
    using assms(2,3) by simp_all
  show ?thesis
    by (subst tlv_loop.simps, unfold ty hi lo, rule disjE [OF assms(1)])
       (use assms(2,3) ne in \<open>simp_all add: tlv_head_ok_def n_def Let_def\<close>)
qed

lemma concat_first:
  assumes "\<exists>ts. data = concat ts \<and> (\<forall>v \<in> set ts. P v)" "data \<noteq> []"
  obtains w ws where "data = w @ concat ws" "P w" "\<forall>v \<in> set ws. P v"
proof -
  from assms(1) obtain ts where "data = concat ts" "\<forall>v \<in> set ts. P v" by blast
  with assms(2) that show thesis by (cases ts) auto
qed

lemma tlv_loop_result:
  assumes "l = 1 \<or> l = 2" "0 < t"
  shows "\<exists>r. tlv_loop t l data = Some r \<and> r \<in> {0, -1} \<and>
    (r = 0 \<longleftrightarrow> (\<exists>ts. data = concat ts \<and> (\<forall>v \<in> set ts. whole_tlv t l v)))"
proof (induction data rule: length_induct)
  case (1 data)
  define n where "n = unat (data ! (t + l - 1))"
  have whole: "tlv_head_ok t l data \<and> t + l \<le> n \<and> n = length v \<longleftrightarrow> whole_tlv t l v"
    if "data = v @ rest" "t + l \<le> length v" for v rest
  proof -
    have "data ! (t + l - 1) = v ! (t + l - 1)" using that assms by (auto simp: nth_append)
    moreover have "unat (b :: byte) = k \<longleftrightarrow> k < 256 \<and> b = word_of_nat k" for b k
      by (auto simp: word_unat_eq_iff)
    ultimately show ?thesis
      using that(2) tlv_head_ok_append [OF that(2) assms(2), of rest] unfolding whole_tlv_def n_def that(1) by auto
  qed
  show ?case
  proof (cases "t + l \<le> length data")
    case False
    have "\<not> (\<exists>ts. data = concat ts \<and> (\<forall>v \<in> set ts. whole_tlv t l v))" if "data \<noteq> []"
    proof
      assume "\<exists>ts. data = concat ts \<and> (\<forall>v \<in> set ts. whole_tlv t l v)"
      from this that obtain v vs where "data = v @ concat vs" "whole_tlv t l v" by (rule concat_first)
      then show False using False by (simp add: whole_tlv_def)
    qed
    then show ?thesis using False tlv_loop_short [of data t l] by (cases "data = []") (auto intro: exI [of _ "[]"])
  next
    case True
    have ne: "data \<noteq> []" using True assms by auto
    show ?thesis
    proof (cases "tlv_head_ok t l data \<and> t + l \<le> n \<and> n \<le> length data")
      case ok: True
      have v: "whole_tlv t l (take n data)" using whole [of "take n data" "drop n data"] ok by simp
      have "length (drop n data) < length data" using ok assms ne by simp
      from 1 [rule_format, OF this] tlv_loop_step [OF assms True] ok
      obtain r where r: "tlv_loop t l data = Some r" "r \<in> {0, -1}"
          "r = 0 \<longleftrightarrow> (\<exists>ts. drop n data = concat ts \<and> (\<forall>v \<in> set ts. whole_tlv t l v))"
        by (auto simp: n_def)
      have "(\<exists>ts. drop n data = concat ts \<and> (\<forall>v \<in> set ts. whole_tlv t l v)) \<longleftrightarrow>
          (\<exists>ts. data = concat ts \<and> (\<forall>v \<in> set ts. whole_tlv t l v))" (is "?a \<longleftrightarrow> ?b")
      proof
        assume ?a
        then obtain ts where ts: "drop n data = concat ts" "\<forall>v \<in> set ts. whole_tlv t l v" by blast
        have "data = concat (take n data # ts)" using append_take_drop_id [of n data] ts(1) by simp
        moreover have "\<forall>v \<in> set (take n data # ts). whole_tlv t l v" using ts(2) v by simp
        ultimately show ?b by blast
      next
        assume ?b
        from this ne obtain w ws where w: "data = w @ concat ws" "whole_tlv t l w" "\<forall>v \<in> set ws. whole_tlv t l v"
          by (rule concat_first)
        then have "n = length w" using whole [of w "concat ws"] by (auto simp: whole_tlv_def)
        then show ?a using w by auto
      qed
      then show ?thesis using r by auto
    next
      case bad: False
      have "\<not> (\<exists>ts. data = concat ts \<and> (\<forall>v \<in> set ts. whole_tlv t l v))"
      proof
        assume "\<exists>ts. data = concat ts \<and> (\<forall>v \<in> set ts. whole_tlv t l v)"
        from this ne obtain w ws where w: "data = w @ concat ws" "whole_tlv t l w" by (rule concat_first)
        then show False using whole [of w "concat ws"] bad by (auto simp: whole_tlv_def)
      qed
      then show ?thesis using bad tlv_loop_step [OF assms True] by (auto simp: n_def)
    qed
  qed
qed

text \<open>Attributes without a length field: the first header is checked, the rest is its value.\<close>

lemma tlv_loop_no_length:
  assumes "0 < t"
  shows "tlv_loop t 0 data = Some (if data = [] \<or> t \<le> length data \<and> tlv_type_ok t data then 0 else -1)"
  using assms by (auto simp: tlv_loop.simps [of t 0] tlv_type_ok_def chunk_def)

section \<open>Properties\<close>

text \<open>(C30) For every input and every width of the fields \<open>fr_radius_decode_tlv_ok\<close> ends and reads only inside its input. It returns \<open>0\<close> exactly when the type field has one
  to four and the length field at most two octets, and the input is a sequence of whole TLVs or, where there is no length field, empty or one attribute with a valid
  type. Otherwise it returns \<open>-1\<close>.\<close>

theorem fr_radius_decode_tlv_ok_exact:
  "\<exists>r. fr_radius_decode_tlv_ok data dv_type dv_length = Some r \<and> r \<in> {0, -1} \<and>
    (r = 0 \<longleftrightarrow> 1 \<le> dv_type \<and> dv_type \<le> 4 \<and> dv_length \<le> 2 \<and>
      (if dv_length = 0 then data = [] \<or> dv_type \<le> length data \<and> tlv_type_ok dv_type data
       else \<exists>ts. data = concat ts \<and> (\<forall>v \<in> set ts. whole_tlv dv_type dv_length v)))"
proof (cases "2 < dv_length \<or> dv_type = 0 \<or> 4 < dv_type")
  case True
  then show ?thesis by (auto simp: fr_radius_decode_tlv_ok_def)
next
  case False
  then consider "dv_length = 0" | "dv_length = 1 \<or> dv_length = 2" by linarith
  then show ?thesis
  proof cases
    case 1
    then show ?thesis using False tlv_loop_no_length [of dv_type data] by (auto simp: fr_radius_decode_tlv_ok_def)
  next
    case 2
    then show ?thesis using False tlv_loop_result [of dv_length dv_type data] by (auto simp: fr_radius_decode_tlv_ok_def)
  qed
qed

theorem fr_radius_decode_tlv_ok_exact_witness:
  "fr_radius_decode_tlv_ok [1, 3, 9, 2, 2] 1 1 = Some 0 \<and>
   (\<exists>ts. [1, 3, 9, 2, 2] = concat ts \<and> (\<forall>v \<in> set ts. whole_tlv 1 1 v))"
proof -
  have "fr_radius_decode_tlv_ok [1, 3, 9, 2, 2] 1 1 = Some 0"
    by (simp add: fr_radius_decode_tlv_ok_def tlv_loop.simps)
  with fr_radius_decode_tlv_ok_exact [of "[1, 3, 9, 2, 2]" 1 1] show ?thesis by auto
qed

end
