(* ===== verification/Heap.thy ===== *)
theory Heap
  imports Prelude
begin

text \<open>
  The binary heap of \<^verbatim>\<open>src/lib/util/heap.c\<close> and \<^verbatim>\<open>heap.h\<close>, the priority queue the server's
  schedulers, connection pools and packet queues share, with two of its comparators:
  \<open>reply_cmp\<close> of \<^verbatim>\<open>src/lib/io/network.c\<close> and \<open>_module_instance_global_cmp\<close> of
  \<^verbatim>\<open>src/lib/server/module.c\<close>.

  Data objects are addresses; the heap position each object carries at \<open>h->offset\<close> is the map
  \<open>h_idx\<close>. The array \<open>h->p\<close> is a partial map that is undefined on slots never written; slots
  above \<open>h->size\<close> are outside the allocation (and all slots when \<open>h->size + 1\<close> wraps around to 0). An access outside the allocation or to a slot never
  written is \<open>None\<close>, and so is a loop that does not end. Indices are 32-bit unsigned
  integers, with their wrap-around written out. Allocation can fail: \<open>alloc n\<close> says whether
  growing or shrinking to \<open>n\<close> slots succeeds.

  The lemmas show the heap invariant (the checks of \<open>fr_heap_verify\<close>), that insert, extract and
  pop keep it and stay inside the array, also when the array has just been shrunk, and that
  pop returns a least element. \<open>priority_queue\<close> is the interface for clients.
\<close>

type_synonym ptr = nat

record fr_heap =
  h_size :: nat
  h_min :: nat
  h_num :: nat
  h_p :: "nat \<Rightarrow> ptr option"
  h_idx :: "ptr \<Rightarrow> nat"

abbreviation UINT_MAX :: nat where "UINT_MAX \<equiv> 2 ^ 32 - 1"

definition HEAP_PARENT :: "nat \<Rightarrow> nat" where "HEAP_PARENT x = x div 2"
definition HEAP_LEFT :: "nat \<Rightarrow> nat" where "HEAP_LEFT x = (2 * x) mod 2 ^ 32"
definition HEAP_RIGHT :: "nat \<Rightarrow> nat" where "HEAP_RIGHT x = (2 * x + 1) mod 2 ^ 32"

abbreviation INITIAL_CAPACITY :: nat where "INITIAL_CAPACITY \<equiv> 2048"

text \<open>The special value \<open>UINTPTR_MAX\<close> in slot 0.\<close>

abbreviation UINTPTR_MAX :: ptr where "UINTPTR_MAX \<equiv> 2 ^ 64 - 1"

definition fr_heap_pre_alloc_size :: "nat \<Rightarrow> nat \<Rightarrow> nat" where
  "fr_heap_pre_alloc_size sizeof_heap n = sizeof_heap + 8 * n"

text \<open>The slots allocated for a heap of size \<open>n\<close>: the sum is one of 32-bit unsigned integers.\<close>

definition heap_slots :: "nat \<Rightarrow> nat" where
  "heap_slots n = (n + 1) mod 2 ^ 32"

text \<open>\<open>Some None\<close> when the allocation fails, \<open>None\<close> when slot 0 is written outside of it.\<close>

definition fr_heap_alloc :: "(nat \<Rightarrow> bool) \<Rightarrow> (ptr \<Rightarrow> nat) \<Rightarrow> nat \<Rightarrow> fr_heap option option" where
  "fr_heap_alloc alloc idx init =
     (let init = (if init = 0 then INITIAL_CAPACITY else init) in
      if \<not> alloc init then Some None
      else if heap_slots init = 0 then None
      else Some (Some \<lparr>h_size = init, h_min = init, h_num = 0,
                       h_p = (\<lambda>i. if i = 0 then Some UINTPTR_MAX else None), h_idx = idx\<rparr>))"

subsection \<open>Array and index access\<close>

definition rd_p :: "fr_heap \<Rightarrow> nat \<Rightarrow> ptr option" where
  "rd_p h i = (if i < heap_slots (h_size h) then h_p h i else None)"

definition wr_p :: "fr_heap \<Rightarrow> nat \<Rightarrow> ptr \<Rightarrow> fr_heap option" where
  "wr_p h i d = (if i < heap_slots (h_size h) then Some (h\<lparr>h_p := (h_p h)(i := Some d)\<rparr>) else None)"

definition index_get :: "fr_heap \<Rightarrow> ptr \<Rightarrow> nat" where
  "index_get h d = h_idx h d"

definition index_set :: "fr_heap \<Rightarrow> ptr \<Rightarrow> nat \<Rightarrow> fr_heap" where
  "index_set h d i = h\<lparr>h_idx := (h_idx h)(d := i)\<rparr>"

definition OFFSET_SET :: "fr_heap \<Rightarrow> nat \<Rightarrow> fr_heap option" where
  "OFFSET_SET h i = do { d \<leftarrow> rd_p h i; Some (index_set h d i) }"

definition OFFSET_RESET :: "fr_heap \<Rightarrow> nat \<Rightarrow> fr_heap option" where
  "OFFSET_RESET h i = do { d \<leftarrow> rd_p h i; Some (index_set h d 0) }"

definition fr_heap_entry_inserted :: "nat \<Rightarrow> bool" where
  "fr_heap_entry_inserted i \<longleftrightarrow> 0 < i"

text \<open>\<open>None\<close> when \<open>talloc_realloc\<close> fails; slots beyond the new size are lost.\<close>

definition realloc_heap :: "(nat \<Rightarrow> bool) \<Rightarrow> fr_heap \<Rightarrow> nat \<Rightarrow> fr_heap option" where
  "realloc_heap alloc h n_size =
     (if \<not> alloc n_size then None
      else Some (h\<lparr>h_size := n_size, h_p := (\<lambda>i. if i < heap_slots n_size then h_p h i else None)\<rparr>))"

subsection \<open>Operations\<close>

function bubble_loop :: "(ptr \<Rightarrow> ptr \<Rightarrow> int) \<Rightarrow> fr_heap \<Rightarrow> nat \<Rightarrow> fr_heap option" where
  "bubble_loop cmp h child =
     (if 1 < child then do {
        let parent = HEAP_PARENT child;
        pp \<leftarrow> rd_p h parent;
        pc \<leftarrow> rd_p h child;
        if cmp pp pc < 0 then OFFSET_SET h child
        else do {
          h \<leftarrow> wr_p h child pp;
          h \<leftarrow> wr_p h parent pc;
          h \<leftarrow> OFFSET_SET h child;
          bubble_loop cmp h parent
        }
      }
      else OFFSET_SET h child)"
  by pat_completeness auto
termination
  by (relation "measure (\<lambda>(cmp, h, child). child)") (auto simp: HEAP_PARENT_def)

declare bubble_loop.simps [simp del]

definition fr_heap_bubble :: "(ptr \<Rightarrow> ptr \<Rightarrow> int) \<Rightarrow> fr_heap \<Rightarrow> nat \<Rightarrow> fr_heap option" where
  "fr_heap_bubble cmp h child = (if child = 0 then Some h else bubble_loop cmp h child)"

text \<open>Return code and heap; the heap pointer may be \<open>NULL\<close>.\<close>

definition fr_heap_insert ::
  "(ptr \<Rightarrow> ptr \<Rightarrow> int) \<Rightarrow> (nat \<Rightarrow> bool) \<Rightarrow> fr_heap option \<Rightarrow> ptr \<Rightarrow> (int \<times> fr_heap option) option" where
  "fr_heap_insert cmp alloc hp data =
     (case hp of
        None \<Rightarrow> Some (-1, None)
      | Some h \<Rightarrow>
          if fr_heap_entry_inserted (index_get h data) then Some (-1, Some h)
          else
            let child = (h_num h + 1) mod 2 ^ 32;
                grown = (if h_size h < child then
                           if UINT_MAX - h_size h < h_size h then
                             if h_size h = UINT_MAX then None
                             else realloc_heap alloc h UINT_MAX
                           else realloc_heap alloc h ((h_size h * 2) mod 2 ^ 32)
                         else Some h)
            in case grown of
                 None \<Rightarrow> Some (-1, Some h)
               | Some h \<Rightarrow> do {
                   h \<leftarrow> wr_p h child data;
                   let h = h\<lparr>h_num := (h_num h + 1) mod 2 ^ 32\<rparr>;
                   h \<leftarrow> fr_heap_bubble cmp h child;
                   Some (0, Some h) })"

text \<open>\<open>fr_heap_extract\<close>: first the loop that moves smaller children into the hole (the heap
  and the final position of the hole), then the shrinking of the array.\<close>

partial_function (option) extract_loop ::
  "(ptr \<Rightarrow> ptr \<Rightarrow> int) \<Rightarrow> fr_heap \<Rightarrow> nat \<Rightarrow> nat \<Rightarrow> nat \<Rightarrow> (fr_heap \<times> nat) option" where
  "extract_loop cmp h parent child max' =
     (if child \<le> max' then do {
        right \<leftarrow> (if child \<noteq> max' then do {
                     pr \<leftarrow> rd_p h (child + 1);
                     pc \<leftarrow> rd_p h child;
                     Some (cmp pr pc < 0) }
                   else Some False);
        let child = (if right then child + 1 else child);
        pc \<leftarrow> rd_p h child;
        h \<leftarrow> wr_p h parent pc;
        h \<leftarrow> OFFSET_SET h parent;
        extract_loop cmp h child (HEAP_LEFT child) max'
      }
      else Some (h, parent))"

definition ROUND_UP_DIV :: "nat \<Rightarrow> nat \<Rightarrow> nat" where
  "ROUND_UP_DIV x y = 1 + (x - 1) div y"

definition heap_shrink :: "(nat \<Rightarrow> bool) \<Rightarrow> fr_heap \<Rightarrow> fr_heap" where
  "heap_shrink alloc h =
     (if (h_num h * 2) mod 2 ^ 32 < h_size h then
        let n_size = ROUND_UP_DIV (h_size h) 2 in
        if h_min h < n_size then (case realloc_heap alloc h n_size of None \<Rightarrow> h | Some h \<Rightarrow> h) else h
      else h)"

definition fr_heap_extract ::
  "(ptr \<Rightarrow> ptr \<Rightarrow> int) \<Rightarrow> (nat \<Rightarrow> bool) \<Rightarrow> fr_heap option \<Rightarrow> ptr \<Rightarrow> (int \<times> fr_heap option) option" where
  "fr_heap_extract cmp alloc hp data =
     (case hp of
        None \<Rightarrow> Some (-1, None)
      | Some h \<Rightarrow>
          let parent = index_get h data in
          if parent = 0 \<or> h_num h < parent then Some (-1, Some h)
          else do {
            d \<leftarrow> rd_p h parent;
            if data \<noteq> d then Some (-1, Some h)
            else do {
              let max' = h_num h;
              let child = HEAP_LEFT parent;
              h \<leftarrow> OFFSET_RESET h parent;
              (h, parent) \<leftarrow> extract_loop cmp h parent child max';
              let h = h\<lparr>h_num := h_num h - 1\<rparr>;
              let h = heap_shrink alloc h;
              if parent \<noteq> max' then do {
                last \<leftarrow> rd_p h max';
                h \<leftarrow> wr_p h parent last;
                h \<leftarrow> fr_heap_bubble cmp h parent;
                Some (0, Some h) }
              else Some (0, Some h) } })"

text \<open>The popped item (\<open>None\<close> inside the pair for \<open>NULL\<close>) and the heap.\<close>

definition fr_heap_pop ::
  "(ptr \<Rightarrow> ptr \<Rightarrow> int) \<Rightarrow> (nat \<Rightarrow> bool) \<Rightarrow> fr_heap option \<Rightarrow> (ptr option \<times> fr_heap option) option" where
  "fr_heap_pop cmp alloc hp =
     (case hp of
        None \<Rightarrow> Some (None, None)
      | Some h \<Rightarrow>
          if h_num h = 0 then Some (None, Some h)
          else do {
            data \<leftarrow> rd_p h 1;
            (rc, hp) \<leftarrow> fr_heap_extract cmp alloc (Some h) data;
            Some (if rc < 0 then None else Some data, hp) })"

definition fr_heap_peek :: "fr_heap \<Rightarrow> ptr option option" where
  "fr_heap_peek h = (if h_num h = 0 then Some None else do { d \<leftarrow> rd_p h 1; Some (Some d) })"

definition fr_heap_peek_at :: "fr_heap \<Rightarrow> nat \<Rightarrow> ptr option option" where
  "fr_heap_peek_at h idx = (if h_num h < idx then Some None else do { d \<leftarrow> rd_p h idx; Some (Some d) })"

definition fr_heap_peek_tail :: "fr_heap \<Rightarrow> ptr option option" where
  "fr_heap_peek_tail h = (if h_num h = 0 then Some None else do { d \<leftarrow> rd_p h (h_num h); Some (Some d) })"

definition fr_heap_num_elements :: "fr_heap \<Rightarrow> nat" where
  "fr_heap_num_elements h = h_num h"

text \<open>The iterator: the element and the iterator's new position.\<close>

definition fr_heap_iter_init :: "fr_heap \<Rightarrow> (ptr option \<times> nat) option" where
  "fr_heap_iter_init h = (if h_num h = 0 then Some (None, 1) else do { d \<leftarrow> rd_p h 1; Some (Some d, 1) })"

definition fr_heap_iter_next :: "fr_heap \<Rightarrow> nat \<Rightarrow> (ptr option \<times> nat) option" where
  "fr_heap_iter_next h iter =
     (if h_num h < (iter + 1) mod 2 ^ 32 then Some (None, iter)
      else do { let iter = (iter + 1) mod 2 ^ 32; d \<leftarrow> rd_p h iter; Some (Some d, iter) })"

text \<open>The consistency check: \<open>False\<close> where the code aborts. Its second loop stops at the first
  node without a child, which is at most the last one.\<close>

definition verify_child :: "(ptr \<Rightarrow> ptr \<Rightarrow> int) \<Rightarrow> fr_heap \<Rightarrow> nat \<Rightarrow> nat \<Rightarrow> bool" where
  "verify_child cmp h i c =
     (case rd_p h i of
        None \<Rightarrow> False
      | Some a \<Rightarrow> (case rd_p h c of None \<Rightarrow> False | Some b \<Rightarrow> cmp a b \<le> 0))"

fun verify_order :: "(ptr \<Rightarrow> ptr \<Rightarrow> int) \<Rightarrow> fr_heap \<Rightarrow> nat list \<Rightarrow> bool" where
  "verify_order cmp h [] = True"
| "verify_order cmp h (i # is) =
     (if h_num h < HEAP_LEFT i then True
      else verify_child cmp h i (HEAP_LEFT i) \<and>
           (if h_num h < HEAP_RIGHT i then True
            else verify_child cmp h i (HEAP_RIGHT i) \<and> verify_order cmp h is))"

definition fr_heap_verify :: "(ptr \<Rightarrow> ptr \<Rightarrow> int) \<Rightarrow> fr_heap \<Rightarrow> bool" where
  "fr_heap_verify cmp h \<longleftrightarrow>
     h_num h \<le> h_size h \<and> rd_p h 0 = Some UINTPTR_MAX \<and>
     list_all (\<lambda>i. case rd_p h i of None \<Rightarrow> False | Some d \<Rightarrow> d \<noteq> 0 \<and> index_get h d = i) [1..<h_num h + 1] \<and>
     verify_order cmp h [1..<h_num h + 1]"

subsection \<open>Orders\<close>

text \<open>What the heap relies on in a comparator.\<close>

locale heap_order =
  fixes cmp :: "ptr \<Rightarrow> ptr \<Rightarrow> int"
  assumes cmp_trans: "cmp a b \<le> 0 \<Longrightarrow> cmp b c \<le> 0 \<Longrightarrow> cmp a c \<le> 0"
    and cmp_total: "\<not> cmp a b < 0 \<Longrightarrow> cmp b a \<le> 0"
begin

lemma cmp_refl: "cmp a a \<le> 0"
  using cmp_total [of a a] by linarith

lemma cmp_total': "cmp a b \<le> 0 \<or> cmp b a \<le> 0"
  using cmp_total [of a b] by linarith

end

subsection \<open>Partial heaps\<close>

text \<open>The invariant is stated over a set \<open>L\<close> of live slots, so that it also describes the array
  while an operation has a hole or a misplaced element in it.\<close>

abbreviation elt :: "fr_heap \<Rightarrow> nat \<Rightarrow> ptr" where
  "elt h i \<equiv> the (h_p h i)"

definition live :: "fr_heap \<Rightarrow> nat set \<Rightarrow> bool" where
  "live h L \<longleftrightarrow> h_size h < UINT_MAX \<and> (\<forall>i\<in>L. 1 \<le> i \<and> i \<le> h_size h \<and> (\<exists>d. h_p h i = Some d \<and> d \<noteq> 0)) \<and> inj_on (h_p h) L"

definition indexed :: "fr_heap \<Rightarrow> nat set \<Rightarrow> nat set \<Rightarrow> bool" where
  "indexed h L X \<longleftrightarrow> (\<forall>i\<in>L - X. h_idx h (elt h i) = i) \<and> (\<forall>d. Some d \<notin> h_p h ` L \<longrightarrow> h_idx h d = 0)"

definition ordered :: "(ptr \<Rightarrow> ptr \<Rightarrow> int) \<Rightarrow> fr_heap \<Rightarrow> nat set \<Rightarrow> nat set \<Rightarrow> bool" where
  "ordered cmp h L X \<longleftrightarrow> (\<forall>i\<in>L. i div 2 \<in> L \<longrightarrow> i \<notin> X \<longrightarrow> cmp (elt h (i div 2)) (elt h i) \<le> 0)"

definition grand :: "(ptr \<Rightarrow> ptr \<Rightarrow> int) \<Rightarrow> fr_heap \<Rightarrow> nat set \<Rightarrow> nat \<Rightarrow> bool" where
  "grand cmp h L c \<longleftrightarrow> (\<forall>i\<in>L. i div 2 = c \<longrightarrow> c div 2 \<in> L \<longrightarrow> cmp (elt h (c div 2)) (elt h i) \<le> 0)"

definition heap_elems :: "fr_heap \<Rightarrow> ptr set" where
  "heap_elems h = {d. \<exists>i. 1 \<le> i \<and> i \<le> h_num h \<and> h_p h i = Some d}"

definition heap_inv :: "(ptr \<Rightarrow> ptr \<Rightarrow> int) \<Rightarrow> fr_heap \<Rightarrow> bool" where
  "heap_inv cmp h \<longleftrightarrow> h_size h \<le> UINT_MAX \<and> 0 < h_size h \<and> h_num h \<le> h_size h \<and>
     rd_p h 0 = Some UINTPTR_MAX \<and>
     live h {1..h_num h} \<and> indexed h {1..h_num h} {} \<and> ordered cmp h {1..h_num h} {}"

lemma heap_slots_less: "n < UINT_MAX \<Longrightarrow> i < heap_slots n \<longleftrightarrow> i \<le> n"
  by (auto simp: heap_slots_def)

lemma heap_slots_pos: "n \<le> UINT_MAX \<Longrightarrow> 0 < heap_slots n \<longleftrightarrow> n < UINT_MAX"
  by (cases "n = UINT_MAX") (auto simp: heap_slots_def)

lemma liveD:
  assumes "live h L" "i \<in> L"
  shows "1 \<le> i" "i \<le> h_size h" "h_p h i = Some (elt h i)" "elt h i \<noteq> 0" "rd_p h i = Some (elt h i)"
  using assms by (auto simp: live_def rd_p_def heap_slots_less)

lemma live_inj: "live h L \<Longrightarrow> i \<in> L \<Longrightarrow> j \<in> L \<Longrightarrow> elt h i = elt h j \<longleftrightarrow> i = j"
  unfolding live_def inj_on_def by (metis option.sel)

lemma indexed_idx: "indexed h L X \<Longrightarrow> i \<in> L \<Longrightarrow> i \<notin> X \<Longrightarrow> h_idx h (elt h i) = i"
  by (simp add: indexed_def)

lemma indexed_member: "indexed h L X \<Longrightarrow> h_idx h d \<noteq> 0 \<Longrightarrow> Some d \<in> h_p h ` L"
  unfolding indexed_def by metis

lemma elems_image: "live h {1..h_num h} \<Longrightarrow> Some ` heap_elems h = h_p h ` {1..h_num h}"
  by (force simp: heap_elems_def live_def)

text \<open>Moving an element from slot \<open>j\<close> to slot \<open>i\<close>.\<close>

lemma live_move:
  assumes "live h L" "c \<in> L" "q \<notin> L" "1 \<le> q" "q \<le> h_size h"
    and "h_p h' = (h_p h)(q := h_p h c)" "h_size h' = h_size h" "L' = insert q (L - {c})"
  shows "live h' L'" "h_p h' ` L' = h_p h ` L"
proof -
  have "inj_on (h_p h) L" using assms(1) by (simp add: live_def)
  then have "inj_on (h_p h') L'"
    using assms(2,3,6,8) by (auto simp: inj_on_def)
  then show "live h' L'" using assms by (auto simp: live_def)
  show "h_p h' ` L' = h_p h ` L" using assms(2,3,6,8) by (auto simp: image_iff)
qed

lemma indexed_move:
  assumes "indexed h L X" "live h L" "c \<in> L" "q \<notin> L" "h_p h' = (h_p h)(q := h_p h c)"
    and "h_idx h' = (h_idx h)(elt h c := q)" "L' = insert q (L - {c})" "X \<subseteq> {c}"
  shows "indexed h' L' {}"
  unfolding indexed_def
proof (intro conjI ballI allI impI)
  fix i assume "i \<in> L' - {}"
  then show "h_idx h' (elt h' i) = i"
    using assms live_inj [OF assms(2), of i c] by (auto simp: indexed_def)
next
  fix d assume d: "Some d \<notin> h_p h' ` L'"
  have im: "h_p h' ` L' = h_p h ` L" using assms(3,4,5,7) by (auto simp: image_iff)
  have "elt h c \<noteq> d" using d im liveD(3) [OF assms(2,3)] assms(3) by (metis imageI)
  then show "h_idx h' d = 0" using d assms(1,6) im by (auto simp: indexed_def)
qed

subsection \<open>Bubbling up\<close>

lemma swap_live:
  assumes "live h L" "c \<in> L" "q \<in> L" "h_p h' = (h_p h)(c := h_p h q, q := h_p h c)" "h_size h' = h_size h"
  shows "live h' L" "h_p h' ` L = h_p h ` L"
proof -
  have "inj_on (h_p h) L" using assms(1) by (simp add: live_def)
  then have "inj_on (h_p h') L" using assms(2-4) by (auto simp: inj_on_def)
  then show "live h' L" using assms by (auto simp: live_def)
  show "h_p h' ` L = h_p h ` L" using assms(2-4) by (auto simp: image_iff split: if_splits)
qed

lemma swap_indexed:
  assumes "indexed h L {c}" "live h L" "c \<in> L" "q \<in> L" "c \<noteq> q"
    and p: "h_p h' = (h_p h)(c := h_p h q, q := h_p h c)" and idx: "h_idx h' = (h_idx h)(elt h q := c)"
    and size: "h_size h' = h_size h"
  shows "indexed h' L {q}"
  unfolding indexed_def
proof (intro conjI ballI allI impI)
  fix i assume i: "i \<in> L - {q}"
  show "h_idx h' (elt h' i) = i"
  proof (cases "i = c")
    case False
    then have "elt h i \<noteq> elt h q" using i assms(2,4) live_inj by blast
    then show ?thesis using False i assms(1) p idx by (simp add: indexed_def)
  qed (use assms(5) p idx in simp)
next
  fix d assume d: "Some d \<notin> h_p h' ` L"
  note im = swap_live(2) [OF assms(2,3,4) p size]
  have "elt h q \<noteq> d" using d im liveD(3) [OF assms(2,4)] assms(4) by (metis imageI)
  then show "h_idx h' d = 0" using d assms(1) idx im by (simp add: indexed_def)
qed

lemma bubble_loop_step:
  assumes "1 < c" "rd_p h (c div 2) = Some pp" "rd_p h c = Some pc"
  shows "bubble_loop cmp h c =
    (if cmp pp pc < 0 then OFFSET_SET h c
     else bubble_loop cmp (h\<lparr>h_p := (h_p h)(c := Some pp, c div 2 := Some pc),
                              h_idx := (h_idx h)(pp := c)\<rparr>) (c div 2))"
proof -
  have "c \<noteq> c div 2" using assms(1) by linarith
  then show ?thesis
    using assms bubble_loop.simps [of cmp h c]
    by (auto simp: HEAP_PARENT_def Let_def wr_p_def rd_p_def OFFSET_SET_def index_set_def split: if_splits)
qed

context heap_order
begin

lemma swap_ordered:
  assumes ord: "ordered cmp h L {c}" and gr: "grand cmp h L c" and q: "q = c div 2" "c \<in> L" "q \<in> L" "0 < q"
    and le: "\<not> cmp (elt h q) (elt h c) < 0"
    and p: "h_p h' = (h_p h)(c := h_p h q, q := h_p h c)"
  shows "ordered cmp h' L {q}" "grand cmp h' L q"
proof -
  have cq: "q < c" "q div 2 < q" "q div 2 < c" using q by linarith+
  have el: "elt h' c = elt h q" "elt h' q = elt h c" "\<And>i. i \<noteq> c \<Longrightarrow> i \<noteq> q \<Longrightarrow> elt h' i = elt h i"
    using p cq by simp_all
  have qc: "cmp (elt h c) (elt h q) \<le> 0" using cmp_total [OF le] .
  have o: "cmp (elt h (i div 2)) (elt h i) \<le> 0" if "i \<in> L" "i div 2 \<in> L" "i \<noteq> c" for i
    using ord that by (simp add: ordered_def)
  show "ordered cmp h' L {q}"
    unfolding ordered_def
  proof (intro ballI impI)
    fix i assume i: "i \<in> L" "i div 2 \<in> L" "i \<notin> {q}"
    consider "i = c" | "i \<noteq> c" "i div 2 = q" | "i \<noteq> c" "i div 2 = c" | "i \<noteq> c" "i div 2 \<noteq> q" "i div 2 \<noteq> c"
      by blast
    then show "cmp (elt h' (i div 2)) (elt h' i) \<le> 0"
    proof cases
      case 1
      then show ?thesis using el q qc by simp
    next
      case 2
      then show ?thesis using o [of i] i el cmp_trans [OF qc] by simp
    next
      case 3
      then have "i \<noteq> q" using cq by linarith
      then show ?thesis using 3 gr i el q by (simp add: grand_def)
    next
      case 4
      then show ?thesis using o [of i] i el by simp
    qed
  qed
  show "grand cmp h' L q"
    unfolding grand_def
  proof (intro ballI impI)
    fix i assume i: "i \<in> L" "i div 2 = q" "q div 2 \<in> L"
    have "i \<noteq> q" using i q(4) by linarith
    have gp: "cmp (elt h (q div 2)) (elt h q) \<le> 0" using o [of q] q i cq by simp
    have "elt h' (q div 2) = elt h (q div 2)" using el(3) cq by simp
    then show "cmp (elt h' (q div 2)) (elt h' i) \<le> 0"
      using gp el o [of i] i q(3) \<open>i \<noteq> q\<close> cmp_trans [OF gp, of "elt h i"] by (cases "i = c") simp_all
  qed
qed

lemma bubble_loop_ok:
  assumes "live h {1..n}" "indexed h {1..n} {c}" "ordered cmp h {1..n} {c}" "grand cmp h {1..n} c"
    and "1 \<le> c" "c \<le> n"
  shows "\<exists>h'. bubble_loop cmp h c = Some h' \<and> live h' {1..n} \<and> indexed h' {1..n} {} \<and>
    ordered cmp h' {1..n} {} \<and> h_p h' ` {1..n} = h_p h ` {1..n} \<and>
    h_num h' = h_num h \<and> h_size h' = h_size h \<and> h_min h' = h_min h \<and> h_p h' 0 = h_p h 0"
  using assms
proof (induction c arbitrary: h rule: less_induct)
  case (less c)
  let ?L = "{1..n}"
  have cL: "c \<in> ?L" using less.prems by simp
  have rc: "rd_p h c = Some (elt h c)" "h_p h c = Some (elt h c)"
    using liveD [OF less.prems(1) cL] by simp_all
  have stop: ?case if b: "bubble_loop cmp h c = OFFSET_SET h c" and o: "ordered cmp h ?L {}"
  proof -
    have "indexed (index_set h (elt h c) c) ?L {}"
      using less.prems(2) rc(2) cL live_inj [OF less.prems(1)]
      by (auto simp: indexed_def index_set_def image_iff)
    moreover have "live (index_set h (elt h c) c) ?L" "ordered cmp (index_set h (elt h c) c) ?L {}"
      using less.prems(1) o by (simp_all add: live_def ordered_def index_set_def)
    moreover have "bubble_loop cmp h c = Some (index_set h (elt h c) c)"
      unfolding b OFFSET_SET_def rc(1) by simp
    moreover have "h_p (index_set h (elt h c) c) = h_p h" "h_num (index_set h (elt h c) c) = h_num h"
      "h_size (index_set h (elt h c) c) = h_size h" "h_min (index_set h (elt h c) c) = h_min h"
      by (simp_all add: index_set_def)
    ultimately show ?thesis by (intro exI [of _ "index_set h (elt h c) c"]) simp
  qed
  show ?case
  proof (cases "1 < c")
    case False
    then have "c = 1" using less.prems by simp
    then show ?thesis using less.prems(3) by (intro stop) (auto simp: bubble_loop.simps ordered_def)
  next
    case True
    define q where "q = c div 2"
    have q: "q \<in> ?L" "q < c" "0 < q" using True less.prems by (auto simp: q_def)
    have rq: "rd_p h q = Some (elt h q)" "h_p h q = Some (elt h q)"
      using liveD [OF less.prems(1) q(1)] by simp_all
    note step = bubble_loop_step [OF True rq(1) [unfolded q_def] rc(1), of cmp, folded q_def]
    show ?thesis
    proof (cases "cmp (elt h q) (elt h c) < 0")
      case le: True
      then have "bubble_loop cmp h c = OFFSET_SET h c" unfolding step by simp
      moreover have "ordered cmp h ?L {}"
        using less.prems(3) le by (auto simp: ordered_def q_def)
      ultimately show ?thesis by (rule stop)
    next
      case gt: False
      define h' where "h' = h\<lparr>h_p := (h_p h)(c := h_p h q, q := h_p h c), h_idx := (h_idx h)(elt h q := c)\<rparr>"
      have b: "bubble_loop cmp h c = bubble_loop cmp h' q"
        unfolding step h'_def rc(2) [symmetric] rq(2) [symmetric] using gt by simp
      have f: "h_p h' = (h_p h)(c := h_p h q, q := h_p h c)" "h_idx h' = (h_idx h)(elt h q := c)"
        "h_size h' = h_size h" "h_num h' = h_num h" "h_min h' = h_min h" by (simp_all add: h'_def)
      note live' = swap_live [OF less.prems(1) cL q(1) f(1,3)]
      have idx': "indexed h' ?L {q}"
        using swap_indexed [OF less.prems(2,1) cL q(1) _ f(1,2,3)] q by blast
      note ord' = swap_ordered [OF less.prems(3,4) q_def cL q(1,3) gt f(1)]
      from less.IH [OF q(2) live'(1) idx' ord'] q show ?thesis
        unfolding b using live'(2) f by simp
    qed
  qed
qed

lemma sift_step:
  assumes inv: "live h L" "indexed h L {}" "ordered cmp h L {}" "grand cmp h L q"
    and L: "L = {1..n} - {q}" "L' = {1..n} - {c}" and q: "1 \<le> q" "q \<le> n" "n \<le> h_size h"
    and c: "c \<in> L" "c div 2 = q" "\<forall>i\<in>L. i div 2 = q \<longrightarrow> cmp (elt h c) (elt h i) \<le> 0"
    and f: "h_p h' = (h_p h)(q := h_p h c)" "h_idx h' = (h_idx h)(elt h c := q)" "h_size h' = h_size h"
  shows "live h' L'" "indexed h' L' {}" "ordered cmp h' L' {}" "grand cmp h' L' c" "h_p h' ` L' = h_p h ` L"
proof -
  have d: "q < c" "q div 2 < q" using c(2) q by linarith+
  have L': "L' = insert q (L - {c})" using L q d by auto
  have qL: "q \<notin> L" using L by simp
  have qs: "q \<le> h_size h" using q by simp
  show "live h' L'" "h_p h' ` L' = h_p h ` L"
    using live_move [OF inv(1) c(1) qL q(1) qs f(1,3) L'] by blast+
  show "indexed h' L' {}"
    using indexed_move [OF inv(2,1) c(1) qL f(1,2) L'] by blast
  have el: "elt h' q = elt h c" "\<And>i. i \<noteq> q \<Longrightarrow> elt h' i = elt h i" using f by simp_all
  have inL: "i \<in> L' \<Longrightarrow> i \<noteq> q \<Longrightarrow> i \<in> L" for i using L' by blast
  have o: "i \<in> L \<Longrightarrow> i div 2 \<in> L \<Longrightarrow> cmp (elt h (i div 2)) (elt h i) \<le> 0" for i
    using inv(3) by (simp add: ordered_def)
  show "ordered cmp h' L' {}"
    unfolding ordered_def
  proof (intro ballI impI)
    fix i assume i: "i \<in> L'" "i div 2 \<in> L'"
    consider "i = q" | "i \<noteq> q" "i div 2 = q" | "i \<noteq> q" "i div 2 \<noteq> q" by blast
    then show "cmp (elt h' (i div 2)) (elt h' i) \<le> 0"
    proof cases
      case 1
      then have "q div 2 \<in> L" using i(2) inL d by simp
      then show ?thesis using 1 inv(4) c(1,2) el d by (simp add: grand_def)
    next
      case 2
      then show ?thesis using c(3) inL i el by simp
    next
      case 3
      then show ?thesis using o [of i] inL i el by simp
    qed
  qed
  show "grand cmp h' L' c"
    unfolding grand_def
  proof (intro ballI impI)
    fix i assume i: "i \<in> L'" "i div 2 = c"
    then have "i \<noteq> q" using d by linarith
    then show "cmp (elt h' (c div 2)) (elt h' i) \<le> 0"
      using o [of i] inL i c(1,2) el by simp
  qed
qed

lemma extract_loop_step:
  assumes inv: "live h ({1..n} - {q})" and q: "1 \<le> q" "2 * q \<le> n" "n \<le> h_size h" "n < 2 ^ 31"
  obtains c where "c \<in> {1..n} - {q}" "c div 2 = q"
    "\<forall>i\<in>{1..n} - {q}. i div 2 = q \<longrightarrow> cmp (elt h c) (elt h i) \<le> 0"
    "extract_loop cmp h q (2 * q) n =
       extract_loop cmp (h\<lparr>h_p := (h_p h)(q := h_p h c), h_idx := (h_idx h)(elt h c := q)\<rparr>) c (2 * c) n"
proof -
  let ?L = "{1..n} - {q}" and ?r = "\<lambda>c. h\<lparr>h_p := (h_p h)(q := h_p h c), h_idx := (h_idx h)(elt h c := q)\<rparr>"
  define right where "right \<longleftrightarrow> 2 * q \<noteq> n \<and> cmp (elt h (2 * q + 1)) (elt h (2 * q)) < 0"
  define c where "c = (if right then 2 * q + 1 else 2 * q)"
  have cL: "c \<in> ?L" "c div 2 = q" using q by (auto simp: c_def right_def)
  have l: "2 * q \<in> ?L" "2 * q \<noteq> n \<Longrightarrow> 2 * q + 1 \<in> ?L" using q by auto
  have rc: "rd_p h c = Some (elt h c)" using liveD [OF inv cL(1)] by blast
  obtain d where d: "h_p h c = Some d" using liveD(3) [OF inv cL(1)] by blast
  have dec: "(if 2 * q \<noteq> n then do { pr \<leftarrow> rd_p h (2 * q + 1); pc \<leftarrow> rd_p h (2 * q); Some (cmp pr pc < 0) }
              else Some False) = Some right"
    using liveD(5) [OF inv l(1)] liveD(5) [OF inv l(2)] by (auto simp: right_def)
  have left: "HEAP_LEFT c = 2 * c" using cL q by (auto simp: HEAP_LEFT_def)
  have "extract_loop cmp h q (2 * q) n = (do { pc \<leftarrow> rd_p h c; h \<leftarrow> wr_p h q pc; h \<leftarrow> OFFSET_SET h q;
      extract_loop cmp h c (HEAP_LEFT c) n })"
    using q(2) unfolding extract_loop.simps [of cmp h q "2 * q" n] dec by (simp add: c_def Let_def)
  also have "\<dots> = extract_loop cmp (?r c) c (2 * c) n"
    unfolding rc left using q d inv by (simp add: live_def heap_slots_less wr_p_def OFFSET_SET_def rd_p_def index_set_def)
  finally have "extract_loop cmp h q (2 * q) n = extract_loop cmp (?r c) c (2 * c) n" .
  moreover have "cmp (elt h c) (elt h i) \<le> 0" if i: "i \<in> ?L" "i div 2 = q" for i
  proof -
    have "i = 2 * q \<or> i = 2 * q + 1 \<and> 2 * q \<noteq> n" using i by auto
    then show ?thesis
      using cmp_refl cmp_total [of "elt h (2 * q + 1)" "elt h (2 * q)"]
      by (auto simp: c_def right_def)
  qed
  ultimately show thesis using that cL by blast
qed

lemma extract_loop_ok:
  assumes "live h ({1..n} - {q})" "indexed h ({1..n} - {q}) {}" "ordered cmp h ({1..n} - {q}) {}"
    and "grand cmp h ({1..n} - {q}) q" "1 \<le> q" "q \<le> n" "n \<le> h_size h" "n < 2 ^ 31"
  shows "\<exists>h' q'. extract_loop cmp h q (2 * q) n = Some (h', q') \<and> 1 \<le> q' \<and> q' \<le> n \<and> n < 2 * q' \<and>
    live h' ({1..n} - {q'}) \<and> indexed h' ({1..n} - {q'}) {} \<and> ordered cmp h' ({1..n} - {q'}) {} \<and>
    h_p h' ` ({1..n} - {q'}) = h_p h ` ({1..n} - {q}) \<and>
    h_num h' = h_num h \<and> h_size h' = h_size h \<and> h_min h' = h_min h \<and> h_p h' 0 = h_p h 0"
  using assms
proof (induction "n - q" arbitrary: h q rule: less_induct)
  case less
  show ?case
  proof (cases "2 * q \<le> n")
    case False
    then show ?thesis using less.prems by (auto simp: extract_loop.simps [of cmp h q])
  next
    case True
    obtain c where c: "c \<in> {1..n} - {q}" "c div 2 = q"
      "\<forall>i\<in>{1..n} - {q}. i div 2 = q \<longrightarrow> cmp (elt h c) (elt h i) \<le> 0"
      and step: "extract_loop cmp h q (2 * q) n =
        extract_loop cmp (h\<lparr>h_p := (h_p h)(q := h_p h c), h_idx := (h_idx h)(elt h c := q)\<rparr>) c (2 * c) n"
      using extract_loop_step [OF less.prems(1,5) True less.prems(7,8)] by blast
    define h' where "h' = h\<lparr>h_p := (h_p h)(q := h_p h c), h_idx := (h_idx h)(elt h c := q)\<rparr>"
    have f: "h_p h' = (h_p h)(q := h_p h c)" "h_idx h' = (h_idx h)(elt h c := q)" "h_size h' = h_size h"
      "h_num h' = h_num h" "h_min h' = h_min h" by (simp_all add: h'_def)
    note s = sift_step [OF less.prems(1-4) refl refl less.prems(5-7) c f(1-3)]
    have cn: "1 \<le> c" "c \<le> n" "n - c < n - q" using c less.prems(5) by auto
    have "n \<le> h_size h'" using f less.prems(7) by simp
    have "h_p h' 0 = h_p h 0" using f(1) less.prems(5) by simp
    note h0 = this
    from less.hyps [OF cn(3) s(1-4) cn(1,2) \<open>n \<le> h_size h'\<close> less.prems(8), unfolded f(3,4,5) h0 s(5)]
    show ?thesis unfolding step h'_def [symmetric] .
  qed
qed

end

subsection \<open>Invariant and operations\<close>

lemma heap_invD:
  assumes "heap_inv cmp h"
  shows "h_size h < UINT_MAX" "0 < h_size h" "h_num h \<le> h_size h" "h_p h 0 = Some UINTPTR_MAX"
    "live h {1..h_num h}" "indexed h {1..h_num h} {}" "ordered cmp h {1..h_num h} {}"
  using assms by (auto simp: heap_inv_def live_def rd_p_def split: if_splits)

lemma heap_invI:
  assumes "0 < h_size h" "h_num h \<le> h_size h" "h_p h 0 = Some UINTPTR_MAX"
    "live h {1..h_num h}" "indexed h {1..h_num h} {}" "ordered cmp h {1..h_num h} {}"
  shows "heap_inv cmp h"
  using assms by (simp add: heap_inv_def live_def rd_p_def heap_slots_less)

lemma heap_elems_idx:
  assumes "heap_inv cmp h"
  shows "d \<in> heap_elems h \<longleftrightarrow> h_idx h d \<noteq> 0"
    and "d \<in> heap_elems h \<Longrightarrow> h_idx h d \<in> {1..h_num h} \<and> h_p h (h_idx h d) = Some d"
proof -
  note v = heap_invD [OF assms]
  have a: "h_idx h d \<in> {1..h_num h} \<and> h_p h (h_idx h d) = Some d" if "d \<in> heap_elems h"
  proof -
    from that obtain i where i: "i \<in> {1..h_num h}" "h_p h i = Some d" by (auto simp: heap_elems_def)
    have "h_idx h (elt h i) = i" using indexed_idx [OF v(6) i(1)] by simp
    with i show ?thesis by simp
  qed
  then show "d \<in> heap_elems h \<Longrightarrow> h_idx h d \<in> {1..h_num h} \<and> h_p h (h_idx h d) = Some d" .
  show "d \<in> heap_elems h \<longleftrightarrow> h_idx h d \<noteq> 0"
  proof
    assume "h_idx h d \<noteq> 0"
    from indexed_member [OF v(6) this] obtain i where "i \<in> {1..h_num h}" "h_p h i = Some d" by (metis imageE)
    then show "d \<in> heap_elems h" unfolding heap_elems_def by auto
  next
    assume "d \<in> heap_elems h"
    from a [OF this] show "h_idx h d \<noteq> 0" by simp
  qed
qed

lemma elems_eqI:
  assumes "live h {1..h_num h}" "h_p h ` {1..h_num h} = Some ` D"
  shows "heap_elems h = D"
proof -
  have "Some ` heap_elems h = Some ` D" using elems_image [OF assms(1)] assms(2) by simp
  then show ?thesis by (simp add: inj_image_eq_iff)
qed

lemma add_last:
  assumes inv: "heap_inv cmp h" and data: "h_idx h data = 0" "data \<noteq> 0"
    and n: "n = h_num h" and h': "\<And>i. i \<le> n \<Longrightarrow> h_p h' i = h_p h i" "h_p h' (n + 1) = Some data"
    "n + 1 \<le> h_size h'" "h_idx h' = h_idx h" "h_size h' < UINT_MAX"
  shows "live h' {1..n + 1}" "indexed h' {1..n + 1} {n + 1}" "ordered cmp h' {1..n + 1} {n + 1}"
    "grand cmp h' {1..n + 1} (n + 1)" "h_p h' ` {1..n + 1} = insert (Some data) (h_p h ` {1..n})"
proof -
  note v = heap_invD [OF inv]
  have L: "{1..n + 1} = insert (n + 1) {1..n}" by auto
  have nin: "Some data \<notin> h_p h ` {1..n}"
    using data(1) heap_elems_idx(1) [OF inv, of data] n by (auto simp: heap_elems_def)
  have im: "h_p h' ` {1..n} = h_p h ` {1..n}" using h'(1) by (intro image_cong) simp_all
  show img: "h_p h' ` {1..n + 1} = insert (Some data) (h_p h ` {1..n})"
    unfolding L image_insert h'(2) im ..
  have "inj_on (h_p h') {1..n}"
    using v(5) h'(1) n by (subst inj_on_cong [of _ _ "h_p h"]) (simp_all add: live_def)
  then have "inj_on (h_p h') {1..n + 1}" unfolding L using nin im h'(2) by simp
  moreover have "\<exists>d. h_p h' i = Some d \<and> d \<noteq> 0" if "i \<in> {1..n + 1}" for i
    using that v(5) h'(1) [of i] h'(2) data(2) n by (cases "i = n + 1") (auto simp: live_def)
  ultimately show "live h' {1..n + 1}" using h'(3,5) by (auto simp: live_def)
  show "indexed h' {1..n + 1} {n + 1}"
    unfolding indexed_def img h'(4) using v(6) n h'(1) by (auto simp: indexed_def)
  have el: "elt h' i = elt h i" if "i \<le> n" for i using h'(1) that by simp
  show "ordered cmp h' {1..n + 1} {n + 1}"
    unfolding ordered_def
  proof (intro ballI impI)
    fix i assume i: "i \<in> {1..n + 1}" "i div 2 \<in> {1..n + 1}" "i \<notin> {n + 1}"
    then have "i \<in> {1..n}" "i div 2 \<in> {1..n}" by auto
    then show "cmp (elt h' (i div 2)) (elt h' i) \<le> 0" using v(7) n el by (simp add: ordered_def)
  qed
  show "grand cmp h' {1..n + 1} (n + 1)" by (auto simp: grand_def)
qed

definition heap_fits :: "(nat \<Rightarrow> bool) \<Rightarrow> fr_heap \<Rightarrow> bool" where
  "heap_fits alloc h \<longleftrightarrow> h_num h < h_size h \<or> alloc (2 * h_size h)"

context heap_order
begin

lemma bubble_last:
  assumes inv: "heap_inv cmp h" and data: "h_idx h data = 0" "data \<noteq> 0" and n: "n = h_num h"
    and h': "\<And>i. i \<le> n \<Longrightarrow> h_p h' i = h_p h i" "h_p h' (n + 1) = Some data"
    "n + 1 \<le> h_size h'" "h_idx h' = h_idx h" "h_num h' = n + 1" "h_size h' < UINT_MAX"
  shows "\<exists>r. fr_heap_bubble cmp h' (n + 1) = Some r \<and> heap_inv cmp r \<and>
    heap_elems r = insert data (heap_elems h) \<and> h_num r = n + 1 \<and> h_min r = h_min h' \<and> h_size r = h_size h'"
proof -
  note a = add_last [OF inv data n h'(1-4,6)]
  from bubble_loop_ok [OF a(1-4)] obtain r where b: "bubble_loop cmp h' (n + 1) = Some r"
    and r: "live r {1..n + 1}" "indexed r {1..n + 1} {}" "ordered cmp r {1..n + 1} {}"
      "h_p r ` {1..n + 1} = h_p h' ` {1..n + 1}" "h_num r = h_num h'" "h_size r = h_size h'"
      "h_min r = h_min h'" "h_p r 0 = h_p h' 0" by auto
  have p0: "h_p r 0 = Some UINTPTR_MAX" using r(8) h'(1) [of 0] heap_invD(4) [OF inv] by simp
  have num: "h_num r = n + 1" using r(5) h'(5) by simp
  have "heap_inv cmp r"
    by (rule heap_invI) (unfold num r(6), use r(1-3) p0 h'(3) in simp_all)
  moreover have "heap_elems r = insert data (heap_elems h)"
  proof (rule elems_eqI)
    show "live r {1..h_num r}" unfolding num by (rule r(1))
    show "h_p r ` {1..h_num r} = Some ` insert data (heap_elems h)"
      using r(4) a(5) elems_image [OF heap_invD(5) [OF inv]] unfolding num n image_insert by simp
  qed
  ultimately show ?thesis using b num r(6,7) by (simp add: fr_heap_bubble_def)
qed

lemma fr_heap_insert_ok:
  assumes inv: "heap_inv cmp h" and data: "data \<notin> heap_elems h" "data \<noteq> 0"
    and n: "h_num h < 2 ^ 31 - 1" and fits: "heap_fits alloc h"
  shows "\<exists>r. fr_heap_insert cmp alloc (Some h) data = Some (0, Some r) \<and> heap_inv cmp r \<and>
    heap_elems r = insert data (heap_elems h) \<and> h_num r = h_num h + 1"
proof -
  note v = heap_invD [OF inv]
  have idx: "h_idx h data = 0" using data heap_elems_idx(1) [OF inv] by blast
  have child: "(h_num h + 1) mod 2 ^ 32 = h_num h + 1" using n by simp
  define g where "g = (if h_num h < h_size h then h
    else h\<lparr>h_size := 2 * h_size h, h_p := (\<lambda>i. if i < heap_slots (2 * h_size h) then h_p h i else None)\<rparr>)"
  have g: "(if h_size h < h_num h + 1 then
      if UINT_MAX - h_size h < h_size h then
        if h_size h = UINT_MAX then None else realloc_heap alloc h UINT_MAX
      else realloc_heap alloc h ((h_size h * 2) mod 2 ^ 32)
    else Some h) = Some g"
  proof (cases "h_num h < h_size h")
    case False
    then have "h_size h = h_num h" using v(3) by simp
    then have "\<not> UINT_MAX - h_size h < h_size h" "(h_size h * 2) mod 2 ^ 32 = 2 * h_size h" "alloc (2 * h_size h)"
      using n fits False by (simp_all add: heap_fits_def)
    then show ?thesis using False by (simp add: g_def realloc_heap_def mult.commute)
  qed (simp add: g_def)
  have gf: "h_num h + 1 \<le> h_size g" "h_size g < UINT_MAX" "h_num g = h_num h" "h_idx g = h_idx h"
    "\<And>i. i \<le> h_num h \<Longrightarrow> h_p g i = h_p h i"
    using v(1,2,3) n by (auto simp: g_def heap_slots_def)
  define w where "w = g\<lparr>h_p := (h_p g)(h_num h + 1 := Some data), h_num := h_num h + 1\<rparr>"
  have "fr_heap_insert cmp alloc (Some h) data =
      (do { r \<leftarrow> fr_heap_bubble cmp w (h_num h + 1); Some (0, Some r) })"
    unfolding fr_heap_insert_def option.case index_get_def fr_heap_entry_inserted_def idx child Let_def g
    using gf(1-3) child by (simp add: wr_p_def w_def heap_slots_less)
  moreover obtain r where "fr_heap_bubble cmp w (h_num h + 1) = Some r" "heap_inv cmp r"
      "heap_elems r = insert data (heap_elems h)" "h_num r = h_num h + 1"
    using bubble_last [OF inv idx data(2) refl, of w] gf by (auto simp: w_def)
  ultimately show ?thesis by simp
qed

end

lemma heap_shrink_keeps:
  assumes "h_num h = n - 1" "1 \<le> n" "n < 2 ^ 31" "n \<le> h_size h" "h_size h < UINT_MAX"
  shows "n \<le> h_size (heap_shrink alloc h)" "h_size (heap_shrink alloc h) < UINT_MAX"
    "h_num (heap_shrink alloc h) = n - 1" "h_idx (heap_shrink alloc h) = h_idx h"
    "i \<le> n \<Longrightarrow> h_p (heap_shrink alloc h) i = h_p h i"
proof -
  have "n \<le> ROUND_UP_DIV (h_size h) 2" if "(h_num h * 2) mod 2 ^ 32 < h_size h"
    using that assms by (simp add: ROUND_UP_DIV_def)
  moreover have "ROUND_UP_DIV (h_size h) 2 < UINT_MAX" using assms by (simp add: ROUND_UP_DIV_def)
  ultimately show "n \<le> h_size (heap_shrink alloc h)" "h_size (heap_shrink alloc h) < UINT_MAX"
    "h_num (heap_shrink alloc h) = n - 1" "h_idx (heap_shrink alloc h) = h_idx h"
    "i \<le> n \<Longrightarrow> h_p (heap_shrink alloc h) i = h_p h i"
    using assms by (auto simp: heap_shrink_def realloc_heap_def Let_def heap_slots_less)
qed

text \<open>Only the live slots matter.\<close>

lemma partial_cong:
  assumes inv: "live h L" "indexed h L {}" "ordered cmp h L {}"
    and c: "\<And>i. i \<in> L \<Longrightarrow> h_p h' i = h_p h i" "h_idx h' = h_idx h" "\<And>i. i \<in> L \<Longrightarrow> i \<le> h_size h'" "h_size h' < UINT_MAX"
  shows "live h' L" "indexed h' L {}" "ordered cmp h' L {}" "h_p h' ` L = h_p h ` L"
proof -
  show im: "h_p h' ` L = h_p h ` L" using c(1) by (intro image_cong) simp_all
  have "inj_on (h_p h') L" using inv(1) c(1) inj_on_cong [of L "h_p h'" "h_p h"] by (simp add: live_def)
  then show "live h' L" using inv(1) c(1,3,4) by (auto simp: live_def)
  show "indexed h' L {}" unfolding indexed_def im c(2) using inv(2) c(1) by (simp add: indexed_def)
  show "ordered cmp h' L {}" using inv(3) c(1) by (simp add: ordered_def)
qed

text \<open>The last element moved into the hole.\<close>

lemma fill_hole:
  assumes inv: "live h ({1..n} - {q})" "indexed h ({1..n} - {q}) {}" "ordered cmp h ({1..n} - {q}) {}"
    and q: "1 \<le> q" "q < n" "n < 2 * q" and f: "h_p h' = (h_p h)(q := h_p h n)" "h_size h' = h_size h" "h_idx h' = h_idx h"
  shows "live h' {1..n - 1}" "indexed h' {1..n - 1} {q}" "ordered cmp h' {1..n - 1} {q}"
    "grand cmp h' {1..n - 1} q" "h_p h' ` {1..n - 1} = h_p h ` ({1..n} - {q})"
proof -
  let ?L = "{1..n} - {q}"
  have nL: "n \<in> ?L" and L: "{1..n - 1} = insert q (?L - {n})" using q by auto
  have qs: "q \<le> h_size h" using liveD(2) [OF inv(1) nL] q by simp
  show lv: "live h' {1..n - 1}" and im: "h_p h' ` {1..n - 1} = h_p h ` ?L"
    using live_move [OF inv(1) nL _ q(1) qs f(1,2) L] by simp_all
  have el: "elt h' i = elt h i" if "i \<noteq> q" for i using f(1) that by simp
  have idx: "h_idx h (elt h i) = i" if "i \<in> ?L" for i using indexed_idx [OF inv(2) that] by simp
  have "h_idx h' (elt h' i) = i" if "i \<in> {1..n - 1} - {q}" for i
  proof -
    have "i \<in> ?L" "i \<noteq> q" using that by auto
    then show ?thesis using idx [of i] el [of i] f(3) by simp
  qed
  then show "indexed h' {1..n - 1} {q}"
    unfolding indexed_def im f(3) using inv(2) f(3) by (simp add: indexed_def)
  have half: "i div 2 \<noteq> q" if "i \<in> {1..n - 1}" for i
  proof
    assume "i div 2 = q"
    then have "2 * q \<le> i" by linarith
    with that q(3) show False by simp
  qed
  show "ordered cmp h' {1..n - 1} {q}"
    unfolding ordered_def
  proof (intro ballI impI)
    fix i assume i: "i \<in> {1..n - 1}" "i div 2 \<in> {1..n - 1}" "i \<notin> {q}"
    then have "i \<in> ?L" "i div 2 \<in> ?L" using half [OF i(1)] by auto
    then show "cmp (elt h' (i div 2)) (elt h' i) \<le> 0"
      using inv(3) el [of i] el [of "i div 2"] by (simp add: ordered_def)
  qed
  show "grand cmp h' {1..n - 1} q" using half by (auto simp: grand_def)
qed

context heap_order
begin

lemma remove_slot:
  assumes inv: "heap_inv cmp h" and q: "q \<in> {1..h_num h}" "h_p h q = Some d"
    and f: "h_p h' = h_p h" "h_size h' = h_size h" "h_idx h' = (h_idx h)(d := 0)"
  defines "L \<equiv> {1..h_num h} - {q}"
  shows "live h' L" "indexed h' L {}" "ordered cmp h' L {}" "grand cmp h' L q"
    "h_p h' ` L = Some ` (heap_elems h - {d})"
proof -
  note v = heap_invD [OF inv]
  have sub: "i \<in> {1..h_num h}" if "i \<in> L" for i using that by (simp add: L_def)
  have ne: "h_p h i \<noteq> Some d" if "i \<in> L" for i
  proof
    assume "h_p h i = Some d"
    then have "i = q" using v(5) sub [OF that] q unfolding live_def inj_on_def by metis
    then show False using that by (simp add: L_def)
  qed
  show "live h' L" using v(5) f by (auto simp: live_def L_def intro: inj_on_subset)
  have all: "{1..h_num h} = insert q L" using q by (auto simp: L_def)
  have img: "Some ` heap_elems h = insert (Some d) (h_p h ` L)"
    using elems_image [OF v(5)] q(2) unfolding all by simp
  show im: "h_p h' ` L = Some ` (heap_elems h - {d})"
    using img ne f(1) by (auto simp: image_set_diff)
  have "h_idx h' (elt h' i) = i" if "i \<in> L" for i
  proof -
    have "elt h i \<noteq> d" using ne [OF that] liveD(3) [OF v(5) sub [OF that]] by metis
    then show ?thesis using v(6) sub [OF that] f by (simp add: indexed_def)
  qed
  moreover have "h_idx h' x = 0" if "Some x \<notin> h_p h' ` L" for x
    using that im heap_elems_idx(1) [OF inv, of x] f(3) by auto
  ultimately show "indexed h' L {}" by (simp add: indexed_def)
  have o: "cmp (elt h (i div 2)) (elt h i) \<le> 0" if "i \<in> {1..h_num h}" "i div 2 \<in> {1..h_num h}" for i
    using v(7) that by (simp add: ordered_def)
  then show "ordered cmp h' L {}" using sub f(1) by (simp add: ordered_def)
  show "grand cmp h' L q"
    unfolding grand_def f(1) using o sub q(1) cmp_trans by blast
qed

lemma fr_heap_extract_ok:
  assumes inv: "heap_inv cmp h" and d: "d \<in> heap_elems h" and n: "h_num h < 2 ^ 31"
  shows "\<exists>r. fr_heap_extract cmp alloc (Some h) d = Some (0, Some r) \<and> heap_inv cmp r \<and>
    heap_elems r = heap_elems h - {d} \<and> h_num r = h_num h - 1"
proof -
  note v = heap_invD [OF inv]
  define n where "n = h_num h"
  define q where "q = h_idx h d"
  have q: "q \<in> {1..n}" "h_p h q = Some d" using heap_elems_idx(2) [OF inv d] by (simp_all add: q_def n_def)
  have qn: "1 \<le> q" "q \<le> n" "n \<le> h_size h" "n < 2 ^ 31" using q v(3) assms(3) by (simp_all add: n_def)
  define h1 where "h1 = index_set h d 0"
  have f1: "h_p h1 = h_p h" "h_size h1 = h_size h" "h_idx h1 = (h_idx h)(d := 0)" "h_num h1 = n" "h_min h1 = h_min h"
    by (simp_all add: h1_def index_set_def n_def)
  note r1 = remove_slot [OF inv q [unfolded n_def] f1(1-3), folded n_def]
  have rd: "rd_p h q = Some d" using q qn v(1) by (simp add: rd_p_def heap_slots_less)
  obtain h2 q2 where loop: "extract_loop cmp h1 q (2 * q) n = Some (h2, q2)"
    and q2: "1 \<le> q2" "q2 \<le> n" "n < 2 * q2"
    and i2: "live h2 ({1..n} - {q2})" "indexed h2 ({1..n} - {q2}) {}" "ordered cmp h2 ({1..n} - {q2}) {}"
      "h_p h2 ` ({1..n} - {q2}) = h_p h1 ` ({1..n} - {q})"
    and f2: "h_num h2 = n" "h_size h2 = h_size h" "h_p h2 0 = Some UINTPTR_MAX"
    using extract_loop_ok [OF r1(1-4) qn(1,2) _ qn(4)] qn(3) f1 v(4) by auto
  define h3 where "h3 = heap_shrink alloc (h2\<lparr>h_num := n - 1\<rparr>)"
  have s: "n \<le> h_size h3" "h_size h3 < UINT_MAX" "h_num h3 = n - 1" "h_idx h3 = h_idx h2"
    "\<And>i. i \<le> n \<Longrightarrow> h_p h3 i = h_p h2 i"
    using heap_shrink_keeps [of "h2\<lparr>h_num := n - 1\<rparr>" n] qn f2 v(1) by (simp_all add: h3_def)
  have i3: "live h3 ({1..n} - {q2})" "indexed h3 ({1..n} - {q2}) {}" "ordered cmp h3 ({1..n} - {q2}) {}"
      "h_p h3 ` ({1..n} - {q2}) = Some ` (heap_elems h - {d})"
    using partial_cong [OF i2(1-3), of h3] s i2(4) r1(5) by auto
  have ext: "fr_heap_extract cmp alloc (Some h) d =
      (if q2 \<noteq> n then do { last \<leftarrow> rd_p h3 n; h \<leftarrow> wr_p h3 q2 last; h \<leftarrow> fr_heap_bubble cmp h q2; Some (0, Some h) }
       else Some (0, Some h3))"
  proof -
    have "HEAP_LEFT q = 2 * q" using qn by (simp add: HEAP_LEFT_def)
    moreover have "OFFSET_RESET h q = Some h1" using rd by (simp add: OFFSET_RESET_def h1_def)
    ultimately show ?thesis
      using qn rd loop f2(1)
      by (simp add: fr_heap_extract_def index_get_def q_def [symmetric] n_def [symmetric] h3_def Let_def)
  qed
  have p0: "h_p h3 0 = Some UINTPTR_MAX" using s(5) [of 0] f2(3) by simp
  have fin: "heap_inv cmp r \<and> heap_elems r = heap_elems h - {d}"
    if "live r {1..n - 1}" "indexed r {1..n - 1} {}" "ordered cmp r {1..n - 1} {}" "h_num r = n - 1"
      "h_size r = h_size h3" "h_p r 0 = Some UINTPTR_MAX" "h_p r ` {1..n - 1} = Some ` (heap_elems h - {d})" for r
    using that s(1,2) qn elems_eqI [of r "heap_elems h - {d}"] by (simp add: heap_invI)
  show ?thesis
  proof (cases "q2 = n")
    case True
    then have L: "{1..n} - {q2} = {1..n - 1}" by auto
    show ?thesis using ext True fin [of h3] i3 [unfolded L] s(3) p0 by (simp add: n_def)
  next
    case False
    then have qlt: "q2 < n" using q2 by simp
    have nL: "n \<in> {1..n} - {q2}" using False qn by simp
    obtain l where l: "h_p h3 n = Some l" using liveD(3) [OF i3(1) nL] by blast
    define h4 where "h4 = h3\<lparr>h_p := (h_p h3)(q2 := h_p h3 n)\<rparr>"
    have f4: "h_p h4 = (h_p h3)(q2 := h_p h3 n)" "h_size h4 = h_size h3" "h_idx h4 = h_idx h3" "h_num h4 = n - 1"
      using s(3) by (simp_all add: h4_def)
    note fh = fill_hole [OF i3(1-3) q2(1) qlt q2(3) f4(1-3)]
    have "q2 \<le> n - 1" using qlt by linarith
    from bubble_loop_ok [OF fh(1-4) q2(1) this] obtain r where b: "bubble_loop cmp h4 q2 = Some r"
      and r: "live r {1..n - 1}" "indexed r {1..n - 1} {}" "ordered cmp r {1..n - 1} {}"
        "h_p r ` {1..n - 1} = h_p h4 ` {1..n - 1}" "h_num r = h_num h4" "h_size r = h_size h4" "h_p r 0 = h_p h4 0"
      by blast
    have "h_p h4 0 = Some UINTPTR_MAX" using f4(1) p0 q2(1) by simp
    then have "heap_inv cmp r \<and> heap_elems r = heap_elems h - {d}"
      using r f4 fh(5) i3(4) by (intro fin) simp_all
    moreover have "fr_heap_extract cmp alloc (Some h) d = Some (0, Some r)"
      using ext False l s(1,2) q2 b by (simp add: heap_slots_less rd_p_def wr_p_def fr_heap_bubble_def h4_def)
    ultimately show ?thesis using r(5) f4(4) by (simp add: n_def)
  qed
qed

text \<open>The root is a least element.\<close>

lemma root_least:
  assumes inv: "heap_inv cmp h" and i: "i \<in> {1..h_num h}"
  shows "cmp (elt h 1) (elt h i) \<le> 0"
  using i
proof (induction i rule: less_induct)
  case (less i)
  show ?case
  proof (cases "i = 1")
    case False
    then have "i div 2 \<in> {1..h_num h}" "i div 2 < i" using less.prems by auto
    with less have "cmp (elt h 1) (elt h (i div 2)) \<le> 0" "cmp (elt h (i div 2)) (elt h i) \<le> 0"
      using heap_invD(7) [OF inv] by (auto simp: ordered_def)
    then show ?thesis by (rule cmp_trans)
  qed (simp add: cmp_refl)
qed

lemma fr_heap_pop_ok:
  assumes inv: "heap_inv cmp h" and n: "0 < h_num h" "h_num h < 2 ^ 31"
  shows "\<exists>d r. fr_heap_pop cmp alloc (Some h) = Some (Some d, Some r) \<and> d \<in> heap_elems h \<and>
    (\<forall>x\<in>heap_elems h. cmp d x \<le> 0) \<and> heap_inv cmp r \<and> heap_elems r = heap_elems h - {d} \<and> h_num r = h_num h - 1"
proof -
  have one: "1 \<in> {1..h_num h}" using n by simp
  note l = liveD [OF heap_invD(5) [OF inv] one]
  obtain d where dp: "h_p h 1 = Some d" using l(3) by blast
  then have d: "d \<in> heap_elems h" using n by (auto simp: heap_elems_def)
  have rd: "rd_p h 1 = Some d" using l(5) dp by simp
  have "cmp d x \<le> 0" if "x \<in> heap_elems h" for x
    using that root_least [OF inv] dp by (fastforce simp: heap_elems_def)
  with fr_heap_extract_ok [OF inv d n(2), of alloc] d rd n show ?thesis
    by (auto simp: fr_heap_pop_def)
qed

end

subsection \<open>The consistency check\<close>

lemma verify_child_ok:
  assumes "heap_inv cmp h" "1 \<le> i" "c \<le> h_num h" "c div 2 = i"
  shows "verify_child cmp h i c"
proof -
  note v = heap_invD [OF assms(1)]
  have "i \<in> {1..h_num h}" "c \<in> {1..h_num h}" using assms(2-4) by auto
  with v(7) liveD(5) [OF v(5)] assms(4) show ?thesis
    by (auto simp: verify_child_def ordered_def)
qed

lemma verify_order_ok:
  assumes "heap_inv cmp h" "h_num h < 2 ^ 31" "\<forall>i\<in>set ns. 1 \<le> i \<and> i \<le> h_num h"
  shows "verify_order cmp h ns"
  using assms(3)
proof (induction ns)
  case (Cons i ns)
  then have "HEAP_LEFT i = 2 * i" "HEAP_RIGHT i = 2 * i + 1" using assms(2)
    by (simp_all add: HEAP_LEFT_def HEAP_RIGHT_def)
  with Cons show ?case
    using verify_child_ok [OF assms(1), of i] by (simp add: not_less)
qed simp

lemma fr_heap_verify_inv:
  assumes inv: "heap_inv cmp h" and "h_num h < 2 ^ 31"
  shows "fr_heap_verify cmp h"
proof -
  note v = heap_invD [OF inv]
  have "case rd_p h i of None \<Rightarrow> False | Some d \<Rightarrow> d \<noteq> 0 \<and> index_get h d = i"
    if "i \<in> set [1..<h_num h + 1]" for i
  proof -
    have i: "i \<in> {1..h_num h}" using that by auto
    show ?thesis
      using liveD(4,5) [OF v(5) i] indexed_idx [OF v(6) i] by (simp add: index_get_def)
  qed
  moreover have "verify_order cmp h [1..<h_num h + 1]"
    by (rule verify_order_ok [OF assms]) auto
  moreover have "rd_p h 0 = Some UINTPTR_MAX" using v(1,4) by (simp add: rd_p_def heap_slots_less)
  ultimately show ?thesis using v(3) by (simp only: fr_heap_verify_def list_all_iff) blast
qed

subsection \<open>The interface of a priority queue\<close>

text \<open>What a client may rely on: \<open>pop\<close> removes and returns a least element, and returns nothing
  only when the queue is empty.\<close>

locale priority_queue =
  fixes pop :: "'q \<Rightarrow> ('e option \<times> 'q) option" and elems :: "'q \<Rightarrow> 'e set"
    and qinv :: "'q \<Rightarrow> bool" and le :: "'e \<Rightarrow> 'e \<Rightarrow> bool"
  assumes finite_elems: "qinv q \<Longrightarrow> finite (elems q)"
    and pop_empty: "qinv q \<Longrightarrow> elems q = {} \<Longrightarrow> pop q = Some (None, q)"
    and pop_least: "qinv q \<Longrightarrow> elems q \<noteq> {} \<Longrightarrow>
      \<exists>e q'. pop q = Some (Some e, q') \<and> qinv q' \<and> e \<in> elems q \<and> elems q' = elems q - {e} \<and>
             (\<forall>x\<in>elems q. le e x)"
begin

text \<open>Popping \<open>n\<close> times.\<close>

primrec drain :: "nat \<Rightarrow> 'q \<Rightarrow> 'e list" where
  "drain 0 q = []"
| "drain (Suc n) q =
     (case pop q of Some (Some e, q') \<Rightarrow> e # drain n q' | _ \<Rightarrow> [])"

lemma drain_sorted:
  assumes "qinv q" "n = card (elems q)"
  shows "set (drain n q) = elems q" "distinct (drain n q)" "sorted_wrt le (drain n q)"
proof -
  have "set (drain n q) = elems q \<and> distinct (drain n q) \<and> sorted_wrt le (drain n q)"
    using assms
  proof (induction n arbitrary: q)
    case 0
    then show ?case using finite_elems by simp
  next
    case (Suc n)
    then have "elems q \<noteq> {}" by auto
    from pop_least [OF Suc.prems(1) this] obtain e q' where p: "pop q = Some (Some e, q')" "qinv q'"
      "e \<in> elems q" "elems q' = elems q - {e}" "\<forall>x\<in>elems q. le e x" by blast
    with Suc.prems finite_elems have "n = card (elems q')" by simp
    from Suc.IH [OF p(2) this] p show ?case by auto
  qed
  then show "set (drain n q) = elems q" "distinct (drain n q)" "sorted_wrt le (drain n q)" by blast+
qed

end

text \<open>A heap with a sound comparator is a priority queue; failed shrinking makes no difference.\<close>

definition heap_queue_inv :: "(ptr \<Rightarrow> ptr \<Rightarrow> int) \<Rightarrow> fr_heap option \<Rightarrow> bool" where
  "heap_queue_inv cmp hp \<longleftrightarrow> (\<exists>h. hp = Some h \<and> heap_inv cmp h \<and> h_num h < 2 ^ 31)"

definition heap_queue_elems :: "fr_heap option \<Rightarrow> ptr set" where
  "heap_queue_elems hp = (case hp of None \<Rightarrow> {} | Some h \<Rightarrow> heap_elems h)"

lemma heap_elems_card:
  assumes "heap_inv cmp h"
  shows "finite (heap_elems h)" "card (heap_elems h) = h_num h"
proof -
  note v = heap_invD [OF assms]
  have "Some ` heap_elems h = h_p h ` {1..h_num h}" by (rule elems_image [OF v(5)])
  moreover have "inj_on (h_p h) {1..h_num h}" using v(5) by (simp add: live_def)
  ultimately have "finite (Some ` heap_elems h)" "card (Some ` heap_elems h) = h_num h"
    by (simp_all add: card_image)
  then show "finite (heap_elems h)" "card (heap_elems h) = h_num h"
    by (simp_all add: finite_image_iff card_image)
qed

sublocale heap_order \<subseteq> hq: priority_queue "fr_heap_pop cmp alloc" heap_queue_elems "heap_queue_inv cmp"
  "\<lambda>a b. cmp a b \<le> 0"
proof
  fix q assume "heap_queue_inv cmp q"
  then obtain h where h: "q = Some h" "heap_inv cmp h" "h_num h < 2 ^ 31" by (auto simp: heap_queue_inv_def)
  note c = heap_elems_card [OF h(2)]
  show "finite (heap_queue_elems q)" using h c by (simp add: heap_queue_elems_def)
  show "fr_heap_pop cmp alloc q = Some (None, q)" if "heap_queue_elems q = {}"
    using that h c by (simp add: heap_queue_elems_def fr_heap_pop_def)
  show "\<exists>e q'. fr_heap_pop cmp alloc q = Some (Some e, q') \<and> heap_queue_inv cmp q' \<and>
      e \<in> heap_queue_elems q \<and> heap_queue_elems q' = heap_queue_elems q - {e} \<and>
      (\<forall>x\<in>heap_queue_elems q. cmp e x \<le> 0)" if ne: "heap_queue_elems q \<noteq> {}"
  proof -
    have "0 < h_num h" using ne h c by (auto simp: heap_queue_elems_def intro: Nat.gr0I)
    from fr_heap_pop_ok [OF h(2) this h(3), of alloc] obtain d r where
      "fr_heap_pop cmp alloc (Some h) = Some (Some d, Some r)" "d \<in> heap_elems h" "\<forall>x\<in>heap_elems h. cmp d x \<le> 0"
      "heap_inv cmp r" "heap_elems r = heap_elems h - {d}" "h_num r = h_num h - 1" by blast
    then show ?thesis using h
      by (intro exI [of _ d] exI [of _ "Some r"]) (auto simp: heap_queue_elems_def heap_queue_inv_def)
  qed
qed

context heap_order
begin

lemma heap_priority_queue:
  "priority_queue (fr_heap_pop cmp alloc) heap_queue_elems (heap_queue_inv cmp) (\<lambda>a b. cmp a b \<le> 0)"
  by unfold_locales

end

subsection \<open>Refused operations\<close>

lemma fr_heap_insert_refused:
  assumes inv: "heap_inv cmp h" and n: "h_num h < 2 ^ 31 - 1" and "d \<in> heap_elems h \<or> \<not> heap_fits alloc h"
  shows "fr_heap_insert cmp alloc (Some h) d = Some (-1, Some h)"
proof (cases "d \<in> heap_elems h")
  case True
  then show ?thesis
    using heap_elems_idx(1) [OF inv, of d]
    by (simp add: fr_heap_insert_def index_get_def fr_heap_entry_inserted_def)
next
  case False
  then have full: "h_size h = h_num h" "\<not> alloc (h_num h * 2)" "h_idx h d = 0"
    using assms(3) heap_invD(3) [OF inv] heap_elems_idx(1) [OF inv, of d]
    by (auto simp: heap_fits_def mult.commute)
  moreover have "\<not> UINT_MAX - h_num h < h_num h" "(h_num h * 2) mod 2 ^ 32 = h_num h * 2"
    "(h_num h + 1) mod 2 ^ 32 = h_num h + 1" using n by simp_all
  ultimately show ?thesis
    by (simp add: fr_heap_insert_def index_get_def fr_heap_entry_inserted_def realloc_heap_def Let_def)
qed

lemma fr_heap_extract_refused:
  assumes inv: "heap_inv cmp h" and "d \<notin> heap_elems h"
  shows "fr_heap_extract cmp alloc (Some h) d = Some (-1, Some h)"
  using heap_elems_idx(1) [OF inv, of d] assms(2) by (simp add: fr_heap_extract_def index_get_def)

lemma fr_heap_alloc_inv:
  assumes "fr_heap_alloc alloc (\<lambda>_. 0) init = Some (Some h)" "init \<le> UINT_MAX"
  shows "heap_inv cmp h" "heap_elems h = {}" "h_num h = 0"
  using assms heap_slots_pos [of init]
  by (auto simp: fr_heap_alloc_def Let_def heap_slots_pos heap_inv_def rd_p_def heap_elems_def live_def indexed_def ordered_def split: if_splits)

subsection \<open>Reachable heaps\<close>

text \<open>The heaps a program can build: allocation with no object in a heap, then any sequence of
  insertions (while fewer than \<open>2 ^ 31 - 1\<close> elements are in it), extractions and pops.\<close>

inductive heap_reach :: "(ptr \<Rightarrow> ptr \<Rightarrow> int) \<Rightarrow> (nat \<Rightarrow> bool) \<Rightarrow> fr_heap \<Rightarrow> bool"
  for cmp :: "ptr \<Rightarrow> ptr \<Rightarrow> int" and alloc :: "nat \<Rightarrow> bool" where
  reach_alloc: "fr_heap_alloc alloc (\<lambda>_. 0) init = Some (Some h) \<Longrightarrow> init \<le> UINT_MAX \<Longrightarrow> heap_reach cmp alloc h"
| reach_insert: "heap_reach cmp alloc h \<Longrightarrow> h_num h < 2 ^ 31 - 1 \<Longrightarrow> d \<noteq> 0 \<Longrightarrow>
    fr_heap_insert cmp alloc (Some h) d = Some (rc, Some h') \<Longrightarrow> heap_reach cmp alloc h'"
| reach_extract: "heap_reach cmp alloc h \<Longrightarrow>
    fr_heap_extract cmp alloc (Some h) d = Some (rc, Some h') \<Longrightarrow> heap_reach cmp alloc h'"
| reach_pop: "heap_reach cmp alloc h \<Longrightarrow>
    fr_heap_pop cmp alloc (Some h) = Some (d', Some h') \<Longrightarrow> heap_reach cmp alloc h'"

context heap_order
begin

lemma heap_reach_inv: "heap_reach cmp alloc h \<Longrightarrow> heap_inv cmp h \<and> h_num h < 2 ^ 31"
proof (induction rule: heap_reach.induct)
  case (reach_alloc init h)
  from fr_heap_alloc_inv [OF this] show ?case by simp
next
  case (reach_insert h d rc h')
  then have inv: "heap_inv cmp h" and n: "h_num h < 2 ^ 31 - 1" by simp_all
  show ?case
  proof (cases "d \<in> heap_elems h \<or> \<not> heap_fits alloc h")
    case True
    from fr_heap_insert_refused [OF inv n True] reach_insert show ?thesis by simp
  next
    case False
    with fr_heap_insert_ok [OF inv _ reach_insert.hyps(3) n] reach_insert.hyps(4) n show ?thesis by fastforce
  qed
next
  case (reach_extract h d rc h')
  then have inv: "heap_inv cmp h" and n: "h_num h < 2 ^ 31" by simp_all
  show ?case
  proof (cases "d \<in> heap_elems h")
    case True
    from fr_heap_extract_ok [OF inv True n, of alloc] reach_extract.hyps n show ?thesis by force
  next
    case False
    from fr_heap_extract_refused [OF inv False, of alloc] reach_extract show ?thesis by simp
  qed
next
  case (reach_pop h d' h')
  then have inv: "heap_inv cmp h" and n: "h_num h < 2 ^ 31" by simp_all
  show ?case
  proof (cases "h_num h = 0")
    case True
    then show ?thesis using reach_pop by (simp add: fr_heap_pop_def)
  next
    case False
    with fr_heap_pop_ok [OF inv _ n, of alloc] reach_pop.hyps n show ?thesis by force
  qed
qed

end

subsection \<open>Comparators\<close>

text \<open>The macro \<open>CMP\<close> of the build headers is a parameter, with the sign law its users rely on.\<close>

locale cmp_macro =
  fixes CMP :: "int \<Rightarrow> int \<Rightarrow> int"
  assumes CMP_neg: "CMP a b < 0 \<longleftrightarrow> a < b" and CMP_pos: "0 < CMP a b \<longleftrightarrow> b < a"
begin

lemma CMP_zero: "CMP a b = 0 \<longleftrightarrow> a = b"
  using CMP_neg [of a b] CMP_pos [of a b] by linarith

end

record channel_data =
  cd_priority :: u32
  cd_when :: int

definition fr_time_cmp :: "(int \<Rightarrow> int \<Rightarrow> int) \<Rightarrow> int \<Rightarrow> int \<Rightarrow> int" where
  "fr_time_cmp CMP a b = CMP a b"

definition reply_cmp :: "(int \<Rightarrow> int \<Rightarrow> int) \<Rightarrow> (ptr \<Rightarrow> channel_data) \<Rightarrow> ptr \<Rightarrow> ptr \<Rightarrow> int" where
  "reply_cmp CMP obj one two =
     (let ret = CMP (uint (cd_priority (obj one))) (uint (cd_priority (obj two))) in
      if ret \<noteq> 0 then ret
      else fr_time_cmp CMP (cd_when (obj one)) (cd_when (obj two)))"

record module_instance =
  mi_ml :: nat
  mi_number :: u32

definition module_instance_global_cmp :: "(int \<Rightarrow> int \<Rightarrow> int) \<Rightarrow> (ptr \<Rightarrow> module_instance) \<Rightarrow> ptr \<Rightarrow> ptr \<Rightarrow> int" where
  "module_instance_global_cmp CMP obj one two =
     (let ret = CMP (int (mi_ml (obj one))) (int (mi_ml (obj two))) in
      if ret \<noteq> 0 then 0
      else CMP (uint (mi_number (obj one))) (uint (mi_number (obj two))))"

sublocale cmp_macro \<subseteq> replies: heap_order "reply_cmp CMP obj" for obj
proof
  fix a b c
  note l = CMP_neg CMP_pos CMP_zero
  have le: "reply_cmp CMP obj x y \<le> 0 \<longleftrightarrow>
      uint (cd_priority (obj x)) < uint (cd_priority (obj y)) \<or>
      uint (cd_priority (obj x)) = uint (cd_priority (obj y)) \<and> cd_when (obj x) \<le> cd_when (obj y)" for x y
    using CMP_neg [of "uint (cd_priority (obj x))" "uint (cd_priority (obj y))"]
      CMP_pos [of "uint (cd_priority (obj x))" "uint (cd_priority (obj y))"]
      CMP_pos [of "cd_when (obj x)" "cd_when (obj y)"]
    by (simp add: reply_cmp_def fr_time_cmp_def Let_def CMP_zero not_less) linarith
  have lt: "\<not> reply_cmp CMP obj x y < 0 \<Longrightarrow> reply_cmp CMP obj y x \<le> 0" for x y
    using CMP_neg [of "uint (cd_priority (obj x))" "uint (cd_priority (obj y))"]
      CMP_neg [of "cd_when (obj x)" "cd_when (obj y)"]
    unfolding le by (simp add: reply_cmp_def fr_time_cmp_def Let_def CMP_zero split: if_splits)
  show "reply_cmp CMP obj a b \<le> 0 \<Longrightarrow> reply_cmp CMP obj b c \<le> 0 \<Longrightarrow> reply_cmp CMP obj a c \<le> 0"
    unfolding le by linarith
  show "\<not> reply_cmp CMP obj a b < 0 \<Longrightarrow> reply_cmp CMP obj b a \<le> 0" by (rule lt)
qed

text \<open>An instance of the macro.\<close>

definition int_cmp :: "int \<Rightarrow> int \<Rightarrow> int" where
  "int_cmp a b = (if a < b then -1 else if b < a then 1 else 0)"

interpretation int_cmp: cmp_macro int_cmp
  by unfold_locales (auto simp: int_cmp_def)


section \<open>Properties\<close>

text \<open>The witnesses use replies ordered by priority and time; object \<open>n\<close> has priority \<open>n mod 3\<close>.\<close>

definition ex_obj :: "ptr \<Rightarrow> channel_data" where
  "ex_obj n = \<lparr>cd_priority = word_of_nat (n mod 3), cd_when = int n\<rparr>"

definition ex_heap :: fr_heap where
  "ex_heap = \<lparr>h_size = 2, h_min = 1, h_num = 2,
     h_p = (\<lambda>i. if i = 0 then Some UINTPTR_MAX else if i = 1 then Some 6 else if i = 2 then Some 4 else None),
     h_idx = (\<lambda>d. if d = 6 then 1 else if d = 4 then 2 else 0)\<rparr>"

abbreviation ex_cmp :: "ptr \<Rightarrow> ptr \<Rightarrow> int" where
  "ex_cmp \<equiv> reply_cmp int_cmp ex_obj"

lemma ex_order: "heap_order ex_cmp"
  by (rule int_cmp.replies.heap_order_axioms)

lemma ex_heap_inv: "heap_inv ex_cmp ex_heap"
proof -
  have "{1..2} = {1, 2::nat}" by auto
  moreover have "ex_cmp 6 4 \<le> 0" by code_simp
  ultimately show ?thesis
    by (auto simp: heap_inv_def rd_p_def heap_slots_def ex_heap_def live_def indexed_def ordered_def)
qed

lemma ex_heap_elems: "heap_elems ex_heap = {6, 4}"
proof (rule elems_eqI)
  have n: "{1..h_num ex_heap} = {1, 2}" by (auto simp: ex_heap_def)
  show "live ex_heap {1..h_num ex_heap}" by (rule heap_invD(5) [OF ex_heap_inv])
  show "h_p ex_heap ` {1..h_num ex_heap} = Some ` {6, 4}" unfolding n by (auto simp: ex_heap_def)
qed

text \<open>(C19) \<open>fr_heap_insert\<close> refuses an object that is already in the heap, and one the array has
  no room for when it cannot grow, and then changes nothing. Otherwise it succeeds without an
  access outside the array, keeps the heap invariant and adds exactly the new object.\<close>

theorem fr_heap_insert_correct:
  assumes "heap_order cmp" "heap_inv cmp h" "d \<noteq> 0" "h_num h < 2 ^ 31 - 1"
  shows "if d \<in> heap_elems h \<or> \<not> heap_fits alloc h
    then fr_heap_insert cmp alloc (Some h) d = Some (-1, Some h)
    else \<exists>r. fr_heap_insert cmp alloc (Some h) d = Some (0, Some r) \<and> heap_inv cmp r \<and>
           heap_elems r = insert d (heap_elems h) \<and> h_num r = h_num h + 1"
  using fr_heap_insert_refused [OF assms(2,4)] heap_order.fr_heap_insert_ok [OF assms(1,2) _ assms(3,4)]
  by auto

theorem fr_heap_insert_correct_witness:
  "\<exists>r. fr_heap_insert ex_cmp (\<lambda>_. True) (Some ex_heap) 3 = Some (0, Some r) \<and> heap_elems r = {3, 6, 4}"
proof -
  have "h_num ex_heap = 2" by (simp add: ex_heap_def)
  with fr_heap_insert_correct [OF ex_order ex_heap_inv, of 3 "\<lambda>_. True"] show ?thesis
    by (auto simp: ex_heap_elems heap_fits_def)
qed

text \<open>(C20) \<open>fr_heap_extract\<close> refuses an object that is not in the heap. Otherwise it removes
  exactly that object and keeps the invariant, whether or not the array shrinks and whether
  or not shrinking fails; the last element is moved into the hole inside the new bounds.\<close>

theorem fr_heap_extract_correct:
  assumes "heap_order cmp" "heap_inv cmp h" "h_num h < 2 ^ 31"
  shows "if d \<notin> heap_elems h
    then fr_heap_extract cmp alloc (Some h) d = Some (-1, Some h)
    else \<exists>r. fr_heap_extract cmp alloc (Some h) d = Some (0, Some r) \<and> heap_inv cmp r \<and>
           heap_elems r = heap_elems h - {d} \<and> h_num r = h_num h - 1"
  using fr_heap_extract_refused [OF assms(2)] heap_order.fr_heap_extract_ok [OF assms(1,2) _ assms(3)]
  by auto

theorem fr_heap_extract_correct_witness:
  "\<exists>r. fr_heap_extract ex_cmp (\<lambda>_. True) (Some ex_heap) 6 = Some (0, Some r) \<and> heap_elems r = {4}"
proof -
  have "h_num ex_heap < 2 ^ 31" by (simp add: ex_heap_def)
  from fr_heap_extract_correct [OF ex_order ex_heap_inv this, of 6 "\<lambda>_. True"] show ?thesis
    by (auto simp: ex_heap_elems)
qed

text \<open>(C21) Popping until the heap is empty returns every element once, in the order of the
  comparator.\<close>

theorem fr_heap_pop_sorts:
  assumes "heap_order cmp" "heap_inv cmp h" "h_num h < 2 ^ 31"
  shows "let popped = priority_queue.drain (fr_heap_pop cmp alloc) (h_num h) (Some h)
    in set popped = heap_elems h \<and> distinct popped \<and> sorted_wrt (\<lambda>a b. cmp a b \<le> 0) popped"
proof -
  have q: "heap_queue_inv cmp (Some h)" using assms(2,3) by (simp add: heap_queue_inv_def)
  have e: "heap_queue_elems (Some h) = heap_elems h" by (simp add: heap_queue_elems_def)
  have pq: "priority_queue (fr_heap_pop cmp alloc) heap_queue_elems (heap_queue_inv cmp) (\<lambda>a b. cmp a b \<le> 0)"
    by (rule heap_order.heap_priority_queue [OF assms(1)])
  have "h_num h = card (heap_queue_elems (Some h))" using heap_elems_card [OF assms(2)] e by simp
  from priority_queue.drain_sorted [OF pq q this] show ?thesis by (simp add: Let_def e)
qed

theorem fr_heap_pop_sorts_witness:
  "set (priority_queue.drain (fr_heap_pop ex_cmp (\<lambda>_. True)) 2 (Some ex_heap)) = {6, 4}"
proof -
  have n: "h_num ex_heap = 2" by (simp add: ex_heap_def)
  then have "h_num ex_heap < 2 ^ 31" by simp
  from fr_heap_pop_sorts [OF ex_order ex_heap_inv this, of "\<lambda>_. True"] n ex_heap_elems show ?thesis by (simp add: Let_def)
qed

text \<open>Every heap a program can build with these operations passes \<open>fr_heap_verify\<close>, the
  code's own consistency check: bounds, sentinel, back-pointers and order.\<close>

theorem fr_heap_verify_reachable:
  assumes "heap_order cmp" "heap_reach cmp alloc h"
  shows "fr_heap_verify cmp h"
  using heap_order.heap_reach_inv [OF assms] by (intro fr_heap_verify_inv) simp_all

text \<open>A heap that grows beyond \<open>2 ^ 31\<close> elements asks for \<open>UINT_MAX\<close>; the number of slots then wraps
  around to zero, and the element is written outside the array.\<close>

lemma fr_heap_insert_wraps:
  assumes "2 ^ 31 \<le> h_num h" "h_num h = h_size h" "h_size h < UINT_MAX" "h_idx h d = 0" "alloc UINT_MAX"
  shows "fr_heap_insert cmp alloc (Some h) d = None"
proof -
  have "(h_num h + 1) mod 2 ^ 32 = h_num h + 1" "UINT_MAX - h_size h < h_size h" using assms(1-3) by simp_all
  moreover have "heap_slots UINT_MAX = 0" by (simp add: heap_slots_def)
  ultimately show ?thesis
    using assms by (simp add: fr_heap_insert_def index_get_def fr_heap_entry_inserted_def realloc_heap_def wr_p_def Let_def)
qed

text \<open>The comparator of the global list of module instances returns 0, not its result, when
  the module lists differ, so it is no order: an instance can be \<open>at most\<close> a second one, that one
  \<open>at most\<close> a third, and yet the first be larger than the third.\<close>

theorem module_instance_global_cmp_no_order:
  assumes "cmp_macro CMP"
  shows "\<exists>obj. \<not> heap_order (module_instance_global_cmp CMP obj)"
proof -
  define obj :: "ptr \<Rightarrow> module_instance" where
    "obj p = \<lparr>mi_ml = (if p = 2 then 1 else 0), mi_number = (if p = 1 then 1 else 0)\<rparr>" for p
  let ?c = "module_instance_global_cmp CMP obj"
  note l = cmp_macro.CMP_pos [OF assms] cmp_macro.CMP_zero [OF assms]
  have "?c 1 2 \<le> 0" "?c 2 3 \<le> 0" by (simp_all add: module_instance_global_cmp_def obj_def l)
  moreover have "0 < ?c 1 3" by (simp add: module_instance_global_cmp_def obj_def l)
  ultimately have "\<not> heap_order ?c" using heap_order.cmp_trans [of ?c 1 2 3] by linarith
  then show ?thesis by blast
qed

theorem module_instance_global_cmp_no_order_witness:
  "\<exists>obj. \<not> heap_order (module_instance_global_cmp int_cmp obj)"
  by (rule module_instance_global_cmp_no_order [OF int_cmp.cmp_macro_axioms])

end
