(* ===== verification/Atomic_Queue.thy ===== *)
theory Atomic_Queue
  imports Prelude
begin

text \<open>
  The lock-free queue between network and worker threads, \<^verbatim>\<open>src/lib/io/atomic_queue.c\<close>.

  Any number of threads push and pop at once. A thread is at one of the shared accesses of the two functions
  (\<open>aq_pc\<close>, with its local variables), \<open>thread_step\<close> performs that access, and \<open>aq_step\<close> lets an arbitrary
  thread move, so that accesses interleave in any order. An access takes effect at once for all threads; the reordering that relaxed
  loads permit is not modelled. The counters are signed 64-bit integers in the code, incremented once per operation; here they are
  natural numbers. A data pointer is a number, \<open>NULL\<close> is zero. Two history
  variables, which no thread reads, record the values in the order their tickets were taken (\<open>sy_log\<close>) and
  what was popped with which ticket (\<open>sy_out\<close>).

  The lemmas show for queues of two or more entries that every access keeps the invariant \<open>aq_ok\<close>, that the queue is first in, first
  out, loses and duplicates nothing, refuses only when full, respectively empty, or while another operation on
  the entry is unfinished, and that a thread that runs alone returns. A queue of one entry overwrites its entry.
\<close>

subsection \<open>The queue\<close>

record atomic_queue =
  aq_head :: nat
  aq_tail :: nat
  aq_size :: nat
  aq_seq :: "nat list"
  aq_data :: "nat list"

definition fr_atomic_queue_alloc :: "bool \<Rightarrow> nat \<Rightarrow> atomic_queue option" where
  "fr_atomic_queue_alloc alloc n =
     (if n = 0 then None
      else if \<not> alloc then None
      else Some \<lparr>aq_head = 0, aq_tail = 0, aq_size = n, aq_seq = [0..<n], aq_data = replicate n 0\<rparr>)"

definition fr_atomic_queue_size :: "atomic_queue \<Rightarrow> nat" where
  "fr_atomic_queue_size aq = aq_size aq"

subsection \<open>Threads\<close>

text \<open>Where a thread is: before it loads a counter, before it acquires the sequence number of an entry, before the
  compare-and-swap, before it accesses the data, before it stores the sequence number, and returning.\<close>

datatype aq_pc =
    IDLE
  | PUSH_CALL nat | PUSH_LOAD nat | PUSH_ACQUIRE nat nat | PUSH_CAS nat nat | PUSH_DATA nat nat | PUSH_STORE nat nat
  | PUSH_RET bool
  | POP_CALL bool | POP_LOAD | POP_ACQUIRE nat | POP_CAS nat | POP_DATA nat | POP_STORE nat nat | POP_RET "nat option"

text \<open>\<open>cas_incr\<close>: on success the counter is incremented, otherwise the local variable becomes its value.\<close>

fun push_step :: "atomic_queue \<Rightarrow> aq_pc \<Rightarrow> (atomic_queue \<times> aq_pc) option" where
  "push_step aq (PUSH_CALL data) = (if data = 0 then Some (aq, PUSH_RET False) else Some (aq, PUSH_LOAD data))"
| "push_step aq (PUSH_LOAD data) = Some (aq, PUSH_ACQUIRE data (aq_head aq))"
| "push_step aq (PUSH_ACQUIRE data head) = do {
     seq \<leftarrow> rd8 (aq_seq aq) (head mod aq_size aq);
     let diff = int seq - int head;
     if diff < 0 then Some (aq, PUSH_RET False)
     else if diff > 0 then Some (aq, PUSH_LOAD data)
     else Some (aq, PUSH_CAS data head) }"
| "push_step aq (PUSH_CAS data head) =
     (if aq_head aq = head then Some (aq\<lparr>aq_head := head + 1\<rparr>, PUSH_DATA data head)
      else Some (aq, PUSH_ACQUIRE data (aq_head aq)))"
| "push_step aq (PUSH_DATA data head) = do {
     d \<leftarrow> wr_mem (aq_data aq) (head mod aq_size aq) [data];
     Some (aq\<lparr>aq_data := d\<rparr>, PUSH_STORE data head) }"
| "push_step aq (PUSH_STORE data head) = do {
     q \<leftarrow> wr_mem (aq_seq aq) (head mod aq_size aq) [head + 1];
     Some (aq\<lparr>aq_seq := q\<rparr>, PUSH_RET True) }"
| "push_step aq pc = None"

fun pop_step :: "atomic_queue \<Rightarrow> aq_pc \<Rightarrow> (atomic_queue \<times> aq_pc) option" where
  "pop_step aq (POP_CALL p_data) = (if \<not> p_data then Some (aq, POP_RET None) else Some (aq, POP_LOAD))"
| "pop_step aq POP_LOAD = Some (aq, POP_ACQUIRE (aq_tail aq))"
| "pop_step aq (POP_ACQUIRE tail) = do {
     seq \<leftarrow> rd8 (aq_seq aq) (tail mod aq_size aq);
     let diff = int seq - (int tail + 1);
     if diff < 0 then Some (aq, POP_RET None)
     else if diff > 0 then Some (aq, POP_LOAD)
     else Some (aq, POP_CAS tail) }"
| "pop_step aq (POP_CAS tail) =
     (if aq_tail aq = tail then Some (aq\<lparr>aq_tail := tail + 1\<rparr>, POP_DATA tail)
      else Some (aq, POP_ACQUIRE (aq_tail aq)))"
| "pop_step aq (POP_DATA tail) = do {
     data \<leftarrow> rd8 (aq_data aq) (tail mod aq_size aq);
     Some (aq, POP_STORE tail data) }"
| "pop_step aq (POP_STORE tail data) = do {
     q \<leftarrow> wr_mem (aq_seq aq) (tail mod aq_size aq) [tail + aq_size aq];
     Some (aq\<lparr>aq_seq := q\<rparr>, POP_RET (Some data)) }"
| "pop_step aq pc = None"

definition is_push :: "aq_pc \<Rightarrow> bool" where
  "is_push pc \<longleftrightarrow> (case pc of PUSH_CALL d \<Rightarrow> True | PUSH_LOAD d \<Rightarrow> True | PUSH_ACQUIRE d h \<Rightarrow> True | PUSH_CAS d h \<Rightarrow> True
     | PUSH_DATA d h \<Rightarrow> True | PUSH_STORE d h \<Rightarrow> True | _ \<Rightarrow> False)"

definition thread_step :: "atomic_queue \<Rightarrow> aq_pc \<Rightarrow> (atomic_queue \<times> aq_pc) option" where
  "thread_step aq pc = (if is_push pc then push_step aq pc else pop_step aq pc)"

subsection \<open>All threads\<close>

record aq_system =
  sy_aq :: atomic_queue
  sy_pc :: "nat \<Rightarrow> aq_pc"
  sy_log :: "nat list"
  sy_out :: "(nat \<times> nat) list"

definition log_step :: "aq_pc \<Rightarrow> aq_pc \<Rightarrow> nat list" where
  "log_step pc pc' = (case (pc, pc') of (PUSH_CAS d h, PUSH_DATA d' h') \<Rightarrow> [d] | _ \<Rightarrow> [])"

definition out_step :: "aq_pc \<Rightarrow> (nat \<times> nat) list" where
  "out_step pc = (case pc of POP_STORE t d \<Rightarrow> [(t, d)] | _ \<Rightarrow> [])"

definition run_state :: "aq_system \<Rightarrow> nat \<Rightarrow> atomic_queue \<Rightarrow> aq_pc \<Rightarrow> aq_system" where
  "run_state s i aq pc = \<lparr>sy_aq = aq, sy_pc = (sy_pc s)(i := pc), sy_log = sy_log s @ log_step (sy_pc s i) pc,
     sy_out = sy_out s @ out_step (sy_pc s i)\<rparr>"

inductive aq_step :: "aq_system \<Rightarrow> aq_system \<Rightarrow> bool" where
  call_push: "sy_pc s i = IDLE \<Longrightarrow> aq_step s (s\<lparr>sy_pc := (sy_pc s)(i := PUSH_CALL data)\<rparr>)"
| call_pop: "sy_pc s i = IDLE \<Longrightarrow> aq_step s (s\<lparr>sy_pc := (sy_pc s)(i := POP_CALL p_data)\<rparr>)"
| run: "thread_step (sy_aq s) (sy_pc s i) = Some (aq, pc) \<Longrightarrow>
    aq_step s (run_state s i aq pc)"
| push_return: "sy_pc s i = PUSH_RET ok \<Longrightarrow> aq_step s (s\<lparr>sy_pc := (sy_pc s)(i := IDLE)\<rparr>)"
| pop_return: "sy_pc s i = POP_RET r \<Longrightarrow> aq_step s (s\<lparr>sy_pc := (sy_pc s)(i := IDLE)\<rparr>)"

inductive aq_reachable :: "nat \<Rightarrow> aq_system \<Rightarrow> bool" for n :: nat where
  start: "fr_atomic_queue_alloc True n = Some aq \<Longrightarrow>
    aq_reachable n \<lparr>sy_aq = aq, sy_pc = (\<lambda>i. IDLE), sy_log = [], sy_out = []\<rparr>"
| step: "aq_reachable n s \<Longrightarrow> aq_step s s' \<Longrightarrow> aq_reachable n s'"

section \<open>The invariant\<close>

text \<open>A thread that has taken a ticket and not yet released its entry.\<close>

definition push_ticket :: "aq_pc \<Rightarrow> nat option" where
  "push_ticket pc = (case pc of PUSH_DATA d h \<Rightarrow> Some h | PUSH_STORE d h \<Rightarrow> Some h | _ \<Rightarrow> None)"

definition pop_ticket :: "aq_pc \<Rightarrow> nat option" where
  "pop_ticket pc = (case pc of POP_DATA t \<Rightarrow> Some t | POP_STORE t d \<Rightarrow> Some t | _ \<Rightarrow> None)"

text \<open>An entry waits for the push of ticket \<open>k\<close>, or holds its value.\<close>

definition free_slot :: "aq_system \<Rightarrow> nat \<Rightarrow> nat \<Rightarrow> bool" where
  "free_slot s i k \<longleftrightarrow> (let aq = sy_aq s in
     aq_seq aq ! i = k \<and> k mod aq_size aq = i \<and> aq_tail aq \<le> k \<and> k < aq_tail aq + aq_size aq \<and>
     (k < aq_head aq \<longrightarrow> (\<exists>j. push_ticket (sy_pc s j) = Some k)))"

definition full_slot :: "aq_system \<Rightarrow> nat \<Rightarrow> nat \<Rightarrow> bool" where
  "full_slot s i k \<longleftrightarrow> (let aq = sy_aq s in
     aq_seq aq ! i = k + 1 \<and> k mod aq_size aq = i \<and> k < aq_head aq \<and> aq_head aq \<le> k + aq_size aq \<and>
     aq_data aq ! i = sy_log s ! k \<and> (k < aq_tail aq \<longrightarrow> (\<exists>j. pop_ticket (sy_pc s j) = Some k)))"

fun pc_ok :: "aq_system \<Rightarrow> aq_pc \<Rightarrow> bool" where
  "pc_ok s (PUSH_ACQUIRE d h) = (h \<le> aq_head (sy_aq s))"
| "pc_ok s (PUSH_CAS d h) = (h \<le> aq_head (sy_aq s) \<and> h \<le> aq_seq (sy_aq s) ! (h mod aq_size (sy_aq s)))"
| "pc_ok s (PUSH_DATA d h) = (h < aq_head (sy_aq s) \<and> aq_seq (sy_aq s) ! (h mod aq_size (sy_aq s)) = h \<and> sy_log s ! h = d)"
| "pc_ok s (PUSH_STORE d h) = (h < aq_head (sy_aq s) \<and> aq_seq (sy_aq s) ! (h mod aq_size (sy_aq s)) = h \<and> sy_log s ! h = d \<and>
     aq_data (sy_aq s) ! (h mod aq_size (sy_aq s)) = d)"
| "pc_ok s (POP_ACQUIRE t) = (t \<le> aq_tail (sy_aq s))"
| "pc_ok s (POP_CAS t) = (t \<le> aq_tail (sy_aq s) \<and> t + 1 \<le> aq_seq (sy_aq s) ! (t mod aq_size (sy_aq s)))"
| "pc_ok s (POP_DATA t) = (t < aq_tail (sy_aq s) \<and> aq_seq (sy_aq s) ! (t mod aq_size (sy_aq s)) = t + 1)"
| "pc_ok s (POP_STORE t d) = (t < aq_tail (sy_aq s) \<and> aq_seq (sy_aq s) ! (t mod aq_size (sy_aq s)) = t + 1 \<and> d = sy_log s ! t)"
| "pc_ok s pc = True"

definition tickets_ok :: "(nat \<Rightarrow> aq_pc) \<Rightarrow> bool" where
  "tickets_ok pcs \<longleftrightarrow> (\<forall>i j k. push_ticket (pcs i) = Some k \<longrightarrow> push_ticket (pcs j) = Some k \<longrightarrow> i = j) \<and>
     (\<forall>i j k. pop_ticket (pcs i) = Some k \<longrightarrow> pop_ticket (pcs j) = Some k \<longrightarrow> i = j)"

definition out_ok :: "aq_system \<Rightarrow> bool" where
  "out_ok s \<longleftrightarrow> distinct (map fst (sy_out s)) \<and>
     (\<forall>(t, d) \<in> set (sy_out s). t < aq_tail (sy_aq s) \<and> d = sy_log s ! t \<and> (\<forall>j. pop_ticket (sy_pc s j) \<noteq> Some t)) \<and>
     (\<forall>t < aq_tail (sy_aq s). t \<in> fst ` set (sy_out s) \<or> (\<exists>j. pop_ticket (sy_pc s j) = Some t))"

definition shape_ok :: "aq_system \<Rightarrow> bool" where
  "shape_ok s \<longleftrightarrow> (let aq = sy_aq s in
     2 \<le> aq_size aq \<and> length (aq_seq aq) = aq_size aq \<and> length (aq_data aq) = aq_size aq \<and>
     length (sy_log s) = aq_head aq \<and> aq_tail aq \<le> aq_head aq \<and> aq_head aq \<le> aq_tail aq + aq_size aq)"

definition slots_ok :: "aq_system \<Rightarrow> bool" where
  "slots_ok s \<longleftrightarrow> (\<forall>i < aq_size (sy_aq s). \<exists>k. free_slot s i k \<or> full_slot s i k)"

definition pcs_ok :: "aq_system \<Rightarrow> bool" where
  "pcs_ok s \<longleftrightarrow> (\<forall>j. pc_ok s (sy_pc s j))"

definition aq_ok :: "aq_system \<Rightarrow> bool" where
  "aq_ok s \<longleftrightarrow> shape_ok s \<and> slots_ok s \<and> pcs_ok s \<and> tickets_ok (sy_pc s) \<and> out_ok s"

lemma mod_eq_close:
  assumes "(a :: nat) mod n = b mod n" "a < b + n" "b < a + n"
  shows "a = b"
proof -
  have "x = y" if "x mod n = y mod n" "y \<le> x" "x < y + n" for x y :: nat
  proof -
    have "n dvd x - y" using that by (simp add: mod_eq_dvd_iff_nat)
    then show ?thesis using that nat_dvd_not_less [of "x - y" n] by fastforce
  qed
  then show ?thesis using assms nat_le_linear by metis
qed

lemma mod_Suc_neq: "2 \<le> n \<Longrightarrow> Suc k mod n \<noteq> k mod n"
  by (auto simp: mod_Suc)


lemma patch_one: "i < length p \<Longrightarrow> patch p i [v] = p[i := v]"
  by (rule nth_equalityI) (auto simp: nth_patch nth_list_update)

lemma shapeD:
  assumes "aq_ok s"
  shows "2 \<le> aq_size (sy_aq s)" "0 < aq_size (sy_aq s)" "length (aq_seq (sy_aq s)) = aq_size (sy_aq s)"
    "length (aq_data (sy_aq s)) = aq_size (sy_aq s)" "length (sy_log s) = aq_head (sy_aq s)"
    "aq_tail (sy_aq s) \<le> aq_head (sy_aq s)" "aq_head (sy_aq s) \<le> aq_tail (sy_aq s) + aq_size (sy_aq s)"
  using assms by (auto simp: aq_ok_def shape_ok_def Let_def)

lemma slot_cases:
  assumes "aq_ok s"
  obtains (free) k where "free_slot s (i mod aq_size (sy_aq s)) k"
  | (full) k where "full_slot s (i mod aq_size (sy_aq s)) k"
proof -
  have "i mod aq_size (sy_aq s) < aq_size (sy_aq s)" using shapeD(2) [OF assms] by simp
  then have "\<exists>k. free_slot s (i mod aq_size (sy_aq s)) k \<or> full_slot s (i mod aq_size (sy_aq s)) k"
    using assms unfolding aq_ok_def slots_ok_def by blast
  then show ?thesis using that by blast
qed

lemma pcD: "aq_ok s \<Longrightarrow> sy_pc s j = pc \<Longrightarrow> pc_ok s pc"
  by (auto simp: aq_ok_def pcs_ok_def)

lemma push_ticket_unique:
  "aq_ok s \<Longrightarrow> push_ticket (sy_pc s i) = Some k \<Longrightarrow> push_ticket (sy_pc s j) = Some k \<Longrightarrow> i = j"
  by (auto simp: aq_ok_def tickets_ok_def)

lemma pop_ticket_unique:
  "aq_ok s \<Longrightarrow> pop_ticket (sy_pc s i) = Some k \<Longrightarrow> pop_ticket (sy_pc s j) = Some k \<Longrightarrow> i = j"
  by (auto simp: aq_ok_def tickets_ok_def)

lemma free_slotD:
  assumes "free_slot s i k"
  shows "aq_seq (sy_aq s) ! i = k" "k mod aq_size (sy_aq s) = i" "aq_tail (sy_aq s) \<le> k"
    "k < aq_tail (sy_aq s) + aq_size (sy_aq s)"
    "k < aq_head (sy_aq s) \<Longrightarrow> \<exists>j. push_ticket (sy_pc s j) = Some k"
  using assms by (simp_all add: free_slot_def Let_def)

lemma full_slotD:
  assumes "full_slot s i k"
  shows "aq_seq (sy_aq s) ! i = k + 1" "k mod aq_size (sy_aq s) = i" "k < aq_head (sy_aq s)"
    "aq_head (sy_aq s) \<le> k + aq_size (sy_aq s)" "aq_data (sy_aq s) ! i = sy_log s ! k"
    "k < aq_tail (sy_aq s) \<Longrightarrow> \<exists>j. pop_ticket (sy_pc s j) = Some k"
  using assms by (simp_all add: full_slot_def Let_def)

text \<open>What the sequence number of an entry tells about it.\<close>

lemma seq_head_free:
  assumes ok: "aq_ok s" and seq: "aq_head (sy_aq s) \<le> aq_seq (sy_aq s) ! (aq_head (sy_aq s) mod aq_size (sy_aq s))"
  shows "free_slot s (aq_head (sy_aq s) mod aq_size (sy_aq s)) (aq_head (sy_aq s))"
proof (rule slot_cases [OF ok, of "aq_head (sy_aq s)"], goal_cases free full)
  case (free k)
  have "k = aq_head (sy_aq s)"
    using free_slotD(1-4) [OF free] seq shapeD(2,6,7) [OF ok] by - (rule mod_eq_close [of _ "aq_size (sy_aq s)"], linarith+)
  then show ?thesis using free by simp
next
  case (full k)
  have "Suc k = aq_head (sy_aq s)" using full_slotD(1,3) [OF full] seq by linarith
  then show ?thesis using full_slotD(2) [OF full] mod_Suc_neq shapeD(1) [OF ok] by metis
qed

lemma seq_tail_full:
  assumes ok: "aq_ok s" and seq: "aq_tail (sy_aq s) + 1 \<le> aq_seq (sy_aq s) ! (aq_tail (sy_aq s) mod aq_size (sy_aq s))"
  shows "full_slot s (aq_tail (sy_aq s) mod aq_size (sy_aq s)) (aq_tail (sy_aq s))"
proof (rule slot_cases [OF ok, of "aq_tail (sy_aq s)"], goal_cases free full)
  case (free k)
  have "k = aq_tail (sy_aq s)"
    using free_slotD(1-4) [OF free] shapeD(2) [OF ok] by - (rule mod_eq_close [of _ "aq_size (sy_aq s)"], linarith+)
  then show ?thesis using free_slotD(1) [OF free] seq by linarith
next
  case (full k)
  have "k = aq_tail (sy_aq s)"
    using full_slotD(1-4) [OF full] seq shapeD(2,7) [OF ok] by - (rule mod_eq_close [of _ "aq_size (sy_aq s)"], linarith+)
  then show ?thesis using full by simp
qed

lemma seq_eq_free:
  assumes ok: "aq_ok s" and seq: "aq_seq (sy_aq s) ! (k mod aq_size (sy_aq s)) = k"
  shows "free_slot s (k mod aq_size (sy_aq s)) k"
proof (rule slot_cases [OF ok, of k], goal_cases free full)
  case (free k')
  then show ?thesis using seq free_slotD(1) [OF free] by simp
next
  case (full k')
  have "Suc k' = k" using full_slotD(1) [OF full] seq by linarith
  then show ?thesis using full_slotD(2) [OF full] mod_Suc_neq shapeD(1) [OF ok] by metis
qed

lemma seq_Suc_full:
  assumes ok: "aq_ok s" and seq: "aq_seq (sy_aq s) ! (k mod aq_size (sy_aq s)) = k + 1"
  shows "full_slot s (k mod aq_size (sy_aq s)) k"
proof (rule slot_cases [OF ok, of k], goal_cases free full)
  case (free k')
  have "k' = Suc k" using free_slotD(1) [OF free] seq by linarith
  then show ?thesis using free_slotD(2) [OF free] mod_Suc_neq shapeD(1) [OF ok] by metis
next
  case (full k')
  then show ?thesis using seq full_slotD(1) [OF full] by simp
qed

subsection \<open>Steps that keep the queue\<close>

lemma move_ok:
  assumes ok: "aq_ok s" and pc: "pc_ok s pc"
    and tk: "push_ticket pc = push_ticket (sy_pc s i)" "pop_ticket pc = pop_ticket (sy_pc s i)"
  shows "aq_ok (s\<lparr>sy_pc := (sy_pc s)(i := pc)\<rparr>)"
proof -
  let ?s = "s\<lparr>sy_pc := (sy_pc s)(i := pc)\<rparr>"
  have pt: "push_ticket (sy_pc ?s j) = push_ticket (sy_pc s j)" for j using tk by simp
  have ct: "pop_ticket (sy_pc ?s j) = pop_ticket (sy_pc s j)" for j using tk by simp
  have pk: "pc_ok ?s p = pc_ok s p" for p by (cases p) auto
  have sl: "free_slot ?s = free_slot s" "full_slot ?s = full_slot s"
    unfolding free_slot_def full_slot_def Let_def pt ct by (auto simp: fun_eq_iff)
  have "shape_ok ?s" using ok by (simp add: aq_ok_def shape_ok_def)
  moreover have "slots_ok ?s" using ok by (simp add: aq_ok_def slots_ok_def sl)
  moreover have "pcs_ok ?s" using ok pc by (simp add: aq_ok_def pcs_ok_def pk)
  moreover have "tickets_ok (sy_pc ?s)" using ok unfolding aq_ok_def tickets_ok_def pt ct by blast
  moreover have "out_ok ?s" using ok unfolding aq_ok_def out_ok_def ct by simp
  ultimately show ?thesis by (simp add: aq_ok_def)
qed


lemma push_ticketD:
  assumes "aq_ok s" "push_ticket (sy_pc s j) = Some k"
  shows "aq_seq (sy_aq s) ! (k mod aq_size (sy_aq s)) = k" "k < aq_head (sy_aq s)"
  using assms pcD [OF assms(1) refl, of j] by (auto simp: push_ticket_def split: aq_pc.splits)

lemma pop_ticketD:
  assumes "aq_ok s" "pop_ticket (sy_pc s j) = Some k"
  shows "aq_seq (sy_aq s) ! (k mod aq_size (sy_aq s)) = k + 1" "k < aq_tail (sy_aq s)"
  using assms pcD [OF assms(1) refl, of j] by (auto simp: pop_ticket_def split: aq_pc.splits)

text \<open>Two threads that hold a ticket hold different entries.\<close>

lemma holders_differ:
  assumes ok: "aq_ok s" and ij: "j \<noteq> i"
    and i: "push_ticket (sy_pc s i) = Some h \<or> pop_ticket (sy_pc s i) = Some h"
    and j: "push_ticket (sy_pc s j) = Some k \<or> pop_ticket (sy_pc s j) = Some k"
  shows "k mod aq_size (sy_aq s) \<noteq> h mod aq_size (sy_aq s)"
proof
  assume eq: "k mod aq_size (sy_aq s) = h mod aq_size (sy_aq s)"
  note neq = mod_Suc_neq [OF shapeD(1) [OF ok]]
  show False using i
  proof
    assume h: "push_ticket (sy_pc s i) = Some h"
    show False using j push_ticket_unique [OF ok h] push_ticketD(1) [OF ok] pop_ticketD(1) [OF ok] h ij eq neq
      by (metis Suc_eq_plus1)
  next
    assume h: "pop_ticket (sy_pc s i) = Some h"
    show False using j pop_ticket_unique [OF ok h] push_ticketD(1) [OF ok] pop_ticketD(1) [OF ok] h ij eq neq
      by (metis Suc_eq_plus1 add_right_cancel)
  qed
qed

text \<open>What a thread knows stays true when the counters and the sequence numbers grow and its entry is kept.\<close>

lemma pc_ok_mono:
  assumes "pc_ok s p" "aq_size (sy_aq s') = aq_size (sy_aq s)"
    and "aq_head (sy_aq s) \<le> aq_head (sy_aq s')" "aq_tail (sy_aq s) \<le> aq_tail (sy_aq s')" "aq_tail (sy_aq s) \<le> aq_head (sy_aq s)"
    and "\<And>k. aq_seq (sy_aq s) ! (k mod aq_size (sy_aq s)) \<le> aq_seq (sy_aq s') ! (k mod aq_size (sy_aq s))"
    and "\<And>k. push_ticket p = Some k \<or> pop_ticket p = Some k \<Longrightarrow>
      aq_seq (sy_aq s') ! (k mod aq_size (sy_aq s)) = aq_seq (sy_aq s) ! (k mod aq_size (sy_aq s)) \<and>
      aq_data (sy_aq s') ! (k mod aq_size (sy_aq s)) = aq_data (sy_aq s) ! (k mod aq_size (sy_aq s))"
    and "\<And>k. k < aq_head (sy_aq s) \<Longrightarrow> sy_log s' ! k = sy_log s ! k"
  shows "pc_ok s' p"
proof (cases p)
  case (PUSH_CAS d h)
  then show ?thesis using assms(1-4) assms(6) [of h] by simp
next
  case (POP_CAS t)
  then show ?thesis using assms(1-4) assms(6) [of t] by simp
qed (use assms in \<open>auto simp: push_ticket_def pop_ticket_def\<close>)

subsection \<open>Steps that change the queue\<close>

lemma push_cas_ok:
  assumes ok: "aq_ok s" and pc: "sy_pc s i = PUSH_CAS d h" and h: "aq_head (sy_aq s) = h"
  shows "aq_ok (s\<lparr>sy_aq := (sy_aq s)\<lparr>aq_head := h + 1\<rparr>, sy_pc := (sy_pc s)(i := PUSH_DATA d h), sy_log := sy_log s @ [d]\<rparr>)"
    (is "aq_ok ?s")
proof -
  have fr: "free_slot s (h mod aq_size (sy_aq s)) h" using seq_head_free [OF ok] pcD [OF ok pc] h by simp
  have seq: "aq_seq (sy_aq s) ! (h mod aq_size (sy_aq s)) = h" and ht: "h < aq_tail (sy_aq s) + aq_size (sy_aq s)"
    using fr by (auto simp: free_slot_def Let_def)
  have pt: "push_ticket (sy_pc ?s j) = (if j = i then Some h else push_ticket (sy_pc s j))" for j
    by (simp add: push_ticket_def)
  have pi: "push_ticket (sy_pc s i) = None" using pc by (simp add: push_ticket_def)
  have ct: "pop_ticket (sy_pc ?s j) = pop_ticket (sy_pc s j)" for j using pc by (simp add: pop_ticket_def)
  have lt: "push_ticket (sy_pc s j) \<noteq> Some h" for j
    using pcD [OF ok refl, of j] h by (auto simp: push_ticket_def split: aq_pc.splits)
  note sh = shapeD [OF ok]
  have "shape_ok ?s" using ht sh h by (simp add: shape_ok_def Let_def)
  moreover have "free_slot s k k' \<Longrightarrow> free_slot ?s k k'" for k k'
    using h pi unfolding free_slot_def Let_def pt by (auto simp: less_Suc_eq) (metis option.distinct(1))
  moreover have "full_slot ?s k k'" if f: "full_slot s k k'" for k k'
  proof -
    have "h \<noteq> k' + aq_size (sy_aq s)" using f seq sh(1) by (auto simp: full_slot_def Let_def)
    then show ?thesis using f h sh unfolding full_slot_def Let_def ct by (auto simp: nth_append)
  qed
  moreover have "pc_ok ?s (sy_pc ?s j)" for j
    using pcD [OF ok refl, of j] h sh seq by (cases "sy_pc s j") (auto simp: nth_append)
  moreover have "tickets_ok (sy_pc ?s)"
    using ok lt unfolding aq_ok_def tickets_ok_def pt ct by (metis option.inject)
  moreover have "out_ok ?s"
    using ok sh unfolding aq_ok_def out_ok_def ct by (fastforce simp: nth_append)
  ultimately show ?thesis using ok unfolding aq_ok_def slots_ok_def pcs_ok_def by (auto; blast)
qed

lemma push_data_ok:
  assumes ok: "aq_ok s" and pc: "sy_pc s i = PUSH_DATA d h"
  shows "aq_ok (s\<lparr>sy_aq := (sy_aq s)\<lparr>aq_data := (aq_data (sy_aq s))[h mod aq_size (sy_aq s) := d]\<rparr>,
    sy_pc := (sy_pc s)(i := PUSH_STORE d h)\<rparr>)" (is "aq_ok ?s")
proof -
  note sh = shapeD [OF ok] and pi = pcD [OF ok pc, simplified]
  have pt: "push_ticket (sy_pc ?s j) = push_ticket (sy_pc s j)" for j using pc by (simp add: push_ticket_def)
  have ct: "pop_ticket (sy_pc ?s j) = pop_ticket (sy_pc s j)" for j using pc by (simp add: pop_ticket_def)
  have hi: "push_ticket (sy_pc s i) = Some h" using pc by (simp add: push_ticket_def)
  have "shape_ok ?s" using sh by (simp add: shape_ok_def)
  moreover have "free_slot ?s = free_slot s" unfolding free_slot_def Let_def pt by (auto simp: fun_eq_iff)
  moreover have "full_slot ?s k k'" if f: "full_slot s k k'" for k k'
  proof -
    have "k \<noteq> h mod aq_size (sy_aq s)"
      using full_slotD(1,2) [OF f] pi mod_Suc_neq [OF sh(1), of k'] by auto
    then show ?thesis using f unfolding full_slot_def Let_def ct by simp
  qed
  moreover have "pc_ok ?s (sy_pc ?s j)" for j
  proof (cases "j = i")
    case False
    have neq: "h mod aq_size (sy_aq s) \<noteq> k mod aq_size (sy_aq s)"
      if "push_ticket (sy_pc s j) = Some k \<or> pop_ticket (sy_pc s j) = Some k" for k
      using holders_differ [OF ok False _ that] hi by metis
    have "pc_ok ?s (sy_pc s j)"
      using sh(6) by (intro pc_ok_mono [OF pcD [OF ok refl, of j]]) (simp_all add: neq)
    then show ?thesis using False by simp
  qed (use pi sh in auto)
  moreover have "tickets_ok (sy_pc ?s)" using ok unfolding aq_ok_def tickets_ok_def pt ct by blast
  moreover have "out_ok ?s" using ok unfolding aq_ok_def out_ok_def ct by simp
  ultimately show ?thesis using ok unfolding aq_ok_def slots_ok_def pcs_ok_def by (auto; blast)
qed

lemma push_store_ok:
  assumes ok: "aq_ok s" and pc: "sy_pc s i = PUSH_STORE d h"
  shows "aq_ok (s\<lparr>sy_aq := (sy_aq s)\<lparr>aq_seq := (aq_seq (sy_aq s))[h mod aq_size (sy_aq s) := h + 1]\<rparr>,
    sy_pc := (sy_pc s)(i := PUSH_RET True)\<rparr>)" (is "aq_ok ?s")
proof -
  note sh = shapeD [OF ok] and pi = pcD [OF ok pc, simplified]
  let ?n = "aq_size (sy_aq s)"
  have pt: "push_ticket (sy_pc ?s j) = (if j = i then None else push_ticket (sy_pc s j))" for j
    by (simp add: push_ticket_def)
  have ct: "pop_ticket (sy_pc ?s j) = pop_ticket (sy_pc s j)" for j using pc by (simp add: pop_ticket_def)
  have hi: "push_ticket (sy_pc s i) = Some h" using pc by (simp add: push_ticket_def)
  have fr: "free_slot s (h mod ?n) h" using seq_eq_free [OF ok] pi by simp
  have mono: "aq_seq (sy_aq s) ! x \<le> (aq_seq (sy_aq s))[h mod ?n := Suc h] ! x" for x
    using pi sh by (cases "x = h mod ?n") simp_all
  have "shape_ok ?s" using sh by (simp add: shape_ok_def)
  moreover have "full_slot ?s (h mod ?n) h"
    using pi sh free_slotD(3,4) [OF fr] unfolding full_slot_def Let_def ct by simp
  moreover have "free_slot ?s k k'" if f: "free_slot s k k'" and k: "k \<noteq> h mod ?n" for k k'
  proof -
    have "push_ticket (sy_pc s j) = Some k' \<Longrightarrow> j \<noteq> i" for j using hi k free_slotD(2) [OF f] by auto
    then show ?thesis using f k unfolding free_slot_def Let_def pt by (auto; metis)
  qed
  moreover have "full_slot ?s k k'" if "full_slot s k k'" and "k \<noteq> h mod ?n" for k k'
    using that unfolding full_slot_def Let_def ct by simp
  moreover have "pc_ok ?s (sy_pc ?s j)" for j
  proof (cases "j = i")
    case False
    have neq: "h mod aq_size (sy_aq s) \<noteq> k mod aq_size (sy_aq s)"
      if "push_ticket (sy_pc s j) = Some k \<or> pop_ticket (sy_pc s j) = Some k" for k
      using holders_differ [OF ok False _ that] hi by metis
    have "pc_ok ?s (sy_pc s j)"
      using sh(6) by (intro pc_ok_mono [OF pcD [OF ok refl, of j]]) (simp_all add: neq mono)
    then show ?thesis using False by simp
  qed simp
  moreover have "tickets_ok (sy_pc ?s)" using ok unfolding aq_ok_def tickets_ok_def pt ct by (metis option.distinct(1))
  moreover have "out_ok ?s" using ok unfolding aq_ok_def out_ok_def ct by simp
  ultimately show ?thesis using ok unfolding aq_ok_def slots_ok_def pcs_ok_def by (auto; blast)
qed

lemma pop_cas_ok:
  assumes ok: "aq_ok s" and pc: "sy_pc s i = POP_CAS t" and t: "aq_tail (sy_aq s) = t"
  shows "aq_ok (s\<lparr>sy_aq := (sy_aq s)\<lparr>aq_tail := t + 1\<rparr>, sy_pc := (sy_pc s)(i := POP_DATA t)\<rparr>)" (is "aq_ok ?s")
proof -
  have fu: "full_slot s (t mod aq_size (sy_aq s)) t" using seq_tail_full [OF ok] pcD [OF ok pc] t by simp
  note sh = shapeD [OF ok] and f = full_slotD [OF fu]
  have pt: "push_ticket (sy_pc ?s j) = push_ticket (sy_pc s j)" for j using pc by (simp add: push_ticket_def)
  have pi: "pop_ticket (sy_pc s i) = None" using pc by (simp add: pop_ticket_def)
  have ct: "pop_ticket (sy_pc ?s j) = (if j = i then Some t else pop_ticket (sy_pc s j))" for j
    by (simp add: pop_ticket_def)
  have lt: "pop_ticket (sy_pc s j) \<noteq> Some t" for j
    using pcD [OF ok refl, of j] t by (auto simp: pop_ticket_def split: aq_pc.splits)
  have "shape_ok ?s" using f sh t by (simp add: shape_ok_def Let_def)
  moreover have "free_slot ?s k k'" if g: "free_slot s k k'" for k k'
  proof -
    have "k' \<noteq> t" using free_slotD(1,2) [OF g] f(1) by auto
    then show ?thesis using g t unfolding free_slot_def Let_def pt by auto
  qed
  moreover have "full_slot s k k' \<Longrightarrow> full_slot ?s k k'" for k k'
    using t pi unfolding full_slot_def Let_def ct by (auto simp: less_Suc_eq) (metis option.distinct(1))
  moreover have "pc_ok ?s (sy_pc ?s j)" for j
    using pcD [OF ok refl, of j] t f by (cases "sy_pc s j") auto
  moreover have "tickets_ok (sy_pc ?s)"
    using ok lt unfolding aq_ok_def tickets_ok_def pt ct by (metis option.inject)
  moreover have "out_ok ?s"
    using ok t pi unfolding aq_ok_def out_ok_def ct by (auto simp: less_Suc_eq; metis option.distinct(1))
  ultimately show ?thesis using ok unfolding aq_ok_def slots_ok_def pcs_ok_def by (auto; blast)
qed

lemma pop_store_ok:
  assumes ok: "aq_ok s" and pc: "sy_pc s i = POP_STORE t d"
  shows "aq_ok (s\<lparr>sy_aq := (sy_aq s)\<lparr>aq_seq := (aq_seq (sy_aq s))[t mod aq_size (sy_aq s) := t + aq_size (sy_aq s)]\<rparr>,
    sy_pc := (sy_pc s)(i := POP_RET (Some d)), sy_out := sy_out s @ [(t, d)]\<rparr>)" (is "aq_ok ?s")
proof -
  note sh = shapeD [OF ok] and pi = pcD [OF ok pc, simplified]
  let ?n = "aq_size (sy_aq s)"
  have pt: "push_ticket (sy_pc ?s j) = push_ticket (sy_pc s j)" for j using pc by (simp add: push_ticket_def)
  have ct: "pop_ticket (sy_pc ?s j) = (if j = i then None else pop_ticket (sy_pc s j))" for j
    by (simp add: pop_ticket_def)
  have ti: "pop_ticket (sy_pc s i) = Some t" using pc by (simp add: pop_ticket_def)
  have other: "j \<noteq> i \<Longrightarrow> pop_ticket (sy_pc s j) \<noteq> Some t" for j using pop_ticket_unique [OF ok ti] by metis
  note f = full_slotD [OF seq_Suc_full [OF ok, of t]]
  have mono: "aq_seq (sy_aq s) ! x \<le> (aq_seq (sy_aq s))[t mod ?n := t + ?n] ! x" for x
    using pi sh by (cases "x = t mod ?n") simp_all
  have "shape_ok ?s" using sh by (simp add: shape_ok_def)
  moreover have "free_slot ?s (t mod ?n) (t + ?n)"
    using pi sh f unfolding free_slot_def Let_def pt by simp
  moreover have "full_slot ?s k k'" if g: "full_slot s k k'" and k: "k \<noteq> t mod ?n" for k k'
  proof -
    have "pop_ticket (sy_pc s j) = Some k' \<Longrightarrow> j \<noteq> i" for j using ti k full_slotD(2) [OF g] by auto
    then show ?thesis using g k unfolding full_slot_def Let_def ct by (auto; metis)
  qed
  moreover have "free_slot ?s k k'" if "free_slot s k k'" and "k \<noteq> t mod ?n" for k k'
    using that unfolding free_slot_def Let_def pt by simp
  moreover have "pc_ok ?s (sy_pc ?s j)" for j
  proof (cases "j = i")
    case False
    have neq: "t mod aq_size (sy_aq s) \<noteq> k mod aq_size (sy_aq s)"
      if "push_ticket (sy_pc s j) = Some k \<or> pop_ticket (sy_pc s j) = Some k" for k
      using holders_differ [OF ok False _ that] ti by metis
    have "pc_ok ?s (sy_pc s j)"
      using sh(6) by (intro pc_ok_mono [OF pcD [OF ok refl, of j]]) (simp_all add: neq mono)
    then show ?thesis using False by simp
  qed simp
  moreover have "tickets_ok (sy_pc ?s)" using ok unfolding aq_ok_def tickets_ok_def pt ct by (metis option.distinct(1))
  moreover have "out_ok ?s"
    using ok pi ti other unfolding aq_ok_def out_ok_def ct by (auto; metis option.inject)
  ultimately show ?thesis using ok unfolding aq_ok_def slots_ok_def pcs_ok_def by (auto; blast)
qed

subsection \<open>Every step\<close>

lemma run_state_upd:
  "run_state s i aq pc = s\<lparr>sy_aq := aq, sy_pc := (sy_pc s)(i := pc), sy_log := sy_log s @ log_step (sy_pc s i) pc,
     sy_out := sy_out s @ out_step (sy_pc s i)\<rparr>"
  by (simp add: run_state_def)

lemma run_state_silent:
  "log_step (sy_pc s i) pc = [] \<Longrightarrow> out_step (sy_pc s i) = [] \<Longrightarrow> run_state s i (sy_aq s) pc = s\<lparr>sy_pc := (sy_pc s)(i := pc)\<rparr>"
  by (simp add: run_state_def)

lemmas ticket_defs = push_ticket_def pop_ticket_def log_step_def out_step_def

lemma push_run_ok:
  assumes ok: "aq_ok s" and run: "push_step (sy_aq s) (sy_pc s i) = Some (aq, pc)"
  shows "aq_ok (run_state s i aq pc)"
proof (cases "sy_pc s i")
  case (PUSH_CALL d)
  then show ?thesis using run move_ok [OF ok, of pc i]
    by (auto simp: run_state_silent ticket_defs split: if_splits)
next
  case (PUSH_LOAD d)
  then show ?thesis using run move_ok [OF ok, of pc i] by (auto simp: run_state_silent ticket_defs)
next
  case (PUSH_ACQUIRE d h)
  then show ?thesis using run move_ok [OF ok, of pc i] pcD [OF ok PUSH_ACQUIRE]
    by (auto simp: run_state_silent ticket_defs mem_simps Let_def split: if_splits Option.bind_splits)
next
  case (PUSH_CAS d h)
  then show ?thesis using run move_ok [OF ok, of pc i] push_cas_ok [OF ok PUSH_CAS]
    by (auto simp: run_state_silent run_state_upd ticket_defs split: if_splits)
next
  case (PUSH_DATA d h)
  then show ?thesis using run push_data_ok [OF ok PUSH_DATA]
    by (auto simp: run_state_upd ticket_defs mem_simps patch_one split: Option.bind_splits)
next
  case (PUSH_STORE d h)
  then show ?thesis using run push_store_ok [OF ok PUSH_STORE]
    by (auto simp: run_state_upd ticket_defs mem_simps patch_one split: Option.bind_splits)
qed (use run in auto)

lemma pop_run_ok:
  assumes ok: "aq_ok s" and run: "pop_step (sy_aq s) (sy_pc s i) = Some (aq, pc)"
  shows "aq_ok (run_state s i aq pc)"
proof (cases "sy_pc s i")
  case (POP_CALL p)
  then show ?thesis using run move_ok [OF ok, of pc i]
    by (auto simp: run_state_silent ticket_defs split: if_splits)
next
  case POP_LOAD
  then show ?thesis using run move_ok [OF ok, of pc i] by (auto simp: run_state_silent ticket_defs)
next
  case (POP_ACQUIRE t)
  then show ?thesis using run move_ok [OF ok, of pc i] pcD [OF ok POP_ACQUIRE]
    by (auto simp: run_state_silent ticket_defs mem_simps Let_def split: if_splits Option.bind_splits)
next
  case (POP_CAS t)
  then show ?thesis using run move_ok [OF ok, of pc i] pop_cas_ok [OF ok POP_CAS]
    by (auto simp: run_state_silent run_state_upd ticket_defs split: if_splits)
next
  case (POP_DATA t)
  have "aq_data (sy_aq s) ! (t mod aq_size (sy_aq s)) = sy_log s ! t"
    using full_slotD(5) [OF seq_Suc_full [OF ok, of t]] pcD [OF ok POP_DATA] by simp
  then show ?thesis using POP_DATA run move_ok [OF ok, of pc i] pcD [OF ok POP_DATA]
    by (auto simp: run_state_silent ticket_defs mem_simps split: Option.bind_splits)
next
  case (POP_STORE t d)
  then show ?thesis using run pop_store_ok [OF ok POP_STORE]
    by (auto simp: run_state_upd ticket_defs mem_simps patch_one split: Option.bind_splits)
qed (use run in auto)

lemma thread_run_ok:
  "aq_ok s \<Longrightarrow> thread_step (sy_aq s) (sy_pc s i) = Some (aq, pc) \<Longrightarrow> aq_ok (run_state s i aq pc)"
  using push_run_ok pop_run_ok by (auto simp: thread_step_def split: if_splits)

lemma aq_step_ok: "aq_step s s' \<Longrightarrow> aq_ok s \<Longrightarrow> aq_ok s'"
proof (induction rule: aq_step.induct)
  case (run s i aq pc)
  then show ?case using thread_run_ok by blast
qed (auto intro!: move_ok simp: ticket_defs)

lemma aq_alloc_ok:
  assumes "fr_atomic_queue_alloc a n = Some aq" "2 \<le> n"
  shows "aq_ok \<lparr>sy_aq = aq, sy_pc = (\<lambda>i. IDLE), sy_log = [], sy_out = []\<rparr>"
  using assms by (auto simp: fr_atomic_queue_alloc_def aq_ok_def shape_ok_def slots_ok_def pcs_ok_def tickets_ok_def
      out_ok_def free_slot_def ticket_defs Let_def split: if_splits)

theorem reachable_ok: "aq_reachable n s \<Longrightarrow> 2 \<le> n \<Longrightarrow> aq_ok s"
  by (induction rule: aq_reachable.induct) (auto intro: aq_alloc_ok aq_step_ok)

lemma thread_step_size: "thread_step aq pc = Some (aq', pc') \<Longrightarrow> aq_size aq' = aq_size aq"
  by (cases pc) (auto simp: thread_step_def is_push_def Let_def mem_simps split: if_splits Option.bind_splits)

lemma reachable_size: "aq_reachable n s \<Longrightarrow> aq_size (sy_aq s) = n"
proof (induction rule: aq_reachable.induct)
  case (start aq)
  then show ?case by (auto simp: fr_atomic_queue_alloc_def split: if_splits)
next
  case (step s s')
  from step.hyps(2) step.IH show ?case by cases (auto dest: thread_step_size simp: run_state_def)
qed

section \<open>The queue the threads see\<close>

text \<open>The specification: a first-in first-out queue of at most \<open>n\<close> values. A ticket taken by a push is the moment its value
  enters the queue, a ticket taken by a pop the moment its value leaves it.\<close>

datatype bq_event = BQ_TAU | BQ_ENQ nat | BQ_DEQ nat

fun bq_next :: "nat \<Rightarrow> nat list \<Rightarrow> bq_event \<Rightarrow> nat list option" where
  "bq_next n q BQ_TAU = Some q"
| "bq_next n q (BQ_ENQ d) = (if length q < n then Some (q @ [d]) else None)"
| "bq_next n q (BQ_DEQ d) = (case q of [] \<Rightarrow> None | x # xs \<Rightarrow> if x = d then Some xs else None)"

definition event_of :: "nat list \<Rightarrow> aq_pc \<Rightarrow> aq_pc \<Rightarrow> bq_event" where
  "event_of log pc pc' = (case (pc, pc') of (PUSH_CAS d h, PUSH_DATA d' h') \<Rightarrow> BQ_ENQ d
     | (POP_CAS t, POP_DATA t') \<Rightarrow> BQ_DEQ (log ! t) | _ \<Rightarrow> BQ_TAU)"

definition queue_of :: "aq_system \<Rightarrow> nat list" where
  "queue_of s = drop (aq_tail (sy_aq s)) (sy_log s)"

lemma length_queue_of: "aq_ok s \<Longrightarrow> length (queue_of s) = aq_head (sy_aq s) - aq_tail (sy_aq s)"
  by (simp add: queue_of_def shapeD)

lemma push_step_refines:
  assumes ok: "aq_ok s" and run: "push_step (sy_aq s) (sy_pc s i) = Some (aq, pc)"
  shows "bq_next (aq_size (sy_aq s)) (queue_of s) (event_of (sy_log s) (sy_pc s i) pc) = Some (queue_of (run_state s i aq pc))"
proof (cases "\<exists>d. sy_pc s i = PUSH_CAS d (aq_head (sy_aq s))")
  case True
  then obtain d where pc: "sy_pc s i = PUSH_CAS d (aq_head (sy_aq s))" by blast
  have "aq_head (sy_aq s) < aq_tail (sy_aq s) + aq_size (sy_aq s)"
    using free_slotD(4) [OF seq_head_free [OF ok]] pcD [OF ok pc] by simp
  then show ?thesis using pc run length_queue_of [OF ok] shapeD [OF ok]
    by (auto simp: event_of_def run_state_def log_step_def queue_of_def)
next
  case False
  then show ?thesis using run
    by (cases "sy_pc s i") (auto simp: event_of_def run_state_def log_step_def queue_of_def Let_def
        split: if_splits Option.bind_splits)
qed

lemma pop_step_refines:
  assumes ok: "aq_ok s" and run: "pop_step (sy_aq s) (sy_pc s i) = Some (aq, pc)"
  shows "bq_next (aq_size (sy_aq s)) (queue_of s) (event_of (sy_log s) (sy_pc s i) pc) = Some (queue_of (run_state s i aq pc))"
proof (cases "sy_pc s i = POP_CAS (aq_tail (sy_aq s))")
  case True
  have "aq_tail (sy_aq s) < length (sy_log s)"
    using full_slotD(3) [OF seq_tail_full [OF ok]] pcD [OF ok True] shapeD(5) [OF ok] by simp
  then show ?thesis using True run
    by (auto simp: event_of_def run_state_def log_step_def queue_of_def Cons_nth_drop_Suc [symmetric])
next
  case False
  then show ?thesis using run
    by (cases "sy_pc s i") (auto simp: event_of_def run_state_def log_step_def queue_of_def Let_def
        split: if_splits Option.bind_splits)
qed

lemma call_return_queue_of: "queue_of (s\<lparr>sy_pc := p\<rparr>) = queue_of s"
  by (simp add: queue_of_def)

text \<open>(C31) The lock-free queue of two or more entries refines the bounded first-in first-out queue: whatever the threads do and
  in whatever order their accesses happen, each access leaves the queue as it is, appends the value of the push whose
  compare-and-swap succeeds (and there is room), or removes the front value for the pop whose compare-and-swap succeeds;
  and the value a pop returns is the one it removed.\<close>

theorem atomic_queue_refines_fifo:
  assumes "aq_reachable n s" "2 \<le> n" "thread_step (sy_aq s) (sy_pc s i) = Some (aq, pc)"
  shows "bq_next n (queue_of s) (event_of (sy_log s) (sy_pc s i) pc) = Some (queue_of (run_state s i aq pc)) \<and>
    (\<forall>t d. sy_pc s i = POP_STORE t d \<longrightarrow> d = sy_log s ! t \<and> pc = POP_RET (Some d))"
proof
  have ok: "aq_ok s" using reachable_ok assms(1,2) .
  show "bq_next n (queue_of s) (event_of (sy_log s) (sy_pc s i) pc) = Some (queue_of (run_state s i aq pc))"
    using push_step_refines [OF ok] pop_step_refines [OF ok] assms(3) reachable_size [OF assms(1)]
    by (auto simp: thread_step_def split: if_splits)
  show "\<forall>t d. sy_pc s i = POP_STORE t d \<longrightarrow> d = sy_log s ! t \<and> pc = POP_RET (Some d)"
    using assms(3) pcD [OF ok refl, of i] by (auto simp: thread_step_def is_push_def split: Option.bind_splits)
qed

lemma quiescent_out:
  assumes "out_ok s" "\<And>j. pop_ticket (sy_pc s j) = None" "aq_tail (sy_aq s) \<le> length (sy_log s)"
  shows "mset (map snd (sy_out s)) = mset (take (aq_tail (sy_aq s)) (sy_log s))"
proof -
  have out: "distinct (map fst (sy_out s))" "\<And>t d. (t, d) \<in> set (sy_out s) \<Longrightarrow> t < aq_tail (sy_aq s) \<and> d = sy_log s ! t"
    "\<And>t. t < aq_tail (sy_aq s) \<Longrightarrow> t \<in> fst ` set (sy_out s)"
    using assms(1,2) by (auto simp: out_ok_def)
  have "set (map fst (sy_out s)) = set [0..<aq_tail (sy_aq s)]" using out(2,3) by auto
  then have "mset (map fst (sy_out s)) = mset [0..<aq_tail (sy_aq s)]"
    using out(1) by (metis set_eq_iff_mset_eq_distinct distinct_upt)
  moreover have "map snd (sy_out s) = map ((!) (sy_log s)) (map fst (sy_out s))" using out(2) by auto
  moreover have "take (aq_tail (sy_aq s)) (sy_log s) = map ((!) (sy_log s)) [0..<aq_tail (sy_aq s)]"
    using assms(3) by (intro nth_equalityI) auto
  ultimately show ?thesis by (metis mset_map)
qed

text \<open>(C32) Nothing is lost, invented or delivered twice: in every reachable state, at most one result was popped for each ticket, it is
  the value pushed with that ticket, and there are never more than \<open>n\<close> values inside. When no
  operation is under way, the values popped are exactly the values that were pushed first, and the entries hold the rest
  in order.\<close>

theorem atomic_queue_exactly_once:
  assumes "aq_reachable n s" "2 \<le> n"
  shows "distinct (map fst (sy_out s)) \<and> (\<forall>(t, d) \<in> set (sy_out s). t < aq_tail (sy_aq s) \<and> d = sy_log s ! t) \<and>
    length (queue_of s) \<le> n \<and>
    ((\<forall>j. sy_pc s j = IDLE) \<longrightarrow>
      mset (map snd (sy_out s)) = mset (take (aq_tail (sy_aq s)) (sy_log s)) \<and>
      queue_of s = map (\<lambda>k. aq_data (sy_aq s) ! (k mod n)) [aq_tail (sy_aq s)..<aq_head (sy_aq s)])"
proof -
  have ok: "aq_ok s" using reachable_ok assms .
  note sh = shapeD [OF ok] and n = reachable_size [OF assms(1)]
  have out: "out_ok s" using ok by (simp add: aq_ok_def)
  have stored: "aq_data (sy_aq s) ! (k mod n) = sy_log s ! k"
    if idle: "\<forall>j. sy_pc s j = IDLE" and k: "aq_tail (sy_aq s) \<le> k" "k < aq_head (sy_aq s)" for k
  proof (rule slot_cases [OF ok, of k], goal_cases free full)
    case (free k')
    have "k' = k" using free_slotD(2-4) [OF free] k sh(2,7)
      by - (rule mod_eq_close [of _ "aq_size (sy_aq s)"], linarith+)
    then show ?case using free_slotD(5) [OF free] idle k by (simp add: ticket_defs)
  next
    case (full k')
    have "aq_tail (sy_aq s) \<le> k'" using full_slotD(6) [OF full] idle by (fastforce simp: ticket_defs)
    then have "k' = k" using full_slotD(2-4) [OF full] k sh(2,7)
      by - (rule mod_eq_close [of _ "aq_size (sy_aq s)"], linarith+)
    then show ?case using full_slotD(5) [OF full] n by simp
  qed
  then show ?thesis
    using out quiescent_out [OF out] sh n
    by (auto simp: out_ok_def length_queue_of [OF ok] ticket_defs queue_of_def intro!: nth_equalityI)
qed

section \<open>Refusals\<close>

lemma push_refused_full:
  assumes ok: "aq_ok s" and pc: "sy_pc s i = PUSH_ACQUIRE d h" and run: "push_step (sy_aq s) (sy_pc s i) = Some (aq, PUSH_RET False)"
  shows "length (queue_of s) = aq_size (sy_aq s) \<or> (\<exists>j. pop_ticket (sy_pc s j) = Some (aq_head (sy_aq s) - aq_size (sy_aq s)))"
proof -
  note sh = shapeD [OF ok] and len = length_queue_of [OF ok] and h = pcD [OF ok pc, simplified]
  have less: "aq_seq (sy_aq s) ! (h mod aq_size (sy_aq s)) < h"
    using run pc by (auto simp: Let_def mem_simps split: if_splits Option.bind_splits)
  have far: "k + aq_size (sy_aq s) \<le> h" if "k mod aq_size (sy_aq s) = h mod aq_size (sy_aq s)" "k < h" for k
    using mod_eq_close [OF that(1)] that(2) by (cases "h < k + aq_size (sy_aq s)") auto
  show ?thesis
  proof (rule slot_cases [OF ok, of h], goal_cases free full)
    case (free k)
    then show ?case using far [of k] free_slotD(1-4) [OF free] less h sh(6,7) len by linarith
  next
    case (full k)
    then have k: "aq_head (sy_aq s) = k + aq_size (sy_aq s)"
      using far [of k] full_slotD(1-4) [OF full] less h by linarith
    then show ?case using full_slotD(6) [OF full] sh(6,7) len by (cases "k < aq_tail (sy_aq s)") auto
  qed
qed

lemma pop_refused_empty:
  assumes ok: "aq_ok s" and pc: "sy_pc s i = POP_ACQUIRE t" and run: "pop_step (sy_aq s) (sy_pc s i) = Some (aq, POP_RET None)"
  shows "queue_of s = [] \<or> (\<exists>j. push_ticket (sy_pc s j) = Some (aq_tail (sy_aq s)))"
proof -
  note sh = shapeD [OF ok] and len = length_queue_of [OF ok] and t = pcD [OF ok pc, simplified]
  have less: "aq_seq (sy_aq s) ! (t mod aq_size (sy_aq s)) \<le> t"
    using run pc by (auto simp: Let_def mem_simps split: if_splits Option.bind_splits)
  show ?thesis
  proof (rule slot_cases [OF ok, of t], goal_cases free full)
    case (free k)
    then have "k = aq_tail (sy_aq s)" using free_slotD(1,3) [OF free] less t by linarith
    then show ?case using free_slotD(5) [OF free] sh(6) len by (cases "aq_tail (sy_aq s) < aq_head (sy_aq s)") auto
  next
    case (full k)
    have "k < t" using full_slotD(1) [OF full] less by linarith
    then have "\<not> t < k + aq_size (sy_aq s)"
      using mod_eq_close [OF full_slotD(2) [OF full]] sh(2) by (metis nat_neq_iff trans_less_add1)
    then have "aq_head (sy_aq s) \<le> aq_tail (sy_aq s)" using full_slotD(4) [OF full] t by linarith
    then show ?case using len by simp
  qed
qed

text \<open>A refusal is justified: at the moment a push of a value finds its entry too old and is about to return \<open>false\<close>, the
  queue holds as many values as it has entries, or a pop has taken the oldest value and not yet released its entry; at the moment a pop
  is about to return \<open>false\<close>, the queue is empty, or the push of its front value has not yet finished.\<close>

theorem atomic_queue_refusals:
  assumes "aq_reachable n s" "2 \<le> n" "thread_step (sy_aq s) (sy_pc s i) = Some (aq, pc)"
  shows "(\<forall>d h. sy_pc s i = PUSH_ACQUIRE d h \<longrightarrow> pc = PUSH_RET False \<longrightarrow>
      length (queue_of s) = n \<or> (\<exists>j. pop_ticket (sy_pc s j) = Some (aq_head (sy_aq s) - n))) \<and>
    (\<forall>t. sy_pc s i = POP_ACQUIRE t \<longrightarrow> pc = POP_RET None \<longrightarrow>
      queue_of s = [] \<or> (\<exists>j. push_ticket (sy_pc s j) = Some (aq_tail (sy_aq s))))"
  using push_refused_full [OF reachable_ok [OF assms(1,2)], of i] pop_refused_empty [OF reachable_ok [OF assms(1,2)], of i]
    assms(3) reachable_size [OF assms(1)] by (fastforce simp: thread_step_def is_push_def)

section \<open>Progress\<close>

text \<open>Thread \<open>i\<close> makes up to \<open>k\<close> accesses while all others pause wherever they are.\<close>

fun run_alone :: "nat \<Rightarrow> nat \<Rightarrow> aq_system \<Rightarrow> aq_system" where
  "run_alone 0 i s = s"
| "run_alone (Suc k) i s = (case thread_step (sy_aq s) (sy_pc s i) of None \<Rightarrow> s
     | Some (aq, pc) \<Rightarrow> run_alone k i (run_state s i aq pc))"

lemma reachable_run_alone: "aq_reachable n s \<Longrightarrow> aq_reachable n (run_alone k i s)"
  by (induction k arbitrary: s) (auto split: option.split intro: aq_reachable.step aq_step.run)

definition returned :: "aq_pc \<Rightarrow> bool" where
  "returned pc = (case pc of PUSH_RET ok \<Rightarrow> True | POP_RET r \<Rightarrow> True | _ \<Rightarrow> False)"

definition done_in :: "nat \<Rightarrow> nat \<Rightarrow> aq_system \<Rightarrow> bool" where
  "done_in k i s \<longleftrightarrow> aq_ok s \<longrightarrow> (\<forall>j \<ge> k. returned (sy_pc (run_alone j i s) i))"

lemma done_now: "returned (sy_pc s i) \<Longrightarrow> done_in k i s"
proof -
  assume r: "returned (sy_pc s i)"
  have "run_alone j i s = s" for j
    using r by (cases j; cases "sy_pc s i") (auto simp: returned_def thread_step_def is_push_def)
  then show ?thesis using r by (simp add: done_in_def)
qed

lemma done_step:
  assumes "thread_step (sy_aq s) (sy_pc s i) = Some (aq, pc)" "done_in k i (run_state s i aq pc)"
  shows "done_in (Suc k) i s"
  unfolding done_in_def
proof (intro impI allI)
  fix j assume ok: "aq_ok s" and j: "Suc k \<le> j"
  then obtain j' where j': "j = Suc j'" "k \<le> j'" by (cases j) auto
  show "returned (sy_pc (run_alone j i s) i)"
    using assms thread_run_ok [OF ok assms(1)] j' by (simp add: done_in_def)
qed

lemma done_mono: "done_in k i s \<Longrightarrow> k \<le> k' \<Longrightarrow> done_in k' i s"
  by (simp add: done_in_def)

lemma done_inI: "(aq_ok s \<Longrightarrow> done_in k i s) \<Longrightarrow> done_in k i s"
  by (simp add: done_in_def)

lemma run_state_sel [simp]:
  "sy_aq (run_state s i aq pc) = aq" "sy_pc (run_state s i aq pc) i = pc"
  by (simp_all add: run_state_def)

lemma slot_in: "aq_ok s \<Longrightarrow> k mod aq_size (sy_aq s) < aq_size (sy_aq s)"
  using shapeD(2) by simp

lemma push_store_done: "sy_pc s i = PUSH_STORE d h \<Longrightarrow> done_in 1 i s"
  by (rule done_inI, unfold One_nat_def)
    (rule done_step [OF _ done_now], auto simp: thread_step_def is_push_def returned_def shapeD Suc_le_eq)

lemma push_data_done: "sy_pc s i = PUSH_DATA d h \<Longrightarrow> done_in 2 i s"
  by (rule done_inI, unfold numeral_2_eq_2 One_nat_def)
    (rule done_step [OF _ push_store_done [unfolded One_nat_def]], auto simp: thread_step_def is_push_def shapeD Suc_le_eq)

lemma push_cas_done: "sy_pc s i = PUSH_CAS d (aq_head (sy_aq s)) \<Longrightarrow> done_in 3 i s"
  unfolding numeral_3_eq_3 by (rule done_step [OF _ push_data_done [unfolded numeral_2_eq_2]]) (auto simp: thread_step_def is_push_def)

lemma push_acquire_done:
  assumes pc: "sy_pc s i = PUSH_ACQUIRE d (aq_head (sy_aq s))"
  shows "done_in 4 i s"
proof (rule done_inI)
  assume ok: "aq_ok s"
  let ?h = "aq_head (sy_aq s)"
  let ?q = "aq_seq (sy_aq s) ! (?h mod aq_size (sy_aq s))"
  have st: "thread_step (sy_aq s) (sy_pc s i) = Some (sy_aq s, if ?q < ?h then PUSH_RET False else PUSH_CAS d ?h)"
    using pc slot_in [OF ok] shapeD(3) [OF ok] free_slotD(1) [OF seq_head_free [OF ok]]
    by (auto simp: thread_step_def is_push_def)
  have "done_in 3 i (run_state s i (sy_aq s) (if ?q < ?h then PUSH_RET False else PUSH_CAS d ?h))"
    using push_cas_done [of "run_state s i (sy_aq s) (PUSH_CAS d ?h)"] done_now by (auto simp: returned_def)
  from done_step [OF st this] show "done_in 4 i s" by simp
qed

lemma push_load_done: "sy_pc s i = PUSH_LOAD d \<Longrightarrow> done_in 5 i s"
  using done_step [of s i _ _ 4] push_acquire_done by (simp add: thread_step_def is_push_def)

lemma push_cas_anywhere_done:
  assumes "sy_pc s i = PUSH_CAS d h"
  shows "done_in 5 i s"
proof (cases "aq_head (sy_aq s) = h")
  case True
  then show ?thesis using push_cas_done [of s i d] assms done_mono by fastforce
next
  case False
  then show ?thesis using done_step [of s i _ _ 4] assms push_acquire_done by (simp add: thread_step_def is_push_def)
qed

lemma push_done:
  assumes "is_push (sy_pc s i)"
  shows "done_in 6 i s"
proof (rule done_inI)
  assume ok: "aq_ok s"
  show "done_in 6 i s"
  proof (cases "sy_pc s i")
    case (PUSH_CALL d)
    then show ?thesis using done_step [of s i _ _ 5] push_load_done done_now
      by (cases "d = 0") (simp_all add: thread_step_def is_push_def returned_def)
  next
    case (PUSH_ACQUIRE d h)
    let ?q = "aq_seq (sy_aq s) ! (h mod aq_size (sy_aq s))"
    let ?pc = "if ?q < h then PUSH_RET False else if h < ?q then PUSH_LOAD d else PUSH_CAS d h"
    have st: "thread_step (sy_aq s) (sy_pc s i) = Some (sy_aq s, ?pc)"
      using PUSH_ACQUIRE slot_in [OF ok] shapeD(3) [OF ok] by (auto simp: thread_step_def is_push_def)
    have "done_in 5 i (run_state s i (sy_aq s) ?pc)"
      using push_load_done push_cas_anywhere_done done_now by (auto simp: returned_def)
    from done_step [OF st this] show ?thesis by simp
  next
    case (PUSH_CAS d h)
    then show ?thesis using push_cas_anywhere_done done_mono by fastforce
  next
    case (PUSH_LOAD d)
    then show ?thesis using push_load_done [THEN done_mono] by simp
  next
    case (PUSH_DATA d h)
    then show ?thesis using push_data_done [THEN done_mono] by simp
  next
    case (PUSH_STORE d h)
    then show ?thesis using push_store_done [THEN done_mono] by simp
  qed (use assms in \<open>simp_all add: is_push_def\<close>)
qed

definition is_pop :: "aq_pc \<Rightarrow> bool" where
  "is_pop pc \<longleftrightarrow> (case pc of POP_CALL p \<Rightarrow> True | POP_LOAD \<Rightarrow> True | POP_ACQUIRE t \<Rightarrow> True | POP_CAS t \<Rightarrow> True
     | POP_DATA t \<Rightarrow> True | POP_STORE t d \<Rightarrow> True | _ \<Rightarrow> False)"

lemma pop_store_done: "sy_pc s i = POP_STORE t d \<Longrightarrow> done_in 1 i s"
  by (rule done_inI, unfold One_nat_def)
    (rule done_step [OF _ done_now], auto simp: thread_step_def is_push_def returned_def shapeD Suc_le_eq)

lemma pop_data_done: "sy_pc s i = POP_DATA t \<Longrightarrow> done_in 2 i s"
  by (rule done_inI, unfold numeral_2_eq_2 One_nat_def)
    (rule done_step [OF _ pop_store_done [unfolded One_nat_def]], auto simp: thread_step_def is_push_def shapeD)

lemma pop_cas_done: "sy_pc s i = POP_CAS (aq_tail (sy_aq s)) \<Longrightarrow> done_in 3 i s"
  unfolding numeral_3_eq_3 by (rule done_step [OF _ pop_data_done [unfolded numeral_2_eq_2]]) (auto simp: thread_step_def is_push_def)

lemma pop_acquire_done:
  assumes pc: "sy_pc s i = POP_ACQUIRE (aq_tail (sy_aq s))"
  shows "done_in 4 i s"
proof (rule done_inI)
  assume ok: "aq_ok s"
  let ?t = "aq_tail (sy_aq s)"
  let ?q = "aq_seq (sy_aq s) ! (?t mod aq_size (sy_aq s))"
  have st: "thread_step (sy_aq s) (sy_pc s i) = Some (sy_aq s, if ?q < ?t + 1 then POP_RET None else POP_CAS ?t)"
    using pc slot_in [OF ok] shapeD(3) [OF ok] full_slotD(1) [OF seq_tail_full [OF ok]]
    by (auto simp: thread_step_def is_push_def)
  have "done_in 3 i (run_state s i (sy_aq s) (if ?q < ?t + 1 then POP_RET None else POP_CAS ?t))"
    using pop_cas_done [of "run_state s i (sy_aq s) (POP_CAS ?t)"] done_now by (auto simp: returned_def)
  from done_step [OF st this] show "done_in 4 i s" by simp
qed

lemma pop_load_done: "sy_pc s i = POP_LOAD \<Longrightarrow> done_in 5 i s"
  using done_step [of s i _ _ 4] pop_acquire_done by (simp add: thread_step_def is_push_def)

lemma pop_cas_anywhere_done:
  assumes "sy_pc s i = POP_CAS t"
  shows "done_in 5 i s"
proof (cases "aq_tail (sy_aq s) = t")
  case True
  then show ?thesis using pop_cas_done [of s i] assms done_mono by fastforce
next
  case False
  then show ?thesis using done_step [of s i _ _ 4] assms pop_acquire_done by (simp add: thread_step_def is_push_def)
qed

lemma pop_done:
  assumes "is_pop (sy_pc s i)"
  shows "done_in 6 i s"
proof (rule done_inI)
  assume ok: "aq_ok s"
  show "done_in 6 i s"
  proof (cases "sy_pc s i")
    case (POP_CALL p)
    then show ?thesis using done_step [of s i _ _ 5] pop_load_done done_now
      by (cases p) (simp_all add: thread_step_def is_push_def returned_def)
  next
    case (POP_ACQUIRE t)
    let ?q = "aq_seq (sy_aq s) ! (t mod aq_size (sy_aq s))"
    let ?pc = "if ?q < t + 1 then POP_RET None else if t + 1 < ?q then POP_LOAD else POP_CAS t"
    have st: "thread_step (sy_aq s) (sy_pc s i) = Some (sy_aq s, ?pc)"
      using POP_ACQUIRE slot_in [OF ok] shapeD(3) [OF ok] by (auto simp: thread_step_def is_push_def)
    have "done_in 5 i (run_state s i (sy_aq s) ?pc)"
      using pop_load_done pop_cas_anywhere_done done_now by (auto simp: returned_def)
    from done_step [OF st this] show ?thesis by simp
  next
    case (POP_CAS t)
    then show ?thesis using pop_cas_anywhere_done done_mono by fastforce
  next
    case POP_LOAD
    then show ?thesis using pop_load_done [THEN done_mono] by simp
  next
    case (POP_DATA t)
    then show ?thesis using pop_data_done [THEN done_mono] by simp
  next
    case (POP_STORE t d)
    then show ?thesis using pop_store_done [THEN done_mono] by simp
  qed (use assms in \<open>simp_all add: is_pop_def\<close>)
qed

text \<open>(C33) The queue is lock-free in the sense that no thread waits for another: from every reachable state, wherever the other threads
  stopped, a thread inside a push or a pop that is left to run alone returns after at most six accesses, and
  none of its accesses is outside the arrays.\<close>

theorem atomic_queue_obstruction_free:
  assumes "aq_reachable n s" "2 \<le> n" "is_push (sy_pc s i) \<or> is_pop (sy_pc s i)"
  shows "returned (sy_pc (run_alone 6 i s) i)"
  using push_done [of s i] pop_done [of s i] assms(3) reachable_ok [OF assms(1,2)] by (auto simp: done_in_def)

section \<open>A queue of one entry\<close>

definition call_op :: "nat \<Rightarrow> aq_pc \<Rightarrow> aq_system \<Rightarrow> aq_system" where
  "call_op i pc s = s\<lparr>sy_pc := (sy_pc s)(i := pc)\<rparr>"

lemma pop_spins:
  assumes "aq_size (sy_aq s) = 1" "aq_seq (sy_aq s) = [2]" "aq_tail (sy_aq s) = 0" "sy_pc s i \<in> {POP_LOAD, POP_ACQUIRE 0}"
  shows "\<not> returned (sy_pc (run_alone k i s) i)"
  using assms
proof (induction k arbitrary: s)
  case 0
  then show ?case by (auto simp: returned_def)
next
  case (Suc k)
  have "\<exists>pc \<in> {POP_LOAD, POP_ACQUIRE 0}. thread_step (sy_aq s) (sy_pc s i) = Some (sy_aq s, pc)"
    using Suc.prems by (auto simp: thread_step_def is_push_def)
  then obtain pc where "pc \<in> {POP_LOAD, POP_ACQUIRE 0}" "thread_step (sy_aq s) (sy_pc s i) = Some (sy_aq s, pc)" by blast
  then show ?case using Suc.IH [of "run_state s i (sy_aq s) pc"] Suc.prems by simp
qed

text \<open>A queue of one entry, which \<open>fr_atomic_queue_alloc\<close> allows, is broken: the sequence number that marks its entry as
  filled by ticket \<open>0\<close> is the one that marks it as free for ticket \<open>1\<close>. Two pushes in a row both return \<open>true\<close>, the
  second overwrites the first value, and a pop then loops for ever although no other thread runs.\<close>

theorem one_entry_queue_broken:
  assumes "a \<noteq> 0" "b \<noteq> 0" "fr_atomic_queue_alloc True 1 = Some aq"
    "s1 = run_alone 6 0 (call_op 0 (PUSH_CALL a) \<lparr>sy_aq = aq, sy_pc = (\<lambda>i. IDLE), sy_log = [], sy_out = []\<rparr>)"
    "s2 = run_alone 6 1 (call_op 1 (PUSH_CALL b) s1)"
  shows "sy_pc s1 0 = PUSH_RET True \<and> aq_data (sy_aq s1) = [a] \<and> sy_pc s2 1 = PUSH_RET True \<and> aq_data (sy_aq s2) = [b] \<and>
    (\<forall>k. \<not> returned (sy_pc (run_alone k 2 (call_op 2 (POP_CALL True) s2)) 2))"
proof -
  have s1: "s1 = \<lparr>sy_aq = \<lparr>aq_head = 1, aq_tail = 0, aq_size = 1, aq_seq = [1], aq_data = [a]\<rparr>,
    sy_pc = (\<lambda>i. IDLE)(0 := PUSH_RET True), sy_log = [a], sy_out = []\<rparr>"
    using assms(1,3,4) by (auto simp: fr_atomic_queue_alloc_def call_op_def thread_step_def is_push_def run_state_def
        log_step_def out_step_def eval_nat_numeral patch_one)
  have s2: "s2 = \<lparr>sy_aq = \<lparr>aq_head = 2, aq_tail = 0, aq_size = 1, aq_seq = [2], aq_data = [b]\<rparr>,
    sy_pc = (\<lambda>i. IDLE)(0 := PUSH_RET True, 1 := PUSH_RET True), sy_log = [a, b], sy_out = []\<rparr>"
    using assms(2,5) by (auto simp: s1 call_op_def thread_step_def is_push_def run_state_def
        log_step_def out_step_def eval_nat_numeral patch_one)
  have "\<not> returned (sy_pc (run_alone k 2 (call_op 2 (POP_CALL True) s2)) 2)" for k
  proof (cases k)
    case (Suc k')
    have "\<not> returned (sy_pc (run_alone k' 2 (call_op 2 POP_LOAD s2)) 2)"
      by (rule pop_spins) (simp_all add: s2 call_op_def)
    then show ?thesis
      by (simp add: Suc s2 call_op_def thread_step_def is_push_def run_state_def log_step_def out_step_def)
  qed (simp add: returned_def call_op_def)
  then show ?thesis using s1 s2 by simp
qed

section \<open>Examples\<close>

text \<open>A queue of two entries: thread 0 pushes 7, thread 1 pops it, both return.\<close>

definition ex_empty :: aq_system where
  "ex_empty = \<lparr>sy_aq = \<lparr>aq_head = 0, aq_tail = 0, aq_size = 2, aq_seq = [0, 1], aq_data = [0, 0]\<rparr>,
     sy_pc = (\<lambda>i. IDLE), sy_log = [], sy_out = []\<rparr>"

definition ex_pushed :: aq_system where
  "ex_pushed = call_op 0 IDLE (run_alone 6 0 (call_op 0 (PUSH_CALL 7) ex_empty))"

definition ex_popping :: aq_system where
  "ex_popping = run_alone 3 1 (call_op 1 (POP_CALL True) ex_pushed)"

definition ex_popped :: aq_system where
  "ex_popped = call_op 1 IDLE (run_alone 3 1 ex_popping)"

definition ex_refused :: aq_system where
  "ex_refused = run_alone 2 1 (call_op 1 (POP_CALL True) ex_empty)"

lemmas ex_run_simps = call_op_def thread_step_def is_push_def run_state_def log_step_def out_step_def eval_nat_numeral patch_one

lemma ex_pushed_eq: "ex_pushed = \<lparr>sy_aq = \<lparr>aq_head = 1, aq_tail = 0, aq_size = 2, aq_seq = [1, 1], aq_data = [7, 0]\<rparr>,
     sy_pc = (\<lambda>i. IDLE), sy_log = [7], sy_out = []\<rparr>"
  by (simp add: ex_pushed_def ex_empty_def ex_run_simps fun_eq_iff)

lemma ex_popping_eq: "ex_popping = \<lparr>sy_aq = \<lparr>aq_head = 1, aq_tail = 0, aq_size = 2, aq_seq = [1, 1], aq_data = [7, 0]\<rparr>,
     sy_pc = (\<lambda>i. IDLE)(1 := POP_CAS 0), sy_log = [7], sy_out = []\<rparr>"
  by (simp add: ex_popping_def ex_pushed_eq ex_run_simps)

lemma ex_popped_eq: "ex_popped = \<lparr>sy_aq = \<lparr>aq_head = 1, aq_tail = 1, aq_size = 2, aq_seq = [2, 1], aq_data = [7, 0]\<rparr>,
     sy_pc = (\<lambda>i. IDLE), sy_log = [7], sy_out = [(0, 7)]\<rparr>"
  by (simp add: ex_popped_def ex_popping_eq ex_run_simps fun_eq_iff)

lemma ex_refused_eq: "ex_refused = \<lparr>sy_aq = \<lparr>aq_head = 0, aq_tail = 0, aq_size = 2, aq_seq = [0, 1], aq_data = [0, 0]\<rparr>,
     sy_pc = (\<lambda>i. IDLE)(1 := POP_ACQUIRE 0), sy_log = [], sy_out = []\<rparr>"
  by (simp add: ex_refused_def ex_empty_def ex_run_simps)

lemma reachable_call:
  assumes "aq_reachable n s" "sy_pc s i = IDLE"
  shows "aq_reachable n (call_op i (PUSH_CALL d) s)" "aq_reachable n (call_op i (POP_CALL p) s)"
  using assms aq_reachable.step aq_step.call_push aq_step.call_pop unfolding call_op_def by blast+

lemma reachable_return:
  assumes "aq_reachable n s" "returned (sy_pc s i)"
  shows "aq_reachable n (call_op i IDLE s)"
  using assms aq_reachable.step [OF assms(1) aq_step.push_return] aq_reachable.step [OF assms(1) aq_step.pop_return]
  by (cases "sy_pc s i") (auto simp: call_op_def returned_def)

lemma ex_reachable: "aq_reachable 2 ex_empty" "aq_reachable 2 ex_pushed" "aq_reachable 2 ex_popping" "aq_reachable 2 ex_popped"
  "aq_reachable 2 ex_refused"
proof -
  show e: "aq_reachable 2 ex_empty"
    unfolding ex_empty_def by (rule aq_reachable.start) (simp add: fr_atomic_queue_alloc_def eval_nat_numeral)
  then show p: "aq_reachable 2 ex_pushed"
    unfolding ex_pushed_def by (intro reachable_return reachable_run_alone reachable_call)
      (simp_all add: ex_empty_def ex_run_simps returned_def)
  then show q: "aq_reachable 2 ex_popping"
    unfolding ex_popping_def by (intro reachable_run_alone reachable_call) (simp_all add: ex_pushed_eq)
  then show "aq_reachable 2 ex_popped"
    unfolding ex_popped_def by (intro reachable_return reachable_run_alone) (simp_all add: ex_popping_eq ex_run_simps returned_def)
  show "aq_reachable 2 ex_refused"
    using e unfolding ex_refused_def by (intro reachable_run_alone reachable_call) (simp_all add: ex_empty_def)
qed

theorem atomic_queue_refines_fifo_witness:
  "bq_next 2 (queue_of ex_popping) (BQ_DEQ 7) = Some []"
proof -
  have "thread_step (sy_aq ex_popping) (sy_pc ex_popping 1) = Some ((sy_aq ex_popping)\<lparr>aq_tail := 1\<rparr>, POP_DATA 0)"
    by (simp add: ex_popping_eq thread_step_def is_push_def)
  from atomic_queue_refines_fifo [OF ex_reachable(3) _ this] show ?thesis
    by (simp add: ex_popping_eq event_of_def run_state_def log_step_def queue_of_def)
qed

theorem atomic_queue_exactly_once_witness:
  "mset (map snd (sy_out ex_popped)) = {#7#} \<and> queue_of ex_popped = []"
  using atomic_queue_exactly_once [OF ex_reachable(4)] by (simp add: ex_popped_eq)

theorem atomic_queue_refusals_witness:
  "thread_step (sy_aq ex_refused) (sy_pc ex_refused 1) = Some (sy_aq ex_refused, POP_RET None) \<and>
   (queue_of ex_refused = [] \<or> (\<exists>j. push_ticket (sy_pc ex_refused j) = Some 0))"
proof -
  have st: "thread_step (sy_aq ex_refused) (sy_pc ex_refused 1) = Some (sy_aq ex_refused, POP_RET None)"
    by (simp add: ex_refused_eq thread_step_def is_push_def)
  from atomic_queue_refusals [OF ex_reachable(5) _ st] st show ?thesis by (simp add: ex_refused_eq)
qed

theorem atomic_queue_obstruction_free_witness: "returned (sy_pc (run_alone 6 1 ex_popping) 1)"
  using atomic_queue_obstruction_free [OF ex_reachable(3), of 1] by (simp add: ex_popping_eq is_pop_def)

theorem one_entry_queue_broken_witness:
  "\<exists>s2. aq_data (sy_aq s2) = [9] \<and> (\<forall>k. \<not> returned (sy_pc (run_alone k 2 (call_op 2 (POP_CALL True) s2)) 2))"
  using one_entry_queue_broken [of 8 9, OF _ _ _ refl refl] by (fastforce simp: fr_atomic_queue_alloc_def)

end
