(* ===== verification/Message_Queue.thy ===== *)
theory Message_Queue
  imports Atomic_Queue
begin

text \<open>
  The atomic queue as its clients see it: \<open>fr_atomic_queue_push\<close> and \<open>fr_atomic_queue_pop\<close> run to their return
  while no other operation is under way.

  The interface is the locale \<open>bounded_fifo\<close>, with the laws of a bounded queue and what clients
  derive from them; the interpretation \<open>aq\<close> discharges the laws for the queue of \<^verbatim>\<open>atomic_queue.c\<close>.
\<close>

section \<open>The operations, one at a time\<close>

definition fr_atomic_queue_push :: "aq_system \<Rightarrow> nat \<Rightarrow> bool \<times> aq_system" where
  "fr_atomic_queue_push s data = (let s' = run_alone 6 0 (call_op 0 (PUSH_CALL data) s) in
     (sy_pc s' 0 = PUSH_RET True, call_op 0 IDLE s'))"

definition fr_atomic_queue_pop :: "aq_system \<Rightarrow> nat option \<times> aq_system" where
  "fr_atomic_queue_pop s = (let s' = run_alone 6 0 (call_op 0 (POP_CALL True) s) in
     (case sy_pc s' 0 of POP_RET r \<Rightarrow> r | _ \<Rightarrow> None, call_op 0 IDLE s'))"

definition aq_at_rest :: "nat \<Rightarrow> aq_system \<Rightarrow> bool" where
  "aq_at_rest n s \<longleftrightarrow> 2 \<le> n \<and> aq_reachable n s \<and> (\<forall>j. sy_pc s j = IDLE)"

section \<open>The interface\<close>

locale bounded_fifo =
  fixes push :: "'q \<Rightarrow> nat \<Rightarrow> bool \<times> 'q" and pop :: "'q \<Rightarrow> nat option \<times> 'q"
    and contents :: "'q \<Rightarrow> nat list" and at_rest :: "nat \<Rightarrow> 'q \<Rightarrow> bool"
  assumes push_spec: "at_rest n q \<Longrightarrow> d \<noteq> 0 \<Longrightarrow> push q d = (ok, q') \<Longrightarrow>
      at_rest n q' \<and> (ok \<longleftrightarrow> length (contents q) < n) \<and> contents q' = (if ok then contents q @ [d] else contents q)"
    and pop_spec: "at_rest n q \<Longrightarrow> pop q = (r, q') \<Longrightarrow>
      at_rest n q' \<and> r = (case contents q of [] \<Rightarrow> None | x # xs \<Rightarrow> Some x) \<and> contents q' = tl (contents q)"
begin

lemma push_room: "at_rest n q \<Longrightarrow> d \<noteq> 0 \<Longrightarrow> length (contents q) < n \<Longrightarrow>
    \<exists>q'. push q d = (True, q') \<and> at_rest n q' \<and> contents q' = contents q @ [d]"
  using push_spec [of n q d] by (cases "push q d") auto

lemma push_full: "at_rest n q \<Longrightarrow> d \<noteq> 0 \<Longrightarrow> \<not> length (contents q) < n \<Longrightarrow>
    \<exists>q'. push q d = (False, q') \<and> at_rest n q' \<and> contents q' = contents q"
  using push_spec [of n q d] by (cases "push q d") auto

lemma pop_front: "at_rest n q \<Longrightarrow> contents q = x # xs \<Longrightarrow> \<exists>q'. pop q = (Some x, q') \<and> at_rest n q' \<and> contents q' = xs"
  using pop_spec [of n q] by (cases "pop q") auto

lemma pop_empty: "at_rest n q \<Longrightarrow> contents q = [] \<Longrightarrow> \<exists>q'. pop q = (None, q') \<and> at_rest n q' \<and> contents q' = []"
  using pop_spec [of n q] by (cases "pop q") auto

end

section \<open>The atomic queue provides it\<close>

lemma rest_ok: "aq_at_rest n s \<Longrightarrow> aq_ok s \<and> aq_size (sy_aq s) = n \<and> (\<forall>j. sy_pc s j = IDLE)"
  using reachable_ok reachable_size by (auto simp: aq_at_rest_def)

lemma rest_head_seq:
  assumes r: "aq_at_rest n s"
  shows "aq_seq (sy_aq s) ! (aq_head (sy_aq s) mod n) =
    (if length (queue_of s) < n then aq_head (sy_aq s) else aq_tail (sy_aq s) + 1)"
proof -
  have ok: "aq_ok s" and n: "aq_size (sy_aq s) = n" and idle: "\<And>j. sy_pc s j = IDLE" using rest_ok [OF r] by auto
  note sh = shapeD [OF ok, unfolded n] and len = length_queue_of [OF ok]
  show ?thesis
  proof (rule slot_cases [OF ok, of "aq_head (sy_aq s)"], goal_cases free full)
    case (free k)
    note f = free_slotD [OF free, unfolded n]
    have "aq_head (sy_aq s) \<le> k" using f(5) idle by (fastforce simp: ticket_defs)
    then have "k = aq_head (sy_aq s)" using f(2,4) sh by - (rule mod_eq_close [of _ n], linarith+)
    then show ?case using f(1,4) len sh(6) by auto
  next
    case (full k)
    note f = full_slotD [OF full, unfolded n]
    have t: "aq_tail (sy_aq s) \<le> k" using f(6) idle by (fastforce simp: ticket_defs)
    have "\<not> aq_head (sy_aq s) < k + n" using mod_eq_close [OF f(2)] f(3) by fastforce
    then show ?case using f(1,4) t sh len n by simp
  qed
qed

lemma rest_tail_slot:
  assumes r: "aq_at_rest n s"
  shows "aq_seq (sy_aq s) ! (aq_tail (sy_aq s) mod n) =
    (if queue_of s = [] then aq_tail (sy_aq s) else aq_tail (sy_aq s) + 1)"
    and "queue_of s \<noteq> [] \<Longrightarrow> aq_data (sy_aq s) ! (aq_tail (sy_aq s) mod n) = sy_log s ! aq_tail (sy_aq s)"
proof -
  have ok: "aq_ok s" and n: "aq_size (sy_aq s) = n" and idle: "\<And>j. sy_pc s j = IDLE" using rest_ok [OF r] by auto
  note sh = shapeD [OF ok, unfolded n] and len = length_queue_of [OF ok]
  have "aq_seq (sy_aq s) ! (aq_tail (sy_aq s) mod n) =
      (if queue_of s = [] then aq_tail (sy_aq s) else aq_tail (sy_aq s) + 1) \<and>
    (queue_of s \<noteq> [] \<longrightarrow> aq_data (sy_aq s) ! (aq_tail (sy_aq s) mod n) = sy_log s ! aq_tail (sy_aq s))"
  proof (rule slot_cases [OF ok, of "aq_tail (sy_aq s)"], goal_cases free full)
    case (free k)
    note f = free_slotD [OF free, unfolded n]
    have h: "aq_head (sy_aq s) \<le> k" using f(5) idle by (fastforce simp: ticket_defs)
    have "k = aq_tail (sy_aq s)" using f(2-4) sh(2) by - (rule mod_eq_close [of _ n], linarith+)
    then have "queue_of s = []" using h len by simp
    then show ?case using f(1) \<open>k = aq_tail (sy_aq s)\<close> by simp
  next
    case (full k)
    note f = full_slotD [OF full, unfolded n]
    have t: "aq_tail (sy_aq s) \<le> k" using f(6) idle by (fastforce simp: ticket_defs)
    have "k = aq_tail (sy_aq s)" using f(2-4) t sh(2,7) by - (rule mod_eq_close [of _ n], linarith+)
    then show ?case using f(1,3,5) len by auto
  qed
  then show "aq_seq (sy_aq s) ! (aq_tail (sy_aq s) mod n) =
      (if queue_of s = [] then aq_tail (sy_aq s) else aq_tail (sy_aq s) + 1)"
    "queue_of s \<noteq> [] \<Longrightarrow> aq_data (sy_aq s) ! (aq_tail (sy_aq s) mod n) = sy_log s ! aq_tail (sy_aq s)" by blast+
qed

lemma rest_again:
  assumes "aq_at_rest n s" "returned (sy_pc (run_alone k 0 (call_op 0 pc s)) 0)" "aq_reachable n (call_op 0 pc s)"
  shows "aq_at_rest n (call_op 0 IDLE (run_alone k 0 (call_op 0 pc s)))"
proof -
  have other: "j \<noteq> 0 \<Longrightarrow> sy_pc (run_alone k 0 t) j = sy_pc t j" for j t
    by (induction k arbitrary: t) (auto simp: run_state_def split: option.split)
  show ?thesis using assms reachable_return [OF reachable_run_alone [OF assms(3)] assms(2)] other
    by (auto simp: aq_at_rest_def call_op_def)
qed

lemmas run_simps = call_op_def thread_step_def is_push_def run_state_def log_step_def out_step_def eval_nat_numeral patch_one Suc_le_eq

lemma push_run:
  assumes r: "aq_at_rest n s" and d: "d \<noteq> 0" and s': "s' = run_alone 6 0 (call_op 0 (PUSH_CALL d) s)"
  shows "sy_pc s' 0 = PUSH_RET (length (queue_of s) < n) \<and>
    queue_of s' = (if length (queue_of s) < n then queue_of s @ [d] else queue_of s)"
proof -
  have ok: "aq_ok s" and n: "aq_size (sy_aq s) = n" and idle: "\<And>j. sy_pc s j = IDLE" using rest_ok [OF r] by auto
  note sh = shapeD [OF ok, unfolded n] and len = length_queue_of [OF ok] and seq = rest_head_seq [OF r]
  have m: "aq_head (sy_aq s) mod n < n" using sh(2) by simp
  show ?thesis
  proof (cases "length (queue_of s) < n")
    case True
    then have "aq_seq (sy_aq s) ! (aq_head (sy_aq s) mod n) = aq_head (sy_aq s)" using seq by simp
    then have "s' = \<lparr>sy_aq = (sy_aq s)\<lparr>aq_head := aq_head (sy_aq s) + 1, aq_seq := (aq_seq (sy_aq s))[aq_head (sy_aq s) mod n := aq_head (sy_aq s) + 1],
        aq_data := (aq_data (sy_aq s))[aq_head (sy_aq s) mod n := d]\<rparr>, sy_pc = (sy_pc s)(0 := PUSH_RET True), sy_log = sy_log s @ [d], sy_out = sy_out s\<rparr>"
      using d m sh(3,4) n unfolding s' by (simp add: run_simps)
    then show ?thesis using True sh(5,6) by (simp add: queue_of_def)
  next
    case False
    then have "aq_seq (sy_aq s) ! (aq_head (sy_aq s) mod n) < aq_head (sy_aq s)" using seq len sh(1,7) by simp
    then have "s' = s\<lparr>sy_pc := (sy_pc s)(0 := PUSH_RET False)\<rparr>"
      using d m sh(3,4) n unfolding s' by (simp add: run_simps)
    then show ?thesis using False by (simp add: queue_of_def)
  qed
qed

lemma pop_run:
  assumes r: "aq_at_rest n s" and s': "s' = run_alone 6 0 (call_op 0 (POP_CALL True) s)"
  shows "sy_pc s' 0 = POP_RET (case queue_of s of [] \<Rightarrow> None | x # xs \<Rightarrow> Some x) \<and> queue_of s' = tl (queue_of s)"
proof -
  have ok: "aq_ok s" and n: "aq_size (sy_aq s) = n" and idle: "\<And>j. sy_pc s j = IDLE" using rest_ok [OF r] by auto
  note sh = shapeD [OF ok, unfolded n] and len = length_queue_of [OF ok] and seq = rest_tail_slot [OF r]
  have m: "aq_tail (sy_aq s) mod n < n" using sh(2) by simp
  show ?thesis
  proof (cases "queue_of s")
    case Nil
    then have "aq_seq (sy_aq s) ! (aq_tail (sy_aq s) mod n) = aq_tail (sy_aq s)" using seq(1) by simp
    then have "s' = s\<lparr>sy_pc := (sy_pc s)(0 := POP_RET None)\<rparr>"
      using m sh(3,4) n unfolding s' by (simp add: run_simps)
    then show ?thesis using Nil by (simp add: queue_of_def)
  next
    case (Cons x xs)
    have x: "sy_log s ! aq_tail (sy_aq s) = x" "drop (Suc (aq_tail (sy_aq s))) (sy_log s) = xs"
      using Cons by (auto simp: queue_of_def nth_via_drop drop_Suc tl_drop [symmetric])
    have "aq_seq (sy_aq s) ! (aq_tail (sy_aq s) mod n) = aq_tail (sy_aq s) + 1" "aq_data (sy_aq s) ! (aq_tail (sy_aq s) mod n) = x"
      using seq Cons x(1) by simp_all
    then have "s' = \<lparr>sy_aq = (sy_aq s)\<lparr>aq_tail := aq_tail (sy_aq s) + 1, aq_seq := (aq_seq (sy_aq s))[aq_tail (sy_aq s) mod n := aq_tail (sy_aq s) + n]\<rparr>,
        sy_pc = (sy_pc s)(0 := POP_RET (Some x)), sy_log = sy_log s, sy_out = sy_out s @ [(aq_tail (sy_aq s), x)]\<rparr>"
      using m sh(3,4) n unfolding s' by (simp add: run_simps)
    then show ?thesis using Cons x(2) by (simp add: queue_of_def)
  qed
qed

interpretation aq: bounded_fifo fr_atomic_queue_push fr_atomic_queue_pop queue_of aq_at_rest
proof
  fix n q d ok q'
  assume r: "aq_at_rest n q" and d: "d \<noteq> 0" and p: "fr_atomic_queue_push q d = (ok, q')"
  have "aq_reachable n (call_op 0 (PUSH_CALL d) q)" using r reachable_call(1) [of n q 0] by (simp add: aq_at_rest_def)
  then show "aq_at_rest n q' \<and> (ok \<longleftrightarrow> length (queue_of q) < n) \<and> queue_of q' = (if ok then queue_of q @ [d] else queue_of q)"
    using p push_run [OF r d refl] rest_again [OF r, of 6 "PUSH_CALL d"]
    by (auto simp: fr_atomic_queue_push_def Let_def returned_def call_op_def queue_of_def)
next
  fix n q v q'
  assume r: "aq_at_rest n q" and p: "fr_atomic_queue_pop q = (v, q')"
  have "aq_reachable n (call_op 0 (POP_CALL True) q)" using r reachable_call(2) [of n q 0] by (simp add: aq_at_rest_def)
  then show "aq_at_rest n q' \<and> v = (case queue_of q of [] \<Rightarrow> None | x # xs \<Rightarrow> Some x) \<and> queue_of q' = tl (queue_of q)"
    using p pop_run [OF r refl] rest_again [OF r, of 6 "POP_CALL True"]
    by (auto simp: fr_atomic_queue_pop_def Let_def returned_def call_op_def queue_of_def)
qed

end
