(* ===== verification/Ring_Buffer.thy ===== *)
theory Ring_Buffer
  imports Prelude
begin

text \<open>
  The ring buffers that hold packets and messages between threads, \<^verbatim>\<open>src/lib/io/ring_buffer.c\<close>.

  A pointer into the buffer is its offset; the functions never touch the bytes. Offsets and sizes are
  \<open>size_t\<close>: sums and differences are taken modulo \<open>2 ^ 64\<close> (\<open>add64\<close>, \<open>sub64\<close>). A function is
  \<open>None\<close> when its assertion fails; a freed ring buffer is \<open>None\<close> inside the result of \<open>fr_ring_buffer_free\<close>.

  The specification is the list of live blocks, oldest first (\<open>rb_run\<close>). The lemmas show that blocks never overlap, that the
  oldest block can always be freed, that reserving and allocating agree, and that a
  buffer has the least sufficient power of two as its size.
\<close>

unbundle bit_operations_syntax

section \<open>The code\<close>

record ring_buffer =
  rb_size :: nat
  rb_data_start :: nat
  rb_data_end :: nat
  rb_write_offset :: nat
  rb_reserved :: nat
  rb_closed :: bool

definition add64 :: "nat \<Rightarrow> nat \<Rightarrow> nat" where
  "add64 a b = (a + b) mod 2 ^ 64"

definition sub64 :: "nat \<Rightarrow> nat \<Rightarrow> nat" where
  "sub64 a b = (if b \<le> a then a - b else a + 2 ^ 64 - b)"

definition round_pow2 :: "nat \<Rightarrow> nat" where
  "round_pow2 sz = (let sz = sz - 1;
     sz = sz OR drop_bit 1 sz;
     sz = sz OR drop_bit 2 sz;
     sz = sz OR drop_bit 4 sz;
     sz = sz OR drop_bit 8 sz;
     sz = sz OR drop_bit 16 sz
   in sz + 1)"

definition fr_ring_buffer_create :: "bool \<Rightarrow> bool \<Rightarrow> nat \<Rightarrow> ring_buffer option" where
  "fr_ring_buffer_create alloc_rb alloc_buffer sz =
     (if \<not> alloc_rb then None
      else let sz = (if sz < 1024 then 1024 else sz) in
        if sz > 2 ^ 30 then None
        else let sz = round_pow2 sz in
          if \<not> alloc_buffer then None
          else Some \<lparr>rb_size = sz, rb_data_start = 0, rb_data_end = 0, rb_write_offset = 0, rb_reserved = 0, rb_closed = False\<rparr>)"

definition fr_ring_buffer_reserve :: "ring_buffer \<Rightarrow> nat \<Rightarrow> (nat option \<times> ring_buffer) option" where
  "fr_ring_buffer_reserve rb sz =
     (if rb_closed rb then Some (None, rb)
      else if rb_write_offset rb < rb_data_start rb then
        if add64 (rb_write_offset rb) sz < rb_data_start rb
        then Some (Some (rb_write_offset rb), rb\<lparr>rb_reserved := sz\<rparr>)
        else Some (None, rb)
      else if rb_write_offset rb \<noteq> rb_data_end rb then None
      else if add64 (rb_write_offset rb) sz \<le> rb_size rb
      then Some (Some (rb_write_offset rb), rb\<lparr>rb_reserved := sz\<rparr>)
      else if sz < rb_data_start rb
      then Some (Some 0, rb\<lparr>rb_write_offset := 0, rb_reserved := sz\<rparr>)
      else Some (None, rb))"

definition fr_ring_buffer_alloc :: "ring_buffer \<Rightarrow> nat \<Rightarrow> (nat option \<times> ring_buffer) option" where
  "fr_ring_buffer_alloc rb sz =
     (if rb_closed rb then Some (None, rb)
      else let rb = (if rb_reserved rb \<ge> sz then rb\<lparr>rb_reserved := rb_reserved rb - sz\<rparr> else rb\<lparr>rb_reserved := 0\<rparr>) in
        if rb_write_offset rb < rb_data_start rb then
          if add64 (rb_write_offset rb) sz < rb_data_start rb
          then Some (Some (rb_write_offset rb), rb\<lparr>rb_write_offset := add64 (rb_write_offset rb) sz\<rparr>)
          else Some (None, rb)
        else if rb_write_offset rb \<noteq> rb_data_end rb then None
        else if add64 (rb_write_offset rb) sz \<le> rb_size rb
        then let w = add64 (rb_write_offset rb) sz in
          Some (Some (rb_write_offset rb), rb\<lparr>rb_write_offset := w, rb_data_end := w\<rparr>)
        else if sz < rb_data_start rb
        then Some (Some 0, rb\<lparr>rb_write_offset := sz\<rparr>)
        else Some (None, rb))"

text \<open>The code behind the label \<open>empty_buffer\<close>, and the part of \<open>fr_ring_buffer_free\<close> after its first conditional.\<close>

definition empty_buffer :: "ring_buffer \<Rightarrow> int \<times> ring_buffer option" where
  "empty_buffer rb = (let rb = rb\<lparr>rb_data_start := 0, rb_data_end := 0, rb_write_offset := 0\<rparr> in
     if rb_closed rb then (0, None) else (0, Some rb))"

definition free_block :: "ring_buffer \<Rightarrow> nat \<Rightarrow> (int \<times> ring_buffer option) option" where
  "free_block rb size_to_free =
     (if rb_write_offset rb \<noteq> rb_data_end rb then None
      else let block_size = sub64 (rb_data_end rb) (rb_data_start rb) in
        if size_to_free > block_size then Some (- 1, Some rb)
        else if size_to_free < block_size
        then Some (0, Some (rb\<lparr>rb_data_start := add64 (rb_data_start rb) size_to_free\<rparr>))
        else Some (empty_buffer rb))"

definition fr_ring_buffer_free :: "ring_buffer \<Rightarrow> nat \<Rightarrow> (int \<times> ring_buffer option) option" where
  "fr_ring_buffer_free rb size_to_free =
     (if size_to_free = 0 then Some (0, Some rb)
      else if rb_write_offset rb < rb_data_start rb then
        let block_size = sub64 (rb_data_end rb) (rb_data_start rb) in
        if size_to_free < block_size
        then Some (0, Some (rb\<lparr>rb_data_start := add64 (rb_data_start rb) size_to_free\<rparr>))
        else let rb = rb\<lparr>rb_data_start := 0, rb_data_end := rb_write_offset rb\<rparr>;
                 size_to_free = sub64 size_to_free block_size in
          if size_to_free = rb_write_offset rb then Some (empty_buffer rb)
          else if size_to_free = 0 then Some (0, Some rb)
          else free_block rb size_to_free
      else free_block rb size_to_free)"

definition fr_ring_buffer_close :: "ring_buffer \<Rightarrow> int \<times> ring_buffer" where
  "fr_ring_buffer_close rb = (0, rb\<lparr>rb_closed := True\<rparr>)"

definition fr_ring_buffer_size :: "ring_buffer \<Rightarrow> nat" where
  "fr_ring_buffer_size rb = rb_size rb"

definition fr_ring_buffer_used :: "ring_buffer \<Rightarrow> nat option" where
  "fr_ring_buffer_used rb = do {
     sz \<leftarrow> (if rb_write_offset rb < rb_data_start rb then Some (rb_write_offset rb)
             else if rb_write_offset rb = rb_data_end rb then Some 0 else None);
     Some (add64 sz (sub64 (rb_data_end rb) (rb_data_start rb))) }"

definition fr_ring_buffer_start :: "ring_buffer \<Rightarrow> nat \<times> nat" where
  "fr_ring_buffer_start rb =
     (if rb_write_offset rb < rb_data_start rb then (rb_data_start rb, rb_write_offset rb)
      else (rb_data_start rb, sub64 (rb_data_end rb) (rb_data_start rb)))"

section \<open>The specification: live blocks, oldest first\<close>

type_synonym block = "nat \<times> nat"

text \<open>The clients: they create a buffer, reserve and allocate in any order, and free blocks oldest first. Sizes are below \<open>2 ^ 63\<close>.\<close>

inductive rb_run :: "ring_buffer \<Rightarrow> block list \<Rightarrow> bool" where
  create: "fr_ring_buffer_create a b sz = Some rb \<Longrightarrow> rb_run rb []"
| reserve: "rb_run rb q \<Longrightarrow> n < 2 ^ 63 \<Longrightarrow> fr_ring_buffer_reserve rb n = Some (r, rb') \<Longrightarrow> rb_run rb' q"
| alloc: "rb_run rb q \<Longrightarrow> 0 < n \<Longrightarrow> n < 2 ^ 63 \<Longrightarrow> fr_ring_buffer_alloc rb n = Some (Some p, rb') \<Longrightarrow> rb_run rb' (q @ [(p, n)])"
| full: "rb_run rb q \<Longrightarrow> n < 2 ^ 63 \<Longrightarrow> fr_ring_buffer_alloc rb n = Some (None, rb') \<Longrightarrow> rb_run rb' q"
| free: "rb_run rb ((p, n) # q) \<Longrightarrow> fr_ring_buffer_free rb n = Some (0, Some rb') \<Longrightarrow> rb_run rb' q"
| close: "rb_run rb q \<Longrightarrow> fr_ring_buffer_close rb = (0, rb') \<Longrightarrow> rb_run rb' q"

fun tiles :: "nat \<Rightarrow> nat \<Rightarrow> block list \<Rightarrow> bool" where
  "tiles a b [] \<longleftrightarrow> a = b"
| "tiles a b ((p, n) # q) \<longleftrightarrow> p = a \<and> 0 < n \<and> tiles (a + n) b q"

text \<open>The blocks fill the buffer from \<open>data_start\<close> to \<open>data_end\<close> and, when the writer has wrapped, from its
  beginning to \<open>write_offset\<close>.\<close>

definition rb_ok :: "ring_buffer \<Rightarrow> block list \<Rightarrow> bool" where
  "rb_ok rb q \<longleftrightarrow> 1024 \<le> rb_size rb \<and> rb_size rb \<le> 2 ^ 30 \<and> rb_data_end rb \<le> rb_size rb \<and>
     (if rb_write_offset rb < rb_data_start rb
      then \<exists>q1 q2. q = q1 @ q2 \<and> q1 \<noteq> [] \<and> tiles (rb_data_start rb) (rb_data_end rb) q1 \<and> tiles 0 (rb_write_offset rb) q2
      else rb_write_offset rb = rb_data_end rb \<and> tiles (rb_data_start rb) (rb_data_end rb) q \<and> (q = [] \<longrightarrow> rb_data_end rb = 0))"

lemma tiles_append: "tiles a b (q1 @ q2) \<longleftrightarrow> (\<exists>c. tiles a c q1 \<and> tiles c b q2)"
  by (induction q1 arbitrary: a) auto

lemma tiles_sum: "tiles a b q \<Longrightarrow> b = a + sum_list (map snd q)"
  by (induction a b q rule: tiles.induct) auto

lemma tiles_le: "tiles a b q \<Longrightarrow> a \<le> b"
  using tiles_sum by fastforce

lemma tiles_less: "tiles a b q \<Longrightarrow> q \<noteq> [] \<Longrightarrow> a < b"
  using tiles_le by (cases q) fastforce+

lemma tiles_in: "tiles a b q \<Longrightarrow> (p, n) \<in> set q \<Longrightarrow> a \<le> p \<and> 0 < n \<and> p + n \<le> b"
  by (induction a b q rule: tiles.induct) (auto dest: tiles_le)

lemma add64_small [simp]: "a + b < 2 ^ 64 \<Longrightarrow> add64 a b = a + b"
  by (simp add: add64_def)

lemma sub64_small [simp]: "b \<le> a \<Longrightarrow> sub64 a b = a - b"
  by (simp add: sub64_def)

subsection \<open>The size is a power of two\<close>

text \<open>Bit \<open>m\<close> is the highest bit and the \<open>j\<close> bits down from it are set.\<close>

definition top_bits :: "nat \<Rightarrow> nat \<Rightarrow> nat \<Rightarrow> bool" where
  "top_bits m j x \<longleftrightarrow> (\<forall>b. (bit x b \<longrightarrow> b \<le> m) \<and> (m < b + j \<longrightarrow> b \<le> m \<longrightarrow> bit x b))"

lemma top_bits_spread: "top_bits m j x \<Longrightarrow> k = j + j \<Longrightarrow> top_bits m k (x OR drop_bit j x)"
  unfolding top_bits_def
proof (intro allI conjI impI)
  fix b assume t: "\<forall>b. (bit x b \<longrightarrow> b \<le> m) \<and> (m < b + j \<longrightarrow> b \<le> m \<longrightarrow> bit x b)" and k: "k = j + j"
  show "b \<le> m" if "bit (x OR drop_bit j x) b"
  proof -
    have "bit x b \<or> bit x (j + b)" using that by (simp add: bit_simps)
    then show ?thesis using t by (meson add_leD2)
  qed
  show "bit (x OR drop_bit j x) b" if "m < b + k" "b \<le> m"
  proof -
    have "bit x b \<or> bit x (j + b)"
    proof (cases "m < b + j")
      case False
      then have "m < (j + b) + j" "j + b \<le> m" using that k by simp_all
      then show ?thesis using t by blast
    qed (use t that in blast)
    then show ?thesis by (simp add: bit_simps)
  qed
qed

lemma top_bits_start:
  assumes "2 ^ m \<le> x" "x < 2 ^ (m + 1)"
  shows "top_bits m 1 x"
proof -
  have "x div 2 ^ m = 1" using assms by (auto intro!: div_nat_eqI)
  moreover have "x div 2 ^ b = 0" if "m < b" for b
    using assms(2) that power_increasing [of "m + 1" b "2 :: nat"] by simp
  ultimately show ?thesis by (auto simp: top_bits_def bit_iff_odd not_le le_less_Suc_eq) (metis even_zero not_le_imp_less)
qed

lemma top_bits_mask:
  assumes "top_bits m j x" "m < j"
  shows "x + 1 = 2 ^ (m + 1)"
proof -
  have "x = mask (m + 1)" using assms by (intro bit_eqI) (fastforce simp: top_bits_def bit_mask_iff)
  then show ?thesis by (simp add: mask_eq_exp_minus_1)
qed

lemma round_pow2_least:
  assumes "2 \<le> n" "n \<le> 2 ^ 30"
  shows "\<exists>m. round_pow2 n = 2 ^ m \<and> n \<le> 2 ^ m \<and> (\<forall>k. n \<le> 2 ^ k \<longrightarrow> m \<le> k)"
proof -
  obtain m where m: "2 ^ m \<le> n - 1" "n - 1 < 2 ^ (m + 1)"
    using ex_power_ivl1 [of 2 "n - 1"] assms(1) by fastforce
  have "m < 30" using m(1) assms power_less_imp_less_exp [of "2 :: nat" m 30] by simp
  let ?or = "\<lambda>j x. x OR drop_bit j x"
  let ?x = "?or 16 (?or 8 (?or 4 (?or 2 (?or 1 (n - 1)))))"
  have "top_bits m 32 ?x" by (intro top_bits_spread [OF top_bits_spread [OF top_bits_spread [OF top_bits_spread
      [OF top_bits_spread [OF top_bits_start [OF m]]]]]]) simp_all
  then have "?x + 1 = 2 ^ (m + 1)" by (rule top_bits_mask) (use \<open>m < 30\<close> in simp)
  then have "round_pow2 n = 2 ^ (m + 1)" unfolding round_pow2_def Let_def .
  moreover have "m + 1 \<le> k" if "n \<le> 2 ^ k" for k
  proof (rule ccontr)
    assume "\<not> m + 1 \<le> k"
    then have "(2 :: nat) ^ k \<le> 2 ^ m" by (intro power_increasing) auto
    then show False using that m(1) assms(1) by linarith
  qed
  moreover have "n \<le> 2 ^ (m + 1)" using m(2) by linarith
  ultimately show ?thesis by blast
qed

subsection \<open>The operations keep the blocks\<close>

lemma rb_ok_bounds:
  assumes "rb_ok rb q"
  shows "rb_data_start rb \<le> rb_data_end rb" "rb_data_end rb \<le> rb_size rb" "rb_size rb \<le> 2 ^ 30" "rb_write_offset rb \<le> rb_size rb"
    "\<not> rb_write_offset rb < rb_data_start rb \<Longrightarrow> rb_write_offset rb = rb_data_end rb"
  using assms by (auto simp: rb_ok_def split: if_splits dest: tiles_le)

lemma rb_ok_wrappedI:
  assumes "1024 \<le> rb_size rb" "rb_size rb \<le> 2 ^ 30" "rb_data_end rb \<le> rb_size rb" "rb_write_offset rb < rb_data_start rb"
    "q1 \<noteq> []" "tiles (rb_data_start rb) (rb_data_end rb) q1" "tiles 0 (rb_write_offset rb) q2"
  shows "rb_ok rb (q1 @ q2)"
  using assms unfolding rb_ok_def by auto

lemma rb_ok_wrappedE:
  assumes "rb_ok rb q" "rb_write_offset rb < rb_data_start rb"
  obtains q1 q2 where "q = q1 @ q2" "q1 \<noteq> []" "tiles (rb_data_start rb) (rb_data_end rb) q1" "tiles 0 (rb_write_offset rb) q2"
  using assms unfolding rb_ok_def by auto

lemma create_ok: "fr_ring_buffer_create a b sz = Some rb \<Longrightarrow> rb_ok rb []"
proof -
  assume c: "fr_ring_buffer_create a b sz = Some rb"
  let ?n = "if sz < 1024 then 1024 else sz"
  have n: "1024 \<le> ?n" "?n \<le> 2 ^ 30" using c by (auto simp: fr_ring_buffer_create_def Let_def split: if_splits)
  then obtain m where m: "round_pow2 ?n = 2 ^ m" "?n \<le> 2 ^ m" "\<forall>k. ?n \<le> 2 ^ k \<longrightarrow> m \<le> k"
    using round_pow2_least [of ?n] by auto
  have "m \<le> 30" using m(3) n(2) by blast
  then have "(2 :: nat) ^ m \<le> 2 ^ 30" by (intro power_increasing) auto
  moreover have "rb = \<lparr>rb_size = 2 ^ m, rb_data_start = 0, rb_data_end = 0, rb_write_offset = 0, rb_reserved = 0, rb_closed = False\<rparr>"
    using c m(1) by (auto simp: fr_ring_buffer_create_def Let_def split: if_splits)
  ultimately show ?thesis using n m(2) by (simp add: rb_ok_def)
qed

lemma reserved_ok [simp]: "rb_ok (rb\<lparr>rb_reserved := r\<rparr>) q = rb_ok rb q" "rb_ok (rb\<lparr>rb_closed := c\<rparr>) q = rb_ok rb q"
  by (simp_all add: rb_ok_def)

text \<open>Reserving may move the writer to the beginning of the buffer.\<close>

lemma wrap_ok:
  assumes "rb_ok rb q" "\<not> rb_write_offset rb < rb_data_start rb" "0 < rb_data_start rb" "w \<le> 0"
  shows "rb_ok (rb\<lparr>rb_write_offset := w\<rparr>) q"
  using assms rb_ok_wrappedI [of "rb\<lparr>rb_write_offset := w\<rparr>" q "[]"] by (auto simp: rb_ok_def [of rb])

lemma reserve_ok:
  assumes "rb_ok rb q" "fr_ring_buffer_reserve rb n = Some (r, rb')"
  shows "rb_ok rb' q"
  using assms wrap_ok [OF assms(1), of 0] by (auto simp: fr_ring_buffer_reserve_def split: if_splits)

lemma write_ok:
  assumes ok: "rb_ok rb q" and n: "0 < n"
  shows "rb_write_offset rb < rb_data_start rb \<Longrightarrow> rb_write_offset rb + n < rb_data_start rb \<Longrightarrow>
      rb_ok (rb\<lparr>rb_write_offset := rb_write_offset rb + n\<rparr>) (q @ [(rb_write_offset rb, n)])"
    and "\<not> rb_write_offset rb < rb_data_start rb \<Longrightarrow> rb_data_end rb + n \<le> rb_size rb \<Longrightarrow>
      rb_ok (rb\<lparr>rb_write_offset := rb_data_end rb + n, rb_data_end := rb_data_end rb + n\<rparr>) (q @ [(rb_data_end rb, n)])"
    and "\<not> rb_write_offset rb < rb_data_start rb \<Longrightarrow> n < rb_data_start rb \<Longrightarrow>
      rb_ok (rb\<lparr>rb_write_offset := n\<rparr>) (q @ [(0, n)])"
proof -
  assume w: "rb_write_offset rb < rb_data_start rb" "rb_write_offset rb + n < rb_data_start rb"
  from rb_ok_wrappedE [OF ok w(1)] obtain q1 q2 where q: "q = q1 @ q2" "q1 \<noteq> []"
    "tiles (rb_data_start rb) (rb_data_end rb) q1" "tiles 0 (rb_write_offset rb) q2" .
  then have "tiles 0 (rb_write_offset rb + n) (q2 @ [(rb_write_offset rb, n)])" using n by (auto simp: tiles_append)
  then show "rb_ok (rb\<lparr>rb_write_offset := rb_write_offset rb + n\<rparr>) (q @ [(rb_write_offset rb, n)])"
    using ok w q rb_ok_wrappedI [of "rb\<lparr>rb_write_offset := rb_write_offset rb + n\<rparr>" q1 "q2 @ [(rb_write_offset rb, n)]"]
    by (simp add: rb_ok_def [of rb])
next
  assume "\<not> rb_write_offset rb < rb_data_start rb" "rb_data_end rb + n \<le> rb_size rb"
  then show "rb_ok (rb\<lparr>rb_write_offset := rb_data_end rb + n, rb_data_end := rb_data_end rb + n\<rparr>) (q @ [(rb_data_end rb, n)])"
    using ok n rb_ok_bounds(1) [OF ok] by (auto simp: rb_ok_def tiles_append)
next
  assume "\<not> rb_write_offset rb < rb_data_start rb" "n < rb_data_start rb"
  then show "rb_ok (rb\<lparr>rb_write_offset := n\<rparr>) (q @ [(0, n)])"
    using ok n rb_ok_wrappedI [of "rb\<lparr>rb_write_offset := n\<rparr>" q "[(0, n)]"] by (auto simp: rb_ok_def [of rb])
qed

lemma alloc_ok:
  assumes ok: "rb_ok rb q" and n: "0 < n" "n < 2 ^ 63" and a: "fr_ring_buffer_alloc rb n = Some (Some p, rb')"
  shows "rb_ok rb' (q @ [(p, n)])"
proof -
  define rb0 where "rb0 = (if rb_reserved rb \<ge> n then rb\<lparr>rb_reserved := rb_reserved rb - n\<rparr> else rb\<lparr>rb_reserved := 0\<rparr>)"
  have ok0: "rb_ok rb0 q" using ok by (simp add: rb0_def)
  have sum: "add64 (rb_write_offset rb0) n = rb_write_offset rb0 + n"
    using rb_ok_bounds(3,4) [OF ok0] n by simp
  show ?thesis
    using a write_ok [OF ok0 n(1)] rb_ok_bounds(5) [OF ok0]
    unfolding fr_ring_buffer_alloc_def rb0_def [symmetric] Let_def sum by (auto split: if_splits)
qed

lemma alloc_full_ok:
  assumes "rb_ok rb q" "fr_ring_buffer_alloc rb n = Some (None, rb')"
  shows "rb_ok rb' q"
  using assms by (auto simp: fr_ring_buffer_alloc_def Let_def split: if_splits)

lemma empty_ok: "rb_ok rb q \<Longrightarrow> rb_ok (rb\<lparr>rb_data_start := 0, rb_data_end := 0, rb_write_offset := 0\<rparr>) []"
  by (simp add: rb_ok_def)

text \<open>What freeing the oldest block leaves: the other blocks, or nothing when the buffer was closed and this was the last one.\<close>

definition freed_to :: "ring_buffer \<Rightarrow> block list \<Rightarrow> (int \<times> ring_buffer option) option \<Rightarrow> bool" where
  "freed_to rb q r \<longleftrightarrow> (if rb_closed rb \<and> q = [] then r = Some (0, None) else \<exists>rb'. r = Some (0, Some rb') \<and> rb_ok rb' q)"

lemma empty_freed: "rb_ok rb0 q0 \<Longrightarrow> rb_size rb = rb_size rb0 \<Longrightarrow> freed_to rb [] (Some (empty_buffer rb))"
  by (auto simp: freed_to_def empty_buffer_def Let_def rb_ok_def)

lemma free_unwrapped_ok:
  assumes ok: "rb_ok rb ((p, n) # q)" and w: "\<not> rb_write_offset rb < rb_data_start rb"
  shows "freed_to rb q (fr_ring_buffer_free rb n)"
proof -
  have t: "rb_write_offset rb = rb_data_end rb" "0 < n" "tiles (rb_data_start rb + n) (rb_data_end rb) q"
    and b: "1024 \<le> rb_size rb" "rb_size rb \<le> 2 ^ 30" "rb_data_end rb \<le> rb_size rb"
    using ok w by (auto simp: rb_ok_def)
  have le: "rb_data_start rb + n \<le> rb_data_end rb" using tiles_le [OF t(3)] .
  show ?thesis
  proof (cases "q = []")
    case True
    then have "rb_data_end rb = rb_data_start rb + n" using t(3) by simp
    then show ?thesis using True t w empty_freed [OF ok refl]
      by (simp add: fr_ring_buffer_free_def free_block_def Let_def)
  next
    case False
    have less: "rb_data_start rb + n < rb_data_end rb" using tiles_less [OF t(3) False] .
    then have "fr_ring_buffer_free rb n = Some (0, Some (rb\<lparr>rb_data_start := rb_data_start rb + n\<rparr>))"
      using t b w by (simp add: fr_ring_buffer_free_def free_block_def Let_def)
    moreover have "rb_ok (rb\<lparr>rb_data_start := rb_data_start rb + n\<rparr>) q"
      using t b less False by (simp add: rb_ok_def)
    ultimately show ?thesis using False by (simp add: freed_to_def)
  qed
qed

lemma free_wrapped_ok:
  assumes ok: "rb_ok rb ((p, n) # q)" and w: "rb_write_offset rb < rb_data_start rb"
  shows "freed_to rb q (fr_ring_buffer_free rb n)"
proof -
  from rb_ok_wrappedE [OF ok w] obtain q1 q2 where q: "(p, n) # q = q1 @ q2" "q1 \<noteq> []"
    "tiles (rb_data_start rb) (rb_data_end rb) q1" "tiles 0 (rb_write_offset rb) q2" .
  then obtain q1' where q1: "q1 = (p, n) # q1'" "q = q1' @ q2" by (cases q1) auto
  have t: "0 < n" "tiles (rb_data_start rb + n) (rb_data_end rb) q1'" using q(3) q1(1) by auto
  have b: "1024 \<le> rb_size rb" "rb_size rb \<le> 2 ^ 30" "rb_data_end rb \<le> rb_size rb" using ok by (simp_all add: rb_ok_def)
  show ?thesis
  proof (cases "q1' = []")
    case False
    have less: "rb_data_start rb + n < rb_data_end rb" using tiles_less [OF t(2) False] .
    then have "fr_ring_buffer_free rb n = Some (0, Some (rb\<lparr>rb_data_start := rb_data_start rb + n\<rparr>))"
      using t b w less_diff_conv [of n "rb_data_end rb" "rb_data_start rb"]
      by (simp add: fr_ring_buffer_free_def Let_def add.commute)
    moreover have "rb_ok (rb\<lparr>rb_data_start := rb_data_start rb + n\<rparr>) (q1' @ q2)"
      using t b w q(4) False by (intro rb_ok_wrappedI) simp_all
    ultimately show ?thesis using False by (simp add: freed_to_def q1(2))
  next
    case True
    let ?rb = "rb\<lparr>rb_data_start := 0, rb_data_end := rb_write_offset rb\<rparr>"
    have e: "rb_data_end rb = rb_data_start rb + n" using t(2) True by simp
    show ?thesis
    proof (cases "rb_write_offset rb = 0")
      case z: True
      then have "q2 = []" using tiles_less [OF q(4)] by auto
      then show ?thesis using z True q1(2) e t w empty_freed [OF ok, of ?rb]
        by (simp add: fr_ring_buffer_free_def Let_def freed_to_def empty_buffer_def)
    next
      case nz: False
      then have "rb_ok ?rb q2" using q(4) b w rb_ok_bounds(1) [OF ok] by (auto simp: rb_ok_def)
      moreover have "q2 \<noteq> []" using nz q(4) by auto
      ultimately show ?thesis using nz True q1(2) e t w by (simp add: fr_ring_buffer_free_def Let_def freed_to_def)
    qed
  qed
qed

lemma free_ok: "rb_ok rb ((p, n) # q) \<Longrightarrow> freed_to rb q (fr_ring_buffer_free rb n)"
  using free_wrapped_ok free_unwrapped_ok by blast

lemma rb_run_ok: "rb_run rb q \<Longrightarrow> rb_ok rb q"
proof (induction rule: rb_run.induct)
  case (free rb p n q rb')
  then show ?case using free_ok [of rb p n q] by (auto simp: freed_to_def split: if_splits)
qed (auto intro: create_ok reserve_ok alloc_ok alloc_full_ok simp: fr_ring_buffer_close_def)

section \<open>What the clients get\<close>

definition apart :: "block \<Rightarrow> block \<Rightarrow> bool" where
  "apart x y \<longleftrightarrow> fst x + snd x \<le> fst y \<or> fst y + snd y \<le> fst x"

lemma tiles_apart: "tiles a b q \<Longrightarrow> sorted_wrt apart q"
  by (induction a b q rule: tiles.induct) (auto simp: apart_def dest: tiles_in)

lemma rb_ok_apart:
  assumes ok: "rb_ok rb q"
  shows "sorted_wrt apart q \<and> (\<forall>(p, n) \<in> set q. 0 < n \<and> p + n \<le> rb_size rb)"
proof (cases "rb_write_offset rb < rb_data_start rb")
  case True
  from rb_ok_wrappedE [OF ok True] obtain q1 q2 where q: "q = q1 @ q2" "q1 \<noteq> []"
    "tiles (rb_data_start rb) (rb_data_end rb) q1" "tiles 0 (rb_write_offset rb) q2" .
  have "apart x y" if "x \<in> set q1" "y \<in> set q2" for x y
    using tiles_in [OF q(3), of "fst x" "snd x"] tiles_in [OF q(4), of "fst y" "snd y"] that True
    by (simp add: apart_def)
  then show ?thesis
    using tiles_apart [OF q(3)] tiles_apart [OF q(4)] tiles_in [OF q(3)] tiles_in [OF q(4)] rb_ok_bounds [OF ok] True
    by (fastforce simp: q(1) sorted_wrt_append)
next
  case False
  then have t: "tiles (rb_data_start rb) (rb_data_end rb) q" using ok by (simp add: rb_ok_def)
  show ?thesis using tiles_apart [OF t] tiles_in [OF t] rb_ok_bounds(2) [OF ok] by fastforce
qed

lemma rb_ok_used:
  assumes ok: "rb_ok rb q"
  shows "fr_ring_buffer_used rb = Some (sum_list (map snd q))"
proof (cases "rb_write_offset rb < rb_data_start rb")
  case True
  from rb_ok_wrappedE [OF ok True] obtain q1 q2 where q: "q = q1 @ q2" "q1 \<noteq> []"
    "tiles (rb_data_start rb) (rb_data_end rb) q1" "tiles 0 (rb_write_offset rb) q2" .
  show ?thesis using True tiles_sum [OF q(3)] tiles_sum [OF q(4)] rb_ok_bounds [OF ok]
    by (simp add: fr_ring_buffer_used_def q(1))
next
  case False
  then have t: "tiles (rb_data_start rb) (rb_data_end rb) q" using ok by (simp add: rb_ok_def)
  show ?thesis using False tiles_sum [OF t] rb_ok_bounds [OF ok] by (simp add: fr_ring_buffer_used_def)
qed

lemma start_oldest: "rb_ok rb ((p, n) # q) \<Longrightarrow> fst (fr_ring_buffer_start rb) = p"
  by (auto simp: rb_ok_def fr_ring_buffer_start_def Cons_eq_append_conv split: if_splits)

text \<open>(C34) The blocks that a client holds never overlap and lie inside the buffer, whatever sequence of reservations, allocations,
  refused allocations, frees and a close led to the state; the amount of used data is the sum of their sizes; and the block at the
  start of the buffer is the oldest one, which can be freed and leaves exactly the others (or, when it was the last block of
  a closed buffer, frees the buffer).\<close>

theorem ring_buffer_fifo:
  assumes "rb_run rb q"
  shows "sorted_wrt apart q \<and> (\<forall>(p, n) \<in> set q. 0 < n \<and> p + n \<le> fr_ring_buffer_size rb) \<and>
    fr_ring_buffer_used rb = Some (sum_list (map snd q)) \<and>
    (\<forall>p n q'. q = (p, n) # q' \<longrightarrow> fst (fr_ring_buffer_start rb) = p \<and>
      (if rb_closed rb \<and> q' = [] then fr_ring_buffer_free rb n = Some (0, None)
       else \<exists>rb'. fr_ring_buffer_free rb n = Some (0, Some rb') \<and> rb_run rb' q'))"
proof -
  have ok: "rb_ok rb q" using rb_run_ok [OF assms] .
  have "if rb_closed rb \<and> q' = [] then fr_ring_buffer_free rb n = Some (0, None)
     else \<exists>rb'. fr_ring_buffer_free rb n = Some (0, Some rb') \<and> rb_run rb' q'" if q: "q = (p, n) # q'" for p n q'
    using free_ok [of rb p n q'] ok rb_run.free [of rb p n q'] assms unfolding q freed_to_def by auto
  then show ?thesis
    using rb_ok_apart [OF ok] rb_ok_used [OF ok] start_oldest [of rb] ok by (auto simp: fr_ring_buffer_size_def)
qed

lemma alloc_total:
  assumes "rb_ok rb q"
  shows "\<exists>r rb'. fr_ring_buffer_alloc rb n = Some (r, rb')"
  using rb_ok_bounds(5) [OF assms] by (auto simp: fr_ring_buffer_alloc_def Let_def)

lemma reserve_alloc:
  assumes ok: "rb_ok rb q" and r: "fr_ring_buffer_reserve rb n = Some (Some p, rb1)" and m: "m \<le> n" "n < 2 ^ 63"
  shows "\<exists>rb2. fr_ring_buffer_alloc rb1 m = Some (Some p, rb2)"
proof -
  have sum: "add64 (rb_write_offset rb) n = rb_write_offset rb + n" "add64 (rb_write_offset rb) m = rb_write_offset rb + m"
    using rb_ok_bounds(3,4) [OF ok] m by simp_all
  have zero: "add64 0 m = m" "add64 (rb_data_end rb) m = rb_data_end rb + m" using m rb_ok_bounds(2,3) [OF ok] by simp_all
  have nc: "\<not> rb_closed rb" using r by (auto simp: fr_ring_buffer_reserve_def)
  from r consider (wrapped) "rb_write_offset rb < rb_data_start rb" "rb_write_offset rb + n < rb_data_start rb"
      "p = rb_write_offset rb" "rb1 = rb\<lparr>rb_reserved := n\<rparr>"
    | (fits) "\<not> rb_write_offset rb < rb_data_start rb" "rb_write_offset rb = rb_data_end rb" "rb_write_offset rb + n \<le> rb_size rb"
      "p = rb_write_offset rb" "rb1 = rb\<lparr>rb_reserved := n\<rparr>"
    | (wraps) "n < rb_data_start rb" "p = 0" "rb1 = rb\<lparr>rb_write_offset := 0, rb_reserved := n\<rparr>"
    unfolding fr_ring_buffer_reserve_def sum by (auto split: if_splits)
  then show ?thesis
    by cases (use m nc in \<open>simp_all add: fr_ring_buffer_alloc_def sum zero Let_def\<close>)
qed

text \<open>A reservation is a promise: when room for \<open>n\<close> octets was reserved at an address, allocating up to that many returns this
  address. An empty buffer that is not closed gives out any block up to its size, from its beginning, and nothing larger. No allocation
  fails the assertion of the function.\<close>

theorem ring_buffer_reserve_alloc:
  assumes "rb_run rb q" "n < 2 ^ 63"
  shows "(\<exists>r rb'. fr_ring_buffer_alloc rb n = Some (r, rb')) \<and>
    (\<forall>p rb1 m. fr_ring_buffer_reserve rb n = Some (Some p, rb1) \<and> m \<le> n \<longrightarrow> (\<exists>rb2. fr_ring_buffer_alloc rb1 m = Some (Some p, rb2))) \<and>
    (q = [] \<and> \<not> rb_closed rb \<longrightarrow> ((\<exists>p rb'. fr_ring_buffer_alloc rb n = Some (Some p, rb')) \<longleftrightarrow> n \<le> fr_ring_buffer_size rb))"
proof -
  have ok: "rb_ok rb q" using rb_run_ok [OF assms(1)] .
  have "(\<exists>p rb'. fr_ring_buffer_alloc rb n = Some (Some p, rb')) \<longleftrightarrow> n \<le> fr_ring_buffer_size rb" if "q = []" "\<not> rb_closed rb"
    using ok that assms(2) by (auto simp: rb_ok_def fr_ring_buffer_alloc_def Let_def fr_ring_buffer_size_def split: if_splits)
  then show ?thesis using alloc_total [OF ok] reserve_alloc [OF ok _ _ assms(2)] by auto
qed

text \<open>The size of a new buffer is the least power of two that is at least 1024 and the size asked for; sizes beyond
  \<open>2 ^ 30\<close> are refused.\<close>

theorem ring_buffer_create_size:
  "if n \<le> 2 ^ 30
   then \<exists>rb k. fr_ring_buffer_create True True n = Some rb \<and> fr_ring_buffer_size rb = 2 ^ k \<and> max 1024 n \<le> 2 ^ k \<and>
     (\<forall>j. max 1024 n \<le> 2 ^ j \<longrightarrow> k \<le> j)
   else fr_ring_buffer_create True True n = None"
proof (cases "n \<le> 2 ^ 30")
  case True
  obtain k where k: "round_pow2 (max 1024 n) = 2 ^ k" "max 1024 n \<le> 2 ^ k" "\<forall>j. max 1024 n \<le> 2 ^ j \<longrightarrow> k \<le> j"
    using round_pow2_least [of "max 1024 n"] True by (auto simp: le_max_iff_disj)
  have m: "(if n < 1024 then 1024 else n) = max 1024 n" by simp
  have "\<not> 2 ^ 30 < max 1024 n" using True by simp
  then have c: "fr_ring_buffer_create True True n = Some \<lparr>rb_size = 2 ^ k, rb_data_start = 0, rb_data_end = 0, rb_write_offset = 0,
      rb_reserved = 0, rb_closed = False\<rparr>"
    unfolding fr_ring_buffer_create_def Let_def m k(1) by simp
  show ?thesis unfolding if_P [OF True]
    by (rule exI, rule exI [of _ k], intro conjI, rule c) (use k in \<open>simp_all add: fr_ring_buffer_size_def\<close>)
qed (simp add: fr_ring_buffer_create_def Let_def)

section \<open>Examples\<close>

text \<open>A buffer of 1024 octets with blocks of 400, 400 and 300 octets, the first one freed: the last block is at the beginning.\<close>

definition ex_wrapped :: ring_buffer where
  "ex_wrapped = \<lparr>rb_size = 1024, rb_data_start = 400, rb_data_end = 800, rb_write_offset = 300, rb_reserved = 0, rb_closed = False\<rparr>"

lemma ex_wrapped_run: "rb_run ex_wrapped [(400, 400), (0, 300)]"
proof -
  let ?rb = "\<lambda>s e w. \<lparr>rb_size = 1024, rb_data_start = s, rb_data_end = e, rb_write_offset = w, rb_reserved = 0, rb_closed = False\<rparr>"
  have "fr_ring_buffer_create True True 1000 = Some (?rb 0 0 0)"
    by (simp add: fr_ring_buffer_create_def round_pow2_def Let_def)
  then have "rb_run (?rb 0 0 0) []" by (rule rb_run.create)
  then have "rb_run (?rb 0 400 400) ([] @ [(0, 400)])"
    by (rule rb_run.alloc) (simp_all add: fr_ring_buffer_alloc_def Let_def add64_def)
  then have "rb_run (?rb 0 800 800) (([] @ [(0, 400)]) @ [(400, 400)])"
    by (rule rb_run.alloc) (simp_all add: fr_ring_buffer_alloc_def Let_def add64_def)
  then have "rb_run (?rb 0 800 800) ((0, 400) # [(400, 400)])" by simp
  then have "rb_run (?rb 400 800 800) [(400, 400)]"
    by (rule rb_run.free) (simp add: fr_ring_buffer_free_def free_block_def Let_def add64_def sub64_def)
  then have "rb_run ex_wrapped ([(400, 400)] @ [(0, 300)])"
    by (rule rb_run.alloc) (simp_all add: fr_ring_buffer_alloc_def Let_def add64_def ex_wrapped_def)
  then show ?thesis by simp
qed

theorem ring_buffer_fifo_witness:
  "fr_ring_buffer_used ex_wrapped = Some 700 \<and> apart (400, 400) (0, 300) \<and>
   (\<exists>rb'. fr_ring_buffer_free ex_wrapped 400 = Some (0, Some rb') \<and> rb_run rb' [(0, 300)])"
  using ring_buffer_fifo [OF ex_wrapped_run] by (simp add: ex_wrapped_def)

theorem ring_buffer_reserve_alloc_witness:
  "\<exists>rb2. fr_ring_buffer_alloc (ex_wrapped\<lparr>rb_reserved := 99\<rparr>) 50 = Some (Some 300, rb2)"
proof -
  have "fr_ring_buffer_reserve ex_wrapped 99 = Some (Some 300, ex_wrapped\<lparr>rb_reserved := 99\<rparr>)"
    by (simp add: ex_wrapped_def fr_ring_buffer_reserve_def add64_def)
  then show ?thesis using ring_buffer_reserve_alloc [OF ex_wrapped_run, of 99] by simp
qed

theorem ring_buffer_create_size_witness:
  "\<exists>rb k. fr_ring_buffer_create True True 1025 = Some rb \<and> fr_ring_buffer_size rb = 2 ^ k \<and> k \<le> 11"
proof -
  have "1025 \<le> (2 :: nat) ^ 30" "max 1024 1025 \<le> (2 :: nat) ^ 11" by simp_all
  then show ?thesis using ring_buffer_create_size [of 1025] unfolding if_P [OF \<open>1025 \<le> (2 :: nat) ^ 30\<close>] by blast
qed

text \<open>Where the code departs from its comments. In a wrapped buffer \<open>fr_ring_buffer_start\<close> reports \<open>write_offset\<close>, the amount of data
  at the beginning, as the size of the data at \<open>data_start\<close>; a free of too much returns an error but has released the
  older part; and a size close to \<open>2 ^ 64\<close> passes the checks of an allocation because the sum wraps.\<close>

lemma ring_buffer_start_wrapped: "fr_ring_buffer_start ex_wrapped = (400, 300)"
  by (simp add: ex_wrapped_def fr_ring_buffer_start_def)

lemma ring_buffer_free_too_much:
  "\<exists>rb'. fr_ring_buffer_free ex_wrapped 701 = Some (- 1, Some rb') \<and> fr_ring_buffer_used rb' = Some 300"
  by (simp add: ex_wrapped_def fr_ring_buffer_free_def free_block_def fr_ring_buffer_used_def Let_def add64_def sub64_def)

lemma ring_buffer_alloc_wraps:
  "\<exists>rb'. fr_ring_buffer_alloc ex_wrapped (2 ^ 64 - 200) = Some (Some 300, rb') \<and> rb_write_offset rb' = 100"
  by (simp add: ex_wrapped_def fr_ring_buffer_alloc_def Let_def add64_def)

end
