(* ===== verification/Control.thy ===== *)
theory Control
  imports Message_Queue Ring_Buffer
begin

text \<open>
  The control plane between threads, \<^verbatim>\<open>src/lib/io/control.c\<close>: an originator copies a message into a block of its
  ring buffer and pushes its address to the receiver's atomic queue; the receiver pops the address, copies the data and marks
  the message as done; the originator later frees the done messages.

  The ring buffer's memory is a list of bytes at address \<open>c_buffer\<close>, in which a message is its header of 16 octets (status, id and
  data size, little endian) followed by its data. Every read and write is checked against the memory, and a failed assertion
  is \<open>None\<close>, as is a loop that does not end. One originator and one receiver are modelled, their operations one after the other in any order.
  Registered callbacks are numbers, \<open>NULL\<close> is zero; the calls of callbacks are returned as a list.

  The lemmas show that messages arrive once, in order and unchanged although the memory is reused, that no access leaves the memory, and that
  garbage collection ends and, once everything was received, empties the buffer.
\<close>

section \<open>The code\<close>

abbreviation FR_CONTROL_MAX_TYPES :: nat where "FR_CONTROL_MAX_TYPES \<equiv> 32"

datatype control_message_status = FR_CONTROL_MESSAGE_FREE | FR_CONTROL_MESSAGE_USED | FR_CONTROL_MESSAGE_DONE

fun status_val :: "control_message_status \<Rightarrow> nat" where
  "status_val FR_CONTROL_MESSAGE_FREE = 0"
| "status_val FR_CONTROL_MESSAGE_USED = 1"
| "status_val FR_CONTROL_MESSAGE_DONE = 2"

record control_ctx =
  cb_id :: nat
  cb_ctx :: nat
  cb_callback :: nat

record control =
  c_aq :: aq_system
  c_pipe :: nat
  c_same_thread :: bool
  c_type :: "control_ctx list"
  c_rb :: ring_buffer
  c_buffer :: nat
  c_mem :: bytes

text \<open>A call of a callback: its number, its context, the data and the size it is told.\<close>

type_synonym callback_call = "nat \<times> nat \<times> bytes \<times> nat"

text \<open>Integers in memory.\<close>

fun le_put :: "nat \<Rightarrow> nat \<Rightarrow> bytes" where
  "le_put 0 n = []"
| "le_put (Suc k) n = word_of_nat n # le_put k (n div 256)"

fun le_get :: "bytes \<Rightarrow> nat" where
  "le_get [] = 0"
| "le_get (b # bs) = unat b + 256 * le_get bs"

definition rd_le :: "bytes \<Rightarrow> nat \<Rightarrow> nat \<Rightarrow> nat option" where
  "rd_le mem p k = do { bs \<leftarrow> rd_mem mem p k; Some (le_get bs) }"

text \<open>The header and the data, rounded up to a multiple of 64 octets.\<close>

abbreviation SIZEOF_MESSAGE :: nat where "SIZEOF_MESSAGE \<equiv> 16"

definition message_size :: "nat \<Rightarrow> nat" where
  "message_size data_size = (let m = add64 (add64 SIZEOF_MESSAGE data_size) 63 in 64 * (m div 64))"

partial_function (option) gc_loop :: "ring_buffer \<Rightarrow> bytes \<Rightarrow> (ring_buffer \<times> bytes) option" where
  "gc_loop rb mem =
     (let m = fst (fr_ring_buffer_start rb); room = snd (fr_ring_buffer_start rb) in
      if room = 0 then Some (rb, mem)
      else if room < SIZEOF_MESSAGE then None
      else do {
        status \<leftarrow> rd_le mem m 4;
        if status = status_val FR_CONTROL_MESSAGE_FREE then None
        else if status \<noteq> status_val FR_CONTROL_MESSAGE_DONE then Some (rb, mem)
        else do {
          mem \<leftarrow> wr_mem mem m (le_put 4 (status_val FR_CONTROL_MESSAGE_FREE));
          data_size \<leftarrow> rd_le mem (m + 8) 8;
          r \<leftarrow> fr_ring_buffer_free rb (message_size data_size);
          rb \<leftarrow> snd r;
          gc_loop rb mem } })"

definition fr_control_gc :: "control \<Rightarrow> (int \<times> control) option" where
  "fr_control_gc c = do {
     (rb, mem) \<leftarrow> gc_loop (c_rb c) (c_mem c);
     used \<leftarrow> fr_ring_buffer_used rb;
     Some (if used > 0 then - 1 else 0, c\<lparr>c_rb := rb, c_mem := mem\<rparr>) }"

definition message_fill :: "control \<Rightarrow> nat \<Rightarrow> nat \<Rightarrow> bytes \<Rightarrow> control option" where
  "message_fill c m ident data = do {
     mem \<leftarrow> wr_mem (c_mem c) m (le_put 4 (status_val FR_CONTROL_MESSAGE_USED));
     mem \<leftarrow> wr_mem mem (m + 4) (le_put 4 ident);
     mem \<leftarrow> wr_mem mem (m + 8) (le_put 8 (length data));
     mem \<leftarrow> wr_mem mem (m + SIZEOF_MESSAGE) data;
     Some (c\<lparr>c_mem := mem\<rparr>) }"

definition fr_control_message_alloc :: "control \<Rightarrow> nat \<Rightarrow> bytes \<Rightarrow> (nat option \<times> control) option" where
  "fr_control_message_alloc c ident data = do {
     let size = message_size (length data);
     (m, rb) \<leftarrow> fr_ring_buffer_alloc (c_rb c) size;
     let c = c\<lparr>c_rb := rb\<rparr>;
     case m of
       Some m \<Rightarrow> do { c \<leftarrow> message_fill c m ident data; Some (Some m, c) }
     | None \<Rightarrow> do {
         (_, c) \<leftarrow> fr_control_gc c;
         (m, rb) \<leftarrow> fr_ring_buffer_alloc (c_rb c) size;
         let c = c\<lparr>c_rb := rb\<rparr>;
         case m of
           None \<Rightarrow> Some (None, c)
         | Some m \<Rightarrow> do { c \<leftarrow> message_fill c m ident data; Some (Some m, c) } } }"

definition push_allocated :: "control \<Rightarrow> nat \<Rightarrow> (int \<times> control) option" where
  "push_allocated c m = (case fr_atomic_queue_push (c_aq c) (c_buffer c + m) of
       (True, aq) \<Rightarrow> Some (0, c\<lparr>c_aq := aq\<rparr>)
     | (False, aq) \<Rightarrow> do {
         mem \<leftarrow> wr_mem (c_mem c) m (le_put 4 (status_val FR_CONTROL_MESSAGE_DONE));
         Some (- 1, c\<lparr>c_aq := aq, c_mem := mem\<rparr>) })"

definition fr_control_message_push :: "control \<Rightarrow> nat \<Rightarrow> bytes \<Rightarrow> (int \<times> control) option" where
  "fr_control_message_push c ident data = do {
     (m, c) \<leftarrow> fr_control_message_alloc c ident data;
     case m of
       Some m \<Rightarrow> push_allocated c m
     | None \<Rightarrow> do {
         (_, c) \<leftarrow> fr_control_gc c;
         (m, c) \<leftarrow> fr_control_message_alloc c ident data;
         case m of
           None \<Rightarrow> Some (- 2, c)
         | Some m \<Rightarrow> push_allocated c m } }"

text \<open>\<open>written\<close>: whether the write to the pipe added its octet (a full pipe refuses it, which the code ignores).\<close>

definition fr_control_message_send :: "control \<Rightarrow> nat \<Rightarrow> bytes \<Rightarrow> bool \<Rightarrow> (int \<times> callback_call list \<times> control) option" where
  "fr_control_message_send c ident data written =
     (if c_same_thread c then do {
        t \<leftarrow> rd8 (c_type c) ident;
        if cb_callback t = 0 then Some (- 1, [], c)
        else Some (0, [(cb_callback t, cb_ctx t, data, length data)], c) }
      else do {
        (rc, c) \<leftarrow> fr_control_message_push c ident data;
        if rc < 0 then Some (- 1, [], c)
        else Some (0, [], c\<lparr>c_pipe := c_pipe c + (if written then 1 else 0)\<rparr>) })"

text \<open>The result, the id when it was stored, the data copied, and the new state.\<close>

definition fr_control_message_pop :: "control \<Rightarrow> nat \<Rightarrow> (int \<times> nat option \<times> bytes \<times> control) option" where
  "fr_control_message_pop c data_size = (case fr_atomic_queue_pop (c_aq c) of
       (None, aq) \<Rightarrow> Some (0, None, [], c\<lparr>c_aq := aq\<rparr>)
     | (Some a, aq) \<Rightarrow> do {
         let c = c\<lparr>c_aq := aq\<rparr>;
         let m = a - c_buffer c;
         status \<leftarrow> rd_le (c_mem c) m 4;
         if status \<noteq> status_val FR_CONTROL_MESSAGE_USED then None
         else do {
           size \<leftarrow> rd_le (c_mem c) (m + 8) 8;
           if data_size < size then Some (- int size, None, [], c)
           else do {
             data \<leftarrow> rd_mem (c_mem c) (m + SIZEOF_MESSAGE) size;
             mem \<leftarrow> wr_mem (c_mem c) m (le_put 4 (status_val FR_CONTROL_MESSAGE_DONE));
             ident \<leftarrow> rd_le mem (m + 4) 4;
             Some (int size, Some ident, data, c\<lparr>c_mem := mem\<rparr>) } } })"

text \<open>The loop of \<open>pipe_read\<close> over the octets read. A negative result is a large \<open>size_t\<close>, and \<open>id\<close> is still zero then.\<close>

fun pipe_loop :: "nat \<Rightarrow> control \<Rightarrow> bytes \<Rightarrow> (callback_call list \<times> control) option" where
  "pipe_loop 0 c data = Some ([], c)"
| "pipe_loop (Suc num) c data = do {
     (rc, p_id, copied, c) \<leftarrow> fr_control_message_pop c 256;
     let size = nat (rc mod 2 ^ 64);
     let ident = (case p_id of None \<Rightarrow> 0 | Some i \<Rightarrow> i);
     let data = patch data 0 copied;
     if size = 0 then Some ([], c)
     else if ident \<ge> FR_CONTROL_MAX_TYPES then pipe_loop num c data
     else do {
       t \<leftarrow> rd8 (c_type c) ident;
       if cb_callback t = 0 then pipe_loop num c data
       else do {
         (calls, c) \<leftarrow> pipe_loop num c data;
         Some ((cb_callback t, cb_ctx t, take size data, size) # calls, c) } } }"

definition pipe_read :: "control \<Rightarrow> bytes \<Rightarrow> (callback_call list \<times> control) option" where
  "pipe_read c data = (let num = min 256 (c_pipe c) in
     if num = 0 then Some ([], c) else pipe_loop num (c\<lparr>c_pipe := c_pipe c - num\<rparr>) data)"

definition fr_control_callback_add :: "control \<Rightarrow> nat \<Rightarrow> nat \<Rightarrow> nat \<Rightarrow> (int \<times> control) option" where
  "fr_control_callback_add c ident ctx callback =
     (if ident \<ge> FR_CONTROL_MAX_TYPES then Some (- 1, c)
      else do {
        t \<leftarrow> rd8 (c_type c) ident;
        if cb_ctx t = ctx \<and> cb_callback t = callback then Some (0, c)
        else if cb_callback t \<noteq> 0 then Some (- 1, c)
        else Some (0, c\<lparr>c_type := (c_type c)[ident := \<lparr>cb_id = ident, cb_ctx = ctx, cb_callback = callback\<rparr>]\<rparr>) })"

definition fr_control_callback_delete :: "control \<Rightarrow> nat \<Rightarrow> (int \<times> control) option" where
  "fr_control_callback_delete c ident =
     (if ident \<ge> FR_CONTROL_MAX_TYPES then Some (- 1, c)
      else do {
        t \<leftarrow> rd8 (c_type c) ident;
        if cb_callback t = 0 then Some (0, c)
        else Some (0, c\<lparr>c_type := (c_type c)[ident := \<lparr>cb_id = 0, cb_ctx = 0, cb_callback = 0\<rparr>]\<rparr>) })"

definition fr_control_same_thread :: "control \<Rightarrow> int \<times> control" where
  "fr_control_same_thread c = (0, c\<lparr>c_same_thread := True, c_pipe := 0\<rparr>)"

text \<open>\<open>pipes\<close>, \<open>inserted\<close>: whether the pipe could be opened and added to the event list. The ring buffer belongs to the originator.\<close>

definition fr_control_create :: "bool \<Rightarrow> bool \<Rightarrow> bool \<Rightarrow> aq_system \<Rightarrow> ring_buffer \<Rightarrow> nat \<Rightarrow> bytes \<Rightarrow> control option" where
  "fr_control_create alloc pipes inserted aq rb buffer mem =
     (if \<not> alloc then None else if \<not> pipes then None else if \<not> inserted then None
      else Some \<lparr>c_aq = aq, c_pipe = 0, c_same_thread = False,
        c_type = replicate FR_CONTROL_MAX_TYPES \<lparr>cb_id = 0, cb_ctx = 0, cb_callback = 0\<rparr>,
        c_rb = rb, c_buffer = buffer, c_mem = mem\<rparr>)"

section \<open>Messages in memory\<close>

lemma length_le_put [simp]: "length (le_put k n) = k"
  by (induction k arbitrary: n) auto

lemma le_get_put: "le_get (le_put k n) = n mod 256 ^ k"
  by (induction k arbitrary: n) (auto simp: mod_mult2_eq)

lemma chunk_chunk: "j + k \<le> n \<Longrightarrow> chunk (chunk p i n) j k = chunk p (i + j) k"
  by (simp add: chunk_def drop_take take_take min_def add.commute)

lemma chunk_patch_inside:
  "i + n \<le> length p \<Longrightarrow> j + length v \<le> n \<Longrightarrow> chunk (patch p (i + j) v) i n = patch (chunk p i n) j v"
  by (intro nth_equalityI) (auto simp: nth_patch)

lemma patch_patch_append:
  "i + length a + length b \<le> length p \<Longrightarrow> j = i + length a \<Longrightarrow> patch (patch p i a) j b = patch p i (a @ b)"
  by (intro nth_equalityI) (auto simp: nth_patch nth_append)

text \<open>What the proofs know of a message: where it is, what was sent, its status, and whether the receiver has still to pop it.\<close>

record msg =
  g_off :: nat
  g_status :: control_message_status
  g_id :: nat
  g_data :: bytes
  g_queued :: bool

definition msg_bytes :: "msg \<Rightarrow> bytes" where
  "msg_bytes g = le_put 4 (status_val (g_status g)) @ le_put 4 (g_id g) @ le_put 8 (length (g_data g)) @ g_data g"

definition msg_block :: "msg \<Rightarrow> block" where
  "msg_block g = (g_off g, message_size (length (g_data g)))"

definition msg_ok :: "nat \<Rightarrow> bytes \<Rightarrow> msg \<Rightarrow> bool" where
  "msg_ok sz mem g \<longleftrightarrow> g_status g \<in> {FR_CONTROL_MESSAGE_USED, FR_CONTROL_MESSAGE_DONE} \<and> g_id g < 2 ^ 32 \<and> length (g_data g) < 2 ^ 62 \<and>
     (g_queued g \<longrightarrow> g_status g = FR_CONTROL_MESSAGE_USED) \<and> length mem = sz \<and>
     g_off g + 16 + length (g_data g) \<le> sz \<and> chunk mem (g_off g) (16 + length (g_data g)) = msg_bytes g"

lemma length_msg_bytes [simp]: "length (msg_bytes g) = 16 + length (g_data g)"
  by (simp add: msg_bytes_def)

lemma message_size_bounds:
  assumes "n < 2 ^ 62"
  shows "16 + n \<le> message_size n" "message_size n < 2 ^ 63" "0 < message_size n"
proof -
  have e: "message_size n = 64 * ((16 + n + 63) div 64)" using assms by (simp add: message_size_def Let_def)
  have m: "64 * ((16 + n + 63) div 64) + (16 + n + 63) mod 64 = 16 + n + 63" by (rule mult_div_mod_eq)
  have l: "(16 + n + 63) mod 64 < 64" by simp
  show "16 + n \<le> message_size n" unfolding e using m l by linarith
  then show "0 < message_size n" by linarith
  have "64 * ((16 + n + 63) div 64) \<le> n + 79" using m by linarith
  then show "message_size n < 2 ^ 63" unfolding e using assms by simp
qed

lemma msg_fields:
  assumes "msg_ok sz mem g"
  shows "rd_le mem (g_off g) 4 = Some (status_val (g_status g))" "rd_le mem (g_off g + 4) 4 = Some (g_id g)"
    "rd_le mem (g_off g + 8) 8 = Some (length (g_data g))" "rd_mem mem (g_off g + 16) (length (g_data g)) = Some (g_data g)"
proof -
  let ?n = "16 + length (g_data g)"
  have b: "g_off g + ?n \<le> length mem" and c: "chunk mem (g_off g) ?n = msg_bytes g" using assms by (auto simp: msg_ok_def)
  have f: "chunk mem (g_off g + j) k = chunk (msg_bytes g) j k" if "j + k \<le> ?n" for j k
    using chunk_chunk [OF that, of mem "g_off g"] c by simp
  have v: "status_val (g_status g) < 256 ^ 4" "g_id g < 256 ^ 4" "length (g_data g) < 256 ^ 8"
    using assms by (cases "g_status g"; auto simp: msg_ok_def)+
  show "rd_le mem (g_off g) 4 = Some (status_val (g_status g))"
    using b f [of 0 4] v(1) by (simp add: rd_le_def msg_bytes_def chunk_def [of "_ @ _"] le_get_put)
  show "rd_le mem (g_off g + 4) 4 = Some (g_id g)"
    using b f [of 4 4] v(2) by (simp add: rd_le_def msg_bytes_def chunk_def [of "_ @ _"] le_get_put)
  show "rd_le mem (g_off g + 8) 8 = Some (length (g_data g))"
    using b f [of 8 8] v(3) by (simp add: rd_le_def msg_bytes_def chunk_def [of "_ @ _"] le_get_put)
  show "rd_mem mem (g_off g + 16) (length (g_data g)) = Some (g_data g)"
    using b f [of 16 "length (g_data g)"] by (simp add: msg_bytes_def chunk_def [of "_ @ _"])
qed

text \<open>Writes: to the status of a message, of a whole message, and what they leave of the others.\<close>

lemma msg_status_write:
  assumes "msg_ok sz mem g" "st \<in> {FR_CONTROL_MESSAGE_USED, FR_CONTROL_MESSAGE_DONE}"
  shows "wr_mem mem (g_off g) (le_put 4 (status_val st)) = Some (patch mem (g_off g) (le_put 4 (status_val st)))"
    "msg_ok sz (patch mem (g_off g) (le_put 4 (status_val st))) (g\<lparr>g_status := st, g_queued := False\<rparr>)"
proof -
  let ?n = "16 + length (g_data g)"
  have b: "g_off g + ?n \<le> length mem" and c: "chunk mem (g_off g) ?n = msg_bytes g" using assms by (auto simp: msg_ok_def)
  show "wr_mem mem (g_off g) (le_put 4 (status_val st)) = Some (patch mem (g_off g) (le_put 4 (status_val st)))"
    using b by simp
  have "chunk (patch mem (g_off g) (le_put 4 (status_val st))) (g_off g) ?n = patch (msg_bytes g) 0 (le_put 4 (status_val st))"
    using chunk_patch_inside [OF b, of 0 "le_put 4 (status_val st)"] c by simp
  also have "\<dots> = msg_bytes (g\<lparr>g_status := st, g_queued := False\<rparr>)" by (simp add: msg_bytes_def patch_def)
  finally show "msg_ok sz (patch mem (g_off g) (le_put 4 (status_val st))) (g\<lparr>g_status := st, g_queued := False\<rparr>)"
    using assms b by (simp add: msg_ok_def)
qed

lemma msg_other_write:
  assumes "msg_ok sz mem g" "i + length v \<le> length mem" "i + length v \<le> g_off g \<or> g_off g + 16 + length (g_data g) \<le> i"
  shows "msg_ok sz (patch mem i v) g"
  using assms by (auto simp: msg_ok_def)

section \<open>The invariant\<close>

definition ctl_ok :: "nat \<Rightarrow> control \<Rightarrow> msg list \<Rightarrow> bool" where
  "ctl_ok n c gs \<longleftrightarrow> rb_ok (c_rb c) (map msg_block gs) \<and> \<not> rb_closed (c_rb c) \<and>
     (rb_write_offset (c_rb c) < rb_data_start (c_rb c) \<longrightarrow> 0 < rb_write_offset (c_rb c)) \<and>
     0 < c_buffer c \<and> length (c_mem c) = rb_size (c_rb c) \<and> (\<forall>g \<in> set gs. msg_ok (rb_size (c_rb c)) (c_mem c) g) \<and>
     aq_at_rest n (c_aq c) \<and> queue_of (c_aq c) = map (\<lambda>g. c_buffer c + g_off g) (filter g_queued gs)"

text \<open>Freeing and allocating keep the size of the ring buffer and do not close it.\<close>

lemma free_keeps:
  assumes "fr_ring_buffer_free rb n = Some (r, Some rb')"
  shows "rb_size rb' = rb_size rb" "rb_closed rb' = rb_closed rb"
    "rb_write_offset rb' = rb_write_offset rb \<or> rb_data_start rb' = 0"
  using assms by (auto simp: fr_ring_buffer_free_def free_block_def empty_buffer_def Let_def split: if_splits)

lemma alloc_keeps:
  assumes "fr_ring_buffer_alloc rb n = Some (r, rb')" "rb_ok rb q" "n < 2 ^ 63"
  shows "rb_size rb' = rb_size rb" "rb_closed rb' = rb_closed rb"
    "rb_write_offset rb' = (case r of None \<Rightarrow> rb_write_offset rb | Some p \<Rightarrow> p + n)"
    "r = None \<Longrightarrow> rb_data_start rb' = rb_data_start rb"
proof -
  have "add64 (rb_write_offset rb) n = rb_write_offset rb + n" using rb_ok_bounds(3,4) [OF assms(2)] assms(3) by simp
  then show "rb_size rb' = rb_size rb" "rb_closed rb' = rb_closed rb"
    "rb_write_offset rb' = (case r of None \<Rightarrow> rb_write_offset rb | Some p \<Rightarrow> p + n)"
    "r = None \<Longrightarrow> rb_data_start rb' = rb_data_start rb"
    using assms(1) by (auto simp: fr_ring_buffer_alloc_def Let_def split: if_splits)
qed

lemma rb_nonempty_write:
  assumes "rb_ok rb q" "q \<noteq> []" "rb_write_offset rb < rb_data_start rb \<longrightarrow> 0 < rb_write_offset rb"
  shows "0 < rb_write_offset rb"
proof (cases "rb_write_offset rb < rb_data_start rb")
  case False
  then have "tiles (rb_data_start rb) (rb_data_end rb) q" "rb_write_offset rb = rb_data_end rb" using assms(1) by (auto simp: rb_ok_def)
  then show ?thesis using tiles_less assms(2) by fastforce
qed (use assms in simp)

text \<open>Other messages are outside the block of a message.\<close>

lemma others_apart:
  assumes rb: "rb_ok rb (map msg_block (gs1 @ g # gs2))" and h: "h \<in> set gs1 \<union> set gs2"
    and len: "length (g_data g) < 2 ^ 62" "length (g_data h) < 2 ^ 62"
  shows "g_off g + 16 + length (g_data g) \<le> g_off h \<or> g_off h + 16 + length (g_data h) \<le> g_off g"
proof -
  have "apart (msg_block h) (msg_block g) \<or> apart (msg_block g) (msg_block h)"
    using rb_ok_apart [OF rb] h by (auto simp: sorted_wrt_append)
  then show ?thesis using message_size_bounds(1) [OF len(1)] message_size_bounds(1) [OF len(2)]
    by (auto simp: apart_def msg_block_def)
qed

section \<open>Garbage collection\<close>

abbreviation is_done :: "msg \<Rightarrow> bool" where
  "is_done g \<equiv> g_status g = FR_CONTROL_MESSAGE_DONE"

lemma start_room:
  assumes ok: "ctl_ok n c gs"
  shows "(snd (fr_ring_buffer_start (c_rb c)) = 0) = (gs = [])" "gs \<noteq> [] \<Longrightarrow> 16 \<le> snd (fr_ring_buffer_start (c_rb c))"
proof -
  have rb: "rb_ok (c_rb c) (map msg_block gs)" using ok by (simp add: ctl_ok_def)
  have big: "16 \<le> snd b" if "b \<in> set (map msg_block gs)" for b
    using that ok message_size_bounds(1) by (fastforce simp: ctl_ok_def msg_ok_def msg_block_def)
  have sum: "16 \<le> b - a" if "tiles a b q" "q \<noteq> []" "set q \<subseteq> set (map msg_block gs)" for a b q
    using that big [of "hd q"] tiles_sum [OF that(1)] by (cases q) auto
  have "if gs = [] then snd (fr_ring_buffer_start (c_rb c)) = 0 else 16 \<le> snd (fr_ring_buffer_start (c_rb c))"
  proof (cases "rb_write_offset (c_rb c) < rb_data_start (c_rb c)")
    case True
    from rb_ok_wrappedE [OF rb True] obtain q1 q2 where q: "map msg_block gs = q1 @ q2" "q1 \<noteq> []"
      "tiles (rb_data_start (c_rb c)) (rb_data_end (c_rb c)) q1" "tiles 0 (rb_write_offset (c_rb c)) q2" .
    have "q2 \<noteq> []" using q(4) ok True by (auto simp: ctl_ok_def)
    then show ?thesis using q(1,2) sum [OF q(4)] True by (auto simp: fr_ring_buffer_start_def)
  next
    case False
    then have t: "tiles (rb_data_start (c_rb c)) (rb_data_end (c_rb c)) (map msg_block gs)" using rb by (simp add: rb_ok_def)
    show ?thesis using sum [OF t] t tiles_le [OF t] False by (auto simp: fr_ring_buffer_start_def)
  qed
  then show "(snd (fr_ring_buffer_start (c_rb c)) = 0) = (gs = [])" "gs \<noteq> [] \<Longrightarrow> 16 \<le> snd (fr_ring_buffer_start (c_rb c))"
    by (auto split: if_splits)
qed

text \<open>Freeing the first message, which is done.\<close>

lemma gc_free_first:
  assumes ok: "ctl_ok n c (g # gs)" and d: "is_done g" and mem: "mem = patch (c_mem c) (g_off g) (le_put 4 0)"
  shows "\<exists>rb. fr_ring_buffer_free (c_rb c) (message_size (length (g_data g))) = Some (0, Some rb) \<and>
    ctl_ok n (c\<lparr>c_rb := rb, c_mem := mem\<rparr>) gs"
proof -
  have rb: "rb_ok (c_rb c) ((g_off g, message_size (length (g_data g))) # map msg_block gs)" and m: "msg_ok (rb_size (c_rb c)) (c_mem c) g"
    using ok by (auto simp: ctl_ok_def msg_block_def)
  have "freed_to (c_rb c) (map msg_block gs) (fr_ring_buffer_free (c_rb c) (message_size (length (g_data g))))"
    using free_ok [OF rb] .
  then obtain rb' where f: "fr_ring_buffer_free (c_rb c) (message_size (length (g_data g))) = Some (0, Some rb')" "rb_ok rb' (map msg_block gs)"
    using ok by (auto simp: freed_to_def ctl_ok_def)
  have "msg_ok (rb_size (c_rb c)) mem h" if "h \<in> set gs" for h
    unfolding mem
  proof (rule msg_other_write)
    show h: "msg_ok (rb_size (c_rb c)) (c_mem c) h" using ok that by (simp add: ctl_ok_def)
    show "g_off g + length (le_put 4 0) \<le> length (c_mem c)" using m by (simp add: msg_ok_def)
    show "g_off g + length (le_put 4 0) \<le> g_off h \<or> g_off h + 16 + length (g_data h) \<le> g_off g"
      using others_apart [of "c_rb c" "[]" g gs h] ok that m h by (auto simp: ctl_ok_def msg_ok_def)
  qed
  moreover have "0 < rb_write_offset (c_rb c)" using rb_nonempty_write [OF rb] ok by (simp add: ctl_ok_def)
  moreover have "\<not> g_queued g" using m d by (auto simp: msg_ok_def)
  moreover have "length mem = rb_size (c_rb c)" using m mem by (simp add: msg_ok_def)
  ultimately show ?thesis using f ok free_keeps [OF f(1)] by (auto simp: ctl_ok_def)
qed

lemma gc_loop_ok:
  "ctl_ok n c gs \<Longrightarrow> \<exists>rb mem. gc_loop (c_rb c) (c_mem c) = Some (rb, mem) \<and>
    ctl_ok n (c\<lparr>c_rb := rb, c_mem := mem\<rparr>) (dropWhile is_done gs)"
proof (induction gs arbitrary: c)
  case Nil
  then show ?case using start_room(1) [OF Nil] by (subst gc_loop.simps) auto
next
  case (Cons g gs)
  have rb: "rb_ok (c_rb c) ((g_off g, message_size (length (g_data g))) # map msg_block gs)" and m: "msg_ok (rb_size (c_rb c)) (c_mem c) g"
    using Cons.prems by (auto simp: ctl_ok_def msg_block_def)
  note st = start_oldest [OF rb] and room = start_room [OF Cons.prems] and fl = msg_fields [OF m]
  show ?case
  proof (cases "is_done g")
    case False
    then have "g_status g = FR_CONTROL_MESSAGE_USED" using m by (simp add: msg_ok_def)
    then have "gc_loop (c_rb c) (c_mem c) = Some (c_rb c, c_mem c)"
      using st room fl by (subst gc_loop.simps) (simp add: Let_def)
    then show ?thesis using False Cons.prems by simp
  next
    case True
    let ?mem = "patch (c_mem c) (g_off g) (le_put 4 0)"
    from gc_free_first [OF Cons.prems True refl] obtain rb' where
      f: "fr_ring_buffer_free (c_rb c) (message_size (length (g_data g))) = Some (0, Some rb')"
        "ctl_ok n (c\<lparr>c_rb := rb', c_mem := ?mem\<rparr>) gs" by blast
    have b: "g_off g + 16 + length (g_data g) \<le> length (c_mem c)" using m by (simp add: msg_ok_def)
    have "rd_le ?mem (g_off g + 8) 8 = rd_le (c_mem c) (g_off g + 8) 8" using b by (simp add: rd_le_def)
    then have "gc_loop (c_rb c) (c_mem c) = gc_loop rb' ?mem"
      using st room fl f(1) True b by (subst gc_loop.simps) (simp add: Let_def)
    then show ?thesis using Cons.IH [OF f(2)] True by simp
  qed
qed

lemma gc_ok:
  assumes "ctl_ok n c gs"
  shows "\<exists>c'. fr_control_gc c = Some (if dropWhile is_done gs = [] then 0 else - 1, c') \<and> ctl_ok n c' (dropWhile is_done gs)"
proof -
  from gc_loop_ok [OF assms] obtain rb mem where l: "gc_loop (c_rb c) (c_mem c) = Some (rb, mem)"
    and ok: "ctl_ok n (c\<lparr>c_rb := rb, c_mem := mem\<rparr>) (dropWhile is_done gs)" by blast
  have u: "fr_ring_buffer_used rb = Some (sum_list (map snd (map msg_block (dropWhile is_done gs))))"
    using rb_ok_used ok by (auto simp: ctl_ok_def)
  have "0 < sum_list (map snd (map msg_block (dropWhile is_done gs)))" if "dropWhile is_done gs \<noteq> []"
  proof -
    from that obtain g gs' where e: "dropWhile is_done gs = g # gs'" by (cases "dropWhile is_done gs") auto
    then have "length (g_data g) < 2 ^ 62" using ok by (simp add: ctl_ok_def msg_ok_def)
    then show ?thesis using message_size_bounds(3) e by (simp add: msg_block_def)
  qed
  then show ?thesis using l u ok by (cases "dropWhile is_done gs") (simp_all add: fr_control_gc_def del: dropWhile_eq_Nil_conv)
qed

lemma filter_queued_gc:
  assumes "ctl_ok n c gs"
  shows "filter g_queued (dropWhile is_done gs) = filter g_queued gs"
proof -
  have "\<forall>g \<in> set gs. g_queued g \<longrightarrow> \<not> is_done g" using assms by (auto simp: ctl_ok_def msg_ok_def)
  then show ?thesis by (induction gs) auto
qed

section \<open>Sending\<close>

definition new_msg :: "nat \<Rightarrow> nat \<Rightarrow> bytes \<Rightarrow> msg" where
  "new_msg m ident data = \<lparr>g_off = m, g_status = FR_CONTROL_MESSAGE_USED, g_id = ident, g_data = data, g_queued = False\<rparr>"

lemma new_msg_sel [simp]:
  "g_off (new_msg m ident data) = m" "g_status (new_msg m ident data) = FR_CONTROL_MESSAGE_USED" "g_id (new_msg m ident data) = ident"
  "g_data (new_msg m ident data) = data" "\<not> g_queued (new_msg m ident data)"
  by (simp_all add: new_msg_def)

lemma fill_ok:
  assumes ok: "ctl_ok n c gs" and a: "fr_ring_buffer_alloc (c_rb c) (message_size (length data)) = Some (Some m, rb)"
    and len: "length data < 2 ^ 62" and ident: "ident < 2 ^ 32"
  shows "\<exists>c'. message_fill (c\<lparr>c_rb := rb\<rparr>) m ident data = Some c' \<and> ctl_ok n c' (gs @ [new_msg m ident data])"
proof -
  note sz = message_size_bounds [OF len]
  have rb: "rb_ok rb (map msg_block (gs @ [new_msg m ident data]))"
    using alloc_ok [OF _ sz(3,2) a] ok by (simp add: ctl_ok_def msg_block_def)
  note k = alloc_keeps [OF a _ sz(2), of "map msg_block gs"]
  have b: "m + 16 + length data \<le> length (c_mem c)"
    using rb_ok_apart [OF rb] sz(1) ok k by (auto simp: msg_block_def ctl_ok_def)
  let ?mem = "patch (c_mem c) m (msg_bytes (new_msg m ident data))"
  have "message_fill (c\<lparr>c_rb := rb\<rparr>) m ident data = Some (c\<lparr>c_rb := rb, c_mem := ?mem\<rparr>)"
    using b by (simp add: message_fill_def patch_patch_append msg_bytes_def)
  moreover have "msg_ok (rb_size (c_rb c)) ?mem (new_msg m ident data)"
    using b ok len ident by (simp add: msg_ok_def ctl_ok_def)
  moreover have "msg_ok (rb_size (c_rb c)) ?mem h" if h: "h \<in> set gs" for h
  proof (rule msg_other_write)
    show ho: "msg_ok (rb_size (c_rb c)) (c_mem c) h" using ok h by (simp add: ctl_ok_def)
    show "m + length (msg_bytes (new_msg m ident data)) \<le> length (c_mem c)" using b by simp
    show "m + length (msg_bytes (new_msg m ident data)) \<le> g_off h \<or> g_off h + 16 + length (g_data h) \<le> m"
      using others_apart [OF rb, of h] h ho len by (auto simp: msg_ok_def)
  qed
  ultimately show ?thesis using ok rb k sz(3) b by (auto simp: ctl_ok_def)
qed

lemma alloc_none_ok:
  assumes "ctl_ok n c gs" "fr_ring_buffer_alloc (c_rb c) k = Some (None, rb)" "k < 2 ^ 63"
  shows "ctl_ok n (c\<lparr>c_rb := rb\<rparr>) gs"
  using assms alloc_full_ok [OF _ assms(2)] alloc_keeps [OF assms(2) _ assms(3), of "map msg_block gs"] by (auto simp: ctl_ok_def)

lemma ctl_alloc_total: "ctl_ok n c gs \<Longrightarrow> \<exists>r rb. fr_ring_buffer_alloc (c_rb c) k = Some (r, rb)"
  unfolding ctl_ok_def using alloc_total by blast

text \<open>Done messages at the front may be collected on the way; no message in the queue is touched.\<close>

lemma message_alloc_ok:
  assumes ok: "ctl_ok n c gs" and len: "length data < 2 ^ 62" and ident: "ident < 2 ^ 32"
  shows "\<exists>r c' gs'. fr_control_message_alloc c ident data = Some (r, c') \<and> gs' \<in> {gs, dropWhile is_done gs} \<and>
    (case r of None \<Rightarrow> ctl_ok n c' gs' | Some m \<Rightarrow> ctl_ok n c' (gs' @ [new_msg m ident data]))"
proof -
  note sz = message_size_bounds [OF len]
  from ctl_alloc_total [OF ok] obtain r rb where
    a: "fr_ring_buffer_alloc (c_rb c) (message_size (length data)) = Some (r, rb)" by blast
  show ?thesis
  proof (cases r)
    case (Some m)
    then show ?thesis using fill_ok [OF ok _ len ident, of m rb] a by (auto simp: fr_control_message_alloc_def)
  next
    case None
    from gc_ok [OF alloc_none_ok [OF ok a [unfolded None] sz(2)]] obtain rc c1 where
      g: "fr_control_gc (c\<lparr>c_rb := rb\<rparr>) = Some (rc, c1)" "ctl_ok n c1 (dropWhile is_done gs)" by blast
    from ctl_alloc_total [OF g(2)] obtain r1 rb1 where
      a1: "fr_ring_buffer_alloc (c_rb c1) (message_size (length data)) = Some (r1, rb1)" by blast
    show ?thesis
    proof (cases r1)
      case None
      then show ?thesis using alloc_none_ok [OF g(2) _ sz(2), of rb1] a a1 g(1) \<open>r = None\<close>
        by (auto simp: fr_control_message_alloc_def)
    next
      case (Some m)
      then show ?thesis using fill_ok [OF g(2) _ len ident, of m rb1] a a1 g(1) \<open>r = None\<close>
        by (auto simp: fr_control_message_alloc_def)
    qed
  qed
qed

lemma push_allocated_ok:
  assumes ok: "ctl_ok n c (gs @ [g])" and g: "\<not> g_queued g" "g_status g = FR_CONTROL_MESSAGE_USED"
  shows "\<exists>c'. if length (filter g_queued gs) < n
    then push_allocated c (g_off g) = Some (0, c') \<and> ctl_ok n c' (gs @ [g\<lparr>g_queued := True\<rparr>])
    else push_allocated c (g_off g) = Some (- 1, c') \<and> ctl_ok n c' (gs @ [g\<lparr>g_status := FR_CONTROL_MESSAGE_DONE, g_queued := False\<rparr>])"
proof -
  have q: "aq_at_rest n (c_aq c)" "queue_of (c_aq c) = map (\<lambda>g. c_buffer c + g_off g) (filter g_queued gs)" "c_buffer c + g_off g \<noteq> 0"
    and m: "msg_ok (rb_size (c_rb c)) (c_mem c) g" using ok g by (auto simp: ctl_ok_def)
  show ?thesis
  proof (cases "length (filter g_queued gs) < n")
    case True
    have "msg_ok sz mem (g\<lparr>g_queued := True\<rparr>)" if "msg_ok sz mem g" for sz mem
      using that g(2) by (simp add: msg_ok_def msg_bytes_def)
    then show ?thesis using True aq.push_room [OF q(1,3)] q(2) ok
      by (auto simp: push_allocated_def ctl_ok_def msg_block_def)
  next
    case False
    let ?mem = "patch (c_mem c) (g_off g) (le_put 4 (status_val FR_CONTROL_MESSAGE_DONE))"
    note w = msg_status_write [OF m, of FR_CONTROL_MESSAGE_DONE]
    have "msg_ok (rb_size (c_rb c)) ?mem h" if h: "h \<in> set gs" for h
    proof (rule msg_other_write)
      show ho: "msg_ok (rb_size (c_rb c)) (c_mem c) h" using ok h by (simp add: ctl_ok_def)
      show "g_off g + length (le_put 4 (status_val FR_CONTROL_MESSAGE_DONE)) \<le> length (c_mem c)" using m by (simp add: msg_ok_def)
      show "g_off g + length (le_put 4 (status_val FR_CONTROL_MESSAGE_DONE)) \<le> g_off h \<or> g_off h + 16 + length (g_data h) \<le> g_off g"
        using others_apart [of "c_rb c" gs g "[]" h] ok h ho m by (auto simp: msg_ok_def ctl_ok_def)
    qed
    moreover have "length ?mem = rb_size (c_rb c)" using m by (simp add: msg_ok_def)
    ultimately show ?thesis using False aq.push_full [OF q(1,3)] q(2) ok w m
      by (auto simp: push_allocated_def ctl_ok_def msg_block_def)
  qed
qed

text \<open>The outcomes of a push: the message is in the queue, the queue was full and the message is done, or there was no room for it.\<close>

definition pushed_to :: "nat \<Rightarrow> nat \<Rightarrow> bytes \<Rightarrow> msg list \<Rightarrow> int \<Rightarrow> control \<Rightarrow> bool" where
  "pushed_to n ident data gs rc c' \<longleftrightarrow>
     (rc = 0 \<and> (\<exists>m. ctl_ok n c' (gs @ [(new_msg m ident data)\<lparr>g_queued := True\<rparr>]))) \<or>
     (rc = - 1 \<and> (\<exists>m. ctl_ok n c' (gs @ [(new_msg m ident data)\<lparr>g_status := FR_CONTROL_MESSAGE_DONE, g_queued := False\<rparr>]))) \<or>
     (rc = - 2 \<and> ctl_ok n c' gs)"

lemma push_new_ok:
  assumes "ctl_ok n c (gs @ [new_msg m ident data])"
  shows "\<exists>rc c'. push_allocated c m = Some (rc, c') \<and> pushed_to n ident data gs rc c'"
  using push_allocated_ok [OF assms] by (auto simp: pushed_to_def split: if_splits)

lemma message_push_ok:
  assumes ok: "ctl_ok n c gs" and len: "length data < 2 ^ 62" and ident: "ident < 2 ^ 32"
  shows "\<exists>rc c' gs'. fr_control_message_push c ident data = Some (rc, c') \<and> gs' \<in> {gs, dropWhile is_done gs} \<and>
    pushed_to n ident data gs' rc c'"
proof -
  from message_alloc_ok [OF ok len ident] obtain r c1 gs1 where
    a: "fr_control_message_alloc c ident data = Some (r, c1)" "gs1 \<in> {gs, dropWhile is_done gs}"
      "case r of None \<Rightarrow> ctl_ok n c1 gs1 | Some m \<Rightarrow> ctl_ok n c1 (gs1 @ [new_msg m ident data])" by blast
  show ?thesis
  proof (cases r)
    case (Some m)
    then have "ctl_ok n c1 (gs1 @ [new_msg m ident data])" using a(3) by simp
    from push_new_ok [OF this] obtain rc c' where "push_allocated c1 m = Some (rc, c')" "pushed_to n ident data gs1 rc c'" by blast
    moreover from this have "fr_control_message_push c ident data = Some (rc, c')"
      using a(1) Some by (simp add: fr_control_message_push_def)
    ultimately show ?thesis using a(2) by blast
  next
    case None
    then have "ctl_ok n c1 gs1" using a(3) by simp
    from gc_ok [OF this] obtain rc c2 where g: "fr_control_gc c1 = Some (rc, c2)" "ctl_ok n c2 (dropWhile is_done gs1)" by blast
    from message_alloc_ok [OF g(2) len ident] obtain r2 c3 gs2 where
      b: "fr_control_message_alloc c2 ident data = Some (r2, c3)" "gs2 \<in> {dropWhile is_done gs1, dropWhile is_done (dropWhile is_done gs1)}"
        "case r2 of None \<Rightarrow> ctl_ok n c3 gs2 | Some m \<Rightarrow> ctl_ok n c3 (gs2 @ [new_msg m ident data])" by blast
    have gs2: "gs2 = dropWhile is_done gs" using a(2) b(2) by auto
    show ?thesis
    proof (cases r2)
      case None
      then show ?thesis using a(1) g(1) b gs2 \<open>r = None\<close> by (auto simp: fr_control_message_push_def pushed_to_def)
    next
      case (Some m)
      then have "ctl_ok n c3 (gs2 @ [new_msg m ident data])" using b(3) by simp
      from push_new_ok [OF this] obtain rc c' where "push_allocated c3 m = Some (rc, c')" "pushed_to n ident data gs2 rc c'" by blast
      moreover from this have "fr_control_message_push c ident data = Some (rc, c')"
        using a(1) g(1) b(1) Some \<open>r = None\<close> by (simp add: fr_control_message_push_def)
      ultimately show ?thesis using gs2 by blast
    qed
  qed
qed

section \<open>Receiving\<close>

lemma pop_empty_ok:
  assumes "ctl_ok n c gs" "filter g_queued gs = []"
  shows "\<exists>c'. fr_control_message_pop c sz = Some (0, None, [], c') \<and> ctl_ok n c' gs"
  using assms aq.pop_empty [of n "c_aq c"] by (auto simp: ctl_ok_def fr_control_message_pop_def)

lemma pop_message_ok:
  assumes ok: "ctl_ok n c (gs1 @ g # gs2)" and none: "filter g_queued gs1 = []" and q: "g_queued g"
  shows "\<exists>c'. if sz < length (g_data g)
    then fr_control_message_pop c sz = Some (- int (length (g_data g)), None, [], c') \<and> ctl_ok n c' (gs1 @ g\<lparr>g_queued := False\<rparr> # gs2)
    else fr_control_message_pop c sz = Some (int (length (g_data g)), Some (g_id g), g_data g, c') \<and>
      ctl_ok n c' (gs1 @ g\<lparr>g_status := FR_CONTROL_MESSAGE_DONE, g_queued := False\<rparr> # gs2)"
proof -
  have m: "msg_ok (rb_size (c_rb c)) (c_mem c) g" using ok by (simp add: ctl_ok_def)
  have r: "aq_at_rest n (c_aq c)" "queue_of (c_aq c) = (c_buffer c + g_off g) # map (\<lambda>g. c_buffer c + g_off g) (filter g_queued gs2)"
    using ok none q by (auto simp: ctl_ok_def)
  from aq.pop_front [OF r] obtain aq' where
    p: "fr_atomic_queue_pop (c_aq c) = (Some (c_buffer c + g_off g), aq')" "aq_at_rest n aq'"
      "queue_of aq' = map (\<lambda>g. c_buffer c + g_off g) (filter g_queued gs2)" by blast
  have used: "g_status g = FR_CONTROL_MESSAGE_USED" using m q by (simp add: msg_ok_def)
  note fl = msg_fields [OF m]
  show ?thesis
  proof (cases "sz < length (g_data g)")
    case True
    have "msg_ok len mem (g\<lparr>g_queued := False\<rparr>)" if "msg_ok len mem g" for len mem
      using that by (simp add: msg_ok_def msg_bytes_def)
    then have "ctl_ok n (c\<lparr>c_aq := aq'\<rparr>) (gs1 @ g\<lparr>g_queued := False\<rparr> # gs2)"
      using ok p none by (simp add: ctl_ok_def msg_block_def)
    then show ?thesis using True p(1) fl used by (simp add: fr_control_message_pop_def)
  next
    case False
    let ?mem = "patch (c_mem c) (g_off g) (le_put 4 (status_val FR_CONTROL_MESSAGE_DONE))"
    note w = msg_status_write [OF m, of FR_CONTROL_MESSAGE_DONE]
    have "msg_ok (rb_size (c_rb c)) ?mem h" if h: "h \<in> set gs1 \<union> set gs2" for h
    proof (rule msg_other_write)
      show ho: "msg_ok (rb_size (c_rb c)) (c_mem c) h" using ok h by (auto simp: ctl_ok_def)
      show "g_off g + length (le_put 4 (status_val FR_CONTROL_MESSAGE_DONE)) \<le> length (c_mem c)" using m by (simp add: msg_ok_def)
      show "g_off g + length (le_put 4 (status_val FR_CONTROL_MESSAGE_DONE)) \<le> g_off h \<or> g_off h + 16 + length (g_data h) \<le> g_off g"
        using others_apart [of "c_rb c" gs1 g gs2 h] ok h ho m by (auto simp: msg_ok_def ctl_ok_def)
    qed
    moreover have "length ?mem = rb_size (c_rb c)" using m by (simp add: msg_ok_def)
    ultimately have "ctl_ok n (c\<lparr>c_aq := aq', c_mem := ?mem\<rparr>) (gs1 @ g\<lparr>g_status := FR_CONTROL_MESSAGE_DONE, g_queued := False\<rparr> # gs2)"
      using ok p none w by (simp add: ctl_ok_def msg_block_def)
    moreover have "rd_le ?mem (g_off g + 4) 4 = Some (g_id g)" using msg_fields(2) [OF w(2)] by simp
    ultimately show ?thesis using False p(1) fl used w(1) by (simp add: fr_control_message_pop_def)
  qed
qed

section \<open>Delivery\<close>

text \<open>Any sequence of sends, receptions and garbage collections, with the messages sent so far and, for every message taken
  from the queue, what the receiver got (\<open>None\<close> when its buffer was too small).\<close>

inductive ctl_run :: "nat \<Rightarrow> control \<Rightarrow> (nat \<times> bytes) list \<Rightarrow> (nat \<times> bytes) option list \<Rightarrow> bool" for n :: nat where
  start: "fr_ring_buffer_create a b sz = Some rb \<Longrightarrow> aq_at_rest n aq \<Longrightarrow> queue_of aq = [] \<Longrightarrow> length mem = fr_ring_buffer_size rb \<Longrightarrow>
    0 < buffer \<Longrightarrow> fr_control_create a p i aq rb buffer mem = Some c \<Longrightarrow> ctl_run n c [] []"
| push: "ctl_run n c sent got \<Longrightarrow> ident < 2 ^ 32 \<Longrightarrow> length data < 2 ^ 62 \<Longrightarrow> fr_control_message_push c ident data = Some (rc, c') \<Longrightarrow>
    ctl_run n c' (if rc = 0 then sent @ [(ident, data)] else sent) got"
| pop: "ctl_run n c sent got \<Longrightarrow> fr_control_message_pop c sz = Some (rc, p_id, data, c') \<Longrightarrow>
    ctl_run n c' sent (if queue_of (c_aq c) = [] then got
      else got @ [case p_id of None \<Rightarrow> None | Some ident \<Rightarrow> Some (ident, data)])"
| gc: "ctl_run n c sent got \<Longrightarrow> fr_control_gc c = Some (rc, c') \<Longrightarrow> ctl_run n c' sent got"

text \<open>What was taken is the beginning of what was sent, what waits is the rest.\<close>

definition delivery_ok :: "msg list \<Rightarrow> (nat \<times> bytes) list \<Rightarrow> (nat \<times> bytes) option list \<Rightarrow> bool" where
  "delivery_ok gs sent got \<longleftrightarrow> (\<exists>taken. sent = taken @ map (\<lambda>g. (g_id g, g_data g)) (filter g_queued gs) \<and>
     list_all2 (\<lambda>r x. r = None \<or> r = Some x) got taken \<and>
     (None \<notin> set got \<longrightarrow> (\<forall>g \<in> set gs. \<not> is_done g \<longrightarrow> g_queued g)))"

lemma delivery_gc:
  assumes "delivery_ok gs sent got" "ctl_ok n c gs" "gs' \<in> {gs, dropWhile is_done gs}"
  shows "delivery_ok gs' sent got"
proof -
  have f: "filter g_queued gs' = filter g_queued gs" using assms(3) filter_queued_gc [OF assms(2)] by auto
  have "\<And>g. g \<in> set gs' \<Longrightarrow> g \<in> set gs" using assms(3) by (elim insertE) (simp, metis set_dropWhileD, simp)
  then show ?thesis using assms(1) unfolding delivery_ok_def f by blast
qed

lemma delivery_push:
  assumes d: "delivery_ok gs sent got" and p: "pushed_to n ident data gs rc c'"
  shows "\<exists>gs'. ctl_ok n c' gs' \<and> delivery_ok gs' (if rc = 0 then sent @ [(ident, data)] else sent) got"
proof -
  have "delivery_ok (gs @ [(new_msg m ident data)\<lparr>g_queued := True\<rparr>]) (sent @ [(ident, data)]) got"
    "delivery_ok (gs @ [(new_msg m ident data)\<lparr>g_status := FR_CONTROL_MESSAGE_DONE, g_queued := False\<rparr>]) sent got" for m
    using d by (auto simp: delivery_ok_def new_msg_def)
  then show ?thesis using d p by (fastforce simp: pushed_to_def)
qed

lemma delivery_pop:
  assumes d: "delivery_ok (gs1 @ g # gs2) sent got" and none: "filter g_queued gs1 = []" and q: "g_queued g"
  shows "delivery_ok (gs1 @ g\<lparr>g_queued := False\<rparr> # gs2) sent (got @ [None])"
    "delivery_ok (gs1 @ g\<lparr>g_status := FR_CONTROL_MESSAGE_DONE, g_queued := False\<rparr> # gs2) sent (got @ [Some (g_id g, g_data g)])"
proof -
  from d none q obtain taken where t: "sent = (taken @ [(g_id g, g_data g)]) @ map (\<lambda>g. (g_id g, g_data g)) (filter g_queued gs2)"
    "list_all2 (\<lambda>r x. r = None \<or> r = Some x) got taken" "None \<notin> set got \<longrightarrow> (\<forall>g \<in> set (gs1 @ g # gs2). \<not> is_done g \<longrightarrow> g_queued g)"
    by (auto simp: delivery_ok_def)
  then have a: "list_all2 (\<lambda>r x. r = None \<or> r = Some x) (got @ [r]) (taken @ [(g_id g, g_data g)])"
    if "r = None \<or> r = Some (g_id g, g_data g)" for r using that by (simp add: list_all2_appendI)
  show "delivery_ok (gs1 @ g\<lparr>g_queued := False\<rparr> # gs2) sent (got @ [None])"
    unfolding delivery_ok_def by (rule exI [of _ "taken @ [(g_id g, g_data g)]"]) (use t a [of None] none in simp)
  show "delivery_ok (gs1 @ g\<lparr>g_status := FR_CONTROL_MESSAGE_DONE, g_queued := False\<rparr> # gs2) sent (got @ [Some (g_id g, g_data g)])"
    unfolding delivery_ok_def by (rule exI [of _ "taken @ [(g_id g, g_data g)]"]) (use t a [of "Some (g_id g, g_data g)"] none in auto)
qed

lemma pop_delivery:
  assumes ok: "ctl_ok n c gs" and d: "delivery_ok gs sent got"
  shows "\<exists>rc p_id data c' gs'. fr_control_message_pop c sz = Some (rc, p_id, data, c') \<and> ctl_ok n c' gs' \<and>
    delivery_ok gs' sent (if queue_of (c_aq c) = [] then got
      else got @ [case p_id of None \<Rightarrow> None | Some ident \<Rightarrow> Some (ident, data)])"
proof (cases "filter g_queued gs")
  case Nil
  then show ?thesis using pop_empty_ok [OF ok Nil, of sz] d ok by (auto simp: ctl_ok_def)
next
  case (Cons g rest)
  then obtain gs1 gs2 where gs: "gs = gs1 @ g # gs2" "filter g_queued gs1 = []" "g_queued g"
    by (auto simp: filter_eq_Cons_iff)
  have ne: "queue_of (c_aq c) \<noteq> []" using ok Cons by (simp add: ctl_ok_def)
  show ?thesis
    using pop_message_ok [OF ok [unfolded gs(1)] gs(2,3), of sz] delivery_pop [OF d [unfolded gs(1)] gs(2,3)] ne
    by (cases "sz < length (g_data g)") fastforce+
qed

lemma ctl_run_ok: "ctl_run n c sent got \<Longrightarrow> \<exists>gs. ctl_ok n c gs \<and> delivery_ok gs sent got"
proof (induction rule: ctl_run.induct)
  case (start a b sz rb aq mem buffer p i c)
  then have "ctl_ok n c []" using create_ok [OF start(1)]
    by (auto simp: ctl_ok_def fr_control_create_def fr_ring_buffer_size_def fr_ring_buffer_create_def Let_def split: if_splits)
  then show ?case by (auto simp: delivery_ok_def)
next
  case (push c sent got ident data rc c')
  then obtain gs where gs: "ctl_ok n c gs" "delivery_ok gs sent got" by blast
  from message_push_ok [OF gs(1) push.hyps(3,2)] push.hyps(4) obtain gs' where
    p: "gs' \<in> {gs, dropWhile is_done gs}" "pushed_to n ident data gs' rc c'" by auto
  show ?case using delivery_push [OF delivery_gc [OF gs(2,1) p(1)] p(2)] .
next
  case (pop c sent got sz rc p_id data c')
  then obtain gs where gs: "ctl_ok n c gs" "delivery_ok gs sent got" by blast
  show ?case using pop_delivery [OF gs, of sz] pop.hyps(2) by auto
next
  case (gc c sent got rc c')
  then obtain gs where gs: "ctl_ok n c gs" "delivery_ok gs sent got" by blast
  show ?case using gc_ok [OF gs(1)] gc.hyps(2) delivery_gc [OF gs(2,1)] by auto
qed

lemma delivery_next:
  assumes ok: "ctl_ok n c gs" and d: "delivery_ok gs sent got" and more: "length got < length sent" and x: "sent ! length got = (ident, data)"
  shows "\<exists>c'. fr_control_message_pop c sz =
    Some (if sz < length data then (- int (length data), None, [], c') else (int (length data), Some ident, data, c'))"
proof -
  from d obtain taken where t: "sent = taken @ map (\<lambda>g. (g_id g, g_data g)) (filter g_queued gs)" "length got = length taken"
    by (auto simp: delivery_ok_def list_all2_lengthD)
  then obtain g rest where f: "filter g_queued gs = g # rest" "g_id g = ident" "g_data g = data"
    using more x by (cases "filter g_queued gs") auto
  then obtain gs1 gs2 where gs: "gs = gs1 @ g # gs2" "filter g_queued gs1 = []" "g_queued g"
    by (auto simp: filter_eq_Cons_iff)
  show ?thesis using pop_message_ok [OF ok [unfolded gs(1)] gs(2,3), of sz] f(2,3) by (auto split: if_splits)
qed

lemma delivery_all_done:
  assumes "ctl_ok n c gs" "delivery_ok gs sent got" "None \<notin> set got" "length got = length sent"
  shows "dropWhile is_done gs = []"
proof -
  from assms(2) obtain taken where t: "sent = taken @ map (\<lambda>g. (g_id g, g_data g)) (filter g_queued gs)" "length got = length taken"
    by (auto simp: delivery_ok_def list_all2_lengthD)
  then have "filter g_queued gs = []" using assms(4) by simp
  then show ?thesis using assms(2,3) by (auto simp: delivery_ok_def filter_empty_conv)
qed

text \<open>(C35) Control messages are delivered once, in order and unchanged, although senders reuse the memory of the ring buffer: after any
  sequence of sends, receptions and garbage collections, the results taken so far are those of the first messages sent, the others wait in the
  queue, and the next reception returns exactly the id and the data of the next message, or the size needed when the
  receiver's buffer is too small. Neither operation ever leaves the memory or fails an assertion. When everything sent was received,
  garbage collection empties the ring buffer.\<close>

theorem control_plane_delivery:
  assumes "ctl_run n c sent got"
  shows "length got + length (queue_of (c_aq c)) = length sent \<and>
    (\<forall>i < length got. got ! i = None \<or> got ! i = Some (sent ! i)) \<and>
    (\<forall>ident data sz. length got < length sent \<and> sent ! length got = (ident, data) \<longrightarrow> (\<exists>c'. fr_control_message_pop c sz =
      Some (if sz < length data then (- int (length data), None, [], c') else (int (length data), Some ident, data, c')))) \<and>
    (\<forall>ident data. ident < 2 ^ 32 \<and> length data < 2 ^ 62 \<longrightarrow> (\<exists>rc c'. fr_control_message_push c ident data = Some (rc, c') \<and> rc \<in> {0, - 1, - 2})) \<and>
    (None \<notin> set got \<and> length got = length sent \<longrightarrow> (\<exists>c'. fr_control_gc c = Some (0, c')))"
proof -
  from ctl_run_ok [OF assms] obtain gs where ok: "ctl_ok n c gs" and d: "delivery_ok gs sent got" by blast
  from d obtain taken where t: "sent = taken @ map (\<lambda>g. (g_id g, g_data g)) (filter g_queued gs)"
    "list_all2 (\<lambda>r x. r = None \<or> r = Some x) got taken" by (auto simp: delivery_ok_def)
  have "length got + length (queue_of (c_aq c)) = length sent" using t ok by (simp add: ctl_ok_def list_all2_lengthD)
  moreover have "\<forall>i < length got. got ! i = None \<or> got ! i = Some (sent ! i)"
    using t by (auto simp: list_all2_conv_all_nth nth_append)
  moreover have "\<exists>rc c'. fr_control_message_push c ident data = Some (rc, c') \<and> rc \<in> {0, - 1, - 2}"
    if "ident < 2 ^ 32" "length data < 2 ^ 62" for ident data
    using message_push_ok [OF ok that(2,1)] by (auto simp: pushed_to_def)
  moreover have "\<exists>c'. fr_control_gc c = Some (0, c')" if "None \<notin> set got" "length got = length sent"
    using gc_ok [OF ok] delivery_all_done [OF ok d that] by auto
  ultimately show ?thesis using delivery_next [OF ok d] by blast
qed

section \<open>Examples\<close>

definition ex_control :: control where
  "ex_control = \<lparr>c_aq = ex_empty, c_pipe = 0, c_same_thread = False,
     c_type = replicate FR_CONTROL_MAX_TYPES \<lparr>cb_id = 0, cb_ctx = 0, cb_callback = 0\<rparr>,
     c_rb = \<lparr>rb_size = 1024, rb_data_start = 0, rb_data_end = 0, rb_write_offset = 0, rb_reserved = 0, rb_closed = False\<rparr>,
     c_buffer = 4096, c_mem = replicate 1024 0\<rparr>"

lemma ex_control_run: "ctl_run 2 ex_control [] []"
proof (rule ctl_run.start)
  show "fr_ring_buffer_create True True 1000 = Some (c_rb ex_control)"
    by (simp add: fr_ring_buffer_create_def round_pow2_def Let_def ex_control_def)
  show "aq_at_rest 2 ex_empty" using ex_reachable(1) by (simp add: aq_at_rest_def ex_empty_def)
  show "fr_control_create True True True ex_empty (c_rb ex_control) 4096 (replicate 1024 0) = Some ex_control"
    by (simp add: fr_control_create_def ex_control_def)
qed (simp_all add: ex_empty_def queue_of_def ex_control_def fr_ring_buffer_size_def)

lemma ex_control_push: "\<exists>c. fr_control_message_push ex_control 5 [1, 2] = Some (0, c) \<and> ctl_run 2 c [(5, [1, 2])] []"
proof -
  have r: "aq_at_rest 2 ex_empty" "length (queue_of ex_empty) < 2"
    using ex_reachable(1) by (simp_all add: aq_at_rest_def ex_empty_def queue_of_def)
  have "\<exists>c. fr_control_message_push ex_control 5 [1, 2] = Some (0, c)"
    using aq.push_room [OF r(1) _ r(2), of 4096]
    by (auto simp: fr_control_message_push_def fr_control_message_alloc_def fr_ring_buffer_alloc_def message_size_def add64_def
        Let_def message_fill_def push_allocated_def ex_control_def)
  then obtain c where "fr_control_message_push ex_control 5 [1, 2] = Some (0, c)" by blast
  then show ?thesis using ctl_run.push [OF ex_control_run, of 5 "[1, 2]" 0 c] by simp
qed

theorem control_plane_delivery_witness:
  "\<exists>c c'. fr_control_message_push ex_control 5 [1, 2] = Some (0, c) \<and> fr_control_message_pop c 256 = Some (2, Some 5, [1, 2], c')"
proof -
  from ex_control_push obtain c where c: "fr_control_message_push ex_control 5 [1, 2] = Some (0, c)" "ctl_run 2 c [(5, [1, 2])] []" by blast
  have "\<exists>c'. fr_control_message_pop c 256 = Some (2, Some 5, [1, 2], c')"
    using control_plane_delivery [OF c(2), THEN conjunct2, THEN conjunct2, THEN conjunct1, rule_format, of 5 "[1, 2]" 256] by simp
  then show ?thesis using c(1) by blast
qed

text \<open>A message that does not fit the receiver's buffer is lost but keeps the status of a used one, so its block and all later
  ones are never collected. The loop of the receiver takes the negative result for a size and calls the callback of id 0 with it.\<close>

lemma control_pop_too_small:
  "\<exists>c c1 c2. fr_control_message_push ex_control 5 [1, 2] = Some (0, c) \<and> fr_control_message_pop c 1 = Some (- 2, None, [], c1) \<and>
     queue_of (c_aq c1) = [] \<and> fr_control_gc c1 = Some (- 1, c2)"
proof -
  from ex_control_push obtain c where c: "fr_control_message_push ex_control 5 [1, 2] = Some (0, c)" "ctl_run 2 c [(5, [1, 2])] []" by blast
  from message_push_ok [of 2 ex_control "[]" "[1, 2]" 5] ctl_run_ok [OF ex_control_run] c(1)
  obtain m where ok: "ctl_ok 2 c ([] @ (new_msg m 5 [1, 2])\<lparr>g_queued := True\<rparr> # [])"
    by (fastforce simp: pushed_to_def delivery_ok_def ctl_ok_def ex_control_def rb_ok_def)
  from pop_message_ok [OF ok, of 1] obtain c1 where
    p: "fr_control_message_pop c 1 = Some (- 2, None, [], c1)" "ctl_ok 2 c1 [new_msg m 5 [1, 2]]"
    by (auto simp: new_msg_def)
  have "queue_of (c_aq c1) = []" using p(2) by (simp add: ctl_ok_def)
  moreover from gc_ok [OF p(2)] obtain c2 where "fr_control_gc c1 = Some (- 1, c2)" by auto
  ultimately show ?thesis using c(1) p(1) by blast
qed

lemma pipe_loop_too_small:
  assumes "fr_control_message_pop c 256 = Some (- int k, None, [], c')" "0 < k" "k < 2 ^ 63"
    "c_type c' = t # ts" "cb_callback t \<noteq> 0"
  shows "pipe_loop 1 c data = Some ([(cb_callback t, cb_ctx t, take (2 ^ 64 - k) data, 2 ^ 64 - k)], c')"
proof -
  have "nat (- int k mod 2 ^ 64) = 2 ^ 64 - k" using assms(2,3) by (simp add: zmod_zminus1_eq_if nat_diff_distrib)
  then show ?thesis using assms by (simp add: rd8_def patch_def Let_def)
qed

end
