(* ===== verification/Request_Data.thy ===== *)
theory Request_Data
  imports Prelude
begin

text \<open>
  Opaque data that modules attach to a request, \<^verbatim>\<open>src/lib/server/request_data.c\<close>.

  The data of a request is a doubly linked list of items, here a list; an item is found by a pointer and an integer. Pointers are numbers, \<open>0\<close> is \<open>NULL\<close>. What an
  operation frees is returned as the list of the freed pointers. The type name, file and line of an item, which are only reported, are not modelled; neither is the failure of
  an allocation, after which the server exits.
\<close>

section \<open>The code\<close>

record request_data =
  rd_unique_ptr :: nat
  rd_unique_int :: int
  rd_opaque :: nat
  rd_free_on_replace :: bool
  rd_free_on_parent :: bool
  rd_persist :: bool

definition rd_keyed :: "nat \<Rightarrow> int \<Rightarrow> request_data \<Rightarrow> bool" where
  "rd_keyed ptr i rd \<longleftrightarrow> \<not> (rd_unique_ptr rd \<noteq> ptr \<or> rd_unique_int rd \<noteq> i)"

text \<open>The loops over the list that stop at the first item with the key, which they unlink.\<close>

fun rd_unlink :: "nat \<Rightarrow> int \<Rightarrow> request_data list \<Rightarrow> request_data option \<times> request_data list" where
  "rd_unlink ptr i [] = (None, [])"
| "rd_unlink ptr i (rd # rds) =
     (if \<not> rd_keyed ptr i rd then (case rd_unlink ptr i rds of (r, rds) \<Rightarrow> (r, rd # rds)) else (Some rd, rds))"

text \<open>The destructor of an item: what it frees.\<close>

definition request_data_free :: "request_data \<Rightarrow> nat list" where
  "request_data_free rd = (if rd_free_on_parent rd \<and> rd_opaque rd \<noteq> 0 then [rd_opaque rd] else [])"

definition request_data_add :: "nat \<Rightarrow> int \<Rightarrow> nat \<Rightarrow> bool \<Rightarrow> bool \<Rightarrow> bool \<Rightarrow> request_data list \<Rightarrow> nat list \<times> request_data list" where
  "request_data_add ptr i opaque free_on_replace free_on_parent persist data =
     (let (old, data) = rd_unlink ptr i data;
          freed = (case old of None \<Rightarrow> []
            | Some rd \<Rightarrow>
               (if rd_free_on_replace rd \<and> rd_opaque rd \<noteq> 0 then [rd_opaque rd] else []) @
               (if rd_persist rd \<noteq> persist then request_data_free (rd\<lparr>rd_free_on_parent := False\<rparr>) else []));
          rd = \<lparr>rd_unique_ptr = ptr, rd_unique_int = i, rd_opaque = opaque, rd_free_on_replace = free_on_replace,
                rd_free_on_parent = free_on_parent, rd_persist = persist\<rparr>
      in (freed, rd # data))"

definition request_data_get :: "nat \<Rightarrow> int \<Rightarrow> request_data list \<Rightarrow> nat \<times> request_data list" where
  "request_data_get ptr i data =
     (case rd_unlink ptr i data of
        (None, data) \<Rightarrow> (0, data)
      | (Some rd, data) \<Rightarrow> (rd_opaque rd, data))"

fun request_data_reference :: "nat \<Rightarrow> int \<Rightarrow> request_data list \<Rightarrow> nat" where
  "request_data_reference ptr i [] = 0"
| "request_data_reference ptr i (rd # rds) = (if \<not> rd_keyed ptr i rd then request_data_reference ptr i rds else rd_opaque rd)"

text \<open>The items of one persistence are moved to the end of \<open>out\<close>. The loop goes on after the item before the removed one: \<open>kept\<close> are the items it has passed.
The counter of the code stays \<open>0\<close>.\<close>

fun by_persistance_loop :: "bool \<Rightarrow> request_data list \<Rightarrow> request_data list \<Rightarrow> request_data list \<Rightarrow> request_data list \<times> request_data list" where
  "by_persistance_loop persist kept [] out = (kept, out)"
| "by_persistance_loop persist kept (rd # rds) out =
     (if rd_persist rd \<noteq> persist then by_persistance_loop persist (kept @ [rd]) rds out
      else by_persistance_loop persist kept rds (out @ [rd]))"

definition request_data_by_persistance :: "bool \<Rightarrow> request_data list \<Rightarrow> request_data list \<Rightarrow> int \<times> request_data list \<times> request_data list" where
  "request_data_by_persistance persist out data = (let count = 0; (data, out) = by_persistance_loop persist [] data out in (count, out, data))"

text \<open>The copies of the items have the new parent; the old item is freed without its data. Without a result list the copies go back to the end of the request.\<close>

definition request_data_by_persistance_reparent ::
    "bool \<Rightarrow> request_data list option \<Rightarrow> request_data list \<Rightarrow> int \<times> request_data list option \<times> request_data list" where
  "request_data_by_persistance_reparent persist out data =
     (let count = 0 in
      case out of
        Some out \<Rightarrow> (let (data, out) = by_persistance_loop persist [] data out in (count, Some out, data))
      | None \<Rightarrow> (let (data, head) = by_persistance_loop persist [] data [] in (count, None, data @ head)))"

definition request_data_by_persistance_count :: "bool \<Rightarrow> request_data list \<Rightarrow> int" where
  "request_data_by_persistance_count persist data = fold (\<lambda>rd count. if rd_persist rd \<noteq> persist then count else count + 1) data 0"

definition request_data_restore :: "request_data list \<Rightarrow> request_data list \<Rightarrow> request_data list" where
  "request_data_restore data items = data @ items"

definition request_data_persistable_free :: "request_data list \<Rightarrow> nat list \<times> request_data list" where
  "request_data_persistable_free data = (case request_data_by_persistance True [] data of (_, head, data) \<Rightarrow> (concat (map request_data_free head), data))"

section \<open>What the operations do\<close>

definition rd_key :: "request_data \<Rightarrow> nat \<times> int" where
  "rd_key rd = (rd_unique_ptr rd, rd_unique_int rd)"

lemma rd_keyed_key: "rd_keyed ptr i rd \<longleftrightarrow> rd_key rd = (ptr, i)"
  by (auto simp: rd_keyed_def rd_key_def)

text \<open>No two items of a request have the same key.\<close>

definition rd_inv :: "request_data list \<Rightarrow> bool" where
  "rd_inv data \<longleftrightarrow> distinct (map rd_key data)"

lemma rd_unlink_find:
  "rd_unlink ptr i data = (List.find (\<lambda>rd. rd_key rd = (ptr, i)) data, case List.find (\<lambda>rd. rd_key rd = (ptr, i)) data of None \<Rightarrow> data | Some rd \<Rightarrow> remove1 rd data)"
  by (induction data) (auto simp: rd_keyed_key split: option.splits dest: find_Some_iff [THEN iffD1])

lemma rd_unlink_filter:
  assumes "rd_inv data"
  shows "snd (rd_unlink ptr i data) = filter (\<lambda>rd. rd_key rd \<noteq> (ptr, i)) data"
  using assms
proof (induction data)
  case (Cons rd data)
  have "filter (\<lambda>r. rd_key r \<noteq> rd_key rd) data = data" using Cons.prems by (auto simp: rd_inv_def filter_id_conv image_iff) 
  then show ?case using Cons by (auto simp: rd_keyed_key rd_inv_def split: prod.splits)
qed simp

lemma by_persistance_loop_filter:
  "by_persistance_loop persist kept data out = (kept @ filter (\<lambda>rd. rd_persist rd \<noteq> persist) data, out @ filter (\<lambda>rd. rd_persist rd = persist) data)"
  by (induction persist kept data out rule: by_persistance_loop.induct) auto

lemma rd_inv_ops:
  assumes "rd_inv data"
  shows "rd_inv (snd (request_data_add ptr i v r f p data))" "rd_inv (snd (request_data_get ptr i data))"
    "rd_inv (fst (snd (request_data_by_persistance p [] data)))" "rd_inv (snd (snd (request_data_by_persistance p [] data)))"
proof -
  show "rd_inv (snd (request_data_add ptr i v r f p data))"
    using rd_unlink_filter [OF assms, of ptr i] assms
    by (auto simp: request_data_add_def rd_inv_def rd_key_def Let_def split: prod.splits intro!: distinct_map_filter)
  show "rd_inv (snd (request_data_get ptr i data))"
    using rd_unlink_filter [OF assms, of ptr i] assms
    by (auto simp: request_data_get_def rd_inv_def distinct_map_filter split: prod.splits option.splits)
  show "rd_inv (fst (snd (request_data_by_persistance p [] data)))" "rd_inv (snd (snd (request_data_by_persistance p [] data)))"
    using assms by (simp_all add: request_data_by_persistance_def by_persistance_loop_filter rd_inv_def distinct_map_filter)
qed

text \<open>A request promises its modules a map from keys to pointers.\<close>

definition rd_abs :: "request_data list \<Rightarrow> nat \<times> int \<rightharpoonup> nat" where
  "rd_abs data k = map_option rd_opaque (List.find (\<lambda>rd. rd_key rd = k) data)"

lemma find_filter_key: "List.find (\<lambda>rd. rd_key rd = k) (filter (\<lambda>rd. rd_key rd \<noteq> k') data) = (if k = k' then None else List.find (\<lambda>rd. rd_key rd = k) data)"
  by (induction data) auto

lemma rd_abs_Cons: "rd_abs (rd # data) = (rd_abs data)(rd_key rd \<mapsto> rd_opaque rd)"
  by (auto simp: rd_abs_def fun_eq_iff)

lemma rd_key_make [simp]: "rd_key \<lparr>rd_unique_ptr = a, rd_unique_int = b, rd_opaque = v, rd_free_on_replace = r, rd_free_on_parent = f, rd_persist = p\<rparr> = (a, b)"
  by (simp add: rd_key_def)

lemma rd_abs_filter: "rd_abs (filter (\<lambda>rd. rd_key rd \<noteq> k) data) = (rd_abs data)(k := None)"
  by (auto simp: rd_abs_def fun_eq_iff find_filter_key)

lemma request_data_reference_abs: "request_data_reference ptr i data = (case rd_abs data (ptr, i) of None \<Rightarrow> 0 | Some v \<Rightarrow> v)"
  by (induction data) (auto simp: rd_abs_def rd_keyed_key)

lemma request_data_get_abs:
  assumes "rd_inv data"
  shows "request_data_get ptr i data = (request_data_reference ptr i data, filter (\<lambda>rd. rd_key rd \<noteq> (ptr, i)) data)"
  using rd_unlink_filter [OF assms, of ptr i] unfolding request_data_reference_abs
  by (auto simp: request_data_get_def rd_unlink_find rd_abs_def split: option.splits)

lemma request_data_add_abs:
  assumes "rd_inv data"
  shows "snd (request_data_add ptr i v r f p data) =
    \<lparr>rd_unique_ptr = ptr, rd_unique_int = i, rd_opaque = v, rd_free_on_replace = r, rd_free_on_parent = f, rd_persist = p\<rparr> #
      filter (\<lambda>rd. rd_key rd \<noteq> (ptr, i)) data"
  using rd_unlink_filter [OF assms, of ptr i] by (auto simp: request_data_add_def Let_def split: prod.splits)

text \<open>The data of a request behaves as a map: adding sets the pointer of its key, getting returns it and clears the key, referencing only returns it, and all three keep
the keys unique.\<close>

theorem request_data_map:
  assumes "rd_inv data"
  shows "rd_inv (snd (request_data_add ptr i v r f p data)) \<and> rd_abs (snd (request_data_add ptr i v r f p data)) = (rd_abs data)((ptr, i) \<mapsto> v) \<and>
    rd_inv (snd (request_data_get ptr i data)) \<and> rd_abs (snd (request_data_get ptr i data)) = (rd_abs data)((ptr, i) := None) \<and>
    fst (request_data_get ptr i data) = (case rd_abs data (ptr, i) of None \<Rightarrow> 0 | Some v \<Rightarrow> v) \<and>
    request_data_reference ptr i data = (case rd_abs data (ptr, i) of None \<Rightarrow> 0 | Some v \<Rightarrow> v)"
  using rd_inv_ops [OF assms] request_data_get_abs [OF assms] request_data_add_abs [OF assms]
  by (simp add: request_data_reference_abs rd_abs_Cons rd_abs_filter)

text \<open>The map of a request without data, one item added and taken again.\<close>

theorem request_data_map_witness:
  "rd_abs (snd (request_data_get 7 0 (snd (request_data_add 7 0 5 True True False [])))) = (rd_abs [])((7, 0) \<mapsto> 5, (7, 0) := None) \<and>
    fst (request_data_get 7 0 (snd (request_data_add 7 0 5 True True False []))) = 5"
proof -
  have "rd_inv []" by (simp add: rd_inv_def)
  note a = request_data_map [OF this, of 7 0 5 True True False]
  then have "rd_inv (snd (request_data_add 7 0 5 True True False []))" by blast
  from request_data_map [OF this, of 7 0] a show ?thesis by simp
qed

text \<open>The number that \<open>request_data_by_persistance\<close> returns is always \<open>0\<close>, not the number of items it moved.\<close>

lemma request_data_by_persistance_no_count:
  "fst (request_data_by_persistance persist out data) = 0"
  "fst (snd (request_data_by_persistance persist out data)) = out @ filter (\<lambda>rd. rd_persist rd = persist) data"
  by (simp_all add: request_data_by_persistance_def by_persistance_loop_filter)

lemma request_data_by_persistance_count_length: "request_data_by_persistance_count persist data = int (length (filter (\<lambda>rd. rd_persist rd = persist) data))"
proof -
  have "fold (\<lambda>rd count. if rd_persist rd \<noteq> persist then count else count + 1) data c = c + int (length (filter (\<lambda>rd. rd_persist rd = persist) data))" for c
    by (induction data arbitrary: c) auto
  then show ?thesis by (simp add: request_data_by_persistance_count_def)
qed

text \<open>What was taken out can be put back: the items of a request are only reordered.\<close>

lemma request_data_restore_mset:
  "mset (request_data_restore (snd (snd (request_data_by_persistance persist [] data))) (fst (snd (request_data_by_persistance persist [] data)))) = mset data"
  using multiset_partition [of "mset data" "\<lambda>rd. rd_persist rd \<noteq> persist"]
  by (simp add: request_data_restore_def request_data_by_persistance_def by_persistance_loop_filter)

end
