(* ===== verification/Rb_Tree.thy ===== *)
theory Rb_Tree
  imports Prelude
begin

text \<open>
  Red-black trees, \<^verbatim>\<open>src/lib/util/rb.c\<close>, pointer by pointer.

  A tree is its root, the store of all nodes and the counters of \<open>fr_rb_tree_t\<close>. Pointers are \<open>NULL\<close>, the
  sentinel \<open>NIL\<close>, which is a node of the store like any other, or the address of a node. The comparison function is an argument;
  where a new node comes from (inside the data or from the heap) is the argument \<open>x\<close> of an insertion, \<open>None\<close> when the allocation fails. The calls of the
  free function are recorded in \<open>t_freed\<close>. The loops over the tree are partial functions, so that their end has to be proved.

  The store of a tree is related to a binary tree of addresses (\<open>is_tree\<close>), seen from any of its nodes through the path to the root
  (\<open>rep\<close>). The two mirrored halves of each function are proved at once, for a direction \<open>d\<close>.
  The lemmas show that insertion, deletion and search implement a sorted sequence without duplicates and keep the
  red-black invariants.
\<close>

section \<open>The code\<close>

datatype rptr = NULL | NIL | Ptr nat

datatype rb_colour = BLACK | RED

record rb_node =
  n_left :: rptr
  n_right :: rptr
  n_parent :: rptr
  n_data :: nat
  n_colour :: rb_colour
  n_being_freed :: bool

record rb_tree =
  t_root :: rptr
  t_nodes :: "rptr \<Rightarrow> rb_node"
  t_data_free :: bool
  t_inline :: bool
  t_being_freed :: bool
  t_num_elements :: u32
  t_freed :: "nat list"

abbreviation node :: "rb_tree \<Rightarrow> rptr \<Rightarrow> rb_node" where
  "node t p \<equiv> t_nodes t p"

definition upd_node :: "(rb_node \<Rightarrow> rb_node) \<Rightarrow> rptr \<Rightarrow> rb_tree \<Rightarrow> rb_tree" where
  "upd_node f p t = t\<lparr>t_nodes := (t_nodes t)(p := f (t_nodes t p))\<rparr>"

abbreviation set_left :: "rptr \<Rightarrow> rptr \<Rightarrow> rb_tree \<Rightarrow> rb_tree" where
  "set_left p v \<equiv> upd_node (n_left_update (\<lambda>_. v)) p"

abbreviation set_right :: "rptr \<Rightarrow> rptr \<Rightarrow> rb_tree \<Rightarrow> rb_tree" where
  "set_right p v \<equiv> upd_node (n_right_update (\<lambda>_. v)) p"

abbreviation set_parent :: "rptr \<Rightarrow> rptr \<Rightarrow> rb_tree \<Rightarrow> rb_tree" where
  "set_parent p v \<equiv> upd_node (n_parent_update (\<lambda>_. v)) p"

abbreviation set_colour :: "rptr \<Rightarrow> rb_colour \<Rightarrow> rb_tree \<Rightarrow> rb_tree" where
  "set_colour p v \<equiv> upd_node (n_colour_update (\<lambda>_. v)) p"

definition sentinel :: rb_node where
  "sentinel = \<lparr>n_left = NIL, n_right = NIL, n_parent = NULL, n_data = 0, n_colour = BLACK, n_being_freed = False\<rparr>"

definition fr_rb_init :: "(rptr \<Rightarrow> rb_node) \<Rightarrow> int \<Rightarrow> bool \<Rightarrow> rb_tree option" where
  "fr_rb_init nodes offset data_free =
     (if offset \<ge> 65535 then None
      else Some \<lparr>t_root = NIL, t_nodes = nodes(NIL := sentinel), t_data_free = data_free, t_inline = (offset \<ge> 0),
        t_being_freed = False, t_num_elements = 0, t_freed = []\<rparr>)"

definition rotate_left :: "rptr \<Rightarrow> rb_tree \<Rightarrow> rb_tree" where
  "rotate_left x t = (let y = n_right (node t x);
     t = set_right x (n_left (node t y)) t;
     t = (if n_left (node t y) \<noteq> NIL then set_parent (n_left (node t y)) x t else t);
     t = (if y \<noteq> NIL then set_parent y (n_parent (node t x)) t else t);
     t = (if n_parent (node t x) \<noteq> NIL
          then if x = n_left (node t (n_parent (node t x)))
               then set_left (n_parent (node t x)) y t
               else set_right (n_parent (node t x)) y t
          else t\<lparr>t_root := y\<rparr>);
     t = set_left y x t
   in if x \<noteq> NIL then set_parent x y t else t)"

definition rotate_right :: "rptr \<Rightarrow> rb_tree \<Rightarrow> rb_tree" where
  "rotate_right x t = (let y = n_left (node t x);
     t = set_left x (n_right (node t y)) t;
     t = (if n_right (node t y) \<noteq> NIL then set_parent (n_right (node t y)) x t else t);
     t = (if y \<noteq> NIL then set_parent y (n_parent (node t x)) t else t);
     t = (if n_parent (node t x) \<noteq> NIL
          then if x = n_right (node t (n_parent (node t x)))
               then set_right (n_parent (node t x)) y t
               else set_left (n_parent (node t x)) y t
          else t\<lparr>t_root := y\<rparr>);
     t = set_right y x t
   in if x \<noteq> NIL then set_parent x y t else t)"

text \<open>One iteration of the loop of \<open>insert_fixup\<close>: the new tree and the new \<open>x\<close>.\<close>

definition insert_fixup_body :: "rptr \<Rightarrow> rb_tree \<Rightarrow> rptr \<times> rb_tree" where
  "insert_fixup_body x t = (let p = n_parent (node t x); g = n_parent (node t p) in
     if p = n_left (node t g) then
       let y = n_right (node t g) in
       if n_colour (node t y) = RED then (g, set_colour g RED (set_colour y BLACK (set_colour p BLACK t)))
       else
         let (x, t) = (if x = n_right (node t p) then (p, rotate_left p t) else (x, t));
             t = set_colour (n_parent (node t x)) BLACK t;
             t = set_colour (n_parent (node t (n_parent (node t x)))) RED t
         in (x, rotate_right (n_parent (node t (n_parent (node t x)))) t)
     else
       let y = n_left (node t g) in
       if n_colour (node t y) = RED then (g, set_colour g RED (set_colour y BLACK (set_colour p BLACK t)))
       else
         let (x, t) = (if x = n_left (node t p) then (p, rotate_right p t) else (x, t));
             t = set_colour (n_parent (node t x)) BLACK t;
             t = set_colour (n_parent (node t (n_parent (node t x)))) RED t
         in (x, rotate_left (n_parent (node t (n_parent (node t x)))) t))"

partial_function (option) insert_fixup_loop :: "rptr \<Rightarrow> rb_tree \<Rightarrow> rb_tree option" where
  "insert_fixup_loop x t =
     (if x \<noteq> t_root t \<and> n_colour (node t (n_parent (node t x))) = RED
      then insert_fixup_loop (fst (insert_fixup_body x t)) (snd (insert_fixup_body x t))
      else Some t)"

definition insert_fixup :: "rptr \<Rightarrow> rb_tree \<Rightarrow> rb_tree option" where
  "insert_fixup x t = do {
     t \<leftarrow> insert_fixup_loop x t;
     Some (set_colour (t_root t) BLACK t) }"

text \<open>The search of \<open>insert_node\<close>: the node with the same data, or the node below which the new one belongs.\<close>

partial_function (option) insert_search :: "(nat \<Rightarrow> nat \<Rightarrow> int) \<Rightarrow> nat \<Rightarrow> rptr \<Rightarrow> rptr \<Rightarrow> rb_tree \<Rightarrow> (rptr + rptr) option" where
  "insert_search cmp data current parent t =
     (if current = NIL then Some (Inr parent)
      else let result = cmp data (n_data (node t current)) in
        if result = 0 then Some (Inl current)
        else insert_search cmp data (if result < 0 then n_left (node t current) else n_right (node t current)) current t)"

definition insert_node :: "(nat \<Rightarrow> nat \<Rightarrow> int) \<Rightarrow> nat \<Rightarrow> rptr option \<Rightarrow> rb_tree \<Rightarrow> (int \<times> rptr option \<times> rb_tree) option" where
  "insert_node cmp data x t =
     (if t_being_freed t then Some (- 1, None, t)
      else do {
        r \<leftarrow> insert_search cmp data (t_root t) NIL t;
        case r of
          Inl existing \<Rightarrow> Some (1, Some existing, t)
        | Inr parent \<Rightarrow>
            (case x of
               None \<Rightarrow> Some (- 1, None, t)
             | Some x \<Rightarrow> do {
                 let t = t\<lparr>t_nodes := (t_nodes t)(x := \<lparr>n_left = NIL, n_right = NIL, n_parent = parent, n_data = data, n_colour = RED,
                   n_being_freed = False\<rparr>)\<rparr>;
                 let t = (if parent \<noteq> NIL
                          then if cmp data (n_data (node t parent)) \<le> 0 then set_left parent x t else set_right parent x t
                          else t\<lparr>t_root := x\<rparr>);
                 t \<leftarrow> insert_fixup x t;
                 Some (0, None, t\<lparr>t_num_elements := t_num_elements t + 1\<rparr>) }) })"

text \<open>One iteration of the loop of \<open>delete_fixup\<close>: the new \<open>x\<close>, the new \<open>parent\<close> and the new tree.\<close>

definition delete_fixup_body :: "rptr \<Rightarrow> rptr \<Rightarrow> rb_tree \<Rightarrow> rptr \<times> rptr \<times> rb_tree" where
  "delete_fixup_body x parent t =
     (if x = n_left (node t parent) then
        let w = n_right (node t parent);
            (w, t) = (if n_colour (node t w) = RED
              then let t = set_colour w BLACK t; t = set_colour parent RED t; t = rotate_left parent t in (n_right (node t parent), t)
              else (w, t))
        in if n_colour (node t (n_left (node t w))) = BLACK \<and> n_colour (node t (n_right (node t w))) = BLACK then
          let t = (if w \<noteq> NIL then set_colour w RED t else t) in (parent, n_parent (node t parent), t)
        else
          let (w, t) = (if n_colour (node t (n_right (node t w))) = BLACK
                then let t = (if n_left (node t w) \<noteq> NIL then set_colour (n_left (node t w)) BLACK t else t);
                         t = set_colour w RED t; t = rotate_right w t in (n_right (node t parent), t)
                else (w, t));
              t = set_colour w (n_colour (node t parent)) t;
              t = (if parent \<noteq> NIL then set_colour parent BLACK t else t);
              t = (if n_colour (node t (n_right (node t w))) \<noteq> BLACK then set_colour (n_right (node t w)) BLACK t else t);
              t = rotate_left parent t
          in (t_root t, parent, t)
      else
        let w = n_left (node t parent);
            (w, t) = (if n_colour (node t w) = RED
              then let t = set_colour w BLACK t; t = set_colour parent RED t; t = rotate_right parent t in (n_left (node t parent), t)
              else (w, t))
        in if n_colour (node t (n_right (node t w))) = BLACK \<and> n_colour (node t (n_left (node t w))) = BLACK then
          let t = (if w \<noteq> NIL then set_colour w RED t else t) in (parent, n_parent (node t parent), t)
        else
          let (w, t) = (if n_colour (node t (n_left (node t w))) = BLACK
                then let t = (if n_right (node t w) \<noteq> NIL then set_colour (n_right (node t w)) BLACK t else t);
                         t = set_colour w RED t; t = rotate_left w t in (n_left (node t parent), t)
                else (w, t));
              t = set_colour w (n_colour (node t parent)) t;
              t = (if parent \<noteq> NIL then set_colour parent BLACK t else t);
              t = (if n_colour (node t (n_left (node t w))) \<noteq> BLACK then set_colour (n_left (node t w)) BLACK t else t);
              t = rotate_right parent t
          in (t_root t, parent, t))"

partial_function (option) delete_fixup_loop :: "rptr \<Rightarrow> rptr \<Rightarrow> rb_tree \<Rightarrow> (rptr \<times> rb_tree) option" where
  "delete_fixup_loop x parent t =
     (if x \<noteq> t_root t \<and> n_colour (node t x) = BLACK
      then delete_fixup_loop (fst (delete_fixup_body x parent t)) (fst (snd (delete_fixup_body x parent t)))
             (snd (snd (delete_fixup_body x parent t)))
      else Some (x, t))"

definition delete_fixup :: "rptr \<Rightarrow> rptr \<Rightarrow> rb_tree \<Rightarrow> rb_tree option" where
  "delete_fixup x parent t = do {
     (x, t) \<leftarrow> delete_fixup_loop x parent t;
     Some (if x \<noteq> NIL then set_colour x BLACK t else t) }"

text \<open>The descent to the left that finds a successor and the first node of a traversal.\<close>

partial_function (option) leftmost :: "rptr \<Rightarrow> rb_tree \<Rightarrow> rptr option" where
  "leftmost y t = (if n_left (node t y) \<noteq> NIL then leftmost (n_left (node t y)) t else Some y)"

definition node_data_free :: "rptr \<Rightarrow> rb_tree \<Rightarrow> rb_tree" where
  "node_data_free p t =
     (if \<not> t_data_free t \<or> n_being_freed (node t p) then t
      else let t = upd_node (n_being_freed_update (\<lambda>_. True)) p t in t\<lparr>t_freed := t_freed t @ [n_data (node t p)]\<rparr>)"

definition zeroed :: rb_node where
  "zeroed = \<lparr>n_left = NULL, n_right = NULL, n_parent = NULL, n_data = 0, n_colour = BLACK, n_being_freed = False\<rparr>"

text \<open>\<open>_node_inline_free\<close> and \<open>_node_heap_free\<close>; a node given back to the heap is zeroed.\<close>

definition node_free :: "rptr \<Rightarrow> bool \<Rightarrow> rb_tree \<Rightarrow> rb_tree" where
  "node_free p free_data t =
     (if t_inline t then
        if free_data \<and> t_data_free t then node_data_free p t
        else t\<lparr>t_nodes := (t_nodes t)(p := zeroed)\<rparr>
      else
        let t = (if free_data then node_data_free p t else t) in t\<lparr>t_nodes := (t_nodes t)(p := zeroed)\<rparr>)"

text \<open>The two parts of \<open>delete_internal\<close> that change links: \<open>y\<close>, whose only child is \<open>x\<close>, leaves the parent chain; the copy of \<open>z\<close> at \<open>y\<close>
takes the place of \<open>z\<close>.\<close>

definition unlink_node :: "rptr \<Rightarrow> rptr \<Rightarrow> rptr \<Rightarrow> rb_tree \<Rightarrow> rb_tree" where
  "unlink_node y x parent t = (let t = (if x \<noteq> NIL then set_parent x parent t else t)
     in if parent \<noteq> NIL
        then if y = n_left (node t parent) then set_left parent x t else set_right parent x t
        else t\<lparr>t_root := x\<rparr>)"

definition replace_node :: "rptr \<Rightarrow> rptr \<Rightarrow> nat \<Rightarrow> rb_tree \<Rightarrow> rb_tree" where
  "replace_node z y y_data t = (let
     t = t\<lparr>t_nodes := (t_nodes t)(y := (node t z)\<lparr>n_data := y_data\<rparr>)\<rparr>;
     t = (if n_parent (node t y) = NIL then t\<lparr>t_root := y\<rparr>
          else let t = (if n_left (node t (n_parent (node t y))) = z then set_left (n_parent (node t y)) y t else t)
            in if n_right (node t (n_parent (node t y))) = z then set_right (n_parent (node t y)) y t else t);
     t = (if n_parent (node t (n_left (node t y))) = z then set_parent (n_left (node t y)) y t else t)
   in if n_parent (node t (n_right (node t y))) = z then set_parent (n_right (node t y)) y t else t)"

definition delete_internal :: "rptr \<Rightarrow> bool \<Rightarrow> rb_tree \<Rightarrow> rb_tree option" where
  "delete_internal z free_data t =
     (if z = NULL \<or> z = NIL then Some t
      else do {
        y \<leftarrow> (if n_left (node t z) = NIL \<or> n_right (node t z) = NIL then Some z else leftmost (n_right (node t z)) t);
        let x = (if n_left (node t y) \<noteq> NIL then n_left (node t y) else n_right (node t y));
        let parent = n_parent (node t y);
        let t = unlink_node y x parent t;
        t \<leftarrow> (if y \<noteq> z then do {
            let y_data = n_data (node t y);
            t \<leftarrow> (if n_colour (node t y) = BLACK \<and> parent \<noteq> NULL then delete_fixup x parent t else Some t);
            Some (node_free z free_data (replace_node z y y_data t)) }
          else do {
            t \<leftarrow> (if n_colour (node t y) = BLACK then delete_fixup x parent t else Some t);
            Some (node_free y free_data t) });
        Some (t\<lparr>t_num_elements := t_num_elements t - 1\<rparr>) })"

partial_function (option) find_loop :: "(nat \<Rightarrow> nat \<Rightarrow> int) \<Rightarrow> nat \<Rightarrow> rptr \<Rightarrow> rb_tree \<Rightarrow> rptr option" where
  "find_loop cmp data current t =
     (if current = NIL then Some NULL
      else let result = cmp data (n_data (node t current)) in
        if result = 0 then Some current
        else find_loop cmp data (if result < 0 then n_left (node t current) else n_right (node t current)) t)"

definition find_node :: "(nat \<Rightarrow> nat \<Rightarrow> int) \<Rightarrow> nat \<Rightarrow> rb_tree \<Rightarrow> rptr option" where
  "find_node cmp data t = (if t_being_freed t then Some NULL else find_loop cmp data (t_root t) t)"

definition fr_rb_find :: "(nat \<Rightarrow> nat \<Rightarrow> int) \<Rightarrow> nat \<Rightarrow> rb_tree \<Rightarrow> nat option option" where
  "fr_rb_find cmp data t =
     (if t_being_freed t then Some None
      else do { x \<leftarrow> find_node cmp data t; Some (if x = NULL then None else Some (n_data (node t x))) })"

definition fr_rb_insert :: "(nat \<Rightarrow> nat \<Rightarrow> int) \<Rightarrow> nat \<Rightarrow> rptr option \<Rightarrow> rb_tree \<Rightarrow> (bool \<times> rb_tree) option" where
  "fr_rb_insert cmp data x t = do { (rc, _, t) \<leftarrow> insert_node cmp data x t; Some (rc = 0, t) }"

definition fr_rb_find_or_insert :: "(nat \<Rightarrow> nat \<Rightarrow> int) \<Rightarrow> nat \<Rightarrow> rptr option \<Rightarrow> rb_tree \<Rightarrow> (int \<times> nat option \<times> rb_tree) option" where
  "fr_rb_find_or_insert cmp data x t = do {
     (rc, existing, t) \<leftarrow> insert_node cmp data x t;
     Some (if rc = 1 then (1, map_option (\<lambda>e. n_data (node t e)) existing, t) else if rc = 0 then (0, None, t) else (- 1, None, t)) }"

definition fr_rb_remove :: "(nat \<Rightarrow> nat \<Rightarrow> int) \<Rightarrow> nat \<Rightarrow> rb_tree \<Rightarrow> (nat option \<times> rb_tree) option" where
  "fr_rb_remove cmp data t =
     (if t_being_freed t then Some (None, t)
      else do {
        x \<leftarrow> find_node cmp data t;
        if x = NULL then Some (None, t)
        else if n_being_freed (node t x) then Some (Some (n_data (node t x)), t)
        else do {
          let node_data = n_data (node t x);
          t \<leftarrow> delete_internal x False t;
          Some (Some node_data, t) } })"

definition fr_rb_delete :: "(nat \<Rightarrow> nat \<Rightarrow> int) \<Rightarrow> nat \<Rightarrow> rb_tree \<Rightarrow> (bool \<times> rb_tree) option" where
  "fr_rb_delete cmp data t =
     (if t_being_freed t then Some (False, t)
      else do {
        x \<leftarrow> find_node cmp data t;
        if x = NULL then Some (False, t)
        else if n_being_freed (node t x) then Some (True, t)
        else do { t \<leftarrow> delete_internal x True t; Some (True, t) } })"

text \<open>The replacement of data; \<open>want_old\<close> is whether the caller takes the old data back.\<close>

definition fr_rb_replace :: "(nat \<Rightarrow> nat \<Rightarrow> int) \<Rightarrow> bool \<Rightarrow> nat \<Rightarrow> rptr option \<Rightarrow> rb_tree \<Rightarrow> (int \<times> nat option \<times> rb_tree) option" where
  "fr_rb_replace cmp want_old data x t = do {
     (rc, existing, t) \<leftarrow> insert_node cmp data x t;
     if rc = 1 then do {
       let p = the existing;
       let old_data = n_data (node t p);
       t \<leftarrow> (if t_inline t then do {
           t \<leftarrow> delete_internal p False t;
           (_, _, t) \<leftarrow> insert_node cmp data x t;
           Some t }
         else Some (upd_node (n_data_update (\<lambda>_. data)) p t));
       Some (if want_old then (1, Some old_data, t)
             else if t_data_free t then (1, None, t\<lparr>t_freed := t_freed t @ [old_data]\<rparr>)
             else (1, None, t)) }
     else if rc = 0 then Some (0, None, t)
     else Some (- 1, None, t) }"

definition fr_rb_node_inline_in_tree :: "rptr \<Rightarrow> rb_tree \<Rightarrow> bool" where
  "fr_rb_node_inline_in_tree p t \<longleftrightarrow> n_left (node t p) \<noteq> NULL \<and> n_right (node t p) \<noteq> NULL \<and> n_parent (node t p) \<noteq> NULL \<and>
     \<not> n_being_freed (node t p)"

definition fr_rb_remove_by_inline_node :: "rptr \<Rightarrow> rb_tree \<Rightarrow> (nat option \<times> rb_tree) option" where
  "fr_rb_remove_by_inline_node p t =
     (if \<not> fr_rb_node_inline_in_tree p t then Some (None, t)
      else do {
        let node_data = n_data (node t p);
        t \<leftarrow> delete_internal p False t;
        Some (Some node_data, t) })"

definition fr_rb_delete_by_inline_node :: "rptr \<Rightarrow> rb_tree \<Rightarrow> (bool \<times> rb_tree) option" where
  "fr_rb_delete_by_inline_node p t =
     (if \<not> fr_rb_node_inline_in_tree p t then Some (False, t)
      else do { t \<leftarrow> delete_internal p True t; Some (True, t) })"

definition fr_rb_num_elements :: "rb_tree \<Rightarrow> u32" where
  "fr_rb_num_elements t = t_num_elements t"

text \<open>Freeing the whole tree.\<close>

partial_function (option) free_walker :: "rptr \<Rightarrow> rb_tree \<Rightarrow> rb_tree option" where
  "free_walker x t = do {
     t \<leftarrow> (if n_left (node t x) \<noteq> NIL then free_walker (n_left (node t x)) t else Some t);
     t \<leftarrow> (if n_right (node t x) \<noteq> NIL then free_walker (n_right (node t x)) t else Some t);
     Some (node_free x True t) }"

definition tree_free :: "rb_tree \<Rightarrow> (int \<times> rb_tree) option" where
  "tree_free t =
     (if t_being_freed t then Some (- 1, t)
      else do {
        let t = t\<lparr>t_being_freed := True\<rparr>;
        t \<leftarrow> (if t_root t \<noteq> NIL \<and> t_data_free t then free_walker (t_root t) t else Some t);
        Some (0, t\<lparr>t_root := NIL, t_num_elements := 0\<rparr>) })"

text \<open>The in-order iterator. The data of the sentinel, which ends an iteration, is \<open>NULL\<close>.\<close>

record rb_iter =
  i_node :: rptr
  i_next :: rptr

definition data_ptr :: "rb_tree \<Rightarrow> rptr \<Rightarrow> nat option" where
  "data_ptr t p = (if p = NIL then None else Some (n_data (node t p)))"

definition fr_rb_iter_init_inorder :: "rb_tree \<Rightarrow> (nat option \<times> rb_iter option) option" where
  "fr_rb_iter_init_inorder t =
     (if t_root t = NIL then Some (None, None)
      else do { x \<leftarrow> leftmost (t_root t) t; Some (data_ptr t x, Some \<lparr>i_node = x, i_next = NULL\<rparr>) })"

partial_function (option) climb :: "rptr \<Rightarrow> rptr \<Rightarrow> rb_tree \<Rightarrow> rptr option" where
  "climb y x t = (if x \<noteq> NIL \<and> y = n_right (node t x) then climb x (n_parent (node t x)) t else Some x)"

definition fr_rb_iter_next_inorder :: "rb_iter \<Rightarrow> rb_tree \<Rightarrow> (nat option \<times> rb_iter) option" where
  "fr_rb_iter_next_inorder iter t = (let x = i_node iter in
     if x = NIL then Some (None, iter)
     else if x = NULL then Some (data_ptr t (i_next iter), iter\<lparr>i_node := i_next iter, i_next := NULL\<rparr>)
     else if n_right (node t x) \<noteq> NIL then do {
       x \<leftarrow> leftmost (n_right (node t x)) t;
       Some (data_ptr t x, iter\<lparr>i_node := x\<rparr>) }
     else do {
       x \<leftarrow> climb x (n_parent (node t x)) t;
       Some (data_ptr t x, iter\<lparr>i_node := x\<rparr>) })"

definition fr_rb_iter_delete_inorder :: "rb_iter \<Rightarrow> rb_tree \<Rightarrow> (rb_iter \<times> rb_tree) option" where
  "fr_rb_iter_delete_inorder iter t = (let x = i_node iter in
     if x = NIL then Some (iter, t)
     else do {
       (_, iter) \<leftarrow> fr_rb_iter_next_inorder iter t;
       let iter = iter\<lparr>i_next := i_node iter, i_node := NULL\<rparr>;
       t \<leftarrow> delete_internal x True t;
       Some (iter, t) })"

text \<open>The loop of \<open>fr_rb_flatten_inorder\<close>, with the items of the array so far.\<close>

partial_function (option) flatten_loop :: "nat option \<Rightarrow> rb_iter \<Rightarrow> nat list \<Rightarrow> rb_tree \<Rightarrow> nat list option" where
  "flatten_loop item iter list t =
     (case item of
        None \<Rightarrow> Some list
      | Some v \<Rightarrow> do { (item, iter) \<leftarrow> fr_rb_iter_next_inorder iter t; flatten_loop item iter (list @ [v]) t })"

definition fr_rb_flatten_inorder :: "rb_tree \<Rightarrow> nat list option" where
  "fr_rb_flatten_inorder t = do {
     (item, iter) \<leftarrow> fr_rb_iter_init_inorder t;
     case iter of None \<Rightarrow> Some [] | Some iter \<Rightarrow> flatten_loop item iter [] t }"

section \<open>The tree in the store\<close>

datatype ptree = Leaf | Node ptree rptr rb_colour ptree

text \<open>The addresses of a tree, in order; its root and the colour of its root.\<close>

fun addrs :: "ptree \<Rightarrow> rptr list" where
  "addrs Leaf = []"
| "addrs (Node l a c r) = addrs l @ a # addrs r"

fun rootp :: "ptree \<Rightarrow> rptr" where
  "rootp Leaf = NIL"
| "rootp (Node l a c r) = a"

fun tcol :: "ptree \<Rightarrow> rb_colour" where
  "tcol Leaf = BLACK"
| "tcol (Node l a c r) = c"

primrec is_tree :: "(rptr \<Rightarrow> rb_node) \<Rightarrow> rptr \<Rightarrow> ptree \<Rightarrow> bool" where
  "is_tree m par Leaf \<longleftrightarrow> True"
| "is_tree m par (Node l a c r) \<longleftrightarrow> n_parent (m a) = par \<and> n_colour (m a) = c \<and> n_left (m a) = rootp l \<and> n_right (m a) = rootp r \<and>
     is_tree m a l \<and> is_tree m a r"

text \<open>Directions, so that the mirrored branches of the code are proved once.\<close>

datatype dir = DL | DR

fun opp :: "dir \<Rightarrow> dir" where
  "opp DL = DR"
| "opp DR = DL"

lemma opp_simps [simp]: "opp (opp d) = d" "opp d \<noteq> d" "d \<noteq> opp d" "d' \<noteq> d \<longleftrightarrow> d' = opp d"
  by (cases d; cases d'; simp)+

definition kid :: "dir \<Rightarrow> rb_node \<Rightarrow> rptr" where
  "kid d n = (case d of DL \<Rightarrow> n_left n | DR \<Rightarrow> n_right n)"

definition kid_update :: "dir \<Rightarrow> rptr \<Rightarrow> rb_node \<Rightarrow> rb_node" where
  "kid_update d v n = (case d of DL \<Rightarrow> n\<lparr>n_left := v\<rparr> | DR \<Rightarrow> n\<lparr>n_right := v\<rparr>)"

text \<open>The node whose subtree in direction \<open>d\<close> is \<open>s\<close> and whose other one is \<open>u\<close>.\<close>

definition nd :: "dir \<Rightarrow> ptree \<Rightarrow> rptr \<Rightarrow> rb_colour \<Rightarrow> ptree \<Rightarrow> ptree" where
  "nd d s a c u = (case d of DL \<Rightarrow> Node s a c u | DR \<Rightarrow> Node u a c s)"

lemma kid_simps [simp]:
  "kid d (kid_update d v n) = v" "kid (opp d) (kid_update d v n) = kid (opp d) n" "kid d (kid_update (opp d) v n) = kid d n"
  "n_parent (kid_update d v n) = n_parent n" "n_colour (kid_update d v n) = n_colour n" "n_data (kid_update d v n) = n_data n"
  "n_being_freed (kid_update d v n) = n_being_freed n"
  "kid_update d v (n\<lparr>n_parent := q\<rparr>) = (kid_update d v n)\<lparr>n_parent := q\<rparr>"
  "kid d (n\<lparr>n_parent := q\<rparr>) = kid d n" "kid d (n\<lparr>n_colour := c\<rparr>) = kid d n"
  by (cases d; simp add: kid_def kid_update_def)+

lemma nd_simps [simp]:
  "rootp (nd d s a c u) = a" "tcol (nd d s a c u) = c" "nd d s a c u \<noteq> Leaf"
  "set (addrs (nd d s a c u)) = insert a (set (addrs s) \<union> set (addrs u))"
  "distinct (addrs (nd d s a c u)) \<longleftrightarrow> distinct (addrs s) \<and> distinct (addrs u) \<and> a \<notin> set (addrs s) \<and> a \<notin> set (addrs u) \<and>
     set (addrs s) \<inter> set (addrs u) = {}"
  "mset (addrs (nd d s a c u)) = mset (addrs s) + {#a#} + mset (addrs u)"
  by (cases d; auto simp: nd_def)+

lemma is_tree_nd [simp]:
  "is_tree m par (nd d s a c u) \<longleftrightarrow> n_parent (m a) = par \<and> n_colour (m a) = c \<and> kid d (m a) = rootp s \<and> kid (opp d) (m a) = rootp u \<and>
     is_tree m a s \<and> is_tree m a u"
  by (cases d) (auto simp: nd_def kid_def)

lemma nd_opp: "nd (opp d) s a c u = nd d u a c s"
  by (cases d) (simp_all add: nd_def)

lemma tree_cases [case_names Leaf nd]:
  assumes "t = Leaf \<Longrightarrow> P" "\<And>s a c u. t = nd d s a c u \<Longrightarrow> P"
  shows P
  using assms by (cases t; cases d) (auto simp: nd_def)

text \<open>A subtree is seen through the path to the root: for every node above, the direction taken, the node and its other subtree.\<close>

type_synonym path = "(dir \<times> rptr \<times> rb_colour \<times> ptree) list"

fun plug :: "path \<Rightarrow> ptree \<Rightarrow> ptree" where
  "plug [] s = s"
| "plug ((d, a, c, u) # ps) s = plug ps (nd d s a c u)"

fun paddrs :: "path \<Rightarrow> rptr list" where
  "paddrs [] = []"
| "paddrs ((d, a, c, u) # ps) = a # addrs u @ paddrs ps"

fun ppar :: "path \<Rightarrow> rptr" where
  "ppar [] = NIL"
| "ppar ((d, a, c, u) # ps) = a"

fun is_path :: "(rptr \<Rightarrow> rb_node) \<Rightarrow> rptr \<Rightarrow> path \<Rightarrow> rptr \<Rightarrow> bool" where
  "is_path m root [] x \<longleftrightarrow> root = x"
| "is_path m root ((d, a, c, u) # ps) x \<longleftrightarrow> n_parent (m a) = ppar ps \<and> n_colour (m a) = c \<and> kid d (m a) = x \<and> kid (opp d) (m a) = rootp u \<and>
     is_tree m a u \<and> is_path m root ps a"

definition rep :: "rb_tree \<Rightarrow> path \<Rightarrow> ptree \<Rightarrow> bool" where
  "rep t ps s \<longleftrightarrow> is_path (t_nodes t) (t_root t) ps (rootp s) \<and> is_tree (t_nodes t) (ppar ps) s \<and> distinct (paddrs ps @ addrs s) \<and>
     set (paddrs ps @ addrs s) \<inter> {NIL, NULL} = {} \<and>
     n_colour (node t NIL) = BLACK \<and> n_left (node t NIL) = NIL \<and> n_right (node t NIL) = NIL"

lemma mset_plug: "mset (addrs (plug ps s)) = mset (addrs s) + mset (paddrs ps)"
  by (induction ps s rule: plug.induct) auto

lemma set_plug: "set (addrs (plug ps s)) = set (addrs s) \<union> set (paddrs ps)"
  using mset_plug [of ps s] by (metis set_mset_mset set_mset_union)

lemma rep_up: "rep t ((d, a, c, u) # ps) s \<longleftrightarrow> rep t ps (nd d s a c u)"
  by (auto simp: rep_def)

lemma rep_plug: "rep t ps s \<longleftrightarrow> rep t [] (plug ps s)"
  by (induction ps s rule: plug.induct) (auto simp: rep_up)

text \<open>Frames.\<close>

lemma is_tree_upd [simp]: "p \<notin> set (addrs s) \<Longrightarrow> is_tree (m(p := n)) par s = is_tree m par s"
  by (induction s arbitrary: par) auto

lemma is_path_upd [simp]: "p \<notin> set (paddrs ps) \<Longrightarrow> is_path (m(p := n)) root ps x = is_path m root ps x"
  by (induction m root ps x rule: is_path.induct) auto

lemma rootp_notin: "p \<notin> set (addrs s) \<Longrightarrow> p \<noteq> NIL \<Longrightarrow> rootp s \<noteq> p"
  by (cases s) auto

lemma ppar_notin: "p \<notin> set (paddrs ps) \<Longrightarrow> p \<noteq> NIL \<Longrightarrow> ppar ps \<noteq> p"
  by (cases ps rule: ppar.cases) auto

lemma is_tree_reparent:
  assumes "is_tree m par s" "distinct (addrs s)" "s \<noteq> Leaf"
  shows "is_tree (m(rootp s := (m (rootp s))\<lparr>n_parent := q\<rparr>)) q s"
  using assms by (cases s) auto

lemma upd_node_sel [simp]:
  "t_nodes (upd_node f p t) = (t_nodes t)(p := f (t_nodes t p))" "t_root (upd_node f p t) = t_root t"
  "t_data_free (upd_node f p t) = t_data_free t" "t_inline (upd_node f p t) = t_inline t" "t_being_freed (upd_node f p t) = t_being_freed t"
  "t_num_elements (upd_node f p t) = t_num_elements t" "t_freed (upd_node f p t) = t_freed t"
  by (simp_all add: upd_node_def)

subsection \<open>Recolouring and rotating\<close>

fun recol :: "rptr \<Rightarrow> rb_colour \<Rightarrow> ptree \<Rightarrow> ptree" where
  "recol p c Leaf = Leaf"
| "recol p c (Node l a e r) = Node (recol p c l) a (if a = p then c else e) (recol p c r)"

lemma recol_nd [simp]: "recol p c (nd d s a e u) = nd d (recol p c s) a (if a = p then c else e) (recol p c u)"
  by (cases d) (auto simp: nd_def)

lemma recol_out [simp]: "p \<notin> set (addrs s) \<Longrightarrow> recol p c s = s"
  by (induction s) auto

lemma recol_sel [simp]: "addrs (recol p c s) = addrs s" "rootp (recol p c s) = rootp s"
  by (induction s) auto

lemma is_tree_recol:
  "distinct (addrs s) \<Longrightarrow> is_tree m par s \<Longrightarrow> is_tree (m(p := (m p)\<lparr>n_colour := c\<rparr>)) par (recol p c s)"
  by (induction s arbitrary: par) auto

text \<open>A node of the subtree in focus is recoloured.\<close>

lemma rep_recol:
  assumes "rep t ps s" "p \<in> set (addrs s)"
  shows "rep (set_colour p c t) ps (recol p c s)"
proof -
  have "p \<notin> set (paddrs ps)" "p \<noteq> NIL" using assms by (auto simp: rep_def)
  then show ?thesis using assms is_tree_recol [of s "t_nodes t" "ppar ps" p c] by (simp add: rep_def)
qed

definition rotate :: "dir \<Rightarrow> rptr \<Rightarrow> rb_tree \<Rightarrow> rb_tree" where
  "rotate d x t = (let y = kid (opp d) (node t x);
     t = upd_node (kid_update (opp d) (kid d (node t y))) x t;
     t = (if kid d (node t y) \<noteq> NIL then set_parent (kid d (node t y)) x t else t);
     t = (if y \<noteq> NIL then set_parent y (n_parent (node t x)) t else t);
     t = (if n_parent (node t x) \<noteq> NIL
          then if x = kid d (node t (n_parent (node t x)))
               then upd_node (kid_update d y) (n_parent (node t x)) t
               else upd_node (kid_update (opp d) y) (n_parent (node t x)) t
          else t\<lparr>t_root := y\<rparr>);
     t = upd_node (kid_update d x) y t
   in if x \<noteq> NIL then set_parent x y t else t)"

lemma rotate_dir: "rotate_left = rotate DL" "rotate_right = rotate DR"
proof -
  have k: "kid DL = n_left" "kid DR = n_right" "kid_update DL v = n_left_update (\<lambda>_. v)" "kid_update DR v = n_right_update (\<lambda>_. v)" for v
    by (auto simp: kid_def kid_update_def)
  show "rotate_left = rotate DL" "rotate_right = rotate DR"
    by (intro ext, simp only: rotate_def rotate_left_def rotate_right_def k opp.simps)+
qed

lemma is_tree_cong: "(\<And>a. a \<in> set (addrs s) \<Longrightarrow> m' a = m a) \<Longrightarrow> is_tree m' par s = is_tree m par s"
  by (induction s arbitrary: par) auto

lemma is_path_cong: "(\<And>a. a \<in> set (paddrs ps) \<Longrightarrow> m' a = m a) \<Longrightarrow> is_path m' root ps x = is_path m root ps x"
proof (induction m root ps x rule: is_path.induct)
  case (2 m root d a c u ps x)
  then show ?case using is_tree_cong [of u m' m a] by simp
qed simp

lemma is_tree_newpar:
  assumes "is_tree m par s" "distinct (addrs s)" "\<And>a. a \<in> set (addrs s) \<Longrightarrow> m' a = (if a = rootp s then (m a)\<lparr>n_parent := q\<rparr> else m a)"
  shows "is_tree m' q s"
proof (cases s)
  case (Node l a c r)
  then have "is_tree m' a l = is_tree m a l" "is_tree m' a r = is_tree m a r" using assms by (intro is_tree_cong; auto)+
  then show ?thesis using assms Node by simp
qed simp

text \<open>The path above a subtree whose root changes.\<close>

definition path_hook :: "path \<Rightarrow> rptr \<Rightarrow> (rptr \<Rightarrow> rb_node) \<Rightarrow> rptr \<Rightarrow> rb_node" where
  "path_hook ps y m a = (case ps of [] \<Rightarrow> m a | (d, b, c, u) # _ \<Rightarrow> if a = b then kid_update d y (m a) else m a)"

lemma is_path_hook:
  assumes "is_path m root ps x" "distinct (paddrs ps)" "\<And>a. a \<in> set (paddrs ps) \<Longrightarrow> m' a = path_hook ps y m a"
    "root' = (if ps = [] then y else root)"
  shows "is_path m' root' ps y"
proof (cases ps rule: ppar.cases)
  case (2 d b c u ps')
  have "is_tree m' b u = is_tree m b u" "is_path m' root ps' b = is_path m root ps' b"
    using assms 2 by (intro is_tree_cong is_path_cong; auto simp: path_hook_def)+
  then show ?thesis using assms 2 by (simp add: path_hook_def)
qed (use assms in simp)

lemma rep_nd:
  assumes "rep t ps (nd d s a c u)"
  shows "n_parent (node t a) = ppar ps" "n_colour (node t a) = c" "kid d (node t a) = rootp s" "kid (opp d) (node t a) = rootp u"
    "a \<noteq> NIL" "a \<noteq> NULL" "a \<notin> set (paddrs ps)" "a \<notin> set (addrs s)" "a \<notin> set (addrs u)" "NIL \<notin> set (paddrs ps)"
  using assms by (simp_all add: rep_def) metis+

lemma rootp_cases: "s = Leaf \<and> rootp s = NIL \<or> s \<noteq> Leaf \<and> rootp s \<in> set (addrs s)"
  by (cases s) auto

lemma rep_sub:
  assumes "rep t ps s"
  shows "rootp s = NIL \<longleftrightarrow> s = Leaf" "rootp s \<notin> set (paddrs ps)" "rootp s \<noteq> NULL"
    "n_colour (node t (rootp s)) = tcol s"
  using assms rootp_cases [of s] by (cases s; force simp: rep_def)+

text \<open>The fields of a tree that the balancing never touches.\<close>

definition meta :: "rb_tree \<Rightarrow> (bool \<times> bool \<times> bool \<times> u32 \<times> nat list) \<times> (rptr \<Rightarrow> nat \<times> bool)" where
  "meta t = ((t_data_free t, t_inline t, t_being_freed t, t_num_elements t, t_freed t), (\<lambda>a. (n_data (node t a), n_being_freed (node t a))))"

lemma meta_upd [simp]:
  "(\<And>n. n_data (f n) = n_data n \<and> n_being_freed (f n) = n_being_freed n) \<Longrightarrow> meta (upd_node f p t) = meta t"
  "meta (t\<lparr>t_root := r\<rparr>) = meta t"
  by (auto simp: meta_def fun_eq_iff)

lemma metaD:
  assumes "meta t = meta t'"
  shows "t_data_free t = t_data_free t'" "t_inline t = t_inline t'" "t_being_freed t = t_being_freed t'" "t_num_elements t = t_num_elements t'"
    "t_freed t = t_freed t'" "n_data (node t a) = n_data (node t' a)" "n_being_freed (node t a) = n_being_freed (node t' a)"
  using assms by (auto simp: meta_def fun_eq_iff)

lemma meta_let_ptr: "(\<And>y. meta (f y) = k) \<Longrightarrow> meta (Let (a :: rptr) f) = k"
  by simp

lemma meta_let: "meta a = k \<Longrightarrow> (\<And>t. meta t = k \<Longrightarrow> meta (f t) = k) \<Longrightarrow> meta (Let a f) = k"
  by simp

lemma meta_if: "meta a = k \<Longrightarrow> meta b = k \<Longrightarrow> meta (if c then a else b) = k"
  by simp

lemma meta_rotate [simp]: "meta (rotate d x t) = meta t"
  unfolding rotate_def by (intro meta_let_ptr meta_let meta_if) simp_all

lemma rotate_store:
  assumes r: "rep t ps (nd d s x c (nd d u y e v))"
  shows "t_root (rotate d x t) = (if ps = [] then y else t_root t)"
    "node (rotate d x t) a =
      (if a = x then (kid_update (opp d) (rootp u) (node t x))\<lparr>n_parent := y\<rparr>
       else if a = y then (kid_update d x (node t y))\<lparr>n_parent := ppar ps\<rparr>
       else if a = rootp u \<and> u \<noteq> Leaf then (node t a)\<lparr>n_parent := x\<rparr>
       else path_hook ps y (t_nodes t) a)"
proof -
  have y: "rep t ((opp d, x, c, s) # ps) (nd d u y e v)" using r by (simp add: rep_up nd_opp)
  have u: "rep t ((d, y, e, v) # (opp d, x, c, s) # ps) u" using y by (simp add: rep_up)
  have n: "kid (opp d) (node t x) = y" "kid d (node t y) = rootp u" "n_parent (node t x) = ppar ps" "x \<noteq> NIL" "y \<noteq> NIL" "x \<noteq> y"
    "x \<notin> set (paddrs ps)" "y \<notin> set (paddrs ps)" "NIL \<notin> set (paddrs ps)" "rootp u \<noteq> x" "rootp u \<noteq> y" "rootp u = NIL \<longleftrightarrow> u = Leaf"
    "rootp u \<notin> set (paddrs ps)"
    using rep_nd [OF r] rep_nd [OF y] rep_sub [OF u] by auto
  have p: "x = kid d' (node t b) \<longleftrightarrow> d' = d''" if "ps = (d'', b, c', w) # ps'" for d' d'' b c' w ps'
    using r that n by (cases w; cases d'; cases d''; auto simp: rep_def kid_def)
  show "t_root (rotate d x t) = (if ps = [] then y else t_root t)"
    using n by (cases ps rule: ppar.cases) (auto simp: rotate_def Let_def)
  show "node (rotate d x t) a =
      (if a = x then (kid_update (opp d) (rootp u) (node t x))\<lparr>n_parent := y\<rparr>
       else if a = y then (kid_update d x (node t y))\<lparr>n_parent := ppar ps\<rparr>
       else if a = rootp u \<and> u \<noteq> Leaf then (node t a)\<lparr>n_parent := x\<rparr>
       else path_hook ps y (t_nodes t) a)"
  proof (cases ps rule: ppar.cases)
    case 1
    then show ?thesis using n by (cases "u = Leaf") (simp_all add: rotate_def Let_def path_hook_def)
  next
    case (2 d' b c' w ps')
    then have "b \<noteq> NIL" using n by auto
    then show ?thesis using 2 n p [OF 2]
      by (cases "u = Leaf"; cases "d' = d") (simp_all add: rotate_def Let_def path_hook_def)
  qed
qed

lemma rep_rotate:
  assumes r: "rep t ps (nd d s x c (nd d u y e v))"
  shows "rep (rotate d x t) ps (nd d (nd d s x c u) y e v)"
proof -
  note st = rotate_store [OF r]
  let ?m = "t_nodes (rotate d x t)"
  have y: "rep t ((opp d, x, c, s) # ps) (nd d u y e v)" using r by (simp add: rep_up nd_opp)
  have u: "rep t ((d, y, e, v) # (opp d, x, c, s) # ps) u" using y by (simp add: rep_up)
  note nx = rep_nd [OF r] and ny = rep_nd [OF y] and ru = rep_sub [OF u]
  have d: "distinct (paddrs ps @ addrs s @ addrs u @ addrs v)" "x \<noteq> y"
    "{x, y} \<inter> (set (paddrs ps) \<union> set (addrs s) \<union> set (addrs u) \<union> set (addrs v)) = {}"
    using r by (auto simp: rep_def)
  have hook: "path_hook ps y (t_nodes t) a = node t a" if "a \<notin> set (paddrs ps)" for a
    using that by (cases ps rule: ppar.cases) (auto simp: path_hook_def)
  have out: "?m a = node t a" if "a \<in> set (addrs s) \<union> set (addrs v)" for a
  proof -
    have "a \<noteq> x" "a \<noteq> y" "a \<notin> set (paddrs ps)" using that d(1,3) by auto
    moreover have "\<not> (a = rootp u \<and> u \<noteq> Leaf)" using that d(1) rootp_cases [of u] by auto
    ultimately show ?thesis using hook [of a] by (auto simp: st)
  qed
  have "is_tree ?m x s" "is_tree ?m y v"
    using r out is_tree_cong [of s ?m "t_nodes t" x] is_tree_cong [of v ?m "t_nodes t" y] by (simp_all add: rep_def)
  moreover have "is_tree ?m x u"
  proof (rule is_tree_newpar [of "t_nodes t" y])
    show "is_tree (t_nodes t) y u" "distinct (addrs u)" using r by (simp_all add: rep_def)
    show "?m a = (if a = rootp u then (node t a)\<lparr>n_parent := x\<rparr> else node t a)" if "a \<in> set (addrs u)" for a
    proof -
      have "a \<noteq> x" "a \<noteq> y" "a \<notin> set (paddrs ps)" "u \<noteq> Leaf" using that d(1,3) by auto
      then show ?thesis using hook [of a] by (simp add: st)
    qed
  qed
  moreover have "is_path ?m (t_root (rotate d x t)) ps y"
  proof (rule is_path_hook [of "t_nodes t" "t_root t" ps x])
    show "is_path (t_nodes t) (t_root t) ps x" "distinct (paddrs ps)" using r by (simp_all add: rep_def)
    show "?m a = path_hook ps y (t_nodes t) a" if "a \<in> set (paddrs ps)" for a
    proof -
      have "a \<noteq> x" "a \<noteq> y" "a \<noteq> rootp u" using that d(1,3) ru(2) by auto
      then show ?thesis by (simp add: st)
    qed
  qed (simp add: st)
  moreover have "node (rotate d x t) NIL = node t NIL"
  proof -
    have "NIL \<noteq> x" "NIL \<noteq> y" "NIL \<notin> set (paddrs ps)" "\<not> (NIL = rootp u \<and> u \<noteq> Leaf)" using nx ny ru by auto
    then show ?thesis using hook [of NIL] by (simp add: st del: de_Morgan_conj)
  qed
  moreover have "kid d (?m y) = x" "kid (opp d) (?m y) = rootp v" "n_parent (?m y) = ppar ps" "n_colour (?m y) = e"
    "kid d (?m x) = rootp s" "kid (opp d) (?m x) = rootp u" "n_parent (?m x) = y" "n_colour (?m x) = c"
    using d(2) nx ny by (simp_all add: st)
  ultimately show ?thesis using r by (simp add: rep_def) blast
qed

end
