(* ===== verification/Rb_Balance.thy ===== *)
theory Rb_Balance
  imports Rb_Tree
begin

text \<open>
  The balancing of red-black trees: the loops of \<open>insert_fixup\<close> and \<open>delete_fixup\<close> end and restore the invariants,
  without changing the order of the nodes.
\<close>

section \<open>The red-black invariants\<close>

fun bheight :: "ptree \<Rightarrow> nat" where
  "bheight Leaf = 0"
| "bheight (Node l a c r) = bheight l + (if c = BLACK then 1 else 0)"

fun invh :: "ptree \<Rightarrow> bool" where
  "invh Leaf \<longleftrightarrow> True"
| "invh (Node l a c r) \<longleftrightarrow> bheight l = bheight r \<and> invh l \<and> invh r"

fun invc :: "ptree \<Rightarrow> bool" where
  "invc Leaf \<longleftrightarrow> True"
| "invc (Node l a c r) \<longleftrightarrow> (c = RED \<longrightarrow> tcol l = BLACK \<and> tcol r = BLACK) \<and> invc l \<and> invc r"

text \<open>Red nodes have black children except perhaps the root.\<close>

fun invc2 :: "ptree \<Rightarrow> bool" where
  "invc2 Leaf \<longleftrightarrow> True"
| "invc2 (Node l a c r) \<longleftrightarrow> invc l \<and> invc r"

definition rbt :: "ptree \<Rightarrow> bool" where
  "rbt s \<longleftrightarrow> invc s \<and> invh s \<and> tcol s = BLACK"

text \<open>A path fits a subtree of black height \<open>h\<close>, respectively with a root of colour \<open>c\<close>.\<close>

fun path_h :: "path \<Rightarrow> nat \<Rightarrow> bool" where
  "path_h [] h \<longleftrightarrow> True"
| "path_h ((d, a, c, u) # ps) h \<longleftrightarrow> invh u \<and> bheight u = h \<and> path_h ps (h + (if c = BLACK then 1 else 0))"

fun path_c :: "path \<Rightarrow> rb_colour \<Rightarrow> bool" where
  "path_c [] e \<longleftrightarrow> True"
| "path_c ((d, a, c, u) # ps) e \<longleftrightarrow> invc u \<and> (c = RED \<longrightarrow> e = BLACK \<and> tcol u = BLACK \<and> ps \<noteq> []) \<and> path_c ps c"

lemma path_c_BLACK: "path_c ps e \<Longrightarrow> path_c ps BLACK"
  by (cases ps rule: ppar.cases) auto

lemma colour_neq [simp]: "c \<noteq> RED \<longleftrightarrow> c = BLACK" "c \<noteq> BLACK \<longleftrightarrow> c = RED"
  by (cases c; simp)+

lemma inv_nd [simp]:
  "invh (nd d s a c u) \<longleftrightarrow> bheight s = bheight u \<and> invh s \<and> invh u"
  "invc (nd d s a c u) \<longleftrightarrow> (c = RED \<longrightarrow> tcol s = BLACK \<and> tcol u = BLACK) \<and> invc s \<and> invc u"
  "invc2 (nd d s a c u) \<longleftrightarrow> invc s \<and> invc u"
  by (cases d; auto simp: nd_def)+

lemma bheight_nd: "invh (nd d s a c u) \<Longrightarrow> bheight (nd d s a c u) = bheight s + (if c = BLACK then 1 else 0)"
  by (cases d) (auto simp: nd_def)

lemma invc_invc2: "invc s \<longleftrightarrow> invc2 s \<and> (tcol s = RED \<longrightarrow> invc s)"
  by (cases s) auto

lemma rbt_plug:
  "rbt (plug ps s) \<longleftrightarrow> invc s \<and> invh s \<and> path_h ps (bheight s) \<and> path_c ps (tcol s) \<and> (ps = [] \<longrightarrow> tcol s = BLACK)"
proof (induction ps s rule: plug.induct)
  case (2 d a c u ps s)
  then show ?case using bheight_nd [of d s a c u] by auto
qed (auto simp: rbt_def)

text \<open>The order of the nodes does not depend on colours and rotations.\<close>

lemma addrs_plug_cong: "addrs s = addrs s' \<Longrightarrow> addrs (plug ps s) = addrs (plug ps s')"
proof (induction ps s arbitrary: s' rule: plug.induct)
  case (2 d a c u ps s)
  then show ?case by (cases d) (auto simp: nd_def)
qed simp

lemma addrs_nd: "addrs (nd d s a c u) = (case d of DL \<Rightarrow> addrs s @ a # addrs u | DR \<Rightarrow> addrs u @ a # addrs s)"
  by (cases d) (simp_all add: nd_def)

lemma addrs_nd_cong: "addrs s = addrs s' \<Longrightarrow> addrs u = addrs u' \<Longrightarrow> addrs (nd d s a c u) = addrs (nd d s' a c' u')"
  by (cases d) (simp_all add: nd_def)

lemma addrs_rotate: "addrs (nd d (nd d s x c u) y e v) = addrs (nd d s x c' (nd d u y e' v))"
  by (cases d) (simp_all add: nd_def)

text \<open>Painting a node changes no link, so the node need not be known to follow the links after it.\<close>

lemma paint_links [simp]:
  "n_parent (node (set_colour p c t) a) = n_parent (node t a)" "kid d (node (set_colour p c t) a) = kid d (node t a)"
  by (cases d; simp add: kid_def)+

declare upd_node_sel(1) [simp del]

section \<open>Insertion\<close>

text \<open>The loop body for either direction.\<close>

definition ins_body :: "dir \<Rightarrow> rptr \<Rightarrow> rb_tree \<Rightarrow> rptr \<times> rb_tree" where
  "ins_body d x t = (let p = n_parent (node t x); g = n_parent (node t p); y = kid (opp d) (node t g) in
     if n_colour (node t y) = RED then (g, set_colour g RED (set_colour y BLACK (set_colour p BLACK t)))
     else
       let (x, t) = (if x = kid (opp d) (node t p) then (p, rotate d p t) else (x, t));
           t = set_colour (n_parent (node t x)) BLACK t;
           t = set_colour (n_parent (node t (n_parent (node t x)))) RED t
       in (x, rotate (opp d) (n_parent (node t (n_parent (node t x)))) t))"

lemma insert_fixup_body_dir:
  "insert_fixup_body x t = (let p = n_parent (node t x) in
     if p = kid DL (node t (n_parent (node t p))) then ins_body DL x t else ins_body DR x t)"
proof -
  have k: "kid DL = n_left" "kid DR = n_right" by (auto simp: kid_def)
  show ?thesis unfolding insert_fixup_body_def ins_body_def rotate_dir k opp.simps Let_def by (rule refl)
qed

lemma rep_here: "rep t ps (nd d s a c u) \<Longrightarrow> rep (set_colour a c' t) ps (nd d s a c' u)"
  using rep_recol [of t ps "nd d s a c u" a c'] rep_nd(8,9) [of t ps d s a c u] by simp

lemma rep_parent: "rep t ps s \<Longrightarrow> s \<noteq> Leaf \<Longrightarrow> n_parent (node t (rootp s)) = ppar ps"
  by (cases s) (auto simp: rep_def)

text \<open>Moving the focus to a child, in the direction of the path or to its other side.\<close>

lemmas focus = rep_up nd_opp

lemma kid_side:
  assumes "rep t ((d, a, c, u) # ps) s" "s \<noteq> Leaf \<or> u \<noteq> Leaf"
  shows "rootp s = kid d' (node t a) \<longleftrightarrow> d' = d"
proof -
  have r: "rep t ps (nd d s a c u)" using assms(1) by (simp add: rep_up)
  have "distinct (addrs (nd d s a c u))" using r unfolding rep_def by (simp only: distinct_append)
  moreover have "NIL \<notin> set (addrs u)" using r by (auto simp: rep_def)
  ultimately have "rootp s \<noteq> rootp u" using assms(2) rootp_cases [of s] rootp_cases [of u] rep_sub(1) [OF assms(1)] by auto
  then show ?thesis using rep_nd(3,4) [OF r] by (cases "d' = d") auto
qed

text \<open>The uncle is red: recolour and go on with the grandparent.\<close>

lemma ins_body_red:
  assumes r: "rep t ((d', p, RED, u) # (d, g, BLACK, nd d w1 y RED w2) # ps) s" and s: "s \<noteq> Leaf"
  shows "\<exists>t'. ins_body d (rootp s) t = (g, t') \<and> rep t' ps (nd d (nd d' s p BLACK u) g RED (nd d w1 y BLACK w2)) \<and> meta t' = meta t"
proof -
  have rp: "rep t ((d, g, BLACK, nd d w1 y RED w2) # ps) (nd d' s p RED u)" using r by (simp only: rep_up)
  have rg: "rep t ps (nd d (nd d' s p RED u) g BLACK (nd d w1 y RED w2))" using rp by (simp only: rep_up)
  have ry: "rep t ((opp d, g, BLACK, nd d' s p RED u) # ps) (nd d w1 y RED w2)" using rg by (simp only: focus)
  have f: "n_parent (node t (rootp s)) = p" "n_parent (node t p) = g" "kid (opp d) (node t g) = y" "n_colour (node t y) = RED"
    using rep_parent [OF r s] rep_nd(1) [OF rp] rep_nd(4) [OF rg] rep_nd(2) [OF ry] by simp_all
  have "rep (set_colour p BLACK t) ((d, g, BLACK, nd d w1 y RED w2) # ps) (nd d' s p BLACK u)" by (rule rep_here [OF rp])
  then have "rep (set_colour p BLACK t) ((opp d, g, BLACK, nd d' s p BLACK u) # ps) (nd d w1 y RED w2)"
    by (simp only: focus)
  then have "rep (set_colour y BLACK (set_colour p BLACK t)) ((opp d, g, BLACK, nd d' s p BLACK u) # ps) (nd d w1 y BLACK w2)" by (rule rep_here)
  then have "rep (set_colour g RED (set_colour y BLACK (set_colour p BLACK t))) ps (nd d (nd d' s p BLACK u) g RED (nd d w1 y BLACK w2))"
    by (intro rep_here) (simp only: focus)
  then show ?thesis using f by (simp add: ins_body_def Let_def)
qed

text \<open>The uncle is black: at most two rotations end the loop.\<close>

lemma ins_rotate:
  assumes r: "rep t ((d, p, RED, u) # (d, g, BLACK, w) # ps) s" and s: "s \<noteq> Leaf"
    and t': "t' = set_colour g RED (set_colour p BLACK t)"
  shows "n_parent (node t (rootp s)) = p" "n_parent (node t p) = g" "n_parent (node (set_colour p BLACK t) (rootp s)) = p"
    "n_parent (node (set_colour p BLACK t) p) = g" "n_parent (node t' (rootp s)) = p" "n_parent (node t' p) = g"
    "rep (rotate (opp d) g t') ps (nd d s p BLACK (nd d u g RED w))"
proof -
  have rp: "rep t ((d, g, BLACK, w) # ps) (nd d s p RED u)" using r by (simp only: focus)
  show f: "n_parent (node t (rootp s)) = p" "n_parent (node t p) = g" using rep_parent [OF r s] rep_nd(1) [OF rp] by simp_all
  then show "n_parent (node (set_colour p BLACK t) (rootp s)) = p" "n_parent (node (set_colour p BLACK t) p) = g"
    "n_parent (node t' (rootp s)) = p" "n_parent (node t' p) = g" by (simp_all add: t')
  have "rep (set_colour p BLACK t) ps (nd d (nd d s p BLACK u) g BLACK w)" using rep_here [OF rp] by (simp only: focus)
  then have "rep t' ps (nd d (nd d s p BLACK u) g RED w)" unfolding t' by (rule rep_here)
  then have "rep t' ps (nd (opp d) w g RED (nd (opp d) u p BLACK s))" by (simp only: nd_opp)
  from rep_rotate [OF this] show "rep (rotate (opp d) g t') ps (nd d s p BLACK (nd d u g RED w))" by (simp only: nd_opp)
qed

lemma ins_body_outer:
  assumes r: "rep t ((d, p, RED, u) # (d, g, BLACK, w) # ps) s" and s: "s \<noteq> Leaf" and w: "tcol w = BLACK"
  shows "\<exists>t'. ins_body d (rootp s) t = (rootp s, t') \<and> rep t' ps (nd d s p BLACK (nd d u g RED w)) \<and> meta t' = meta t"
proof -
  have rg: "rep t ps (nd d (nd d s p RED u) g BLACK w)" using r by (simp only: focus)
  have rw: "rep t ((opp d, g, BLACK, nd d s p RED u) # ps) w" using rg by (simp only: focus)
  note i = ins_rotate [OF r s refl]
  have "n_colour (node t (kid (opp d) (node t g))) = BLACK" using rep_nd(4) [OF rg] rep_sub(4) [OF rw] w by simp
  moreover have "rootp s \<noteq> kid (opp d) (node t p)" using kid_side [OF r, of "opp d"] s by simp
  ultimately show ?thesis using i by (simp add: ins_body_def Let_def)
qed

lemma ins_body_inner:
  assumes r: "rep t ((opp d, p, RED, u) # (d, g, BLACK, w) # ps) (nd d s1 x RED s2)" and w: "tcol w = BLACK"
  shows "\<exists>t'. ins_body d x t = (p, t') \<and> rep t' ps (nd d (nd d u p RED s1) x BLACK (nd d s2 g RED w)) \<and> meta t' = meta t"
proof -
  have rg: "rep t ps (nd d (nd d u p RED (nd d s1 x RED s2)) g BLACK w)" using r by (simp only: focus)
  have rw: "rep t ((opp d, g, BLACK, nd d u p RED (nd d s1 x RED s2)) # ps) w" using rg by (simp only: focus)
  have rp: "rep t ((d, g, BLACK, w) # ps) (nd d u p RED (nd d s1 x RED s2))" using rg by (simp only: focus)
  have f: "n_parent (node t x) = p" "n_parent (node t p) = g" "x = kid (opp d) (node t p)"
    using rep_nd(1) [OF r] rep_nd(1) [OF rp] kid_side [OF r, of "opp d"] by simp_all
  have "rep (rotate d p t) ((d, g, BLACK, w) # ps) (nd d (nd d u p RED s1) x RED s2)" using rep_rotate [OF rp] .
  then have "rep (rotate d p t) ((d, x, RED, s2) # (d, g, BLACK, w) # ps) (nd d u p RED s1)" by (simp only: focus)
  note i = ins_rotate [OF this _ refl, simplified]
  have "n_colour (node t (kid (opp d) (node t g))) = BLACK" using rep_nd(4) [OF rg] rep_sub(4) [OF rw] w by simp
  then show ?thesis using f i by (simp add: ins_body_def Let_def)
qed

text \<open>Where the focus is.\<close>

lemma is_path_root: "is_path m root ps x \<Longrightarrow> ps \<noteq> [] \<Longrightarrow> root \<in> set (paddrs ps)"
  by (induction m root ps x rule: is_path.induct) (auto, metis is_path.simps(1))

lemma rep_root: "rep t ps s \<Longrightarrow> rootp s = t_root t \<longleftrightarrow> ps = []"
  using is_path_root [of "t_nodes t" "t_root t" ps "rootp s"] rep_sub(2) [of t ps s] by (cases ps) (auto simp: rep_def)

lemma nd_exhaust:
  assumes "s \<noteq> Leaf"
  obtains l a r where "s = nd d l a (tcol s) r"
  using assms by (cases s; cases d) (auto simp: nd_def)

lemma tcol_RED_nd:
  assumes "tcol s = RED"
  obtains l a r where "s = nd d l a RED r"
  using assms nd_exhaust [of s d] by (cases s) force+

lemma insert_fixup_loop_step:
  assumes r: "rep t ((d', p, RED, u) # (d, g, c, w) # ps) s" and s: "s \<noteq> Leaf"
  shows "insert_fixup_loop (rootp s) t = insert_fixup_loop (fst (ins_body d (rootp s) t)) (snd (ins_body d (rootp s) t))"
proof -
  have rp: "rep t ((d, g, c, w) # ps) (nd d' s p RED u)" using r by (simp only: focus)
  then have "p = kid DL (node t g) \<longleftrightarrow> DL = d" "n_parent (node t p) = g" "n_colour (node t p) = RED"
    using kid_side [OF rp, of DL] rep_nd(1,2) [OF rp] by simp_all
  moreover from this have "insert_fixup_body (rootp s) t = ins_body d (rootp s) t"
    using rep_parent [OF r s] by (cases d) (simp_all add: insert_fixup_body_dir)
  ultimately show ?thesis using rep_parent [OF r s] rep_root [OF r] by (subst insert_fixup_loop.simps) simp
qed

lemma insert_fixup_loop_stop:
  assumes "rep t ((d, p, BLACK, u) # ps) s" "s \<noteq> Leaf"
  shows "insert_fixup_loop (rootp s) t = Some t"
proof -
  have "n_colour (node t p) = BLACK" using assms(1) by (intro rep_nd(2) [of t ps d s]) (simp only: focus)
  then show ?thesis using rep_parent [OF assms] by (subst insert_fixup_loop.simps) simp
qed

lemma insert_fixup_loop_rotates:
  assumes r: "rep t ((d', p, RED, u) # (d, g, BLACK, w) # ps) s" and w: "tcol w = BLACK"
    and i: "invc s" "invh s" "tcol s = RED" "path_h ((d', p, RED, u) # (d, g, BLACK, w) # ps) (bheight s)"
      "path_c ((d', p, RED, u) # (d, g, BLACK, w) # ps) BLACK"
  shows "\<exists>t' s'. insert_fixup_loop (rootp s) t = Some t' \<and> rep t' ps s' \<and>
    addrs s' = addrs (plug [(d', p, RED, u), (d, g, BLACK, w)] s) \<and> rbt (plug ps s') \<and> meta t' = meta t"
proof (cases "d' = d")
  case True
  let ?s = "nd d s p BLACK (nd d u g RED w)"
  have s: "s \<noteq> Leaf" using i by auto
  obtain t' where t': "ins_body d (rootp s) t = (rootp s, t')" "rep t' ps ?s" "meta t' = meta t"
    using ins_body_outer [OF _ s w] r True by blast
  then have "insert_fixup_loop (rootp s) t' = Some t'" using s by (intro insert_fixup_loop_stop) (simp only: focus)
  moreover have "rbt (plug ps ?s)" using i w by (simp add: rbt_plug bheight_nd)
  moreover have "addrs ?s = addrs (plug [(d', p, RED, u), (d, g, BLACK, w)] s)" unfolding True by (cases d) (simp_all add: addrs_nd)
  ultimately show ?thesis using t' insert_fixup_loop_step [OF r s] by (auto intro!: exI [of _ ?s])
next
  case False
  then have d': "d' = opp d" by (cases d; cases d') auto
  obtain s1 x s2 where x: "s = nd d s1 x RED s2" using tcol_RED_nd [OF i(3)] .
  let ?s = "nd d (nd d u p RED s1) x BLACK (nd d s2 g RED w)"
  obtain t' where t': "ins_body d x t = (p, t')" "rep t' ps ?s" "meta t' = meta t"
    using ins_body_inner [OF r [unfolded d' x] w] by auto
  have "rep t' ((d, x, BLACK, nd d s2 g RED w) # ps) (nd d u p RED s1)" using t'(2) by (simp only: focus)
  then have "insert_fixup_loop p t' = Some t'" using insert_fixup_loop_stop by fastforce
  moreover have "rbt (plug ps ?s)" using i w x by (simp add: rbt_plug bheight_nd)
  moreover have "addrs ?s = addrs (plug [(d', p, RED, u), (d, g, BLACK, w)] s)" unfolding d' x by (cases d) (simp_all add: addrs_nd)
  ultimately show ?thesis using t' insert_fixup_loop_step [OF r] x by (auto intro!: exI [of _ ?s])
qed

text \<open>A red node below a path that is black but perhaps for its last node: the loop ends with a tree that is red-black but perhaps for the colour
of its root.\<close>

lemma insert_fixup_loop_ok:
  assumes "rep t ps s" "invc s" "invh s" "tcol s = RED" "path_h ps (bheight s)" "path_c ps BLACK"
  shows "\<exists>t' s'. insert_fixup_loop (rootp s) t = Some t' \<and> rep t' [] s' \<and> addrs s' = addrs (plug ps s) \<and> invc s' \<and> invh s' \<and> meta t' = meta t"
  using assms
proof (induction ps arbitrary: t s rule: length_induct)
  case (1 ps)
  note r = "1.prems"(1)
  have s: "s \<noteq> Leaf" using "1.prems" by auto
  consider "ps = []" | d p u ps' where "ps = (d, p, BLACK, u) # ps'" | d' p u d g w ps' where "ps = (d', p, RED, u) # (d, g, BLACK, w) # ps'"
  proof (cases ps rule: ppar.cases)
    case (2 d' p c u ps1)
    then show thesis using "1.prems"(6) that(2) [of d' p u ps1] that(3) [of d' p u] by (cases c; cases ps1 rule: ppar.cases) auto
  qed (use that in blast)
  then show ?case
  proof cases
    case 1
    then have "insert_fixup_loop (rootp s) t = Some t" using rep_root [OF r] by (subst insert_fixup_loop.simps) simp
    then show ?thesis using "1.prems" 1 by auto
  next
    case 2
    have "invc (plug ps s) \<and> invh (plug ps s)" using rbt_plug [of ps s] "1.prems" 2 by (simp add: rbt_def)
    then show ?thesis using insert_fixup_loop_stop [of t d p u ps' s] r 2 s rep_plug [of t ps s] by auto
  next
    case 3
    show ?thesis
    proof (cases "tcol w")
      case RED
      then obtain w1 y w2 where w: "w = nd d w1 y RED w2" by (rule tcol_RED_nd)
      let ?s = "nd d (nd d' s p BLACK u) g RED (nd d w1 y BLACK w2)"
      obtain t' where t': "ins_body d (rootp s) t = (g, t')" "rep t' ps' ?s" "meta t' = meta t" using ins_body_red r s unfolding 3 w by meson
      have "invh ?s" "bheight ?s = bheight s + 1" "invc ?s" using "1.prems" unfolding 3 w by (auto simp: bheight_nd)
      then have "\<exists>t'' s''. insert_fixup_loop (rootp ?s) t' = Some t'' \<and> rep t'' [] s'' \<and> addrs s'' = addrs (plug ps' ?s) \<and> invc s'' \<and> invh s'' \<and> meta t'' = meta t'"
        using t'(2) "1.prems"(5,6) unfolding 3 by (intro "1.IH" [rule_format]) (simp_all add: 3)
      moreover have "addrs (plug ps' ?s) = addrs (plug ps s)" unfolding 3 w plug.simps by (intro addrs_plug_cong addrs_nd_cong refl)
      ultimately show ?thesis using t' insert_fixup_loop_step [OF r [unfolded 3] s] by auto
    next
      case BLACK
      obtain t' s' where "insert_fixup_loop (rootp s) t = Some t'" "rep t' ps' s'" "addrs s' = addrs (plug [(d', p, RED, u), (d, g, BLACK, w)] s)"
        "rbt (plug ps' s')" "meta t' = meta t"
        using insert_fixup_loop_rotates [OF _ BLACK] "1.prems" unfolding 3 by blast
      then show ?thesis using rep_plug [of t' ps' s'] addrs_plug_cong [of s' _ ps'] 3 by (auto simp: rbt_def)
    qed
  qed
qed

text \<open>Painting the root of the subtree in focus.\<close>

fun blacken :: "ptree \<Rightarrow> ptree" where
  "blacken Leaf = Leaf"
| "blacken (Node l a c r) = Node l a BLACK r"

lemma blacken_sel [simp]: "addrs (blacken s) = addrs s" "tcol (blacken s) = BLACK" "invh (blacken s) = invh s" "invc (blacken s) = invc2 s"
    "bheight (blacken s) = bheight s + (if tcol s = RED then 1 else 0)" "tcol s = BLACK \<Longrightarrow> blacken s = s"
  by (cases s; simp)+

lemma rep_blacken: "rep t ps s \<Longrightarrow> rep (if rootp s \<noteq> NIL then set_colour (rootp s) BLACK t else t) ps (blacken s)"
proof (cases s)
  case (Node l a c r)
  moreover assume "rep t ps s"
  ultimately have r: "rep t ps (nd DL l a c r)" by (simp add: nd_def)
  show ?thesis using rep_here [OF r, of BLACK] rep_nd(5) [OF r] Node by (simp add: nd_def)
qed simp

lemma insert_fixup_ok:
  assumes "rep t ps s" "invc s" "invh s" "tcol s = RED" "path_h ps (bheight s)" "path_c ps BLACK"
  shows "\<exists>t' s'. insert_fixup (rootp s) t = Some t' \<and> rep t' [] s' \<and> addrs s' = addrs (plug ps s) \<and> rbt s' \<and> meta t' = meta t"
proof -
  obtain t' s' where t': "insert_fixup_loop (rootp s) t = Some t'" "rep t' [] s'" "addrs s' = addrs (plug ps s)" "invc s'" "invh s'" "meta t' = meta t"
    using insert_fixup_loop_ok [OF assms] by blast
  then have "s' \<noteq> Leaf" using assms(4) set_plug [of ps s] by (cases s) auto
  then have "rootp s' \<noteq> NIL" "t_root t' = rootp s'" using t'(2) rep_sub(1) [OF t'(2)] by (auto simp: rep_def)
  then show ?thesis using t' rep_blacken [OF t'(2)] invc_invc2 [of s'] by (auto simp: insert_fixup_def rbt_def intro!: exI [of _ "blacken s'"])
qed

section \<open>Deletion\<close>

text \<open>The loop body for either direction, in two parts: a red sibling is rotated away, then the subtree is treated with a black sibling.\<close>

definition del_sibling :: "dir \<Rightarrow> rptr \<Rightarrow> rb_tree \<Rightarrow> rptr \<times> rb_tree" where
  "del_sibling d parent t = (let w = kid (opp d) (node t parent) in
     if n_colour (node t w) = RED
     then let t = set_colour w BLACK t; t = set_colour parent RED t; t = rotate d parent t in (kid (opp d) (node t parent), t)
     else (w, t))"

definition del_rest :: "dir \<Rightarrow> rptr \<Rightarrow> rptr \<Rightarrow> rb_tree \<Rightarrow> rptr \<times> rptr \<times> rb_tree" where
  "del_rest d w parent t =
     (if n_colour (node t (kid d (node t w))) = BLACK \<and> n_colour (node t (kid (opp d) (node t w))) = BLACK then
        let t = (if w \<noteq> NIL then set_colour w RED t else t) in (parent, n_parent (node t parent), t)
      else
        let (w, t) = (if n_colour (node t (kid (opp d) (node t w))) = BLACK
              then let t = (if kid d (node t w) \<noteq> NIL then set_colour (kid d (node t w)) BLACK t else t);
                       t = set_colour w RED t; t = rotate (opp d) w t in (kid (opp d) (node t parent), t)
              else (w, t));
            t = set_colour w (n_colour (node t parent)) t;
            t = (if parent \<noteq> NIL then set_colour parent BLACK t else t);
            t = (if n_colour (node t (kid (opp d) (node t w))) \<noteq> BLACK then set_colour (kid (opp d) (node t w)) BLACK t else t);
            t = rotate d parent t
        in (t_root t, parent, t))"

definition del_body :: "dir \<Rightarrow> rptr \<Rightarrow> rb_tree \<Rightarrow> rptr \<times> rptr \<times> rb_tree" where
  "del_body d parent t = (case del_sibling d parent t of (w, t) \<Rightarrow> del_rest d w parent t)"

lemma delete_fixup_body_dir:
  "delete_fixup_body x parent t = (if x = kid DL (node t parent) then del_body DL parent t else del_body DR parent t)"
proof -
  have k: "kid DL = n_left" "kid DR = n_right" by (auto simp: kid_def)
  show ?thesis unfolding delete_fixup_body_def del_body_def del_sibling_def del_rest_def rotate_dir k opp.simps Let_def by (rule refl)
qed

lemma del_sibling_red:
  assumes r: "rep t ((d, a, c, nd d u1 w RED u2) # ps) s"
  shows "\<exists>t'. del_sibling d a t = (rootp u1, t') \<and> rep t' ((d, a, RED, u1) # (d, w, BLACK, u2) # ps) s \<and> meta t' = meta t"
proof -
  let ?t = "set_colour a RED (set_colour w BLACK t)"
  have ra: "rep t ps (nd d s a c (nd d u1 w RED u2))" using r by (simp only: focus)
  have rw: "rep t ((opp d, a, c, s) # ps) (nd d u1 w RED u2)" using ra by (simp only: focus)
  have "rep (set_colour w BLACK t) ps (nd d s a c (nd d u1 w BLACK u2))" using rep_here [OF rw] by (simp only: focus)
  then have "rep ?t ps (nd d s a RED (nd d u1 w BLACK u2))" by (rule rep_here)
  from rep_rotate [OF this] have r': "rep (rotate d a ?t) ps (nd d (nd d s a RED u1) w BLACK u2)" .
  then have "rep (rotate d a ?t) ((d, w, BLACK, u2) # ps) (nd d s a RED u1)" by (simp only: focus)
  from rep_nd(4) [OF this] have "kid (opp d) (node (rotate d a ?t) a) = rootp u1" .
  then show ?thesis using r' rep_nd(4) [OF ra] rep_nd(2) [OF rw] by (simp add: del_sibling_def Let_def focus)
qed

lemma del_sibling_black:
  assumes r: "rep t ((d, a, c, u) # ps) s" and "tcol u = BLACK"
  shows "del_sibling d a t = (rootp u, t)"
proof -
  have ra: "rep t ps (nd d s a c u)" using r by (simp only: focus)
  then have "rep t ((opp d, a, c, s) # ps) u" by (simp only: focus)
  then show ?thesis using assms(2) rep_nd(4) [OF ra] rep_sub(4) by (simp add: del_sibling_def Let_def)
qed

text \<open>The colours of the nephews.\<close>

lemma nephews:
  assumes "rep t ((d, a, c, nd d u1 w e u2) # ps) s"
  shows "kid d (node t w) = rootp u1" "kid (opp d) (node t w) = rootp u2" "n_colour (node t (rootp u1)) = tcol u1" "n_colour (node t (rootp u2)) = tcol u2"
    "w \<noteq> NIL" "a \<noteq> NIL" "n_parent (node t a) = ppar ps" "n_colour (node t a) = c" "kid (opp d) (node t a) = w"
proof -
  have ra: "rep t ps (nd d s a c (nd d u1 w e u2))" using assms by (simp only: focus)
  have rw: "rep t ((opp d, a, c, s) # ps) (nd d u1 w e u2)" using ra by (simp only: focus)
  have "rep t ((d, w, e, u2) # (opp d, a, c, s) # ps) u1" "rep t ((opp d, w, e, u1) # (opp d, a, c, s) # ps) u2" using rw by (simp_all only: focus)
  then show "kid d (node t w) = rootp u1" "kid (opp d) (node t w) = rootp u2" "n_colour (node t (rootp u1)) = tcol u1" "n_colour (node t (rootp u2)) = tcol u2"
    "w \<noteq> NIL" "a \<noteq> NIL" "n_parent (node t a) = ppar ps" "n_colour (node t a) = c" "kid (opp d) (node t a) = w"
    using rep_nd [OF ra] rep_nd [OF rw] rep_sub(4) by simp_all
qed

lemma del_rest_black:
  assumes r: "rep t ((d, a, c, nd d u1 w e u2) # ps) s" and u: "tcol u1 = BLACK" "tcol u2 = BLACK"
  shows "\<exists>t'. del_rest d w a t = (a, ppar ps, t') \<and> rep t' ps (nd d s a c (nd d u1 w RED u2)) \<and> meta t' = meta t"
proof -
  have "rep t ((opp d, a, c, s) # ps) (nd d u1 w e u2)" using r by (simp only: focus)
  then have "rep (set_colour w RED t) ps (nd d s a c (nd d u1 w RED u2))" using rep_here by (fastforce simp only: focus)
  then show ?thesis using nephews [OF r] u by (simp add: del_rest_def Let_def)
qed

text \<open>The last rotation, with a red outer nephew.\<close>

definition del_last :: "dir \<Rightarrow> rptr \<Rightarrow> rptr \<Rightarrow> rb_tree \<Rightarrow> rb_tree" where
  "del_last d w parent t = (let
     t = set_colour w (n_colour (node t parent)) t;
     t = (if parent \<noteq> NIL then set_colour parent BLACK t else t);
     t = (if n_colour (node t (kid (opp d) (node t w))) \<noteq> BLACK then set_colour (kid (opp d) (node t w)) BLACK t else t)
   in rotate d parent t)"

lemma del_last_ok:
  assumes r: "rep t ((d, a, c, nd d u1 w e (nd d v1 b RED v2)) # ps) s"
  shows "rep (del_last d w a t) ps (nd d (nd d s a BLACK u1) w c (nd d v1 b BLACK v2))" "meta (del_last d w a t) = meta t"
proof -
  let ?t1 = "set_colour w c t" let ?t2 = "set_colour a BLACK ?t1" let ?t3 = "set_colour b BLACK ?t2"
  have "rep t ((opp d, a, c, s) # ps) (nd d u1 w e (nd d v1 b RED v2))" using r by (simp only: focus)
  then have "rep ?t1 ((opp d, a, c, s) # ps) (nd d u1 w c (nd d v1 b RED v2))" by (rule rep_here)
  then have "rep ?t1 ps (nd d s a c (nd d u1 w c (nd d v1 b RED v2)))" by (simp only: focus)
  then have "rep ?t2 ps (nd d s a BLACK (nd d u1 w c (nd d v1 b RED v2)))" by (rule rep_here)
  then have r2: "rep ?t2 ((opp d, w, c, u1) # (opp d, a, BLACK, s) # ps) (nd d v1 b RED v2)" by (simp only: focus)
  then have b: "n_colour (node ?t2 b) = RED" using rep_nd(2) by blast
  have "rep ?t3 ((opp d, w, c, u1) # (opp d, a, BLACK, s) # ps) (nd d v1 b BLACK v2)" using rep_here [OF r2] .
  then have "rep ?t3 ps (nd d s a BLACK (nd d u1 w c (nd d v1 b BLACK v2)))" by (simp only: focus)
  then have "rep (rotate d a ?t3) ps (nd d (nd d s a BLACK u1) w c (nd d v1 b BLACK v2))" by (rule rep_rotate)
  moreover have "del_last d w a t = rotate d a ?t3" using nephews [OF r] b by (simp add: del_last_def Let_def)
  ultimately show "rep (del_last d w a t) ps (nd d (nd d s a BLACK u1) w c (nd d v1 b BLACK v2))" "meta (del_last d w a t) = meta t"
    by simp_all
qed

lemma del_rest_outer:
  assumes r: "rep t ((d, a, c, nd d u1 w e (nd d v1 b RED v2)) # ps) s"
  shows "del_rest d w a t = (t_root (del_last d w a t), a, del_last d w a t)"
  using nephews [OF r] by (simp add: del_rest_def del_last_def Let_def)

lemma del_rest_inner:
  assumes r: "rep t ((d, a, c, nd d (nd d v1 b RED v2) w e u2) # ps) s" and u: "tcol u2 = BLACK"
  shows "\<exists>t'. del_rest d w a t = (t_root t', a, t') \<and> rep t' ps (nd d (nd d s a BLACK v1) b c (nd d v2 w BLACK u2)) \<and> meta t' = meta t"
proof -
  let ?t1 = "set_colour b BLACK t" let ?t2 = "set_colour w RED ?t1" let ?t3 = "rotate (opp d) w ?t2"
  have rb: "rep t ((d, w, e, u2) # (opp d, a, c, s) # ps) (nd d v1 b RED v2)" using r by (simp only: focus)
  then have b: "b \<noteq> NIL" by (rule rep_nd)
  have "rep ?t1 ((d, w, e, u2) # (opp d, a, c, s) # ps) (nd d v1 b BLACK v2)" using rep_here [OF rb] .
  then have "rep ?t1 ((opp d, a, c, s) # ps) (nd d (nd d v1 b BLACK v2) w e u2)" by (simp only: focus)
  then have "rep ?t2 ((opp d, a, c, s) # ps) (nd d (nd d v1 b BLACK v2) w RED u2)" by (rule rep_here)
  then have "rep ?t2 ((opp d, a, c, s) # ps) (nd (opp d) u2 w RED (nd (opp d) v2 b BLACK v1))" by (simp only: nd_opp)
  from rep_rotate [OF this] have "rep ?t3 ((opp d, a, c, s) # ps) (nd d v1 b BLACK (nd d v2 w RED u2))" by (simp only: nd_opp)
  then have r3: "rep ?t3 ((d, a, c, nd d v1 b BLACK (nd d v2 w RED u2)) # ps) s" by (simp only: focus)
  then have "del_rest d w a t = (t_root (del_last d b a ?t3), a, del_last d b a ?t3)"
    using nephews [OF r] nephews(9) [OF r3] u b by (simp add: del_rest_def del_last_def Let_def)
  then show ?thesis using del_last_ok [OF r3] by simp
qed

text \<open>With a black sibling the subtree either moves up or the loop is about to end.\<close>

lemma del_rest_cases:
  assumes r: "rep t ((d, a, c, u) # ps) s" and u: "tcol u = BLACK" and i: "invh s" "invc s" "path_h ((d, a, c, u) # ps) (bheight s + 1)"
      "path_c ((d, a, c, u) # ps) BLACK"
  shows "\<exists>t' s'. rep t' ps s' \<and> addrs s' = addrs (nd d s a c u) \<and> invh s' \<and> meta t' = meta t \<and>
    (del_rest d (rootp u) a t = (rootp s', ppar ps, t') \<and> tcol s' = c \<and> bheight s' = bheight s + (if c = BLACK then 1 else 0) \<and> invc2 s' \<or>
     del_rest d (rootp u) a t = (t_root t', a, t') \<and> rbt (plug ps s'))"
proof -
  have "u \<noteq> Leaf" using i by auto
  then obtain u1 w u2 where nd: "u = nd d u1 w BLACK u2" using nd_exhaust [of u d] u by metis
  have h: "bheight u1 = bheight s" "bheight u2 = bheight s" "invh u1" "invh u2" using i nd bheight_nd [of d u1 w BLACK u2] by auto
  note r = r [unfolded nd]
  consider "tcol u1 = BLACK" "tcol u2 = BLACK" | v1 b v2 where "u2 = nd d v1 b RED v2" | v1 b v2 where "u1 = nd d v1 b RED v2" "tcol u2 = BLACK"
    using tcol_RED_nd [of u2 d] tcol_RED_nd [of u1 d] by (metis (full_types) rb_colour.exhaust)
  then show ?thesis
  proof cases
    case 1
    from del_rest_black [OF r this] obtain t' where "del_rest d w a t = (a, ppar ps, t')" "rep t' ps (nd d s a c (nd d u1 w RED u2))" "meta t' = meta t"
      by blast
    then show ?thesis using i h nd 1 by (intro exI [of _ t'] exI [of _ "nd d s a c (nd d u1 w RED u2)"]) (auto simp: bheight_nd intro: addrs_nd_cong)
  next
    case 2
    let ?s = "nd d (nd d s a BLACK u1) w c (nd d v1 b BLACK v2)"
    note l = del_last_ok [OF r [unfolded 2]] del_rest_outer [OF r [unfolded 2]]
    have "addrs ?s = addrs (nd d s a c u)" unfolding nd 2 by (cases d) (simp_all add: addrs_nd)
    then show ?thesis using l i h nd 2 by (intro exI [of _ "del_last d w a t"] exI [of _ ?s]) (auto simp: rbt_plug bheight_nd)
  next
    case 3
    let ?s = "nd d (nd d s a BLACK v1) b c (nd d v2 w BLACK u2)"
    from del_rest_inner [OF r [unfolded 3] 3(2)] obtain t' where "del_rest d w a t = (t_root t', a, t')" "rep t' ps ?s" "meta t' = meta t" by blast
    moreover have "addrs ?s = addrs (nd d s a c u)" unfolding nd 3 by (cases d) (simp_all add: addrs_nd)
    ultimately show ?thesis using i h nd 3 by (intro exI [of _ t'] exI [of _ ?s]) (auto simp: rbt_plug bheight_nd)
  qed
qed

lemma delete_fixup_loop_step:
  assumes r: "rep t ((d, a, c, u) # ps) s" and "tcol s = BLACK" "u \<noteq> Leaf"
  shows "delete_fixup_loop (rootp s) a t =
    (case del_body d a t of (x, parent, t') \<Rightarrow> delete_fixup_loop x parent t')"
proof -
  have "delete_fixup_body (rootp s) a t = del_body d a t"
    using kid_side [OF r, of DL] assms(3) by (cases d) (simp_all add: delete_fixup_body_dir)
  then show ?thesis using rep_root [OF r] rep_sub(4) [OF r] assms(2) by (subst delete_fixup_loop.simps) (simp add: case_prod_beta)
qed

lemma delete_fixup_loop_stop: "x = t_root t \<or> n_colour (node t x) = RED \<Longrightarrow> delete_fixup_loop x parent t = Some (x, t)"
  by (subst delete_fixup_loop.simps) auto

lemma delete_fixup_loop_root:
  assumes "rep t ps s" "rbt (plug ps s)"
  shows "\<exists>ps' s'. delete_fixup_loop (t_root t) a t = Some (rootp s', t) \<and> rep t ps' s' \<and> addrs (plug ps' s') = addrs (plug ps s) \<and>
    rbt (plug ps' (blacken s'))"
proof -
  have "rep t [] (plug ps s)" using assms(1) rep_plug by blast
  then show ?thesis using assms(2) rep_root [of t "[]" "plug ps s"]
    by (intro exI [of _ "[]"] exI [of _ "plug ps s"]) (auto simp: rbt_def delete_fixup_loop_stop)
qed

lemma del_body_red:
  assumes r: "rep t ((d, a, c, u) # ps) s" and u: "tcol u = RED" and i: "invh s" "invc s" "tcol s = BLACK"
      "path_h ((d, a, c, u) # ps) (bheight s + 1)" "path_c ((d, a, c, u) # ps) BLACK"
  shows "\<exists>ps' s' t'. delete_fixup_loop (rootp s) a t = Some (rootp s', t') \<and> rep t' ps' s' \<and>
    addrs (plug ps' s') = addrs (plug ((d, a, c, u) # ps) s) \<and> rbt (plug ps' (blacken s')) \<and> meta t' = meta t"
proof -
  obtain u1 w u2 where nd: "u = nd d u1 w RED u2" using tcol_RED_nd [OF u] .
  let ?ps = "(d, w, BLACK, u2) # ps"
  from del_sibling_red [OF r [unfolded nd]] obtain t1 where t1: "del_sibling d a t = (rootp u1, t1)" "rep t1 ((d, a, RED, u1) # ?ps) s" "meta t1 = meta t"
    by blast
  have i1: "tcol u1 = BLACK" "path_h ((d, a, RED, u1) # ?ps) (bheight s + 1)" "path_c ((d, a, RED, u1) # ?ps) BLACK"
    using i nd by (auto simp: bheight_nd)
  obtain t' s' where t': "rep t' ?ps s'" "addrs s' = addrs (nd d s a RED u1)" "invh s'" "meta t' = meta t1"
    "del_rest d (rootp u1) a t1 = (rootp s', ppar ?ps, t') \<and> tcol s' = RED \<and> bheight s' = bheight s \<and> invc2 s' \<or>
     del_rest d (rootp u1) a t1 = (t_root t', a, t') \<and> rbt (plug ?ps s')"
    using del_rest_cases [OF t1(2) i1(1) i(1,2) i1(2,3)] by auto
  have ad: "addrs (plug ?ps s') = addrs (plug ((d, a, c, u) # ps) s)"
  proof -
    have "addrs (nd d s' w BLACK u2) = addrs (nd d s a c u)" using t'(2) unfolding nd by (cases d) (simp_all add: addrs_nd)
    then show ?thesis unfolding plug.simps by (rule addrs_plug_cong)
  qed
  have loop: "delete_fixup_loop (rootp s) a t = (case del_rest d (rootp u1) a t1 of (x, parent, t') \<Rightarrow> delete_fixup_loop x parent t')"
    using delete_fixup_loop_step [OF r i(3)] u t1(1) by (cases u) (auto simp: del_body_def)
  from t'(5) show ?thesis
  proof
    assume a: "del_rest d (rootp u1) a t1 = (rootp s', ppar ?ps, t') \<and> tcol s' = RED \<and> bheight s' = bheight s \<and> invc2 s'"
    then have "delete_fixup_loop (rootp s') (ppar ?ps) t' = Some (rootp s', t')" using rep_sub(4) [OF t'(1)] by (simp add: delete_fixup_loop_stop)
    moreover have "rbt (plug ?ps (blacken s'))" using a t'(3) i1(2,3) unfolding rbt_plug by simp
    ultimately show ?thesis using a t' t1 ad loop by (intro exI [of _ ?ps] exI [of _ s'] exI [of _ t']) auto
  next
    assume a: "del_rest d (rootp u1) a t1 = (t_root t', a, t') \<and> rbt (plug ?ps s')"
    then show ?thesis using delete_fixup_loop_root [OF t'(1), of a] ad loop t'(4) t1(3) by auto
  qed
qed

lemma delete_fixup_loop_ok:
  assumes "rep t ps s" "invh s" "invc2 s" "path_h ps (bheight s + 1)" "path_c ps BLACK"
  shows "\<exists>ps' s' t'. delete_fixup_loop (rootp s) (ppar ps) t = Some (rootp s', t') \<and> rep t' ps' s' \<and>
    addrs (plug ps' s') = addrs (plug ps s) \<and> rbt (plug ps' (blacken s')) \<and> meta t' = meta t"
  using assms
proof (induction ps arbitrary: t s)
  case Nil
  then have "delete_fixup_loop (rootp s) (ppar []) t = Some (rootp s, t)" using rep_root [of t "[]" s] by (simp add: delete_fixup_loop_stop)
  moreover have "rbt (plug [] (blacken s))" using Nil by (simp add: rbt_def)
  ultimately show ?case using Nil by (intro exI [of _ "[]"] exI [of _ s] exI [of _ t]) auto
next
  case (Cons f ps)
  obtain d a c u where f: "f = (d, a, c, u)" by (cases f)
  note r = Cons.prems(1) [unfolded f]
  show ?case
  proof (cases "tcol s")
    case RED
    then have "delete_fixup_loop (rootp s) (ppar (f # ps)) t = Some (rootp s, t)" using rep_sub(4) [OF r] by (simp add: delete_fixup_loop_stop)
    moreover have "rbt (plug (f # ps) (blacken s))" using Cons.prems RED unfolding rbt_plug by simp
    ultimately show ?thesis using Cons.prems by (intro exI [of _ "f # ps"] exI [of _ s] exI [of _ t]) auto
  next
    case BLACK
    have i: "invc s" "path_h ((d, a, c, u) # ps) (bheight s + 1)" "path_c ((d, a, c, u) # ps) BLACK" "u \<noteq> Leaf"
      using Cons.prems(2-5) BLACK invc_invc2 [of s] f by auto
    show ?thesis
    proof (cases "tcol u")
      case RED
      from del_body_red [OF r RED Cons.prems(2) i(1) BLACK i(2,3)] show ?thesis by (simp add: f)
    next
      case u: BLACK
      obtain t' s' where t': "rep t' ps s'" "addrs s' = addrs (nd d s a c u)" "invh s'" "meta t' = meta t"
        "del_rest d (rootp u) a t = (rootp s', ppar ps, t') \<and> tcol s' = c \<and> bheight s' = bheight s + (if c = BLACK then 1 else 0) \<and> invc2 s' \<or>
         del_rest d (rootp u) a t = (t_root t', a, t') \<and> rbt (plug ps s')"
        using del_rest_cases [OF r u Cons.prems(2) i(1-3)] by blast
      have ad: "addrs (plug ps s') = addrs (plug (f # ps) s)" using t'(2) unfolding f plug.simps by (rule addrs_plug_cong)
      have loop: "delete_fixup_loop (rootp s) (ppar (f # ps)) t = (case del_rest d (rootp u) a t of (x, parent, t') \<Rightarrow> delete_fixup_loop x parent t')"
        using delete_fixup_loop_step [OF r BLACK i(4)] del_sibling_black [OF r u] by (simp add: del_body_def f)
      from t'(5) show ?thesis
      proof
        assume a: "del_rest d (rootp u) a t = (rootp s', ppar ps, t') \<and> tcol s' = c \<and> bheight s' = bheight s + (if c = BLACK then 1 else 0) \<and> invc2 s'"
        then have "path_h ps (bheight s' + 1)" "path_c ps BLACK" using i(2,3) path_c_BLACK by (auto split: if_splits)
        from Cons.IH [OF t'(1,3) _ this] show ?thesis using a t'(4) ad loop by auto
      next
        assume a: "del_rest d (rootp u) a t = (t_root t', a, t') \<and> rbt (plug ps s')"
        then show ?thesis using delete_fixup_loop_root [OF t'(1), of a] ad loop t'(4) by auto
      qed
    qed
  qed
qed

lemma delete_fixup_ok:
  assumes "rep t ps s" "invh s" "invc2 s" "path_h ps (bheight s + 1)" "path_c ps BLACK"
  shows "\<exists>t' s'. delete_fixup (rootp s) (ppar ps) t = Some t' \<and> rep t' [] s' \<and> addrs s' = addrs (plug ps s) \<and> rbt s' \<and> meta t' = meta t"
proof -
  obtain ps' s' t' where l: "delete_fixup_loop (rootp s) (ppar ps) t = Some (rootp s', t')" "rep t' ps' s'"
    "addrs (plug ps' s') = addrs (plug ps s)" "rbt (plug ps' (blacken s'))" "meta t' = meta t"
    using delete_fixup_loop_ok [OF assms] by blast
  let ?t = "if rootp s' \<noteq> NIL then set_colour (rootp s') BLACK t' else t'"
  have "rep ?t [] (plug ps' (blacken s'))" using rep_blacken [OF l(2)] rep_plug by blast
  moreover have "addrs (plug ps' (blacken s')) = addrs (plug ps s)" using l(3) addrs_plug_cong [of "blacken s'" s' ps'] by simp
  ultimately show ?thesis using l by (intro exI [of _ ?t] exI [of _ "plug ps' (blacken s')"]) (auto simp: delete_fixup_def)
qed

end
