(* ===== verification/Rb_Set.thy ===== *)
theory Rb_Set
  imports Rb_Balance
begin

text \<open>
  Red-black trees as sorted sequences: search, insertion and deletion on the store implement their specification on the sequence of the nodes.
\<close>

section \<open>What is left and right of a path\<close>

fun left_of :: "path \<Rightarrow> rptr list" where
  "left_of [] = []"
| "left_of ((d, a, c, u) # ps) = (case d of DL \<Rightarrow> left_of ps | DR \<Rightarrow> left_of ps @ addrs u @ [a])"

fun right_of :: "path \<Rightarrow> rptr list" where
  "right_of [] = []"
| "right_of ((d, a, c, u) # ps) = (case d of DL \<Rightarrow> a # addrs u @ right_of ps | DR \<Rightarrow> right_of ps)"

lemma addrs_plug: "addrs (plug ps s) = left_of ps @ addrs s @ right_of ps"
  by (induction ps s rule: plug.induct) (auto simp: addrs_nd split: dir.split)

lemma set_left_right_of: "set (left_of ps) \<union> set (right_of ps) = set (paddrs ps)"
  by (induction ps rule: paddrs.induct) (auto split: dir.split)

text \<open>Finding the path to a node.\<close>

lemma locate:
  assumes "a \<in> set (addrs s)"
  obtains ps l c r where "s = plug ps (Node l a c r)"
proof -
  have "\<exists>ps l c r. plug qs s = plug ps (Node l a c r)" for qs
    using assms
  proof (induction s arbitrary: qs)
    case (Node s1 b c s2)
    consider "a \<in> set (addrs s1)" | "a = b" | "a \<in> set (addrs s2)" using Node.prems by auto
    then show ?case
    proof cases
      case 1
      from Node.IH(1) [OF 1, of "(DL, b, c, s2) # qs"] show ?thesis by (simp add: nd_def)
    next
      case 2 then show ?thesis by blast
    next
      case 3
      from Node.IH(2) [OF 3, of "(DR, b, c, s1) # qs"] show ?thesis by (simp add: nd_def)
    qed
  qed simp
  from this [of "[]"] show thesis using that by auto
qed

section \<open>Changing the tree below a path\<close>

text \<open>Hooking another subtree under the last node of a path, or at the root.\<close>

definition hook :: "path \<Rightarrow> rptr \<Rightarrow> rb_tree \<Rightarrow> rb_tree" where
  "hook ps x t = (case ps of [] \<Rightarrow> t\<lparr>t_root := x\<rparr> | (d, a, c, u) # _ \<Rightarrow> upd_node (kid_update d x) a t)"

lemma kid_update_LR: "kid_update DL x = n_left_update (\<lambda>_. x)" "kid_update DR x = n_right_update (\<lambda>_. x)"
  by (auto simp: kid_update_def)

lemma hook_node: "node (hook ps x t) a = path_hook ps x (t_nodes t) a"
  by (auto simp: hook_def path_hook_def upd_node_def split: list.split)

lemma meta_store: "meta (t\<lparr>t_nodes := (t_nodes t)(y := n)\<rparr>) = (fst (meta t), (snd (meta t))(y := (n_data n, n_being_freed n)))"
  by (simp add: meta_def fun_eq_iff)

lemma hook_root: "t_root (hook ps x t) = (if ps = [] then x else t_root t)"
  by (auto simp: hook_def upd_node_def split: list.split)

lemma meta_hook [simp]: "meta (hook ps x t) = meta t"
  by (auto simp: hook_def split: list.split)

lemma path_hook_out: "a \<notin> set (paddrs ps) \<Longrightarrow> path_hook ps y m a = m a"
  by (cases ps rule: ppar.cases) (auto simp: path_hook_def)

text \<open>The part of the tree above a subtree.\<close>

definition outer :: "rb_tree \<Rightarrow> path \<Rightarrow> rptr \<Rightarrow> bool" where
  "outer t ps x \<longleftrightarrow> is_path (t_nodes t) (t_root t) ps x \<and> distinct (paddrs ps) \<and> set (paddrs ps) \<inter> {NIL, NULL} = {} \<and>
     n_colour (node t NIL) = BLACK \<and> n_left (node t NIL) = NIL \<and> n_right (node t NIL) = NIL"

lemma rep_outer: "rep t ps s \<Longrightarrow> outer t ps (rootp s)"
  by (auto simp: rep_def outer_def)

lemma outer_upd: "outer t ps x \<Longrightarrow> y \<notin> set (paddrs ps) \<Longrightarrow> y \<noteq> NIL \<Longrightarrow> outer (t\<lparr>t_nodes := (t_nodes t)(y := n)\<rparr>) ps x"
  by (simp add: outer_def)

lemma rep_hook:
  assumes r: "outer t ps x" and s': "is_tree (t_nodes t) (ppar ps) s'" "distinct (addrs s')" "set (addrs s') \<inter> ({NIL, NULL} \<union> set (paddrs ps)) = {}"
  shows "rep (hook ps (rootp s') t) ps s'"
proof -
  let ?t = "hook ps (rootp s') t"
  have a: "is_path (t_nodes t) (t_root t) ps x" "distinct (paddrs ps)" "set (paddrs ps) \<inter> {NIL, NULL} = {}" using r by (simp_all add: outer_def)
  have "is_path (t_nodes ?t) (t_root ?t) ps (rootp s')" using a(1,2) by (rule is_path_hook) (simp_all add: hook_node hook_root)
  moreover have "is_tree (t_nodes ?t) (ppar ps) s' = is_tree (t_nodes t) (ppar ps) s'"
    using s'(3) by (intro is_tree_cong trans [OF hook_node path_hook_out]) auto
  moreover have "node ?t NIL = node t NIL" using a(3) by (intro trans [OF hook_node path_hook_out]) auto
  moreover have "distinct (paddrs ps @ addrs s')" "set (paddrs ps @ addrs s') \<inter> {NIL, NULL} = {}" using a s' by auto
  ultimately show ?thesis using r s'(1) unfolding rep_def outer_def by simp
qed

text \<open>A new red node at the end of a path.\<close>

definition new_node :: "rptr \<Rightarrow> nat \<Rightarrow> rb_node" where
  "new_node parent data = \<lparr>n_left = NIL, n_right = NIL, n_parent = parent, n_data = data, n_colour = RED, n_being_freed = False\<rparr>"

lemma rep_new:
  assumes r: "rep t ps Leaf" and x: "x \<notin> set (paddrs ps)" "x \<noteq> NIL" "x \<noteq> NULL"
  shows "rep (hook ps x (t\<lparr>t_nodes := (t_nodes t)(x := new_node (ppar ps) data)\<rparr>)) ps (Node Leaf x RED Leaf)"
  using rep_hook [OF outer_upd [OF rep_outer [OF r] x(1,2)], where s' = "Node Leaf x RED Leaf"] x by (simp add: new_node_def)

text \<open>Unlinking a node that has at most one child.\<close>

definition unlinked :: "path \<Rightarrow> rptr \<Rightarrow> rb_tree \<Rightarrow> rb_tree" where
  "unlinked ps x t = hook ps x (if x \<noteq> NIL then set_parent x (ppar ps) t else t)"

lemma meta_unlinked [simp]: "meta (unlinked ps x t) = meta t"
  by (simp add: unlinked_def)

lemma rep_unlinked:
  assumes r: "rep t ps (nd d Leaf y c u)"
  shows "rep (unlinked ps (rootp u) t) ps u"
proof -
  let ?t = "if rootp u \<noteq> NIL then set_parent (rootp u) (ppar ps) t else t"
  have u: "rep t ((opp d, y, c, Leaf) # ps) u" using r by (simp only: focus)
  have i: "is_tree (t_nodes t) y u" "distinct (addrs u)" "set (addrs u) \<inter> ({NIL, NULL} \<union> set (paddrs ps)) = {}" using u by (auto simp: rep_def)
  have "is_tree (t_nodes ?t) (ppar ps) u"
    using is_tree_reparent [OF i(1,2)] rep_sub(1) [OF u] by (cases "u = Leaf") (simp_all add: upd_node_def)
  moreover have "outer ?t ps y" using rep_outer [OF r] outer_upd [OF rep_outer [OF r]] rep_sub(2) [OF u] by (simp add: upd_node_def)
  ultimately show ?thesis unfolding unlinked_def using i(2,3) by (intro rep_hook)
qed

section \<open>The order of the nodes\<close>

text \<open>What the trees need of a comparison function.\<close>

locale rb_order =
  fixes cmp :: "nat \<Rightarrow> nat \<Rightarrow> int"
  assumes cmp_swap: "cmp a b < 0 \<longleftrightarrow> 0 < cmp b a"
    and cmp_trans: "cmp a b \<le> 0 \<Longrightarrow> cmp b c \<le> 0 \<Longrightarrow> cmp a c \<le> 0"
begin

lemma cmp_less_le_trans: "cmp a b < 0 \<Longrightarrow> cmp b c \<le> 0 \<Longrightarrow> cmp a c < 0"
  using cmp_trans [of b c a] cmp_swap [of a b] cmp_swap [of c a] cmp_swap [of a c] cmp_swap [of b c]  cmp_swap [of c b] by linarith

lemma cmp_le_less_trans: "cmp a b \<le> 0 \<Longrightarrow> cmp b c < 0 \<Longrightarrow> cmp a c < 0"
  using cmp_trans [of c a b] cmp_swap [of b c] cmp_swap [of a c] cmp_swap [of c a] by linarith

lemma cmp_refl: "cmp a a = 0"
  using cmp_swap [of a a] by linarith

lemma cmp_eq_sym: "cmp a b = 0 \<longleftrightarrow> cmp b a = 0"
  using cmp_swap [of a b] cmp_swap [of b a] by linarith

text \<open>In a sorted sequence the searched data splits the nodes into those before, at most one match, and those after.\<close>

lemma sorted_below:
  assumes "sorted_wrt (\<lambda>a b. cmp (f a) (f b) < 0) (xs @ a # ys)" "cmp v (f a) \<le> 0" "b \<in> set ys"
  shows "cmp v (f b) < 0"
  using assms by (auto simp: sorted_wrt_append intro: cmp_le_less_trans)

lemma sorted_above:
  assumes "sorted_wrt (\<lambda>a b. cmp (f a) (f b) < 0) (xs @ a # ys)" "0 \<le> cmp v (f a)" "b \<in> set xs"
  shows "0 < cmp v (f b)"
proof -
  have "cmp (f b) (f a) < 0" using assms by (auto simp: sorted_wrt_append)
  then have "cmp (f b) v < 0" using assms(2) cmp_swap [of v "f a"] cmp_swap [of "f a" v] cmp_less_le_trans [of "f b" "f a" v] by linarith
  then show ?thesis by (simp add: cmp_swap)
qed

end

abbreviation data_of :: "rb_tree \<Rightarrow> rptr \<Rightarrow> nat" where
  "data_of t a \<equiv> n_data (node t a)"

definition rb_sorted :: "(nat \<Rightarrow> nat \<Rightarrow> int) \<Rightarrow> rb_tree \<Rightarrow> rptr list \<Rightarrow> bool" where
  "rb_sorted cmp t as \<longleftrightarrow> sorted_wrt (\<lambda>a b. cmp (data_of t a) (data_of t b) < 0) as"

lemma rb_sorted_cong: "(\<And>a. a \<in> set as \<Longrightarrow> data_of t a = data_of t' a) \<Longrightarrow> rb_sorted cmp t as = rb_sorted cmp t' as"
  by (induction as) (auto simp: rb_sorted_def)

section \<open>Search\<close>

context rb_order
begin

text \<open>The search of an insertion ends at a match or at the one place where the new data keeps the order.\<close>

lemma insert_search_ok:
  assumes "rep t ps s" "rb_sorted cmp t (addrs (plug ps s))"
    "\<And>a. a \<in> set (left_of ps) \<Longrightarrow> 0 < cmp v (data_of t a)" "\<And>a. a \<in> set (right_of ps) \<Longrightarrow> cmp v (data_of t a) < 0"
  shows "(\<exists>a\<in>set (addrs (plug ps s)). cmp v (data_of t a) = 0 \<and> insert_search cmp v (rootp s) (ppar ps) t = Some (Inl a)) \<or>
    (\<exists>ps'. insert_search cmp v (rootp s) (ppar ps) t = Some (Inr (ppar ps')) \<and> plug ps' Leaf = plug ps s \<and>
      (\<forall>a\<in>set (left_of ps'). 0 < cmp v (data_of t a)) \<and> (\<forall>a\<in>set (right_of ps'). cmp v (data_of t a) < 0))"
  using assms
proof (induction s arbitrary: ps)
  case Leaf
  then show ?case by (intro disjI2 exI [of _ ps]) (auto simp: insert_search.simps)
next
  case (Node l a c r)
  let ?res = "cmp v (data_of t a)"
  have a: "n_left (node t a) = rootp l" "n_right (node t a) = rootp r" "a \<noteq> NIL" using Node.prems(1) by (auto simp: rep_def)
  have so: "sorted_wrt (\<lambda>a b. cmp (data_of t a) (data_of t b) < 0) ((left_of ps @ addrs l) @ a # (addrs r @ right_of ps))"
    using Node.prems(2) by (simp add: rb_sorted_def addrs_plug)
  consider "?res = 0" | "?res < 0" | "?res > 0" by linarith
  then show ?case
  proof cases
    case 1
    then show ?thesis using a(3) insert_search.simps [of cmp v a "ppar ps" t] by (intro disjI1 bexI [of _ a]) (auto simp: addrs_plug)
  next
    case 2
    let ?ps = "(DL, a, c, r) # ps"
    have "rep t ?ps l" "plug ?ps l = plug ps (Node l a c r)" using Node.prems(1) by (simp_all add: rep_up nd_def)
    moreover have "cmp v (data_of t b) < 0" if "b \<in> set (right_of ?ps)" for b using that 2 Node.prems(4) sorted_below [OF so, of v b] by auto
    moreover have "insert_search cmp v (rootp (Node l a c r)) (ppar ps) t = insert_search cmp v (rootp l) (ppar ?ps) t"
      using 2 a by (subst insert_search.simps) simp
    ultimately show ?thesis using Node.IH(1) [of ?ps] Node.prems(2,3) by simp
  next
    case 3
    let ?ps = "(DR, a, c, l) # ps"
    have "rep t ?ps r" "plug ?ps r = plug ps (Node l a c r)" using Node.prems(1) by (simp_all add: rep_up nd_def)
    moreover have "0 < cmp v (data_of t b)" if "b \<in> set (left_of ?ps)" for b using that 3 Node.prems(3) sorted_above [OF so, of v b] by auto
    moreover have "insert_search cmp v (rootp (Node l a c r)) (ppar ps) t = insert_search cmp v (rootp r) (ppar ?ps) t"
      using 3 a by (subst insert_search.simps) simp
    ultimately show ?thesis using Node.IH(2) [of ?ps] Node.prems(2,4) by simp
  qed
qed

lemma find_loop_search:
  assumes "is_tree (t_nodes t) par s" "NIL \<notin> set (addrs s)"
  shows "find_loop cmp v (rootp s) t = map_option (case_sum id (\<lambda>_. NULL)) (insert_search cmp v (rootp s) p t)"
  using assms
proof (induction s arbitrary: par p)
  case Leaf
  show ?case by (simp add: find_loop.simps insert_search.simps)
next
  case (Node l a c r)
  have a: "n_left (node t a) = rootp l" "n_right (node t a) = rootp r" "a \<noteq> NIL" using Node.prems by auto
  have "find_loop cmp v (rootp l) t = map_option (case_sum id (\<lambda>_. NULL)) (insert_search cmp v (rootp l) a t)"
    "find_loop cmp v (rootp r) t = map_option (case_sum id (\<lambda>_. NULL)) (insert_search cmp v (rootp r) a t)"
    using Node by auto
  then show ?case using a find_loop.simps [of cmp v a t] insert_search.simps [of cmp v a p t] by (simp add: Let_def)
qed

lemma data_unique:
  assumes "rb_sorted cmp t as" "a \<in> set as" "b \<in> set as" "cmp v (data_of t a) = 0" "cmp v (data_of t b) = 0"
  shows "a = b"
proof (rule ccontr)
  assume "a \<noteq> b"
  obtain xs ys where as: "as = xs @ a # ys" using split_list [OF assms(2)] by blast
  then have "b \<in> set xs \<or> b \<in> set ys" using assms(3) \<open>a \<noteq> b\<close> by auto
  then show False using assms(1,4,5) sorted_below [of "data_of t" xs a ys v b] sorted_above [of "data_of t" xs a ys v b]
    unfolding rb_sorted_def as by auto
qed

end

section \<open>The trees of the interface\<close>

definition rb_inv :: "(nat \<Rightarrow> nat \<Rightarrow> int) \<Rightarrow> rb_tree \<Rightarrow> rptr list \<Rightarrow> bool" where
  "rb_inv cmp t as \<longleftrightarrow> (\<exists>s. rep t [] s \<and> rbt s \<and> addrs s = as) \<and> rb_sorted cmp t as \<and> t_num_elements t = of_nat (length as) \<and>
     (\<forall>a\<in>set as. \<not> n_being_freed (node t a)) \<and> \<not> t_being_freed t"

definition rb_match :: "(nat \<Rightarrow> nat \<Rightarrow> int) \<Rightarrow> rb_tree \<Rightarrow> nat \<Rightarrow> rptr list \<Rightarrow> rptr option" where
  "rb_match cmp t v as = find (\<lambda>a. cmp v (data_of t a) = 0) as"

definition rb_place :: "(nat \<Rightarrow> nat \<Rightarrow> int) \<Rightarrow> rb_tree \<Rightarrow> nat \<Rightarrow> rptr \<Rightarrow> rptr list \<Rightarrow> rptr list" where
  "rb_place cmp t v x as = takeWhile (\<lambda>a. 0 < cmp v (data_of t a)) as @ x # dropWhile (\<lambda>a. 0 < cmp v (data_of t a)) as"

lemma rb_place_sel: "length (rb_place cmp t v x as) = Suc (length as)" "set (rb_place cmp t v x as) = insert x (set as)"
proof -
  have "length (rb_place cmp t v x as) = Suc (length (takeWhile (\<lambda>a. 0 < cmp v (data_of t a)) as @ dropWhile (\<lambda>a. 0 < cmp v (data_of t a)) as))"
    "set (rb_place cmp t v x as) = insert x (set (takeWhile (\<lambda>a. 0 < cmp v (data_of t a)) as @ dropWhile (\<lambda>a. 0 < cmp v (data_of t a)) as))"
    by (auto simp: rb_place_def simp del: takeWhile_dropWhile_id)
  then show "length (rb_place cmp t v x as) = Suc (length as)" "set (rb_place cmp t v x as) = insert x (set as)"
    unfolding takeWhile_dropWhile_id by auto
qed

text \<open>The counter is no part of the tree.\<close>

lemma num_update [simp]: "rep (t\<lparr>t_num_elements := n\<rparr>) ps s = rep t ps s" "rb_sorted cmp (t\<lparr>t_num_elements := n\<rparr>) as = rb_sorted cmp t as"
  by (simp_all add: rep_def rb_sorted_def)

lemma rb_inv_addrs: "rb_inv cmp t as \<Longrightarrow> distinct as \<and> NIL \<notin> set as \<and> NULL \<notin> set as"
  by (auto simp: rb_inv_def rep_def)

lemma rb_match_None: "rb_match cmp t v as = None \<longleftrightarrow> (\<forall>a\<in>set as. cmp v (data_of t a) \<noteq> 0)"
  by (auto simp: rb_match_def find_None_iff)

lemma rb_match_Some: "rb_match cmp t v as = Some a \<Longrightarrow> a \<in> set as \<and> cmp v (data_of t a) = 0"
  by (auto simp: rb_match_def find_Some_iff)

context rb_order
begin

lemma rb_match_eq:
  assumes "rb_sorted cmp t as" "a \<in> set as" "cmp v (data_of t a) = 0"
  shows "rb_match cmp t v as = Some a"
proof (cases "rb_match cmp t v as")
  case None then show ?thesis using assms by (auto simp: rb_match_None)
next
  case (Some b)
  then show ?thesis using data_unique [OF assms(1,2), of b v] assms(3) rb_match_Some [OF Some] by simp
qed

text \<open>The search of an insertion, from the root.\<close>

lemma insert_search_root [consumes 1]:
  assumes "rb_inv cmp t as"
  obtains (found) a where "rb_match cmp t v as = Some a" "insert_search cmp v (t_root t) NIL t = Some (Inl a)"
  | (missing) ps where "rb_match cmp t v as = None" "insert_search cmp v (t_root t) NIL t = Some (Inr (ppar ps))" "rep t ps Leaf" "rbt (plug ps Leaf)"
      "as = left_of ps @ right_of ps" "\<forall>a\<in>set (left_of ps). 0 < cmp v (data_of t a)" "\<forall>a\<in>set (right_of ps). cmp v (data_of t a) < 0"
proof -
  obtain s where s: "rep t [] s" "rbt s" "addrs s = as" "rb_sorted cmp t as" using assms by (auto simp: rb_inv_def)
  have root: "t_root t = rootp s" using s(1) by (simp add: rep_def)
  have "(\<exists>a\<in>set as. cmp v (data_of t a) = 0 \<and> insert_search cmp v (t_root t) NIL t = Some (Inl a)) \<or>
    (\<exists>ps. insert_search cmp v (t_root t) NIL t = Some (Inr (ppar ps)) \<and> plug ps Leaf = s \<and>
      (\<forall>a\<in>set (left_of ps). 0 < cmp v (data_of t a)) \<and> (\<forall>a\<in>set (right_of ps). cmp v (data_of t a) < 0))"
    using insert_search_ok [of t "[]" s v] s root by simp
  then show thesis
  proof (elim disjE bexE exE conjE)
    fix a assume "a \<in> set as" "cmp v (data_of t a) = 0" "insert_search cmp v (t_root t) NIL t = Some (Inl a)"
    then show thesis using found rb_match_eq s(4) by blast
  next
    fix ps assume ps: "insert_search cmp v (t_root t) NIL t = Some (Inr (ppar ps))" "plug ps Leaf = s"
      "\<forall>a\<in>set (left_of ps). 0 < cmp v (data_of t a)" "\<forall>a\<in>set (right_of ps). cmp v (data_of t a) < 0"
    have as: "as = left_of ps @ right_of ps" using addrs_plug [of ps Leaf] ps(2) s(3) by simp
    then have "rb_match cmp t v as = None" using ps(3,4) by (auto simp: rb_match_None)
    then show thesis using missing ps s(1,2) as rep_plug [of t ps Leaf] by auto
  qed
qed

lemma rb_place_split:
  assumes "\<forall>a\<in>set xs. 0 < cmp v (data_of t a)" "\<forall>a\<in>set ys. cmp v (data_of t a) < 0"
  shows "rb_place cmp t v x (xs @ ys) = xs @ x # ys"
  using assms by (cases ys) (auto simp: rb_place_def)

lemma hook_code:
  assumes "outer t ps y" "\<forall>a\<in>set (left_of ps). 0 < cmp v (data_of t a)" "\<forall>a\<in>set (right_of ps). cmp v (data_of t a) < 0"
  shows "(if ppar ps \<noteq> NIL then if cmp v (data_of t (ppar ps)) \<le> 0 then set_left (ppar ps) x t else set_right (ppar ps) x t
    else t\<lparr>t_root := x\<rparr>) = hook ps x t"
proof (cases ps rule: ppar.cases)
  case (2 d a c u ps')
  then show ?thesis using assms by (cases d) (auto simp: hook_def outer_def kid_update_LR)
qed (simp add: hook_def)

text \<open>The tree after the insertion.\<close>

lemma insert_node_found:
  assumes "rb_inv cmp t as" "rb_match cmp t v as = Some a"
  shows "insert_node cmp v x t = Some (1, Some a, t)"
  using assms(1)
proof (cases rule: insert_search_root [where v = v])
  case (found b)
  then show ?thesis using assms by (simp add: insert_node_def rb_inv_def)
qed (use assms in simp)

lemma insert_node_no_memory:
  assumes "rb_inv cmp t as" "rb_match cmp t v as = None"
  shows "insert_node cmp v None t = Some (- 1, None, t)"
  using assms(1)
proof (cases rule: insert_search_root [where v = v])
  case (missing ps)
  then show ?thesis using assms by (simp add: insert_node_def rb_inv_def)
qed (use assms in simp)

lemma insert_node_ok:
  assumes inv: "rb_inv cmp t as" and "rb_match cmp t v as = None" and x: "x \<notin> set as" "x \<noteq> NIL" "x \<noteq> NULL"
  shows "\<exists>t'. insert_node cmp v (Some x) t = Some (0, None, t') \<and> rb_inv cmp t' (rb_place cmp t v x as) \<and>
    (\<forall>a. data_of t' a = (if a = x then v else data_of t a)) \<and> t_freed t' = t_freed t \<and> t_inline t' = t_inline t \<and> t_data_free t' = t_data_free t"
  using inv
proof (cases rule: insert_search_root [where v = v])
  case (found a)
  then show ?thesis using assms by simp
next
  case (missing ps)
  let ?t1 = "t\<lparr>t_nodes := (t_nodes t)(x := new_node (ppar ps) v)\<rparr>"
  let ?s = "Node Leaf x RED Leaf"
  have xp: "x \<notin> set (paddrs ps)" using x missing(5) set_left_right_of [of ps] by auto
  have o: "outer ?t1 ps NIL" using outer_upd [OF rep_outer [OF missing(3)] xp x(2)] by simp
  have h: "(if ppar ps \<noteq> NIL then if cmp v (data_of ?t1 (ppar ps)) \<le> 0 then set_left (ppar ps) x ?t1 else set_right (ppar ps) x ?t1
    else ?t1\<lparr>t_root := x\<rparr>) = hook ps x ?t1"
    using o missing(5-7) x(1) by (intro hook_code) auto
  have r: "rep (hook ps x ?t1) ps ?s" by (rule rep_new [OF missing(3) xp x(2,3)])
  obtain t' s' where t': "insert_fixup x (hook ps x ?t1) = Some t'" "rep t' [] s'" "addrs s' = addrs (plug ps ?s)" "rbt s'" "meta t' = meta (hook ps x ?t1)"
    using insert_fixup_ok [OF r] missing(4) by (auto simp: rbt_plug)
  have as: "addrs s' = rb_place cmp t v x as" using t'(3) rb_place_split [OF missing(6,7)] missing(5) by (simp add: addrs_plug)
  have d: "data_of t' a = (if a = x then v else data_of t a)" "n_being_freed (node t' a) = (if a = x then False else n_being_freed (node t a))"
    "t_num_elements t' = t_num_elements t" "t_freed t' = t_freed t" "t_inline t' = t_inline t" "t_data_free t' = t_data_free t" "t_being_freed t' = t_being_freed t" for a
    using metaD [OF t'(5) [unfolded meta_hook]] by (simp_all add: new_node_def)
  have "rb_sorted cmp t as = rb_sorted cmp t' as" using d(1) x(1) by (intro rb_sorted_cong) auto
  then have "rb_sorted cmp t' (left_of ps @ right_of ps)" using inv missing(5) by (simp add: rb_inv_def)
  then have "rb_sorted cmp t' (rb_place cmp t v x as)"
    using d(1) x(1) missing(5-7) cmp_swap unfolding rb_place_split [OF missing(6,7), of x, folded missing(5)] rb_sorted_def
    by (auto simp: sorted_wrt_append)
  then have "rb_inv cmp (t'\<lparr>t_num_elements := t_num_elements t' + 1\<rparr>) (rb_place cmp t v x as)"
    using t'(2,4) as d inv unfolding rb_inv_def rb_place_sel by (auto simp: rb_place_sel)
  moreover have "insert_node cmp v (Some x) t = Some (0, None, t'\<lparr>t_num_elements := t_num_elements t' + 1\<rparr>)"
    using inv missing(2) h t'(1) by (simp add: insert_node_def rb_inv_def new_node_def Let_def cong: if_cong)
  ultimately show ?thesis using d by auto
qed

lemma find_node_ok:
  assumes "rb_inv cmp t as"
  shows "find_node cmp v t = Some (case rb_match cmp t v as of None \<Rightarrow> NULL | Some a \<Rightarrow> a)"
proof -
  obtain s where s: "rep t [] s" "\<not> t_being_freed t" using assms by (auto simp: rb_inv_def)
  then have "find_loop cmp v (t_root t) t = map_option (case_sum id (\<lambda>_. NULL)) (insert_search cmp v (t_root t) NIL t)"
    using find_loop_search [of t NIL s v NIL] by (auto simp: rep_def)
  with assms show ?thesis using s(2)
    by (cases rule: insert_search_root [where v = v]) (simp_all add: find_node_def)
qed

end

section \<open>Deletion\<close>

text \<open>The node that leaves its place, and its unlinking as the code does it.\<close>

lemma unlink_code:
  assumes r: "rep t ps (nd d Leaf y c u)"
  shows "(if n_left (node t y) \<noteq> NIL then n_left (node t y) else n_right (node t y)) = rootp u" "n_parent (node t y) = ppar ps"
    "unlink_node y (rootp u) (ppar ps) t = unlinked ps (rootp u) t" "n_colour (node (unlinked ps (rootp u) t) y) = c"
proof -
  note n = rep_nd [OF r]
  show "(if n_left (node t y) \<noteq> NIL then n_left (node t y) else n_right (node t y)) = rootp u" "n_parent (node t y) = ppar ps"
    using n(1,3,4) by (cases d; auto simp: kid_def)+
  have k: "n_left (node (if q then set_parent x p t else t) a) = n_left (node t a)" for q x p a by (simp add: upd_node_def)
  show "unlink_node y (rootp u) (ppar ps) t = unlinked ps (rootp u) t"
  proof (cases ps rule: ppar.cases)
    case (2 d' a c' u' ps')
    have "y = n_left (node t a) \<longleftrightarrow> DL = d'" using kid_side [of t d' a c' u' ps' "nd d Leaf y c u" DL] r 2 by (simp add: kid_def)
    then show ?thesis using 2 n(10) unfolding unlink_node_def Let_def k by (cases d') (auto simp: unlinked_def hook_def kid_update_LR)
  qed (simp add: unlinked_def hook_def unlink_node_def)
  have "n_colour (node (hook ps x t) a) = n_colour (node t a)" for x a t by (auto simp: hook_node path_hook_def split: list.split)
  then show "n_colour (node (unlinked ps (rootp u) t) y) = c" using n(2) by (auto simp: unlinked_def upd_node_def)
qed

lemma unlink_fix:
  assumes r: "rep t ps (nd d Leaf y c u)" and b: "rbt (plug ps (nd d Leaf y c u))"
  shows "\<exists>t' s'. (if c = BLACK then delete_fixup (rootp u) (ppar ps) (unlinked ps (rootp u) t) else Some (unlinked ps (rootp u) t)) = Some t' \<and>
    rep t' [] s' \<and> rbt s' \<and> addrs s' = left_of ps @ addrs u @ right_of ps \<and> meta t' = meta t"
proof -
  note ru = rep_unlinked [OF r]
  have i: "invh u" "invc u" "path_c ps c" "bheight u = 0" "path_h ps (if c = BLACK then 1 else 0)" "c = RED \<longrightarrow> tcol u = BLACK \<and> ps \<noteq> []"
    using b unfolding rbt_plug by (auto simp: bheight_nd)
  show ?thesis
  proof (cases c)
    case BLACK
    then show ?thesis using delete_fixup_ok [OF ru i(1)] i invc_invc2 [of u] by (auto simp: addrs_plug)
  next
    case RED
    then have "rbt (plug ps u)" using i path_c_BLACK by (auto simp: rbt_plug)
    then show ?thesis using RED ru rep_plug by (auto simp: addrs_plug intro!: exI [of _ "plug ps u"])
  qed
qed

lemma leftmost_ok:
  assumes "rep t ps (Node l a c r)"
  obtains qs y e v where "leftmost a t = Some y" "plug qs (Node Leaf y e v) = plug ps (Node l a c r)" "left_of qs = left_of ps"
proof -
  have "\<exists>qs y e v. leftmost a t = Some y \<and> plug qs (Node Leaf y e v) = plug ps (Node l a c r) \<and> left_of qs = left_of ps"
    using assms
  proof (induction l arbitrary: ps a c r)
    case Leaf
    then have "n_left (node t a) = NIL" by (simp add: rep_def)
    then have "leftmost a t = Some a" by (simp add: leftmost.simps)
    then show ?case by blast
  next
    case (Node l1 b e l2)
    have "n_left (node t a) = b" "b \<noteq> NIL" using Node.prems by (auto simp: rep_def)
    then have "leftmost a t = leftmost b t" by (subst leftmost.simps) simp
    moreover have "rep t ((DL, a, c, r) # ps) (Node l1 b e l2)" using Node.prems by (simp add: rep_up nd_def)
    ultimately show ?case using Node.IH(1) [of "(DL, a, c, r) # ps" b e l2] by (auto simp: nd_def)
  qed
  then show thesis using that by blast
qed

text \<open>The successor takes the place of the deleted node.\<close>

lemma rep_outer_iff: "rep t ps s \<longleftrightarrow> outer t ps (rootp s) \<and> is_tree (t_nodes t) (ppar ps) s \<and> distinct (addrs s) \<and>
  set (addrs s) \<inter> ({NIL, NULL} \<union> set (paddrs ps)) = {}"
  by (auto simp: rep_def outer_def)

lemma outer_hook:
  assumes "outer t ps x"
  shows "outer (hook ps y t) ps y"
proof -
  have "node (hook ps y t) NIL = node t NIL" using assms by (intro trans [OF hook_node path_hook_out]) (auto simp: outer_def)
  moreover have "is_path (t_nodes (hook ps y t)) (t_root (hook ps y t)) ps y"
    using assms unfolding outer_def by (elim conjE) (rule is_path_hook, assumption+, simp_all add: hook_node hook_root)
  ultimately show ?thesis using assms by (simp add: outer_def)
qed

definition reparent :: "rptr \<Rightarrow> rptr \<Rightarrow> rptr \<Rightarrow> rb_tree \<Rightarrow> rb_tree" where
  "reparent z y a t = (if n_parent (node t a) = z then set_parent a y t else t)"

lemma reparent_links [simp]:
  "n_left (node (reparent z y a t) b) = n_left (node t b)" "n_right (node (reparent z y a t) b) = n_right (node t b)"
  "n_colour (node (reparent z y a t) b) = n_colour (node t b)" "meta (reparent z y a t) = meta t"
  by (simp_all add: reparent_def upd_node_def) (simp add: upd_node_def [symmetric])

lemma reparent_frame:
  "b \<noteq> a \<Longrightarrow> node (reparent z y a t) b = node t b" "outer t ps x \<Longrightarrow> a \<notin> set (paddrs ps) \<Longrightarrow> outer (reparent z y a t) ps x"
  "a \<notin> set (addrs s) \<Longrightarrow> is_tree (t_nodes (reparent z y a t)) p s = is_tree (t_nodes t) p s"
  by (auto simp: reparent_def upd_node_def outer_def)

lemma is_tree_reparented:
  assumes "is_tree (t_nodes t) z s" "distinct (addrs s)"
  shows "is_tree (t_nodes (reparent z y (rootp s) t)) y s"
  using assms is_tree_reparent [OF assms, of y] by (cases s) (auto simp: reparent_def upd_node_def)

lemma rep_replace:
  assumes r: "rep t ps (Node l z c v)" and y: "y \<notin> set (paddrs ps)" "y \<notin> set (addrs (Node l z c v))" "y \<noteq> NIL" "y \<noteq> NULL"
  shows "rep (reparent z y (rootp v) (reparent z y (rootp l) (hook ps y (t\<lparr>t_nodes := (t_nodes t)(y := (node t z)\<lparr>n_data := w\<rparr>)\<rparr>))))
    ps (Node l y c v)" (is "rep ?t4 ps _")
proof -
  let ?t1 = "t\<lparr>t_nodes := (t_nodes t)(y := (node t z)\<lparr>n_data := w\<rparr>)\<rparr>"
  let ?t2 = "hook ps y ?t1" let ?t3 = "reparent z y (rootp l) ?t2"
  have d: "distinct (paddrs ps @ addrs (Node l z c v))" "set (paddrs ps @ addrs (Node l z c v)) \<inter> {NIL, NULL} = {}"
    and z: "n_parent (node t z) = ppar ps" "n_left (node t z) = rootp l" "n_right (node t z) = rootp v" "n_colour (node t z) = c"
      "is_tree (t_nodes t) z l" "is_tree (t_nodes t) z v"
    using r by (auto simp: rep_def)
  have rl: "rootp l \<notin> set (paddrs ps)" "rootp l \<noteq> y" "rootp l \<notin> set (addrs v)" and rv: "rootp v \<notin> set (paddrs ps)" "rootp v \<noteq> y" "rootp v \<notin> set (addrs l)"
    using d y rootp_cases [of l] rootp_cases [of v] by auto
  have n2: "node ?t2 a = (if a = y then (node t z)\<lparr>n_data := w\<rparr> else node t a)" if "a \<notin> set (paddrs ps)" for a
    using that by (simp add: hook_node path_hook_out)
  have "outer ?t2 ps y" using outer_hook [OF outer_upd [OF rep_outer [OF r] y(1,3)]] .
  then have "outer ?t4 ps y" using rl(1) rv(1) by (intro reparent_frame)
  moreover have i2: "is_tree (t_nodes ?t2) z l" "is_tree (t_nodes ?t2) z v"
  proof -
    have "node ?t2 a = node t a" if "a \<in> set (addrs l) \<union> set (addrs v)" for a using that d(1) y(2) by (subst n2) auto
    then show "is_tree (t_nodes ?t2) z l" "is_tree (t_nodes ?t2) z v"
      using z(5,6) is_tree_cong [of l "t_nodes ?t2" "t_nodes t" z] is_tree_cong [of v "t_nodes ?t2" "t_nodes t" z] by simp_all
  qed
  have "is_tree (t_nodes ?t4) y l" "is_tree (t_nodes ?t4) y v"
    using d(1) rl(3) rv(3) is_tree_reparented [OF i2(1)] is_tree_reparented [of ?t3 z v y] i2 by (simp_all add: reparent_frame(3))
  moreover have "n_parent (node ?t4 y) = ppar ps" using rl(2) rv(2) y(1) z(1) by (simp add: reparent_frame(1) n2)
  moreover have "n_left (node ?t4 y) = rootp l" "n_right (node ?t4 y) = rootp v" "n_colour (node ?t4 y) = c" using y(1) z by (simp_all add: n2)
  moreover have "distinct (addrs (Node l y c v))" "set (addrs (Node l y c v)) \<inter> ({NIL, NULL} \<union> set (paddrs ps)) = {}" using d y by auto
  ultimately show ?thesis unfolding rep_outer_iff by simp
qed

text \<open>The code tries both sides of the parent.\<close>

lemma replace_node_code:
  assumes r: "rep t ps (Node l z c v)" and y: "y \<notin> set (paddrs ps)" "y \<notin> set (addrs (Node l z c v))" "y \<noteq> NIL" "y \<noteq> NULL"
  shows "replace_node z y w t =
    reparent z y (rootp v) (reparent z y (rootp l) (hook ps y (t\<lparr>t_nodes := (t_nodes t)(y := (node t z)\<lparr>n_data := w\<rparr>)\<rparr>)))"
proof -
  define t1 where "t1 = t\<lparr>t_nodes := (t_nodes t)(y := (node t z)\<lparr>n_data := w\<rparr>)\<rparr>"
  have z: "n_parent (node t z) = ppar ps" "n_left (node t z) = rootp l" "n_right (node t z) = rootp v" using r by (auto simp: rep_def)
  have p: "n_parent (node t1 y) = ppar ps" by (simp add: t1_def z)
  have h: "(if n_parent (node t1 y) = NIL then t1\<lparr>t_root := y\<rparr>
    else let t2 = (if n_left (node t1 (n_parent (node t1 y))) = z then set_left (n_parent (node t1 y)) y t1 else t1)
      in if n_right (node t2 (n_parent (node t2 y))) = z then set_right (n_parent (node t2 y)) y t2 else t2) = hook ps y t1"
  proof (cases ps rule: ppar.cases)
    case (2 d a e u ps')
    have "z = kid d' (node t a) \<longleftrightarrow> d' = d" for d' using kid_side [of t d a e u ps' "Node l z c v" d'] r 2 by simp
    from this [of DL] this [of DR] have k: "n_left (node t a) = z \<longleftrightarrow> d = DL" "n_right (node t a) = z \<longleftrightarrow> d = DR" by (auto simp: kid_def)
    have a: "a \<noteq> NIL" "a \<noteq> y" using r y 2 by (auto simp: rep_def)
    then have "n_left (node t1 a) = z \<longleftrightarrow> d = DL" "n_right (node t1 a) = z \<longleftrightarrow> d = DR" using k by (simp_all add: t1_def)
    moreover have "n_parent (node (set_left a y t1) y) = a" "n_right (node (set_left a y t1) a) = n_right (node t1 a)"
      using p 2 a by (simp_all add: upd_node_def)
    ultimately show ?thesis using 2 p a by (cases d) (simp_all add: hook_def kid_update_LR)
  qed (simp add: p hook_def)
  have "node (hook ps y t1) y = node t1 y" using y(1) by (simp add: hook_node path_hook_out)
  then have k: "n_left (node (hook ps y t1) y) = rootp l" "n_right (node (hook ps y t1) y) = rootp v" by (simp_all add: t1_def z)
  show ?thesis unfolding replace_node_def t1_def [symmetric] unfolding Let_def using h unfolding Let_def
    by (simp only: reparent_def [symmetric] k reparent_links)
qed

text \<open>Giving back a node that is no longer in the tree.\<close>

lemma node_free_sel [simp]:
  "t_root (node_free z f t) = t_root t" "t_num_elements (node_free z f t) = t_num_elements t" "t_being_freed (node_free z f t) = t_being_freed t"
  "t_inline (node_free z f t) = t_inline t" "t_data_free (node_free z f t) = t_data_free t"
  "a \<noteq> z \<Longrightarrow> node (node_free z f t) a = node t a"
  by (simp_all add: node_free_def node_data_free_def upd_node_def Let_def)

lemma node_free_freed:
  "\<not> n_being_freed (node t z) \<Longrightarrow> t_freed (node_free z f t) = t_freed t @ (if f \<and> t_data_free t then [data_of t z] else [])"
  by (simp add: node_free_def node_data_free_def upd_node_def Let_def)

lemma node_free_rep:
  assumes "rep t ps s" "z \<notin> set (paddrs ps)" "z \<notin> set (addrs s)" "z \<noteq> NIL"
  shows "rep (node_free z f t) ps s"
proof -
  obtain n where "t_nodes (node_free z f t) = (t_nodes t)(z := n)"
    using that [of "node (node_free z f t) z"] by (auto simp: fun_eq_iff)
  then show ?thesis using assms by (simp add: rep_def)
qed

lemma node_free_out: "\<not> n_being_freed (node t z) \<Longrightarrow> \<not> fr_rb_node_inline_in_tree z (node_free z f t)"
  by (simp add: fr_rb_node_inline_in_tree_def node_free_def node_data_free_def zeroed_def Let_def upd_node_def)

text \<open>A node with at most one child is unlinked itself.\<close>

lemma delete_internal_simple:
  assumes r: "rep t ps (nd d Leaf z c u)" and b: "rbt (plug ps (nd d Leaf z c u))"
  obtains t' s' where "delete_internal z f t = Some ((node_free z f t')\<lparr>t_num_elements := t_num_elements t' - 1\<rparr>)"
    "rep t' [] s'" "rbt s'" "addrs s' = left_of ps @ addrs u @ right_of ps" "meta t' = meta t"
proof -
  obtain t' s' where t': "(if c = BLACK then delete_fixup (rootp u) (ppar ps) (unlinked ps (rootp u) t) else Some (unlinked ps (rootp u) t)) = Some t'"
    "rep t' [] s'" "rbt s'" "addrs s' = left_of ps @ addrs u @ right_of ps" "meta t' = meta t"
    using unlink_fix [OF r b] by blast
  note c = unlink_code [OF r] and n = rep_nd [OF r]
  have "n_left (node t z) = NIL \<or> n_right (node t z) = NIL" using n(3,4) by (cases d) (auto simp: kid_def)
  then have "delete_internal z f t = Some ((node_free z f t')\<lparr>t_num_elements := t_num_elements t' - 1\<rparr>)"
    using n(5,6) t'(1) unfolding delete_internal_def Let_def by (simp add: c cong: if_cong)
  then show thesis using that t' by blast
qed

text \<open>Otherwise its successor is unlinked and takes its place.\<close>

lemma delete_internal_double:
  assumes r: "rep t ps (Node l z c v)" and b: "rbt (plug ps (Node l z c v))" and lv: "l \<noteq> Leaf" "v \<noteq> Leaf"
  obtains y t' s' xs ys where "delete_internal z f t = Some ((node_free z f t')\<lparr>t_num_elements := t_num_elements t' - 1\<rparr>)"
    "rep t' [] s'" "rbt s'" "addrs (plug ps (Node l z c v)) = xs @ z # y # ys" "addrs s' = xs @ y # ys"
    "meta t' = meta (t\<lparr>t_nodes := (t_nodes t)(y := (node t y)\<lparr>n_being_freed := n_being_freed (node t z)\<rparr>)\<rparr>)"
proof -
  have rv: "rep t ((DR, z, c, l) # ps) v" using r by (simp add: rep_up nd_def)
  obtain v1 a e v2 where v: "v = Node v1 a e v2" using lv(2) by (cases v) auto
  obtain qs y k w where l: "leftmost a t = Some y" "plug qs (Node Leaf y k w) = plug ((DR, z, c, l) # ps) v" "left_of qs = left_of ((DR, z, c, l) # ps)"
    using leftmost_ok [OF rv [unfolded v]] v by metis
  have q: "rep t qs (nd DL Leaf y k w)" "rbt (plug qs (nd DL Leaf y k w))"
    using rv b l(2) rep_plug [of t qs "Node Leaf y k w"] rep_plug [of t "(DR, z, c, l) # ps" v] by (auto simp: nd_def)
  let ?xs = "left_of ps @ addrs l" and ?ys = "addrs w @ right_of qs"
  have as: "addrs (plug ps (Node l z c v)) = ?xs @ z # y # ?ys"
    using arg_cong [OF l(2), of addrs] l(3) by (simp add: nd_def addrs_plug [of qs])
  obtain t1 s1 where t1: "(if k = BLACK then delete_fixup (rootp w) (ppar qs) (unlinked qs (rootp w) t) else Some (unlinked qs (rootp w) t)) = Some t1"
    "rep t1 [] s1" "rbt s1" "addrs s1 = left_of qs @ addrs w @ right_of qs" "meta t1 = meta t"
    using unlink_fix [OF q] by blast
  have s1: "addrs s1 = ?xs @ z # ?ys" using t1(4) l(3) by simp
  then have "z \<in> set (addrs s1)" by simp
  then obtain ps1 l1 c1 v1 where ps1: "s1 = plug ps1 (Node l1 z c1 v1)" by (rule locate)
  have d: "distinct (?xs @ z # y # ?ys)" "NIL \<notin> set (?xs @ z # y # ?ys)" "NULL \<notin> set (?xs @ z # y # ?ys)"
    using r rep_plug [of t ps "Node l z c v"] unfolding as [symmetric] by (auto simp: rep_def)
  have b1: "left_of ps1 @ addrs l1 = ?xs" "addrs v1 @ right_of ps1 = ?ys"
  proof -
    have "(left_of ps1 @ addrs l1) @ z # (addrs v1 @ right_of ps1) = ?xs @ z # ?ys" using s1 unfolding ps1 addrs_plug by simp
    moreover have "z \<notin> set ?xs" "z \<notin> set ?ys" using d(1) by auto
    ultimately show "left_of ps1 @ addrs l1 = ?xs" "addrs v1 @ right_of ps1 = ?ys" using append_Cons_eq_iff by metis+
  qed
  have r1: "rep t1 ps1 (Node l1 z c1 v1)" using t1(2) rep_plug unfolding ps1 by blast
  have y: "y \<notin> set (paddrs ps1)" "y \<notin> set (addrs (Node l1 z c1 v1))" "y \<noteq> NIL" "y \<noteq> NULL"
  proof -
    have "y \<notin> set (addrs s1)" using s1 d(1) by auto
    then show "y \<notin> set (paddrs ps1)" "y \<notin> set (addrs (Node l1 z c1 v1))" unfolding ps1 set_plug by auto
  qed (use d in auto)
  let ?t2 = "replace_node z y (data_of t y) t1"
  have "rep ?t2 ps1 (Node l1 y c1 v1)" unfolding replace_node_code [OF r1 y] by (rule rep_replace [OF r1 y])
  moreover have "rbt (plug ps1 (Node l1 y c1 v1))" using t1(3) unfolding ps1 rbt_plug by auto
  moreover have "addrs (plug ps1 (Node l1 y c1 v1)) = ?xs @ y # ?ys" using b1 by (simp add: addrs_plug)
  moreover have "meta ?t2 = meta (t\<lparr>t_nodes := (t_nodes t)(y := (node t y)\<lparr>n_being_freed := n_being_freed (node t z)\<rparr>)\<rparr>)"
    using t1(5) metaD(7) [OF t1(5), of z] unfolding replace_node_code [OF r1 y] by (simp add: meta_store)
  moreover have "delete_internal z f t = Some ((node_free z f ?t2)\<lparr>t_num_elements := t_num_elements ?t2 - 1\<rparr>)"
  proof -
    have "n_left (node t z) \<noteq> NIL" "n_right (node t z) = a" "a \<noteq> NIL" "z \<noteq> NIL" "z \<noteq> NULL"
      using r v lv(1) rootp_cases [of l] by (auto simp: rep_def)
    moreover have "y \<noteq> z" "ppar qs \<noteq> NULL" "data_of (unlinked qs (rootp w) t) y = data_of t y"
      using d(1) q(1) by (auto simp: rep_def metaD(6) [OF meta_unlinked] elim: ppar.elims)
    ultimately show ?thesis using t1(1) l(1) metaD(4) [OF t1(5)] unfolding delete_internal_def Let_def by (simp add: unlink_code [OF q(1)] cong: if_cong)
  qed
  ultimately show thesis using that as rep_plug by blast
qed

text \<open>Both cases together: the tree before the deleted node is given back.\<close>

lemma delete_internal_tree:
  assumes inv: "rb_inv cmp t as" and z: "z \<in> set as"
  obtains t1 s1 where "delete_internal z f t = Some ((node_free z f t1)\<lparr>t_num_elements := t_num_elements t1 - 1\<rparr>)" "rep t1 [] s1" "rbt s1"
    "addrs s1 = remove1 z as" "\<forall>a. data_of t1 a = data_of t a" "\<forall>a\<in>set as. \<not> n_being_freed (node t1 a)"
    "t_data_free t1 = t_data_free t" "t_inline t1 = t_inline t" "t_being_freed t1 = t_being_freed t" "t_num_elements t1 = t_num_elements t" "t_freed t1 = t_freed t"
proof -
  obtain s where s: "rep t [] s" "rbt s" "addrs s = as" using inv by (auto simp: rb_inv_def)
  have "z \<in> set (addrs s)" using z s(3) by simp
  then obtain ps l c v where pl: "s = plug ps (Node l z c v)" by (rule locate)
  have r: "rep t ps (Node l z c v)" "rbt (plug ps (Node l z c v))" using s pl rep_plug by auto
  have d: "distinct as" using rb_inv_addrs [OF inv] by auto
  have fr: "\<not> n_being_freed (node t a)" if "a \<in> set as" for a using inv that by (auto simp: rb_inv_def)
  show thesis
  proof (cases "l = Leaf \<or> v = Leaf")
    case True
    then obtain d' u where u: "Node l z c v = nd d' Leaf z c u" "addrs l @ addrs v = addrs u"
      by (cases "l = Leaf"; auto simp: nd_def) (metis append.right_neutral addrs.simps(1) dir.case)+
    have "remove1 z as = left_of ps @ addrs u @ right_of ps"
      using s(3) d unfolding pl addrs_plug u(2) [symmetric] by (auto simp: remove1_append)
    moreover obtain t1 s1 where "delete_internal z f t = Some ((node_free z f t1)\<lparr>t_num_elements := t_num_elements t1 - 1\<rparr>)" "rep t1 [] s1" "rbt s1"
      "addrs s1 = left_of ps @ addrs u @ right_of ps" and m: "meta t1 = meta t"
      using delete_internal_simple [of t ps d' z c u f] r unfolding u(1) by blast
    ultimately show thesis using that [of t1 s1] metaD [OF m] fr by simp
  next
    case False
    then have "l \<noteq> Leaf" "v \<noteq> Leaf" by auto
    from delete_internal_double [OF r this, of f] obtain y t1 s1 xs ys where
      "delete_internal z f t = Some ((node_free z f t1)\<lparr>t_num_elements := t_num_elements t1 - 1\<rparr>)" "rep t1 [] s1" "rbt s1" "as = xs @ z # y # ys"
      "addrs s1 = xs @ y # ys" and m: "meta t1 = meta (t\<lparr>t_nodes := (t_nodes t)(y := (node t y)\<lparr>n_being_freed := n_being_freed (node t z)\<rparr>)\<rparr>)"
      using s(3) pl by metis
    moreover from this have "addrs s1 = remove1 z as" using d by (simp add: remove1_append)
    moreover have "data_of t1 a = data_of t a" "a \<in> set as \<Longrightarrow> \<not> n_being_freed (node t1 a)" for a
      using metaD(6,7) [OF m, of a] fr z by (auto split: if_splits)
    ultimately show thesis using that [of t1 s1] metaD(1-5) [OF m] by simp
  qed
qed

lemma sorted_wrt_remove1: "sorted_wrt P xs \<Longrightarrow> sorted_wrt P (remove1 z xs)"
  by (induction xs) (auto dest: notin_set_remove1)

lemma delete_internal_ok:
  assumes inv: "rb_inv cmp t as" and z: "z \<in> set as"
  shows "\<exists>t'. delete_internal z f t = Some t' \<and> rb_inv cmp t' (remove1 z as) \<and> (\<forall>a. a \<noteq> z \<longrightarrow> data_of t' a = data_of t a) \<and>
    t_freed t' = t_freed t @ (if f \<and> t_data_free t then [data_of t z] else []) \<and> t_inline t' = t_inline t \<and> t_data_free t' = t_data_free t \<and>
    \<not> fr_rb_node_inline_in_tree z t'"
proof -
  obtain t1 s1 where t1: "delete_internal z f t = Some ((node_free z f t1)\<lparr>t_num_elements := t_num_elements t1 - 1\<rparr>)" "rep t1 [] s1" "rbt s1"
    "addrs s1 = remove1 z as" and m: "\<forall>a. data_of t1 a = data_of t a" "\<forall>a\<in>set as. \<not> n_being_freed (node t1 a)"
      "t_data_free t1 = t_data_free t" "t_inline t1 = t_inline t" "t_being_freed t1 = t_being_freed t" "t_num_elements t1 = t_num_elements t" "t_freed t1 = t_freed t"
    using delete_internal_tree [OF inv z, of f] .
  let ?t = "(node_free z f t1)\<lparr>t_num_elements := t_num_elements t1 - 1\<rparr>"
  have z': "z \<notin> set (remove1 z as)" "z \<noteq> NIL" using z rb_inv_addrs [OF inv] by auto
  have "rep ?t [] s1" using node_free_rep [OF t1(2)] z' t1(4) by simp
  moreover have "rb_sorted cmp ?t (remove1 z as)"
  proof -
    have "rb_sorted cmp t (remove1 z as)" using inv by (simp add: rb_inv_def rb_sorted_def sorted_wrt_remove1)
    moreover have "rb_sorted cmp t (remove1 z as) = rb_sorted cmp ?t (remove1 z as)"
    proof (rule rb_sorted_cong)
      fix a assume "a \<in> set (remove1 z as)"
      then have "a \<noteq> z" using z'(1) by blast
      then show "data_of t a = data_of ?t a" using m(1) by simp
    qed
    ultimately show ?thesis by simp
  qed
  moreover have "t_num_elements ?t = of_nat (length (remove1 z as))" 
  proof -
    have "length as = Suc (length (remove1 z as))" using z length_pos_if_in_set [OF z] by (simp add: length_remove1)
    then show ?thesis using m(6) inv by (simp add: rb_inv_def)
  qed
  moreover have "\<not> n_being_freed (node ?t a)" if "a \<in> set (remove1 z as)" for a
  proof -
    have "a \<noteq> z" "a \<in> set as" using that z'(1) notin_set_remove1 by fast+
    then show ?thesis using m(2) by simp
  qed
  ultimately have "rb_inv cmp ?t (remove1 z as)" using t1(3,4) m(5) inv unfolding rb_inv_def by auto
  moreover have "\<not> fr_rb_node_inline_in_tree z ?t" using node_free_out [of t1 z f] m(2) z by (simp add: fr_rb_node_inline_in_tree_def)
  ultimately show ?thesis using t1(1) m node_free_freed [of t1 z f] z by simp
qed

end
