(* ===== verification/Rb_Interface.thy ===== *)
theory Rb_Interface
  imports Rb_Set
begin

text \<open>
  The interface of the red-black trees: what the functions of \<^verbatim>\<open>rb.h\<close> do to the sorted sequence of the nodes, and the in-order iterator.
\<close>

lemma rb_inv_no_free: "rb_inv cmp t as \<Longrightarrow> \<not> t_being_freed t"
  by (simp add: rb_inv_def)

lemma fr_rb_init_empty:
  assumes "fr_rb_init nodes offset data_free = Some t"
  shows "rb_inv cmp t []"
  using assms by (auto simp: fr_rb_init_def rb_inv_def rep_def rbt_def rb_sorted_def sentinel_def split: if_splits intro!: exI [of _ Leaf])

lemma fr_rb_find_match:
  assumes "rb_order cmp" "rb_inv cmp t as"
  shows "fr_rb_find cmp v t = Some (map_option (data_of t) (rb_match cmp t v as))"
  using rb_order.find_node_ok [OF assms, of v] rb_inv_no_free [OF assms(2)] rb_match_Some [of cmp t v as] rb_inv_addrs [OF assms(2)]
  by (auto simp: fr_rb_find_def split: option.splits)

text \<open>When a node compares equal it is taken out of the sequence, its data is freed once if the tree has a free function, and the
node no longer looks as if it were in the tree.\<close>

lemma fr_rb_delete_match:
  assumes "rb_order cmp" "rb_inv cmp t as" "rb_match cmp t v as = Some a"
  shows "\<exists>t'. fr_rb_delete cmp v t = Some (True, t') \<and> rb_inv cmp t' (remove1 a as) \<and> (\<forall>b. b \<noteq> a \<longrightarrow> data_of t' b = data_of t b) \<and>
    t_freed t' = t_freed t @ (if t_data_free t then [data_of t a] else []) \<and> \<not> fr_rb_node_inline_in_tree a t' \<and> t_data_free t' = t_data_free t"
proof -
  have a: "a \<in> set as" "a \<noteq> NULL" "\<not> n_being_freed (node t a)" "\<not> t_being_freed t"
    using rb_match_Some [OF assms(3)] rb_inv_addrs [OF assms(2)] assms(2) by (auto simp: rb_inv_def)
  show ?thesis using delete_internal_ok [OF assms(2) a(1), of True] rb_order.find_node_ok [OF assms(1,2), of v] a assms(3)
    by (auto simp: fr_rb_delete_def)
qed

lemma fr_rb_delete_absent:
  assumes "rb_order cmp" "rb_inv cmp t as" "rb_match cmp t v as = None"
  shows "fr_rb_delete cmp v t = Some (False, t)" "fr_rb_remove cmp v t = Some (None, t)"
  using rb_order.find_node_ok [OF assms(1,2), of v] rb_inv_no_free [OF assms(2)] assms(3) by (simp_all add: fr_rb_delete_def fr_rb_remove_def)

lemma fr_rb_remove_match:
  assumes "rb_order cmp" "rb_inv cmp t as" "rb_match cmp t v as = Some a"
  shows "\<exists>t'. fr_rb_remove cmp v t = Some (Some (data_of t a), t') \<and> rb_inv cmp t' (remove1 a as) \<and> (\<forall>b. b \<noteq> a \<longrightarrow> data_of t' b = data_of t b) \<and>
    t_freed t' = t_freed t \<and> \<not> fr_rb_node_inline_in_tree a t' \<and> t_inline t' = t_inline t \<and> t_data_free t' = t_data_free t"
proof -
  have a: "a \<in> set as" "a \<noteq> NULL" "\<not> n_being_freed (node t a)" "\<not> t_being_freed t"
    using rb_match_Some [OF assms(3)] rb_inv_addrs [OF assms(2)] assms(2) by (auto simp: rb_inv_def)
  show ?thesis using delete_internal_ok [OF assms(2) a(1), of False] rb_order.find_node_ok [OF assms(1,2), of v] a assms(3)
    by (auto simp: fr_rb_remove_def)
qed

section \<open>In-order iteration\<close>

definition rb_first :: "rptr list \<Rightarrow> rptr" where
  "rb_first as = (case as of [] \<Rightarrow> NIL | a # _ \<Rightarrow> a)"

lemma rb_first_simps [simp]: "rb_first [] = NIL" "rb_first (a # as) = a"
  by (simp_all add: rb_first_def)

lemma climb_ok: "rep t ps s \<Longrightarrow> s \<noteq> Leaf \<Longrightarrow> climb (rootp s) (ppar ps) t = Some (rb_first (right_of ps))"
proof (induction ps arbitrary: s)
  case Nil
  then show ?case by (simp add: climb.simps rb_first_def)
next
  case (Cons f ps)
  obtain d a c u where f: "f = (d, a, c, u)" by (cases f)
  have r: "rep t ps (nd d s a c u)" using Cons.prems(1) by (simp add: f rep_up)
  have "rootp s = n_right (node t a) \<longleftrightarrow> d = DR" using kid_side [of t d a c u ps s DR] Cons.prems by (auto simp: f kid_def)
  then show ?case using Cons.IH [OF r] rep_nd(1,5) [OF r] climb.simps [of "rootp s" a t] by (cases d) (auto simp: f rb_first_def)
qed

lemma leftmost_head:
  assumes "rep t ps s" "s \<noteq> Leaf"
  shows "leftmost (rootp s) t = Some (rb_first (addrs s @ right_of ps))"
proof -
  obtain l a c r where s: "s = Node l a c r" using assms(2) by (cases s) auto
  obtain qs y e v where q: "leftmost a t = Some y" "plug qs (Node Leaf y e v) = plug ps s" "left_of qs = left_of ps"
    using leftmost_ok [OF assms(1) [unfolded s]] s by metis
  from arg_cong [OF q(2), of addrs] have "addrs s @ right_of ps = y # addrs v @ right_of qs" using q(3) by (simp add: addrs_plug)
  then have "rb_first (addrs s @ right_of ps) = y" by (simp only: rb_first_simps)
  then show ?thesis using q(1) by (simp add: s)
qed

lemma fr_rb_iter_next_step:
  assumes inv: "rb_inv cmp t (xs @ a # ys)" and i: "i_node iter = a"
  shows "fr_rb_iter_next_inorder iter t = Some (data_ptr t (rb_first ys), iter\<lparr>i_node := rb_first ys\<rparr>)"
proof -
  obtain s where s: "rep t [] s" "addrs s = xs @ a # ys" using inv by (auto simp: rb_inv_def)
  have "a \<in> set (addrs s)" using s(2) by simp
  then obtain ps l c r where pl: "s = plug ps (Node l a c r)" by (rule locate)
  have rp: "rep t ps (Node l a c r)" using s(1) pl rep_plug by blast
  have rr: "rep t ((DR, a, c, l) # ps) r" using rp by (simp add: rep_up nd_def)
  have "a \<notin> set xs" "a \<notin> set ys" "a \<noteq> NIL" "a \<noteq> NULL" using rb_inv_addrs [OF inv] by auto
  moreover have "(left_of ps @ addrs l) @ a # (addrs r @ right_of ps) = xs @ a # ys" using s(2) by (simp add: pl addrs_plug)
  ultimately have ys: "ys = addrs r @ right_of ps" using append_Cons_eq_iff by metis
  have n: "n_right (node t a) = rootp r" "n_parent (node t a) = ppar ps" using rp by (auto simp: rep_def)
  show ?thesis
  proof (cases "r = Leaf")
    case True
    then show ?thesis using climb_ok [OF rp] n ys i \<open>a \<noteq> NIL\<close> \<open>a \<noteq> NULL\<close> by (simp add: fr_rb_iter_next_inorder_def Let_def)
  next
    case False
    then show ?thesis using leftmost_head [OF rr] rep_sub(1) [OF rr] n ys i \<open>a \<noteq> NIL\<close> \<open>a \<noteq> NULL\<close> by (simp add: fr_rb_iter_next_inorder_def Let_def)
  qed
qed

lemma fr_rb_iter_init_head:
  assumes "rb_inv cmp t as"
  shows "fr_rb_iter_init_inorder t = Some (if as = [] then (None, None) else (data_ptr t (rb_first as), Some \<lparr>i_node = rb_first as, i_next = NULL\<rparr>))"
proof -
  obtain s where s: "rep t [] s" "addrs s = as" using assms by (auto simp: rb_inv_def)
  have "t_root t = rootp s" "rootp s = NIL \<longleftrightarrow> s = Leaf" "as = [] \<longleftrightarrow> s = Leaf" using s rep_sub(1) [OF s(1)] by (auto simp: rep_def) (cases s; simp)
  then show ?thesis using leftmost_head [OF s(1)] s(2) by (simp add: fr_rb_iter_init_inorder_def)
qed

lemma flatten_loop_ok:
  assumes "rb_inv cmp t (xs @ ys)" "i_node iter = rb_first ys"
  shows "flatten_loop (data_ptr t (rb_first ys)) iter list t = Some (list @ map (data_of t) ys)"
  using assms
proof (induction ys arbitrary: xs iter list)
  case Nil
  show ?case by (simp add: flatten_loop.simps rb_first_def data_ptr_def)
next
  case (Cons a ys)
  have "fr_rb_iter_next_inorder iter t = Some (data_ptr t (rb_first ys), iter\<lparr>i_node := rb_first ys\<rparr>)"
    using Cons.prems by (intro fr_rb_iter_next_step [of cmp t xs a ys]) (auto simp: rb_first_def)
  moreover have "a \<noteq> NIL" using rb_inv_addrs [OF Cons.prems(1)] by auto
  ultimately show ?case using Cons.IH [of "xs @ [a]" "iter\<lparr>i_node := rb_first ys\<rparr>" "list @ [data_of t a]"] Cons.prems(1)
    by (subst flatten_loop.simps) (simp add: rb_first_def data_ptr_def)
qed

text \<open>An example: three nodes, the root black.\<close>

definition ex_key_cmp :: "nat \<Rightarrow> nat \<Rightarrow> int" where
  "ex_key_cmp a b = int a - int b"

definition ex_rb :: rb_tree where
  "ex_rb = \<lparr>t_root = Ptr 2,
     t_nodes = (\<lambda>_. zeroed)(NIL := sentinel,
       Ptr 1 := \<lparr>n_left = NIL, n_right = NIL, n_parent = Ptr 2, n_data = 10, n_colour = RED, n_being_freed = False\<rparr>,
       Ptr 2 := \<lparr>n_left = Ptr 1, n_right = Ptr 3, n_parent = NIL, n_data = 20, n_colour = BLACK, n_being_freed = False\<rparr>,
       Ptr 3 := \<lparr>n_left = NIL, n_right = NIL, n_parent = Ptr 2, n_data = 30, n_colour = RED, n_being_freed = False\<rparr>),
     t_data_free = True, t_inline = False, t_being_freed = False, t_num_elements = 3, t_freed = []\<rparr>"

lemma ex_key_cmp_order: "rb_order ex_key_cmp"
  by unfold_locales (auto simp: ex_key_cmp_def)

lemma ex_rb_inv: "rb_inv ex_key_cmp ex_rb [Ptr 1, Ptr 2, Ptr 3]"
  unfolding rb_inv_def
  by (intro conjI exI [of _ "Node (Node Leaf (Ptr 1) RED Leaf) (Ptr 2) BLACK (Node Leaf (Ptr 3) RED Leaf)"])
    (simp_all add: rep_def rbt_def rb_sorted_def ex_rb_def ex_key_cmp_def sentinel_def)

text \<open>\<open>fr_rb_flatten_inorder\<close> ends and lists the data of all nodes in ascending order, as many as the counter says: no item is written past the array.\<close>

theorem fr_rb_flatten_inorder_sorted:
  assumes "rb_inv cmp t as" "length as < 2 ^ 32"
  shows "\<exists>list. fr_rb_flatten_inorder t = Some list \<and> list = map (data_of t) as \<and> sorted_wrt (\<lambda>v w. cmp v w < 0) list \<and>
    length list = unat (fr_rb_num_elements t)"
proof -
  have "sorted_wrt (\<lambda>v w. cmp v w < 0) (map (data_of t) as)" "length as = unat (t_num_elements t)"
    using assms by (simp_all add: rb_inv_def rb_sorted_def sorted_wrt_map unsigned_of_nat take_bit_nat_eq_self)
  moreover have "fr_rb_flatten_inorder t = Some (map (data_of t) as)"
    using fr_rb_iter_init_head [OF assms(1)] flatten_loop_ok [of cmp t "[]" as "\<lparr>i_node = rb_first as, i_next = NULL\<rparr>" "[]"] assms(1)
    by (simp add: fr_rb_flatten_inorder_def)
  ultimately show ?thesis by (simp add: fr_rb_num_elements_def)
qed

theorem fr_rb_flatten_inorder_sorted_witness: "fr_rb_flatten_inorder ex_rb = Some [10, 20, 30] \<and> unat (fr_rb_num_elements ex_rb) = 3"
  using fr_rb_flatten_inorder_sorted [OF ex_rb_inv] by (simp add: ex_rb_def)

text \<open>Deleting the node an in-order iterator stands at does not disturb the iteration: the node leaves the sequence and the next step returns its successor.\<close>

theorem fr_rb_iter_delete_continues:
  assumes "rb_inv cmp t (xs @ a # ys)" "i_node iter = a"
  shows "\<exists>iter' t'. fr_rb_iter_delete_inorder iter t = Some (iter', t') \<and> rb_inv cmp t' (xs @ ys) \<and>
    fr_rb_iter_next_inorder iter' t' = Some (data_ptr t (rb_first ys), \<lparr>i_node = rb_first ys, i_next = NULL\<rparr>) \<and>
    t_freed t' = t_freed t @ (if t_data_free t then [data_of t a] else [])"
proof -
  have d: "distinct (xs @ a # ys)" "a \<noteq> NIL" "a \<noteq> NULL" using rb_inv_addrs [OF assms(1)] by auto
  obtain t' where t': "delete_internal a True t = Some t'" "rb_inv cmp t' (remove1 a (xs @ a # ys))" "\<forall>b. b \<noteq> a \<longrightarrow> data_of t' b = data_of t b"
    "t_freed t' = t_freed t @ (if t_data_free t then [data_of t a] else [])"
    using delete_internal_ok [OF assms(1), of a True] by auto
  have "remove1 a (xs @ a # ys) = xs @ ys" using d(1) by (simp add: remove1_append)
  moreover have "data_ptr t' (rb_first ys) = data_ptr t (rb_first ys)" using d t'(3) by (auto simp: data_ptr_def rb_first_def split: list.splits)
  moreover have "fr_rb_iter_delete_inorder iter t = Some (\<lparr>i_node = NULL, i_next = rb_first ys\<rparr>, t')"
    using fr_rb_iter_next_step [OF assms] d(2) t'(1) assms(2) by (simp add: fr_rb_iter_delete_inorder_def)
  moreover have "fr_rb_iter_next_inorder \<lparr>i_node = NULL, i_next = rb_first ys\<rparr> t' = Some (data_ptr t' (rb_first ys), \<lparr>i_node = rb_first ys, i_next = NULL\<rparr>)"
    by (simp add: fr_rb_iter_next_inorder_def)
  ultimately show ?thesis using t'(2,4) by simp
qed

theorem fr_rb_iter_delete_continues_witness:
  "\<exists>iter t. fr_rb_iter_delete_inorder \<lparr>i_node = Ptr 2, i_next = NULL\<rparr> ex_rb = Some (iter, t) \<and> rb_inv ex_key_cmp t [Ptr 1, Ptr 3] \<and>
    fr_rb_iter_next_inorder iter t = Some (Some 30, \<lparr>i_node = Ptr 3, i_next = NULL\<rparr>) \<and> t_freed t = [20]"
  using fr_rb_iter_delete_continues [of ex_key_cmp ex_rb "[Ptr 1]" "Ptr 2" "[Ptr 3]" "\<lparr>i_node = Ptr 2, i_next = NULL\<rparr>"] ex_rb_inv
  by (simp add: ex_rb_def data_ptr_def)

section \<open>Depth\<close>

fun theight :: "ptree \<Rightarrow> nat" where
  "theight Leaf = 0"
| "theight (Node l a c r) = Suc (max (theight l) (theight r))"

lemma theight_bheight: "invc s \<Longrightarrow> invh s \<Longrightarrow> theight s \<le> 2 * bheight s + (if tcol s = RED then 1 else 0)"
  by (induction s) (auto split: if_splits)

lemma bheight_size: "invh s \<Longrightarrow> 2 ^ bheight s \<le> length (addrs s) + 1"
proof (induction s)
  case (Node l a c r)
  then show ?case by (cases c) auto
qed simp

text \<open>The loop of \<open>find_node\<close> with at most \<open>n\<close> comparisons.\<close>

fun find_steps :: "nat \<Rightarrow> (nat \<Rightarrow> nat \<Rightarrow> int) \<Rightarrow> nat \<Rightarrow> rptr \<Rightarrow> rb_tree \<Rightarrow> rptr option" where
  "find_steps 0 cmp data current t = (if current = NIL then Some NULL else None)"
| "find_steps (Suc n) cmp data current t =
     (if current = NIL then Some NULL
      else let result = cmp data (n_data (node t current)) in
        if result = 0 then Some current
        else find_steps n cmp data (if result < 0 then n_left (node t current) else n_right (node t current)) t)"

lemma find_steps_ok:
  assumes "is_tree (t_nodes t) p s" "NIL \<notin> set (addrs s)" "theight s \<le> n"
  shows "find_steps n cmp v (rootp s) t = find_loop cmp v (rootp s) t \<and> find_loop cmp v (rootp s) t \<noteq> None"
  using assms
proof (induction s arbitrary: p n)
  case Leaf
  show ?case by (cases n) (simp_all add: find_loop.simps)
next
  case (Node l a c r)
  then obtain m where m: "n = Suc m" by (cases n) auto
  have "find_steps m cmp v (rootp l) t = find_loop cmp v (rootp l) t \<and> find_loop cmp v (rootp l) t \<noteq> None"
    "find_steps m cmp v (rootp r) t = find_loop cmp v (rootp r) t \<and> find_loop cmp v (rootp r) t \<noteq> None"
    using Node.IH(1) [of a m] Node.IH(2) [of a m] Node.prems m by auto
  then show ?case using Node.prems m find_loop.simps [of cmp v a t] by (auto simp: Let_def)
qed

text \<open>(C36) The search in a tree of \<open>n\<close> nodes ends after at most \<open>2 log\<^sub>2 (n + 1)\<close> comparisons, whatever the comparison function.\<close>

theorem find_node_logarithmic:
  assumes "rb_inv cmp t as" "(length as + 1)\<^sup>2 \<le> 2 ^ k"
  shows "find_steps k cmp' v (t_root t) t = find_node cmp' v t \<and> find_node cmp' v t \<noteq> None"
proof -
  obtain s where s: "rep t [] s" "rbt s" "addrs s = as" "\<not> t_being_freed t" using assms by (auto simp: rb_inv_def)
  have "theight s \<le> 2 * bheight s" "2 ^ bheight s \<le> length as + 1"
    using s theight_bheight [of s] bheight_size [of s] by (auto simp: rbt_def)
  then have "(2 :: nat) ^ theight s \<le> 2 ^ (2 * bheight s)" "(2 ^ bheight s)\<^sup>2 \<le> (length as + 1)\<^sup>2"
    by (simp_all only: power_increasing one_le_numeral power_mono zero_le)
  then have "(2 :: nat) ^ theight s \<le> 2 ^ k" using assms(2) unfolding power_even_eq by linarith
  then have "theight s \<le> k" by simp
  then show ?thesis using find_steps_ok [of t NIL s k cmp' v] s by (auto simp: rep_def find_node_def)
qed

theorem find_node_logarithmic_witness: "find_steps 4 ex_key_cmp 30 (t_root ex_rb) ex_rb = find_node ex_key_cmp 30 ex_rb \<and> find_node ex_key_cmp 30 ex_rb \<noteq> None"
  using find_node_logarithmic [OF ex_rb_inv, of 4 ex_key_cmp 30] by (simp add: power2_eq_square)

section \<open>Sequences of operations\<close>

text \<open>A program over the interface, and what it sees. A tree promises its user a sorted sequence of data without two equal ones.\<close>

datatype rb_op = Op_insert nat rptr | Op_remove nat | Op_delete nat | Op_find nat

fun rb_exec :: "(nat \<Rightarrow> nat \<Rightarrow> int) \<Rightarrow> rb_op \<Rightarrow> rb_tree \<Rightarrow> ((bool + nat option) \<times> rb_tree) option" where
  "rb_exec cmp (Op_insert v x) t = map_option (\<lambda>(r, t). (Inl r, t)) (fr_rb_insert cmp v (Some x) t)"
| "rb_exec cmp (Op_remove v) t = map_option (\<lambda>(r, t). (Inr r, t)) (fr_rb_remove cmp v t)"
| "rb_exec cmp (Op_delete v) t = map_option (\<lambda>(r, t). (Inl r, t)) (fr_rb_delete cmp v t)"
| "rb_exec cmp (Op_find v) t = map_option (\<lambda>r. (Inr r, t)) (fr_rb_find cmp v t)"

fun tree_run :: "(nat \<Rightarrow> nat \<Rightarrow> int) \<Rightarrow> rb_op list \<Rightarrow> rb_tree \<Rightarrow> ((bool + nat option) list \<times> rb_tree) option" where
  "tree_run cmp [] t = Some ([], t)"
| "tree_run cmp (p # ps) t = do { (r, t) \<leftarrow> rb_exec cmp p t; (rs, t) \<leftarrow> tree_run cmp ps t; Some (r # rs, t) }"

definition seq_find :: "(nat \<Rightarrow> nat \<Rightarrow> int) \<Rightarrow> nat \<Rightarrow> nat list \<Rightarrow> nat option" where
  "seq_find cmp v ds = find (\<lambda>d. cmp v d = 0) ds"

fun seq_exec :: "(nat \<Rightarrow> nat \<Rightarrow> int) \<Rightarrow> rb_op \<Rightarrow> nat list \<Rightarrow> (bool + nat option) \<times> nat list" where
  "seq_exec cmp (Op_insert v x) ds =
     (if seq_find cmp v ds = None then (Inl True, takeWhile (\<lambda>d. 0 < cmp v d) ds @ v # dropWhile (\<lambda>d. 0 < cmp v d) ds) else (Inl False, ds))"
| "seq_exec cmp (Op_remove v) ds = (Inr (seq_find cmp v ds), filter (\<lambda>d. cmp v d \<noteq> 0) ds)"
| "seq_exec cmp (Op_delete v) ds = (Inl (seq_find cmp v ds \<noteq> None), filter (\<lambda>d. cmp v d \<noteq> 0) ds)"
| "seq_exec cmp (Op_find v) ds = (Inr (seq_find cmp v ds), ds)"

fun seq_run :: "(nat \<Rightarrow> nat \<Rightarrow> int) \<Rightarrow> rb_op list \<Rightarrow> nat list \<Rightarrow> (bool + nat option) list \<times> nat list" where
  "seq_run cmp [] ds = ([], ds)"
| "seq_run cmp (p # ps) ds = (case seq_exec cmp p ds of (r, ds) \<Rightarrow> case seq_run cmp ps ds of (rs, ds) \<Rightarrow> (r # rs, ds))"

fun op_nodes :: "rb_op list \<Rightarrow> rptr list" where
  "op_nodes [] = []"
| "op_nodes (Op_insert v x # ps) = x # op_nodes ps"
| "op_nodes (_ # ps) = op_nodes ps"

lemma seq_find_data: "seq_find cmp v (map (data_of t) as) = map_option (data_of t) (rb_match cmp t v as)"
  by (induction as) (auto simp: seq_find_def rb_match_def)

lemma rb_place_data:
  assumes "\<forall>a\<in>set as. data_of t' a = data_of t a" "data_of t' x = v"
  shows "map (data_of t') (rb_place cmp t v x as) = (let ds = map (data_of t) as in takeWhile (\<lambda>d. 0 < cmp v d) ds @ v # dropWhile (\<lambda>d. 0 < cmp v d) ds)"
proof -
  have "map (data_of t') (takeWhile P as) = map (data_of t) (takeWhile P as)" "map (data_of t') (dropWhile P as) = map (data_of t) (dropWhile P as)" for P
    using assms(1) by (auto dest: set_takeWhileD set_dropWhileD)
  then show ?thesis using assms(2) by (simp add: rb_place_def takeWhile_map dropWhile_map comp_def)
qed

lemma filter_data:
  assumes "rb_order cmp" "rb_inv cmp t as"
  shows "rb_match cmp t v as = None \<Longrightarrow> filter (\<lambda>d. cmp v d \<noteq> 0) (map (data_of t) as) = map (data_of t) as"
    "rb_match cmp t v as = Some a \<Longrightarrow> \<forall>b. b \<noteq> a \<longrightarrow> data_of t' b = data_of t b \<Longrightarrow>
      filter (\<lambda>d. cmp v d \<noteq> 0) (map (data_of t) as) = map (data_of t') (remove1 a as)"
proof -
  show "filter (\<lambda>d. cmp v d \<noteq> 0) (map (data_of t) as) = map (data_of t) as" if "rb_match cmp t v as = None"
    using that by (auto simp: rb_match_None intro!: filter_True)
  assume a: "rb_match cmp t v as = Some a" and t': "\<forall>b. b \<noteq> a \<longrightarrow> data_of t' b = data_of t b"
  have "cmp v (data_of t b) = 0 \<longleftrightarrow> b = a" if "b \<in> set as" for b
    using rb_order.rb_match_eq [OF assms(1) _ that, of t v] rb_match_Some [OF a] assms(2) a by (auto simp: rb_inv_def)
  then have "filter (\<lambda>b. cmp v (data_of t b) \<noteq> 0) as = filter (\<lambda>b. a \<noteq> b) as" by (intro filter_cong) auto
  moreover have "remove1 a as = removeAll a as" using rb_inv_addrs [OF assms(2)] by (intro distinct_remove1_removeAll) simp
  ultimately show "filter (\<lambda>d. cmp v d \<noteq> 0) (map (data_of t) as) = map (data_of t') (remove1 a as)"
    using t' by (auto simp: filter_map comp_def removeAll_filter_not_eq)
qed

text \<open>One operation, on the store and on the sequence.\<close>

definition simulates :: "(nat \<Rightarrow> nat \<Rightarrow> int) \<Rightarrow> rb_op \<Rightarrow> rb_tree \<Rightarrow> rptr list \<Rightarrow> bool" where
  "simulates cmp p t as \<longleftrightarrow> (\<exists>r t' as'. rb_exec cmp p t = Some (r, t') \<and> rb_inv cmp t' as' \<and>
     seq_exec cmp p (map (data_of t) as) = (r, map (data_of t') as') \<and> set as' \<subseteq> set as \<union> set (op_nodes [p]))"

lemma simulatesI: "rb_exec cmp p t = Some (r, t') \<Longrightarrow> rb_inv cmp t' as' \<Longrightarrow> seq_exec cmp p (map (data_of t) as) = (r, map (data_of t') as') \<Longrightarrow>
  set as' \<subseteq> set as \<union> set (op_nodes [p]) \<Longrightarrow> simulates cmp p t as"
  by (auto simp: simulates_def)

lemma simulates_insert:
  assumes o: "rb_order cmp" and inv: "rb_inv cmp t as" and x: "x \<notin> set as" "x \<noteq> NIL" "x \<noteq> NULL"
  shows "simulates cmp (Op_insert v x) t as"
proof (cases "rb_match cmp t v as")
  case None
  from rb_order.insert_node_ok [OF o inv None x] obtain t' where t': "insert_node cmp v (Some x) t = Some (0, None, t')"
    "rb_inv cmp t' (rb_place cmp t v x as)" "\<forall>a. data_of t' a = (if a = x then v else data_of t a)" by auto
  have "map (data_of t') (rb_place cmp t v x as) = (let ds = map (data_of t) as in takeWhile (\<lambda>d. 0 < cmp v d) ds @ v # dropWhile (\<lambda>d. 0 < cmp v d) ds)"
    using t'(3) x by (intro rb_place_data) auto
  then show ?thesis using t' None by (intro simulatesI [of _ _ _ "Inl True" t' "rb_place cmp t v x as"])
    (auto simp: fr_rb_insert_def seq_find_data rb_place_sel Let_def)
next
  case (Some a)
  then show ?thesis using rb_order.insert_node_found [OF o inv Some, of "Some x"] inv
    by (intro simulatesI [of _ _ _ "Inl False" t as]) (auto simp: fr_rb_insert_def seq_find_data)
qed

lemma simulates_take:
  assumes o: "rb_order cmp" and inv: "rb_inv cmp t as"
  shows "simulates cmp (Op_remove v) t as" "simulates cmp (Op_delete v) t as"
proof -
  have "simulates cmp (Op_remove v) t as \<and> simulates cmp (Op_delete v) t as"
  proof (cases "rb_match cmp t v as")
    case None
    then show ?thesis using fr_rb_delete_absent [OF o inv None] filter_data(1) [OF o inv None] inv
      by (intro conjI simulatesI [of _ _ _ "Inr None" t as] simulatesI [of _ _ _ "Inl False" t as]) (auto simp: seq_find_data)
  next
    case (Some a)
    obtain t1 t2 where t: "fr_rb_remove cmp v t = Some (Some (data_of t a), t1)" "rb_inv cmp t1 (remove1 a as)" "\<forall>b. b \<noteq> a \<longrightarrow> data_of t1 b = data_of t b"
      "fr_rb_delete cmp v t = Some (True, t2)" "rb_inv cmp t2 (remove1 a as)" "\<forall>b. b \<noteq> a \<longrightarrow> data_of t2 b = data_of t b"
      using fr_rb_remove_match [OF o inv Some] fr_rb_delete_match [OF o inv Some] by blast
    show ?thesis using t Some filter_data(2) [OF o inv Some t(3)] filter_data(2) [OF o inv Some t(6)] set_remove1_subset [of a as]
      by (intro conjI simulatesI [of _ _ _ "Inr (Some (data_of t a))" t1 "remove1 a as"] simulatesI [of _ _ _ "Inl True" t2 "remove1 a as"])
        (simp_all add: seq_find_data)
  qed
  then show "simulates cmp (Op_remove v) t as" "simulates cmp (Op_delete v) t as" by simp_all
qed

lemma rb_exec_simulates:
  assumes o: "rb_order cmp" and inv: "rb_inv cmp t as" and fresh: "set (op_nodes [p]) \<inter> (set as \<union> {NIL, NULL}) = {}"
  shows "simulates cmp p t as"
proof (cases p)
  case (Op_insert v x)
  then show ?thesis using simulates_insert [OF o inv] fresh by auto
next
  case (Op_find v)
  then show ?thesis using fr_rb_find_match [OF o inv, of v] inv
    by (intro simulatesI [of _ _ _ "Inr (map_option (data_of t) (rb_match cmp t v as))" t as]) (auto simp: seq_find_data)
qed (use simulates_take [OF o inv] in auto)

lemma tree_run_ok:
  assumes "rb_order cmp" "rb_inv cmp t as" "distinct (op_nodes ps)" "set (op_nodes ps) \<inter> (set as \<union> {NIL, NULL}) = {}"
  shows "\<exists>rs t' as'. tree_run cmp ps t = Some (rs, t') \<and> rb_inv cmp t' as' \<and> seq_run cmp ps (map (data_of t) as) = (rs, map (data_of t') as')"
  using assms(2-4)
proof (induction ps arbitrary: t as)
  case (Cons p ps)
  have n: "set (op_nodes (p # ps)) = set (op_nodes [p]) \<union> set (op_nodes ps)" "distinct (op_nodes (p # ps)) \<Longrightarrow> distinct (op_nodes ps) \<and> set (op_nodes [p]) \<inter> set (op_nodes ps) = {}"
    by (cases p; simp)+
  obtain r t1 as1 where 1: "rb_exec cmp p t = Some (r, t1)" "rb_inv cmp t1 as1" "seq_exec cmp p (map (data_of t) as) = (r, map (data_of t1) as1)"
    "set as1 \<subseteq> set as \<union> set (op_nodes [p])"
  proof -
    have "set (op_nodes [p]) \<inter> (set as \<union> {NIL, NULL}) = {}" using Cons.prems(3) n(1) by blast
    from rb_exec_simulates [OF assms(1) Cons.prems(1) this] show thesis using that by (auto simp: simulates_def)
  qed
  have "set (op_nodes ps) \<inter> (set as1 \<union> {NIL, NULL}) = {}" using 1(4) Cons.prems(3) n(1) n(2) [OF Cons.prems(2)] by auto
  then show ?case using Cons.IH [OF 1(2)] n(2) [OF Cons.prems(2)] 1 by auto
qed auto

text \<open>(C5) Every sequence of insertions, removals, deletions and searches on a new tree ends, answers each of them as the sorted sequence would, and leaves a
red-black tree that holds that sequence. The inserted nodes are fresh.\<close>

theorem tree_run_refines:
  assumes "rb_order cmp" "fr_rb_init nodes offset data_free = Some t" "distinct (op_nodes ps)" "NIL \<notin> set (op_nodes ps)" "NULL \<notin> set (op_nodes ps)"
  shows "\<exists>rs t' as. tree_run cmp ps t = Some (rs, t') \<and> rb_inv cmp t' as \<and> seq_run cmp ps [] = (rs, map (data_of t') as)"
  using tree_run_ok [OF assms(1) fr_rb_init_empty [OF assms(2)] assms(3)] assms(4,5) by simp

theorem tree_run_refines_witness:
  "\<exists>t as. tree_run ex_key_cmp [Op_insert 7 (Ptr 1), Op_insert 3 (Ptr 2), Op_insert 7 (Ptr 3), Op_delete 7, Op_find 3]
      (the (fr_rb_init (\<lambda>_. zeroed) (- 1) False)) = Some ([Inl True, Inl True, Inl False, Inl True, Inr (Some 3)], t) \<and>
    rb_inv ex_key_cmp t as \<and> map (data_of t) as = [3]"
proof -
  let ?ps = "[Op_insert 7 (Ptr 1), Op_insert 3 (Ptr 2), Op_insert 7 (Ptr 3), Op_delete 7, Op_find 3]"
  have i: "fr_rb_init (\<lambda>_. zeroed) (- 1) False = Some (the (fr_rb_init (\<lambda>_. zeroed) (- 1) False))" by (simp add: fr_rb_init_def)
  have "seq_run ex_key_cmp ?ps [] = ([Inl True, Inl True, Inl False, Inl True, Inr (Some 3)], [3])" by (simp add: seq_find_def ex_key_cmp_def)
  moreover have "distinct (op_nodes ?ps)" "NIL \<notin> set (op_nodes ?ps)" "NULL \<notin> set (op_nodes ?ps)" by simp_all
  note tree_run_refines [OF ex_key_cmp_order i this]
  ultimately show ?thesis by (metis Pair_inject)
qed

section \<open>Inline nodes\<close>

text \<open>The nodes of a tree are those whose links are set.\<close>

lemma rb_inv_in_tree:
  assumes "rb_inv cmp t as" "a \<in> set as"
  shows "fr_rb_node_inline_in_tree a t"
proof -
  obtain s where s: "rep t [] s" "addrs s = as" using assms(1) by (auto simp: rb_inv_def)
  have "a \<in> set (addrs s)" using assms(2) s(2) by simp
  then obtain ps l c r where pl: "s = plug ps (Node l a c r)" by (rule locate)
  have r: "rep t ps (Node l a c r)" using s(1) pl rep_plug by blast
  then have "rep t ((DL, a, c, r) # ps) l" "rep t ((DR, a, c, l) # ps) r" by (simp_all add: rep_up nd_def)
  then have "rootp l \<noteq> NULL" "rootp r \<noteq> NULL" using rep_sub(3) by blast+
  moreover have "ppar ps \<noteq> NULL" using r by (cases ps rule: ppar.cases) (auto simp: rep_def)
  ultimately show ?thesis using r assms by (auto simp: fr_rb_node_inline_in_tree_def rep_def rb_inv_def)
qed

lemma fr_rb_delete_by_inline_node_ok:
  assumes "rb_inv cmp t as" "a \<in> set as"
  shows "\<exists>t'. fr_rb_delete_by_inline_node a t = Some (True, t') \<and> rb_inv cmp t' (remove1 a as) \<and> \<not> fr_rb_node_inline_in_tree a t' \<and>
      t_freed t' = t_freed t @ (if t_data_free t then [data_of t a] else [])"
    "\<exists>t'. fr_rb_remove_by_inline_node a t = Some (Some (data_of t a), t') \<and> rb_inv cmp t' (remove1 a as) \<and> \<not> fr_rb_node_inline_in_tree a t' \<and> t_freed t' = t_freed t"
  using delete_internal_ok [OF assms, of True] delete_internal_ok [OF assms, of False] rb_inv_in_tree [OF assms]
  by (auto simp: fr_rb_delete_by_inline_node_def fr_rb_remove_by_inline_node_def)

section \<open>Freeing a tree\<close>

fun postorder :: "ptree \<Rightarrow> rptr list" where
  "postorder Leaf = []"
| "postorder (Node l a c r) = postorder l @ postorder r @ [a]"

lemma postorder_mset: "mset (postorder s) = mset (addrs s)"
  by (induction s) auto

lemma free_walker_ok:
  assumes "is_tree (t_nodes t) par s" "s \<noteq> Leaf" "distinct (addrs s)" "NIL \<notin> set (addrs s)" "t_data_free t" "\<forall>a\<in>set (addrs s). \<not> n_being_freed (node t a)"
  shows "\<exists>t'. free_walker (rootp s) t = Some t' \<and> t_freed t' = t_freed t @ map (data_of t) (postorder s) \<and> (\<forall>a. a \<notin> set (addrs s) \<longrightarrow> node t' a = node t a) \<and>
    t_data_free t' \<and> t_being_freed t' = t_being_freed t"
  using assms
proof (induction s arbitrary: t par)
  case (Node l a c r)
  have a: "n_left (node t a) = rootp l" "n_right (node t a) = rootp r" "rootp l = NIL \<longleftrightarrow> l = Leaf" "rootp r = NIL \<longleftrightarrow> r = Leaf"
    using Node.prems rootp_cases [of l] rootp_cases [of r] by auto
  obtain t1 where t1: "(if n_left (node t a) \<noteq> NIL then free_walker (n_left (node t a)) t else Some t) = Some t1" "t_freed t1 = t_freed t @ map (data_of t) (postorder l)"
    "\<forall>b. b \<notin> set (addrs l) \<longrightarrow> node t1 b = node t b" "t_data_free t1" "t_being_freed t1 = t_being_freed t"
  proof (cases "l = Leaf")
    case True
    then show thesis using that [of t] a(1) Node.prems(5) by simp
  next
    case False
    have "is_tree (t_nodes t) a l" "distinct (addrs l)" "NIL \<notin> set (addrs l)" "\<forall>b\<in>set (addrs l). \<not> n_being_freed (node t b)" using Node.prems by auto
    then show thesis using Node.IH(1) [OF _ False, of t a] Node.prems(5) a(1,3) False that by auto
  qed
  have o: "node t1 b = node t b" if "b = a \<or> b \<in> set (addrs r)" for b
  proof -
    have "b \<notin> set (addrs l)" using that Node.prems(3) by auto
    then show ?thesis using t1(3) by blast
  qed
  have "is_tree (t_nodes t1) a r = is_tree (t_nodes t) a r" by (rule is_tree_cong) (simp add: o)
  then have "is_tree (t_nodes t1) a r" using Node.prems(1) by simp
  then obtain t2 where t2: "(if n_right (node t1 a) \<noteq> NIL then free_walker (n_right (node t1 a)) t1 else Some t1) = Some t2"
    "t_freed t2 = t_freed t1 @ map (data_of t1) (postorder r)" "\<forall>b. b \<notin> set (addrs r) \<longrightarrow> node t2 b = node t1 b" "t_data_free t2" "t_being_freed t2 = t_being_freed t1"
  proof (cases "r = Leaf")
    case True
    then show thesis using that [of t1] a(2) o [of a] t1(4) by simp
  next
    case False
    have "distinct (addrs r)" "NIL \<notin> set (addrs r)" "\<forall>b\<in>set (addrs r). \<not> n_being_freed (node t b)" using Node.prems by auto
    moreover assume "is_tree (t_nodes t1) a r"
    ultimately show thesis using Node.IH(2) [OF _ False, of t1 a] t1(4) a(2,4) False that o by auto
  qed
  have "a \<notin> set (addrs r)" using Node.prems(3) by auto
  then have na: "node t2 a = node t a" using t2(3) o by simp
  have "map (data_of t1) (postorder r) = map (data_of t) (postorder r)"
    using mset_eq_setD [OF postorder_mset [of r]] by (simp add: o)
  moreover have "free_walker a t = Some (node_free a True t2)" using t1(1) t2(1) by (subst free_walker.simps) simp
  moreover have "t_freed (node_free a True t2) = t_freed t2 @ [data_of t a]" using node_free_freed [of t2 a True] na t2(4) Node.prems(6) by simp
  moreover have "\<forall>b. b \<notin> set (addrs (Node l a c r)) \<longrightarrow> node (node_free a True t2) b = node t b" using t2(3) t1(3) by auto
  ultimately show ?case using t1(2,5) t2(2,4,5) by auto
qed simp

lemma tree_free_frees_all:
  assumes "rb_inv cmp t as"
  shows "\<exists>t'. tree_free t = Some (0, t') \<and> mset (t_freed t') = mset (t_freed t) + (if t_data_free t then mset (map (data_of t) as) else {#}) \<and>
    t_root t' = NIL \<and> t_num_elements t' = 0 \<and> tree_free t' = Some (- 1, t')"
proof -
  obtain s where s: "rep t [] s" "addrs s = as" "\<not> t_being_freed t" "\<forall>a\<in>set as. \<not> n_being_freed (node t a)" using assms by (auto simp: rb_inv_def)
  have r: "t_root t = rootp s" "rootp s = NIL \<longleftrightarrow> s = Leaf" using s(1) rep_sub(1) [OF s(1)] by (auto simp: rep_def)
  let ?t = "t\<lparr>t_being_freed := True\<rparr>"
  have "mset (map f (postorder s)) = mset (map f (addrs s))" for f :: "rptr \<Rightarrow> nat" using postorder_mset [of s] by (simp add: mset_map)
  then show ?thesis using free_walker_ok [of ?t NIL s] r s
    by (cases "s = Leaf"; cases "t_data_free t") (auto simp: tree_free_def rep_def mset_map)
qed

section \<open>Replacement\<close>

lemma match_removed:
  assumes "rb_order cmp" "rb_inv cmp t as" "rb_match cmp t v as = Some a" "\<forall>b. b \<noteq> a \<longrightarrow> data_of t' b = data_of t b"
  shows "rb_match cmp t' v (remove1 a as) = None"
proof -
  have "cmp v (data_of t' b) \<noteq> 0" if "b \<in> set (remove1 a as)" for b
  proof
    assume z: "cmp v (data_of t' b) = 0"
    have b: "b \<noteq> a" "b \<in> set as" using that rb_inv_addrs [OF assms(2)] by simp_all
    then have "rb_match cmp t v as = Some b" using z assms(2,4) by (intro rb_order.rb_match_eq [OF assms(1)]) (auto simp: rb_inv_def)
    then show False using assms(3) b(1) by simp
  qed
  then show ?thesis by (simp add: rb_match_None)
qed

lemma fr_rb_replace_inline:
  assumes o: "rb_order cmp" and inv: "rb_inv cmp t as" and m: "rb_match cmp t v as = Some a" and x: "t_inline t" "x \<notin> set as" "x \<noteq> NIL" "x \<noteq> NULL"
  shows "\<exists>t' as'. fr_rb_replace cmp True v (Some x) t = Some (1, Some (data_of t a), t') \<and> rb_inv cmp t' as' \<and> set as' = insert x (set as - {a}) \<and> data_of t' x = v \<and>
    (\<forall>b\<in>set as - {a}. data_of t' b = data_of t b)"
proof -
  have a: "a \<in> set as" "distinct as" using rb_match_Some [OF m] rb_inv_addrs [OF inv] by auto
  obtain t1 where t1: "delete_internal a False t = Some t1" "rb_inv cmp t1 (remove1 a as)" "\<forall>b. b \<noteq> a \<longrightarrow> data_of t1 b = data_of t b"
    using delete_internal_ok [OF inv a(1), of False] by auto
  have s: "set (remove1 a as) = set as - {a}" using a(2) by simp
  then have x': "x \<notin> set (remove1 a as)" using x(2) by simp
  from rb_order.insert_node_ok [OF o t1(2) match_removed [OF o inv m t1(3)] x' x(3,4)]
  obtain t2 where t2: "insert_node cmp v (Some x) t1 = Some (0, None, t2)" "rb_inv cmp t2 (rb_place cmp t1 v x (remove1 a as))"
    "\<forall>b. data_of t2 b = (if b = x then v else data_of t1 b)" by blast
  have "fr_rb_replace cmp True v (Some x) t = Some (1, Some (data_of t a), t2)"
    using rb_order.insert_node_found [OF o inv m, of "Some x"] t1(1) t2(1) x(1) by (simp add: fr_rb_replace_def)
  then show ?thesis using t2 t1(3) s x(2) by (intro exI [of _ t2] exI [of _ "rb_place cmp t1 v x (remove1 a as)"]) (auto simp: rb_place_sel)
qed

end
