(* ===== verification/Eap_Packet.thy ===== *)
theory Eap_Packet
  imports Prelude
begin

text \<open>
  EAP packets: validation and the carriage of EAP packets in EAP-Message attributes
  (\<^verbatim>\<open>src/lib/eap/base.c\<close>), their wire format and the composition of replies
  (\<^verbatim>\<open>src/lib/eap/compose.c\<close>), with the types of \<^verbatim>\<open>types.h\<close>, \<^verbatim>\<open>compose.h\<close> and the parts of
  \<^verbatim>\<open>session.h\<close> these functions use.

  A raw packet is its talloc array of bytes, a \<open>NULL\<close> pointer is \<open>None\<close>; reads and writes are
  checked against the array. A RADIUS attribute list is the list of its attributes in order.

  The lemmas show that splitting a packet into attributes and joining them is the identity,
  that validation stays inside the packet and what an accepted packet looks like, that the
  wire format is read back to the packet it was made of, and which identifiers, attributes and
  RADIUS codes a composed reply has.
\<close>

abbreviation EAP_HEADER_LEN :: nat where "EAP_HEADER_LEN \<equiv> 4"

abbreviation FR_EAP_CODE_REQUEST :: nat where "FR_EAP_CODE_REQUEST \<equiv> 1"
abbreviation FR_EAP_CODE_RESPONSE :: nat where "FR_EAP_CODE_RESPONSE \<equiv> 2"
abbreviation FR_EAP_CODE_SUCCESS :: nat where "FR_EAP_CODE_SUCCESS \<equiv> 3"
abbreviation FR_EAP_CODE_FAILURE :: nat where "FR_EAP_CODE_FAILURE \<equiv> 4"

abbreviation FR_EAP_METHOD_IDENTITY :: nat where "FR_EAP_METHOD_IDENTITY \<equiv> 1"
abbreviation FR_EAP_METHOD_NOTIFICATION :: nat where "FR_EAP_METHOD_NOTIFICATION \<equiv> 2"
abbreviation FR_EAP_METHOD_NAK :: nat where "FR_EAP_METHOD_NAK \<equiv> 3"
abbreviation FR_EAP_METHOD_MD5 :: nat where "FR_EAP_METHOD_MD5 \<equiv> 4"
abbreviation FR_EAP_METHOD_TLS :: nat where "FR_EAP_METHOD_TLS \<equiv> 13"
abbreviation FR_EAP_METHOD_TTLS :: nat where "FR_EAP_METHOD_TTLS \<equiv> 21"
abbreviation FR_EAP_METHOD_PEAP :: nat where "FR_EAP_METHOD_PEAP \<equiv> 25"
abbreviation FR_EAP_METHOD_MAX :: nat where "FR_EAP_METHOD_MAX \<equiv> 56"
abbreviation FR_EAP_EXPANDED_TYPE :: nat where "FR_EAP_EXPANDED_TYPE \<equiv> 254"

record eap_packet =
  pk_code :: nat
  pk_id :: byte
  pk_length :: nat
  pk_type_num :: nat
  pk_type_length :: nat
  pk_type_data :: "bytes option"
  pk_packet :: "bytes option"

definition eap_packet_zero :: eap_packet where
  "eap_packet_zero = \<lparr>pk_code = 0, pk_id = 0, pk_length = 0, pk_type_num = 0, pk_type_length = 0,
     pk_type_data = None, pk_packet = None\<rparr>"

record eap_round =
  rd_response :: eap_packet
  rd_request :: eap_packet
  rd_set_request_id :: bool

subsection \<open>EAP-Message attributes\<close>

text \<open>The loop of \<open>eap_packet_to_vp\<close>, and the function: the values of the attributes it
  appends.\<close>

function to_vp_loop :: "bytes \<Rightarrow> nat \<Rightarrow> nat \<Rightarrow> bytes list option" where
  "to_vp_loop eap p tot = do {
     let size = (if 253 < tot then 253 else tot);
     v \<leftarrow> rd_mem eap p size;
     if 0 < tot - size then do {
       vs \<leftarrow> to_vp_loop eap (p + size) (tot - size);
       Some (v # vs) }
     else Some [v] }"
  by pat_completeness auto
termination
  by (relation "measure (\<lambda>(eap, p, tot). tot)") (auto split: if_splits)

declare to_vp_loop.simps [simp del]

definition eap_packet_to_vp :: "bytes \<Rightarrow> bytes list option" where
  "eap_packet_to_vp eap = do {
     tot \<leftarrow> rd_nbo16 eap 2;
     if tot = 0 then Some [] else to_vp_loop eap 0 tot }"

text \<open>Whether the packet is valid, and the packet: an expanded type is rewritten in place to the
  plain type, and the packet reallocated. \<open>alloc\<close> says whether that succeeds.\<close>

definition eap_is_valid :: "bool \<Rightarrow> bytes \<Rightarrow> (bool \<times> bytes) option" where
  "eap_is_valid alloc eap_packet =
     (let packet_len = length eap_packet; bad = Some (False, eap_packet) in
      if packet_len \<le> EAP_HEADER_LEN then bad
      else do {
        len \<leftarrow> rd_nbo16 eap_packet 2;
        if len \<le> EAP_HEADER_LEN \<or> packet_len < len then bad
        else do {
          code \<leftarrow> rd8 eap_packet 0;
          if unat code \<noteq> FR_EAP_CODE_RESPONSE \<and> unat code \<noteq> FR_EAP_CODE_REQUEST then bad
          else do {
            t \<leftarrow> rd8 eap_packet 4;
            if unat t = 0 \<or> FR_EAP_METHOD_MAX \<le> unat t then
              if unat t = FR_EAP_EXPANDED_TYPE then
                if len \<le> EAP_HEADER_LEN + 1 + 3 + 4 then bad
                else do {
                  vendor \<leftarrow> rd_mem eap_packet 5 3;
                  if vendor \<noteq> [0, 0, 0] then bad
                  else do {
                    vtype \<leftarrow> rd_mem eap_packet 8 3;
                    if vtype \<noteq> [0, 0, 0] then bad
                    else do {
                      inner \<leftarrow> rd8 eap_packet 11;
                      if unat inner = 0 \<or> FR_EAP_METHOD_MAX \<le> unat inner then bad
                      else if unat inner = FR_EAP_METHOD_NAK then bad
                      else do {
                        d \<leftarrow> rd_mem eap_packet (EAP_HEADER_LEN + 7) (len - 7 - EAP_HEADER_LEN);
                        q \<leftarrow> wr_mem eap_packet EAP_HEADER_LEN d;
                        if \<not> alloc then Some (False, q)
                        else do {
                          let p = take (len - 7) q;
                          p \<leftarrow> wr_mem p 2 (put16 (len - 7));
                          Some (True, p) } } } } }
              else bad
            else if unat t = FR_EAP_METHOD_NOTIFICATION then bad
            else Some (True, eap_packet) } } })"

text \<open>The values of the EAP-Message attributes joined to a packet, \<open>Some None\<close> for \<open>NULL\<close>.\<close>

fun vp_total :: "nat \<Rightarrow> nat \<Rightarrow> bytes list \<Rightarrow> nat option" where
  "vp_total len tot [] = Some tot"
| "vp_total len tot (v # vs) =
     (if len < tot + length v then None else vp_total len (tot + length v) vs)"

definition eap_packet_from_vp :: "bool \<Rightarrow> bytes list \<Rightarrow> bytes option option" where
  "eap_packet_from_vp alloc vps =
     (case vps of
        [] \<Rightarrow> Some None
      | vp # _ \<Rightarrow>
          if length vp < 4 then Some None
          else do {
            len \<leftarrow> rd_nbo16 vp 2;
            if len < 4 then Some None
            else (case vp_total len 0 vps of
                    None \<Rightarrow> Some None
                  | Some total_len \<Rightarrow>
                      if total_len < len then Some None
                      else if \<not> alloc then Some None
                      else do {
                        eap_packet \<leftarrow> wr_mem (replicate len 0) 0 (concat vps);
                        (ok, eap_packet) \<leftarrow> eap_is_valid alloc eap_packet;
                        Some (if ok then Some eap_packet else None) }) })"

subsection \<open>Wire format\<close>

definition eap_wireformat :: "bool \<Rightarrow> eap_packet \<Rightarrow> (int \<times> eap_packet) option" where
  "eap_wireformat alloc reply =
     (if pk_packet reply \<noteq> None then Some (0, reply)
      else
        let has_data = (pk_type_data reply \<noteq> None \<and> 0 < pk_type_length reply);
            total_length = EAP_HEADER_LEN;
            total_length = (if pk_code reply < 3 then
                              let total_length = total_length + 1
                              in if has_data then (total_length + pk_type_length reply) mod 2 ^ 16
                                 else total_length
                            else total_length)
        in if \<not> alloc then Some (-1, reply)
           else do {
             p \<leftarrow> wr_mem (replicate total_length 0) 0
                    ([word_of_nat (pk_code reply), pk_id reply] @ put16 total_length);
             p \<leftarrow> (if pk_code reply = FR_EAP_CODE_REQUEST \<or> pk_code reply = FR_EAP_CODE_RESPONSE then do {
                      p \<leftarrow> wr_mem p 4 [word_of_nat (pk_type_num reply)];
                      (case pk_type_data reply of
                         Some data \<Rightarrow>
                           if 0 < pk_type_length reply then do {
                             d \<leftarrow> rd_mem data 0 (pk_type_length reply);
                             wr_mem p 5 d }
                           else Some p
                       | None \<Rightarrow> Some p) }
                    else Some p);
             Some (0, reply\<lparr>pk_packet := Some p\<rparr>) })"

definition eap_round_alloc :: "bool \<Rightarrow> eap_round option" where
  "eap_round_alloc alloc =
     (if alloc then Some \<lparr>rd_response = eap_packet_zero, rd_request = eap_packet_zero, rd_set_request_id = False\<rparr>
      else None)"

text \<open>\<open>Some None\<close> for \<open>NULL\<close>.\<close>

definition eap_round_build :: "bool \<Rightarrow> bytes \<Rightarrow> eap_round option option" where
  "eap_round_build alloc eap_packet =
     (case eap_round_alloc alloc of
        None \<Rightarrow> Some None
      | Some eap_round \<Rightarrow> do {
          code \<leftarrow> rd8 eap_packet 0;
          id \<leftarrow> rd8 eap_packet 1;
          t \<leftarrow> rd8 eap_packet 4;
          len \<leftarrow> rd_nbo16 eap_packet 2;
          let response = eap_packet_zero\<lparr>pk_packet := Some eap_packet, pk_code := unat code, pk_id := id,
                                         pk_type_num := unat t, pk_length := len\<rparr>;
          let typelen = int len - 5;
          response \<leftarrow> (if 0 < typelen then do {
                          data \<leftarrow> rd_mem eap_packet 5 (len - 5);
                          Some (response\<lparr>pk_type_data := Some data, pk_type_length := len - 5\<rparr>) }
                        else Some (response\<lparr>pk_type_length := 0, pk_type_data := None\<rparr>));
          Some (Some (eap_round\<lparr>rd_response := response\<rparr>)) })"

subsection \<open>Composing replies\<close>

datatype rlm_rcode =
    RLM_MODULE_REJECT | RLM_MODULE_FAIL | RLM_MODULE_OK | RLM_MODULE_HANDLED | RLM_MODULE_INVALID
  | RLM_MODULE_DISALLOW | RLM_MODULE_NOTFOUND | RLM_MODULE_NOOP | RLM_MODULE_UPDATED
  | RLM_MODULE_NUMCODES | RLM_MODULE_NOT_SET

datatype pair_attr =
    ATTR_EAP_MESSAGE | ATTR_MESSAGE_AUTHENTICATOR | ATTR_STATE | ATTR_EAP_TYPE | ATTR_OTHER nat

type_synonym pair_list = "(pair_attr \<times> bytes) list"

record request =
  rq_request_pairs :: pair_list
  rq_reply_pairs :: pair_list
  rq_reply_code :: nat
  rq_proxy_eap :: bool

record eap_session =
  es_type :: nat
  es_request :: request
  es_prev_round :: "eap_round option"
  es_this_round :: eap_round
  es_finished :: bool

definition fr_pair_find_by_da :: "pair_list \<Rightarrow> pair_attr \<Rightarrow> bytes option" where
  "fr_pair_find_by_da ps da = map_option snd (List.find (\<lambda>p. fst p = da) ps)"

definition fr_pair_delete_by_da :: "pair_list \<Rightarrow> pair_attr \<Rightarrow> pair_list" where
  "fr_pair_delete_by_da ps da = filter (\<lambda>p. fst p \<noteq> da) ps"

abbreviation RADIUS_ACCESS_ACCEPT :: nat where "RADIUS_ACCESS_ACCEPT \<equiv> 2"
abbreviation RADIUS_ACCESS_REJECT :: nat where "RADIUS_ACCESS_REJECT \<equiv> 3"
abbreviation RADIUS_ACCESS_CHALLENGE :: nat where "RADIUS_ACCESS_CHALLENGE \<equiv> 11"

text \<open>The identifier and the type of the reply.\<close>

definition compose_id :: "eap_round \<Rightarrow> eap_packet" where
  "compose_id r =
     (let reply = rd_request r in
      if rd_set_request_id r then reply
      else
        let reply = reply\<lparr>pk_id := pk_id (rd_response r)\<rparr> in
        if pk_code reply = FR_EAP_CODE_SUCCESS \<or> pk_code reply = FR_EAP_CODE_FAILURE then reply
        else reply\<lparr>pk_id := pk_id reply + 1\<rparr>)"

definition compose_type :: "nat \<Rightarrow> eap_packet \<Rightarrow> eap_packet" where
  "compose_type type reply =
     (if (pk_code reply = FR_EAP_CODE_REQUEST \<or> pk_code reply = FR_EAP_CODE_RESPONSE) \<and> pk_type_num reply = 0
      then reply\<lparr>pk_type_num := type\<rparr> else reply)"

text \<open>The final \<open>switch\<close>: the result, the RADIUS code and the EAP code (\<open>None\<close> leaves the code).\<close>

definition compose_code :: "bool \<Rightarrow> nat \<Rightarrow> rlm_rcode \<times> nat option \<times> nat" where
  "compose_code proxy_eap code =
     (if code = FR_EAP_CODE_RESPONSE then (RLM_MODULE_HANDLED, Some RADIUS_ACCESS_ACCEPT, code)
      else if code = FR_EAP_CODE_SUCCESS then (RLM_MODULE_OK, Some RADIUS_ACCESS_ACCEPT, code)
      else if code = FR_EAP_CODE_FAILURE then (RLM_MODULE_REJECT, Some RADIUS_ACCESS_REJECT, code)
      else if code = FR_EAP_CODE_REQUEST then (RLM_MODULE_HANDLED, Some RADIUS_ACCESS_CHALLENGE, code)
      else if proxy_eap then (RLM_MODULE_HANDLED, None, code)
      else (RLM_MODULE_REJECT, Some RADIUS_ACCESS_REJECT, FR_EAP_CODE_FAILURE))"

definition eap_compose :: "bool \<Rightarrow> 'a eap_session_scheme \<Rightarrow> (rlm_rcode \<times> 'a eap_session_scheme) option" where
  "eap_compose alloc s = do {
     let r = es_this_round s;
     let reply = compose_type (es_type s) (compose_id r);
     let put = (\<lambda>reply. s\<lparr>es_this_round := r\<lparr>rd_request := reply\<rparr>\<rparr>);
     (rc, reply) \<leftarrow> eap_wireformat alloc reply;
     if rc < 0 then Some (RLM_MODULE_INVALID, put reply)
     else do {
       packet \<leftarrow> pk_packet reply;
       len \<leftarrow> rd_nbo16 packet 2;
       v \<leftarrow> rd_mem packet 0 len;
       let req = es_request s;
       let pairs = rq_reply_pairs req @ [(ATTR_EAP_MESSAGE, v)];
       let reply = reply\<lparr>pk_packet := None\<rparr>;
       let pairs = (if fr_pair_find_by_da pairs ATTR_MESSAGE_AUTHENTICATOR = None
                    then pairs @ [(ATTR_MESSAGE_AUTHENTICATOR, replicate 16 0)] else pairs);
       let (rcode, rad, code) = compose_code (rq_proxy_eap req) (pk_code reply);
       let req = req\<lparr>rq_reply_pairs := pairs,
                     rq_reply_code := (case rad of None \<Rightarrow> rq_reply_code req | Some c \<Rightarrow> c)\<rparr>;
       Some (rcode, (put (reply\<lparr>pk_code := code\<rparr>))\<lparr>es_request := req\<rparr>) } }"

definition eap_continue :: "bool \<Rightarrow> 'a eap_session_scheme \<Rightarrow> (rlm_rcode \<times> 'a eap_session_scheme) option" where
  "eap_continue alloc s =
     (let r = es_this_round s in
      eap_compose alloc (s\<lparr>es_this_round := r\<lparr>rd_request := (rd_request r)\<lparr>pk_code := FR_EAP_CODE_REQUEST\<rparr>\<rparr>,
                           es_finished := False\<rparr>))"

definition eap_fail :: "bool \<Rightarrow> 'a eap_session_scheme \<Rightarrow> (rlm_rcode \<times> 'a eap_session_scheme) option" where
  "eap_fail alloc s =
     (let req = es_request s;
          pairs = fr_pair_delete_by_da (rq_reply_pairs req) ATTR_EAP_MESSAGE;
          pairs = fr_pair_delete_by_da pairs ATTR_STATE
      in eap_compose alloc
           (s\<lparr>es_request := req\<lparr>rq_reply_pairs := pairs\<rparr>,
              es_this_round := (es_this_round s)\<lparr>rd_request := eap_packet_zero\<lparr>pk_code := FR_EAP_CODE_FAILURE\<rparr>\<rparr>,
              es_finished := True\<rparr>))"

definition eap_success :: "bool \<Rightarrow> 'a eap_session_scheme \<Rightarrow> (rlm_rcode \<times> 'a eap_session_scheme) option" where
  "eap_success alloc s =
     (let r = es_this_round s in
      eap_compose alloc (s\<lparr>es_this_round := r\<lparr>rd_request := (rd_request r)\<lparr>pk_code := FR_EAP_CODE_SUCCESS\<rparr>\<rparr>,
                           es_finished := True\<rparr>))"

text \<open>\<open>methods t\<close> says whether a submodule handles type \<open>t\<close>.\<close>

definition eap_start :: "request \<Rightarrow> (nat \<Rightarrow> bool) \<Rightarrow> bool \<Rightarrow> (rlm_rcode \<times> request) option" where
  "eap_start req methods ignore_unknown_types =
     (case fr_pair_find_by_da (rq_request_pairs req) ATTR_EAP_MESSAGE of
        None \<Rightarrow> Some (RLM_MODULE_NOOP, req)
      | Some eap_msg \<Rightarrow>
          if fr_pair_find_by_da (rq_request_pairs req) ATTR_EAP_TYPE = Some (put32 0) then
            Some (RLM_MODULE_NOOP, req)
          else if length eap_msg = 0 \<or> length eap_msg = 2 then
            Some (RLM_MODULE_HANDLED,
                  req\<lparr>rq_reply_pairs := rq_reply_pairs req @ [(ATTR_EAP_MESSAGE, [1, 0, 0, 5, 1])]\<rparr>)
          else do {
            code \<leftarrow> rd8 eap_msg 0;
            if length eap_msg = EAP_HEADER_LEN \<and> unat code = FR_EAP_CODE_FAILURE then Some (RLM_MODULE_FAIL, req)
            else if length eap_msg < EAP_HEADER_LEN + 1 then Some (RLM_MODULE_FAIL, req)
            else do {
              t \<leftarrow> rd8 eap_msg 4;
              let req = req\<lparr>rq_request_pairs := rq_request_pairs req @ [(ATTR_EAP_TYPE, put32 (unat t))]\<rparr>;
              let known = (\<lambda>t. t \<noteq> 0 \<and> t < FR_EAP_METHOD_MAX \<and> methods t);
              if unat code \<noteq> FR_EAP_CODE_REQUEST \<and> unat code \<noteq> FR_EAP_CODE_RESPONSE then
                Some (RLM_MODULE_FAIL, req)
              else if FR_EAP_METHOD_MD5 \<le> unat t \<and> ignore_unknown_types \<and> \<not> known (unat t) then
                Some (RLM_MODULE_NOOP, req)
              else do {
                nak \<leftarrow> (if unat t = FR_EAP_METHOD_NAK \<and> EAP_HEADER_LEN + 2 \<le> length eap_msg \<and> ignore_unknown_types
                        then do { w \<leftarrow> rd8 eap_msg 5; Some (\<not> known (unat w)) } else Some False);
                if nak then Some (RLM_MODULE_NOOP, req)
                else if unat t = FR_EAP_METHOD_TTLS \<or> unat t = FR_EAP_METHOD_PEAP then Some (RLM_MODULE_OK, req)
                else if unat t = FR_EAP_METHOD_IDENTITY then Some (RLM_MODULE_OK, req)
                else Some (RLM_MODULE_NOTFOUND, req) } } })"

subsection \<open>Splitting and joining\<close>

lemma to_vp_loop_ok:
  "p + tot \<le> length eap \<Longrightarrow> 0 < tot \<Longrightarrow>
   \<exists>vs. to_vp_loop eap p tot = Some vs \<and> concat vs = chunk eap p tot \<and> vs \<noteq> [] \<and>
        (\<forall>v\<in>set vs. 0 < length v \<and> length v \<le> 253) \<and> (4 \<le> tot \<longrightarrow> 4 \<le> length (hd vs))"
proof (induction tot arbitrary: p rule: less_induct)
  case (less tot)
  show ?case
  proof (cases "253 < tot")
    case False
    with less.prems show ?thesis by (subst to_vp_loop.simps) simp
  next
    case True
    then have "p + 253 + (tot - 253) \<le> length eap" "tot - 253 < tot" "0 < tot - 253" using less.prems by simp_all
    with less.IH [of "tot - 253" "p + 253"] obtain vs where vs: "to_vp_loop eap (p + 253) (tot - 253) = Some vs"
      "concat vs = chunk eap (p + 253) (tot - 253)" "\<forall>v\<in>set vs. 0 < length v \<and> length v \<le> 253" by blast
    have "chunk eap p tot = chunk eap p 253 @ chunk eap (p + 253) (tot - 253)"
      using True take_add [of 253 "tot - 253" "drop p eap"] by (simp add: chunk_def add.commute)
    with True less.prems vs show ?thesis by (subst to_vp_loop.simps) (simp add: Let_def)
  qed
qed

lemma vp_total_ok: "tot + length (concat vs) \<le> len \<Longrightarrow> vp_total len tot vs = Some (tot + length (concat vs))"
  by (induction vs arbitrary: tot) simp_all

lemma vp_total_Some: "vp_total len tot vs = Some n \<Longrightarrow> n = tot + length (concat vs)"
  by (induction vs arbitrary: tot) (fastforce split: if_splits)+

lemma vp_total_le: "vp_total len tot vs = Some n \<Longrightarrow> tot \<le> len \<Longrightarrow> n \<le> len"
  by (induction vs arbitrary: tot) (auto split: if_splits)


subsection \<open>Valid packets\<close>

text \<open>What the rest of the EAP code relies on: the length field covers at least the type octet and
  fits the array, the code is Request or Response, and the type is a known method.\<close>

definition eap_wf :: "bytes \<Rightarrow> bool" where
  "eap_wf p \<longleftrightarrow> 5 \<le> nbo16 (p ! 2) (p ! 3) \<and> nbo16 (p ! 2) (p ! 3) \<le> length p \<and>
     (unat (p ! 0) = FR_EAP_CODE_REQUEST \<or> unat (p ! 0) = FR_EAP_CODE_RESPONSE) \<and>
     0 < unat (p ! 4) \<and> unat (p ! 4) < FR_EAP_METHOD_MAX"

text \<open>An accepted expanded packet, and what it is rewritten to.\<close>

definition eap_expanded :: "bytes \<Rightarrow> bool" where
  "eap_expanded p \<longleftrightarrow> 13 \<le> nbo16 (p ! 2) (p ! 3) \<and> nbo16 (p ! 2) (p ! 3) \<le> length p \<and>
     (unat (p ! 0) = FR_EAP_CODE_REQUEST \<or> unat (p ! 0) = FR_EAP_CODE_RESPONSE) \<and>
     unat (p ! 4) = FR_EAP_EXPANDED_TYPE \<and> chunk p 5 3 = [0, 0, 0] \<and> chunk p 8 3 = [0, 0, 0] \<and>
     0 < unat (p ! 11) \<and> unat (p ! 11) < FR_EAP_METHOD_MAX \<and> unat (p ! 11) \<noteq> FR_EAP_METHOD_NAK"

definition eap_smash :: "bytes \<Rightarrow> bytes" where
  "eap_smash p =
     (let len = nbo16 (p ! 2) (p ! 3) in take 2 p @ put16 (len - 7) @ chunk p 11 (len - 11))"


lemma eap_reads:
  assumes "4 < length p"
  shows "rd_nbo16 p 2 = Some (nbo16 (p ! 2) (p ! 3))" "rd8 p 0 = Some (p ! 0)" "rd8 p 1 = Some (p ! 1)"
    "rd8 p 4 = Some (p ! 4)"
proof -
  show "rd_nbo16 p 2 = Some (nbo16 (p ! 2) (p ! 3))" using assms by simp
  show "rd8 p 0 = Some (p ! 0)" "rd8 p 1 = Some (p ! 1)" "rd8 p 4 = Some (p ! 4)"
    by (rule rd8_in; use assms in linarith)+
qed

lemma eap_is_valid_rejects_short:
  "length p \<le> 4 \<Longrightarrow> eap_is_valid alloc p = Some (False, p)"
  by (simp add: eap_is_valid_def)

lemma eap_is_valid_plain:
  assumes "4 < length p" "\<not> (4 < nbo16 (p ! 2) (p ! 3) \<and> nbo16 (p ! 2) (p ! 3) \<le> length p \<and>
      unat (p ! 4) = FR_EAP_EXPANDED_TYPE \<and>
      (unat (p ! 0) = FR_EAP_CODE_REQUEST \<or> unat (p ! 0) = FR_EAP_CODE_RESPONSE))"
  shows "eap_is_valid alloc p = Some (eap_wf p \<and> unat (p ! 4) \<noteq> FR_EAP_METHOD_NOTIFICATION, p)"
  using assms eap_reads [OF assms(1)] by (auto simp: eap_is_valid_def eap_wf_def Let_def)

lemma eap_smash_steps:
  assumes "11 < len" "len \<le> length p" "len = nbo16 (p ! 2) (p ! 3)"
  shows "patch (take (len - 7) (patch p 4 (chunk p 11 (len - 11)))) 2 (put16 (len - 7)) = eap_smash p"
proof -
  let ?d = "chunk p 11 (len - 11)"
  have d: "length ?d = len - 11" using assms(1,2) by simp
  have "take (len - 7) (patch p 4 ?d) = take 4 p @ ?d" using assms(1,2) d by (simp add: patch_def)
  then show ?thesis using assms d
    by (simp add: patch_def eap_smash_def Let_def min_def)
qed

lemma eap_is_valid_expanded:
  assumes "4 < nbo16 (p ! 2) (p ! 3)" "nbo16 (p ! 2) (p ! 3) \<le> length p"
    and "unat (p ! 4) = FR_EAP_EXPANDED_TYPE"
    and "unat (p ! 0) = FR_EAP_CODE_REQUEST \<or> unat (p ! 0) = FR_EAP_CODE_RESPONSE"
  shows "\<exists>q. eap_is_valid alloc p = Some (eap_expanded p \<and> alloc, q) \<and> (eap_expanded p \<and> alloc \<longrightarrow> q = eap_smash p)"
proof -
  define len where "len = nbo16 (p ! 2) (p ! 3)"
  have b: "4 < len" "len \<le> length p" using assms by (simp_all add: len_def)
  have rd: "rd_nbo16 p 2 = Some len" "rd8 p 0 = Some (p ! 0)" "rd8 p 4 = Some (p ! 4)"
    using eap_reads [of p] b by (simp_all add: len_def)
  show ?thesis
  proof (cases "len \<le> 12")
    case True
    then show ?thesis using assms b rd by (auto simp: eap_is_valid_def eap_expanded_def len_def)
  next
    case False
    then have rd': "rd_mem p 5 3 = Some (chunk p 5 3)" "rd_mem p 8 3 = Some (chunk p 8 3)" "rd8 p 11 = Some (p ! 11)"
      "rd_mem p 11 (len - 11) = Some (chunk p 11 (len - 11))"
      "wr_mem p 4 (chunk p 11 (len - 11)) = Some (patch p 4 (chunk p 11 (len - 11)))"
      using b by simp_all
    have wr: "wr_mem (take (len - 7) (patch p 4 (chunk p 11 (len - 11)))) 2 (put16 (len - 7)) = Some (eap_smash p)"
      using eap_smash_steps [of len p] False b by (simp add: len_def)
    show ?thesis
      using assms b rd rd' wr False
      by (auto simp: eap_is_valid_def eap_expanded_def len_def [symmetric] Let_def)
  qed
qed

lemma length_eap_smash:
  "eap_expanded p \<Longrightarrow> length (eap_smash p) = nbo16 (p ! 2) (p ! 3) - 7"
  by (auto simp: eap_smash_def eap_expanded_def Let_def)

lemma eap_smash_wf:
  assumes "eap_expanded p"
  shows "eap_wf (eap_smash p)" "eap_smash p ! 0 = p ! 0" "eap_smash p ! 1 = p ! 1"
    "nbo16 (eap_smash p ! 2) (eap_smash p ! 3) = nbo16 (p ! 2) (p ! 3) - 7"
    "eap_smash p ! 4 = p ! 11"
proof -
  define len where "len = nbo16 (p ! 2) (p ! 3)"
  have b: "13 \<le> len" "len \<le> length p" "len < 65536" using assms by (simp_all add: eap_expanded_def len_def)
  have s: "eap_smash p = p ! 0 # p ! 1 # put16 (len - 7) @ chunk p 11 (len - 11)"
  proof -
    have "take 2 p = [p ! 0, p ! 1]"
      using b by (cases p; cases "tl p") (auto simp: numeral_2_eq_2)
    then show ?thesis by (simp add: eap_smash_def len_def Let_def)
  qed
  have n: "nbo16 (word_of_nat ((len - 7) div 256)) (word_of_nat (len - 7)) = len - 7"
    using b by (intro nbo16_put16) simp
  show h: "eap_smash p ! 0 = p ! 0" "eap_smash p ! 1 = p ! 1"
    "nbo16 (eap_smash p ! 2) (eap_smash p ! 3) = nbo16 (p ! 2) (p ! 3) - 7" "eap_smash p ! 4 = p ! 11"
    using n b unfolding s len_def [symmetric] by (simp_all add: put16_def)
  show "eap_wf (eap_smash p)"
    using assms b h length_eap_smash [OF assms] by (auto simp: eap_wf_def eap_expanded_def len_def)
qed

subsection \<open>The wire format\<close>

definition type_payload :: "eap_packet \<Rightarrow> bytes" where
  "type_payload reply = (case pk_type_data reply of None \<Rightarrow> [] | Some d \<Rightarrow> take (pk_type_length reply) d)"

text \<open>The type data is there, and a Request or Response with it fits the 16-bit length.\<close>

definition eap_fits :: "eap_packet \<Rightarrow> bool" where
  "eap_fits reply \<longleftrightarrow> 5 + pk_type_length reply < 2 ^ 16 \<and>
     (\<forall>d. pk_type_data reply = Some d \<longrightarrow> pk_type_length reply \<le> length d)"

text \<open>RFC 3748, section 4: the packet as octets.\<close>

definition eap_wire :: "eap_packet \<Rightarrow> bytes" where
  "eap_wire reply =
     (let body = (if pk_code reply = FR_EAP_CODE_REQUEST \<or> pk_code reply = FR_EAP_CODE_RESPONSE
                  then word_of_nat (pk_type_num reply) # type_payload reply else [])
      in word_of_nat (pk_code reply) # pk_id reply # put16 (4 + length body) @ body)"

lemma length_type_payload:
  "eap_fits reply \<Longrightarrow> length (type_payload reply) = (if pk_type_data reply = None then 0 else pk_type_length reply)"
  by (auto simp: type_payload_def eap_fits_def)

lemma wr_replicate_header:
  "length h = 4 \<Longrightarrow> 4 \<le> n \<Longrightarrow> wr_mem (replicate n 0) 0 h = Some (h @ replicate (n - 4) 0)"
  by (simp add: wr_mem_def patch_def)

lemma eap_wireformat_request:
  assumes "pk_packet reply = None" "eap_fits reply"
    and code: "pk_code reply = FR_EAP_CODE_REQUEST \<or> pk_code reply = FR_EAP_CODE_RESPONSE"
  shows "eap_wireformat True reply = Some (0, reply\<lparr>pk_packet := Some (eap_wire reply)\<rparr>)"
proof -
  let ?t = "type_payload reply"
  have small: "(5 + pk_type_length reply) mod 2 ^ 16 = 5 + pk_type_length reply"
    using assms(2) by (simp add: eap_fits_def)
  have "pk_code reply < 3" using code by auto
  show ?thesis
  proof (cases "pk_type_data reply = None \<or> pk_type_length reply = 0")
    case True
    then have t: "?t = []" by (auto simp: type_payload_def split: option.splits)
    define h where "h = [word_of_nat (pk_code reply), pk_id reply] @ put16 5"
    have lh: "length h = 4" by (simp add: h_def)
    have w1: "wr_mem (replicate 5 0) 0 h = Some (h @ [0])"
      using wr_replicate_header [OF lh, of 5] by simp
    have w2: "wr_mem (h @ [0]) 4 [word_of_nat (pk_type_num reply)] = Some (h @ [word_of_nat (pk_type_num reply)])"
      using lh by (simp add: wr_mem_def patch_def)
    have "eap_wire reply = h @ [word_of_nat (pk_type_num reply)]"
      using code t by (auto simp: eap_wire_def h_def)
    moreover have "(case pk_type_data reply of
        Some data \<Rightarrow> if 0 < pk_type_length reply then do { d \<leftarrow> rd_mem data 0 (pk_type_length reply); wr_mem p 5 d }
                     else Some p
      | None \<Rightarrow> Some p) = Some p" for p
      using True by (auto split: option.splits)
    ultimately show ?thesis
      using True assms(1) code w1 w2 \<open>pk_code reply < 3\<close>
      by (auto simp: eap_wireformat_def Let_def h_def [symmetric] simp del: append.simps wr_mem_in)
  next
    case False
    then obtain d where d: "pk_type_data reply = Some d" "0 < pk_type_length reply" "pk_type_length reply \<le> length d"
      using assms(2) by (auto simp: eap_fits_def)
    have t: "?t = take (pk_type_length reply) d" "length ?t = pk_type_length reply"
      using d by (simp_all add: type_payload_def)
    define h where "h = [word_of_nat (pk_code reply), pk_id reply] @ put16 (5 + pk_type_length reply)"
    have lh: "length h = 4" by (simp add: h_def)
    let ?z = "replicate (pk_type_length reply) (0 :: byte)"
    have w1: "wr_mem (replicate (5 + pk_type_length reply) 0) 0 h = Some (h @ 0 # ?z)"
      using wr_replicate_header [OF lh, of "5 + pk_type_length reply"] by simp
    have w2: "wr_mem (h @ 0 # ?z) 4 [word_of_nat (pk_type_num reply)] = Some (h @ word_of_nat (pk_type_num reply) # ?z)"
      using lh by (simp add: wr_mem_def patch_def)
    have w3: "wr_mem (h @ word_of_nat (pk_type_num reply) # ?z) 5 (chunk d 0 (pk_type_length reply)) =
        Some (h @ word_of_nat (pk_type_num reply) # ?t)"
      using lh d(3) t by (simp add: wr_mem_def patch_def chunk_def)
    have "eap_wire reply = h @ word_of_nat (pk_type_num reply) # ?t"
      using code t(2) by (auto simp: eap_wire_def h_def)
    then show ?thesis
      using assms(1) code d small w1 w2 w3 \<open>pk_code reply < 3\<close>
      by (simp add: eap_wireformat_def Let_def h_def [symmetric] del: append.simps wr_mem_in)
  qed
qed

lemma eap_wireformat_result:
  assumes "pk_packet reply = None" "pk_code reply = FR_EAP_CODE_SUCCESS \<or> pk_code reply = FR_EAP_CODE_FAILURE"
  shows "eap_wireformat True reply = Some (0, reply\<lparr>pk_packet := Some (eap_wire reply)\<rparr>)"
  using assms by (auto simp: eap_wireformat_def eap_wire_def Let_def wr_mem_def patch_def put16_def)

lemma eap_wire_nth:
  assumes "eap_fits reply" "pk_code reply = FR_EAP_CODE_REQUEST \<or> pk_code reply = FR_EAP_CODE_RESPONSE"
  shows "length (eap_wire reply) = 5 + length (type_payload reply)"
    "eap_wire reply ! 0 = word_of_nat (pk_code reply)" "eap_wire reply ! 1 = pk_id reply"
    "nbo16 (eap_wire reply ! 2) (eap_wire reply ! 3) = 5 + length (type_payload reply)"
    "eap_wire reply ! 4 = word_of_nat (pk_type_num reply)"
    "drop 5 (eap_wire reply) = type_payload reply"
proof -
  let ?n = "5 + length (type_payload reply)"
  have w: "eap_wire reply = word_of_nat (pk_code reply) # pk_id reply # word_of_nat (?n div 256) # word_of_nat ?n #
      word_of_nat (pk_type_num reply) # type_payload reply"
    using assms(2) by (auto simp: eap_wire_def put16_def)
  have "?n < 65536" using assms(1) length_type_payload [OF assms(1)] by (simp add: eap_fits_def)
  from nbo16_put16 [OF this] show "length (eap_wire reply) = 5 + length (type_payload reply)"
    "eap_wire reply ! 0 = word_of_nat (pk_code reply)" "eap_wire reply ! 1 = pk_id reply"
    "nbo16 (eap_wire reply ! 2) (eap_wire reply ! 3) = 5 + length (type_payload reply)"
    "eap_wire reply ! 4 = word_of_nat (pk_type_num reply)"
    "drop 5 (eap_wire reply) = type_payload reply" unfolding w by simp_all
qed

lemma eap_round_build_wire:
  assumes "eap_fits reply" "pk_code reply = FR_EAP_CODE_REQUEST \<or> pk_code reply = FR_EAP_CODE_RESPONSE"
    and "pk_type_num reply < 256"
  shows "\<exists>r. eap_round_build True (eap_wire reply) = Some (Some r) \<and>
    pk_code (rd_response r) = pk_code reply \<and> pk_id (rd_response r) = pk_id reply \<and>
    pk_type_num (rd_response r) = pk_type_num reply \<and> type_payload (rd_response r) = type_payload reply \<and>
    pk_length (rd_response r) = 5 + length (type_payload reply)"
proof -
  let ?w = "eap_wire reply"
  note n = eap_wire_nth [OF assms(1,2)]
  have l: "4 < length ?w" using n(1) by simp
  note rd = eap_reads [OF l] n
  have ty: "unat (word_of_nat (pk_type_num reply) :: byte) = pk_type_num reply" using assms(3) by simp
  have co: "unat (word_of_nat (pk_code reply) :: byte) = pk_code reply" using assms(2) by auto
  have ch: "chunk ?w 5 (length (type_payload reply)) = type_payload reply" using n(1,6) by (simp add: chunk_def)
  show ?thesis
  proof (cases "type_payload reply = []")
    case True
    then show ?thesis using rd ty co
      by (simp add: eap_round_build_def eap_round_alloc_def Let_def type_payload_def [of "eap_packet_zero\<lparr>pk_type_length := _\<rparr>"]
          type_payload_def)
  next
    case False
    have m: "rd_mem ?w 5 (length (type_payload reply)) = Some (type_payload reply)" using n(1) ch by simp
    show ?thesis using False rd ty co m
      by (simp add: eap_round_build_def eap_round_alloc_def Let_def) (simp add: type_payload_def)
  qed
qed

subsection \<open>Replies\<close>

text \<open>The reply as \<open>eap_compose\<close> sends it.\<close>

abbreviation composed :: "'a eap_session_scheme \<Rightarrow> eap_packet" where
  "composed s \<equiv> compose_type (es_type s) (compose_id (es_this_round s))"

lemma composed_fields [simp]:
  "pk_code (compose_type t (compose_id r)) = pk_code (rd_request r)"
  "pk_packet (compose_type t (compose_id r)) = pk_packet (rd_request r)"
  "eap_fits (compose_type t (compose_id r)) = eap_fits (rd_request r)"
  by (simp_all add: compose_type_def compose_id_def Let_def eap_fits_def)

lemma eap_wire_reads:
  assumes "eap_fits reply" "pk_code reply \<in> {1, 2, 3, 4}"
  shows "rd_nbo16 (eap_wire reply) 2 = Some (length (eap_wire reply))"
proof -
  let ?b = "if pk_code reply = FR_EAP_CODE_REQUEST \<or> pk_code reply = FR_EAP_CODE_RESPONSE
            then (word_of_nat (pk_type_num reply) :: byte) # type_payload reply else []"
  have "4 + length ?b < 65536"
    using assms(1) length_type_payload [OF assms(1)] by (simp add: eap_fits_def)
  moreover have "eap_wire reply = word_of_nat (pk_code reply) # pk_id reply # put16 (4 + length ?b) @ ?b"
    by (simp add: eap_wire_def Let_def)
  ultimately show ?thesis
    using nbo16_put16 [of "4 + length ?b"] by (simp only: rd_nbo16_def) (simp add: rd8_def put16_def)
qed

lemma find_append: "List.find P (xs @ ys) = (case List.find P xs of None \<Rightarrow> List.find P ys | Some x \<Rightarrow> Some x)"
  by (induction xs) auto

lemma eap_compose_known:
  fixes s :: "'a eap_session_scheme"
  defines "reply \<equiv> composed s" and "req \<equiv> es_request s"
  assumes fresh: "pk_packet (rd_request (es_this_round s)) = None" "eap_fits (rd_request (es_this_round s))"
    and code: "pk_code (rd_request (es_this_round s)) \<in> {1, 2, 3, 4}"
  shows "\<exists>s'. eap_compose True s = Some (fst (compose_code (rq_proxy_eap req) (pk_code reply)), s') \<and>
    rq_reply_pairs (es_request s') = rq_reply_pairs req @ [(ATTR_EAP_MESSAGE, eap_wire reply)] @
      (if fr_pair_find_by_da (rq_reply_pairs req) ATTR_MESSAGE_AUTHENTICATOR = None
       then [(ATTR_MESSAGE_AUTHENTICATOR, replicate 16 0)] else []) \<and>
    Some (rq_reply_code (es_request s')) = fst (snd (compose_code (rq_proxy_eap req) (pk_code reply))) \<and>
    es_finished s' = es_finished s"
proof -
  have w: "eap_wireformat True reply = Some (0, reply\<lparr>pk_packet := Some (eap_wire reply)\<rparr>)"
    using eap_wireformat_request [of reply] eap_wireformat_result [of reply] fresh code by (auto simp: reply_def)
  have r: "rd_nbo16 (eap_wire reply) 2 = Some (length (eap_wire reply))"
    using eap_wire_reads [of reply] fresh code by (simp add: reply_def)
  have m: "rd_mem (eap_wire reply) 0 (length (eap_wire reply)) = Some (eap_wire reply)"
    by (simp add: rd_mem_def chunk_def)
  have f: "fr_pair_find_by_da (rq_reply_pairs req @ [(ATTR_EAP_MESSAGE, eap_wire reply)]) ATTR_MESSAGE_AUTHENTICATOR =
      fr_pair_find_by_da (rq_reply_pairs req) ATTR_MESSAGE_AUTHENTICATOR"
    by (auto simp: fr_pair_find_by_da_def find_append split: option.splits)
  obtain rc rad c where cc: "compose_code (rq_proxy_eap req) (pk_code reply) = (rc, Some rad, c)"
    using code by (auto simp: compose_code_def reply_def)
  show ?thesis
    unfolding eap_compose_def Let_def reply_def [symmetric] req_def [symmetric]
    using w r m f cc by simp
qed

text \<open>A Request answers the response with the next identifier modulo 256, a Success or Failure
  repeats it, unless the method set the identifier itself.\<close>

lemma eap_compose_identifier:
  "pk_id (composed s) =
     (if rd_set_request_id (es_this_round s) then pk_id (rd_request (es_this_round s))
      else if pk_code (rd_request (es_this_round s)) = FR_EAP_CODE_SUCCESS \<or>
              pk_code (rd_request (es_this_round s)) = FR_EAP_CODE_FAILURE
      then pk_id (rd_response (es_this_round s))
      else pk_id (rd_response (es_this_round s)) + 1)"
  by (simp add: compose_type_def compose_id_def Let_def)

section \<open>Properties\<close>

definition ex_eap :: bytes where
  "ex_eap = [2, 9, 1, 4, 13] @ replicate 255 7"

definition ex_expanded :: bytes where
  "ex_expanded = [2, 9, 0, 14, 254, 0, 0, 0, 0, 0, 0, 13, 128, 33]"

definition ex_eap_reply :: eap_packet where
  "ex_eap_reply = eap_packet_zero\<lparr>pk_code := 1, pk_id := 8, pk_type_num := 13, pk_type_length := 2,
     pk_type_data := Some [32, 1]\<rparr>"

definition ex_eap_request :: request where
  "ex_eap_request = \<lparr>rq_request_pairs = [], rq_reply_pairs = [(ATTR_STATE, [1])], rq_reply_code = 0, rq_proxy_eap = False\<rparr>"

definition ex_session :: eap_session where
  "ex_session = \<lparr>es_type = 13, es_request = ex_eap_request, es_prev_round = None,
     es_this_round = \<lparr>rd_response = eap_packet_zero\<lparr>pk_id := 255\<rparr>, rd_request = ex_eap_reply,
                      rd_set_request_id = False\<rparr>, es_finished = False\<rparr>"

text \<open>(C22) An EAP packet that fills its array and is valid survives the transport in EAP-Message
  attributes: \<open>eap_packet_to_vp\<close> splits it into attributes of at most 253 octets, and
  \<open>eap_packet_from_vp\<close> joins them to the same packet.\<close>

theorem eap_message_roundtrip:
  assumes wf: "eap_wf p" "nbo16 (p ! 2) (p ! 3) = length p" "unat (p ! 4) \<noteq> FR_EAP_METHOD_NOTIFICATION"
  shows "\<exists>vs. eap_packet_to_vp p = Some vs \<and> (\<forall>v\<in>set vs. 0 < length v \<and> length v \<le> 253) \<and>
    eap_packet_from_vp True vs = Some (Some p)"
proof -
  have l: "4 < length p" using wf by (simp add: eap_wf_def)
  obtain vs where vs: "to_vp_loop p 0 (length p) = Some vs" "concat vs = chunk p 0 (length p)" "vs \<noteq> []"
    "\<forall>v\<in>set vs. 0 < length v \<and> length v \<le> 253" "4 \<le> length (hd vs)"
  proof -
    have "0 + length p \<le> length p" "0 < length p" "4 \<le> length p" using l by linarith+
    with to_vp_loop_ok [of 0 "length p" p] that show ?thesis by blast
  qed
  have c: "concat vs = p" using vs(2) by (simp add: chunk_def)
  obtain v ws where v: "vs = v # ws" using vs(3) by (cases vs) auto
  have lv: "4 \<le> length v" using vs(5) v by simp
  have "v ! 2 = p ! 2" "v ! 3 = p ! 3" using c v lv by (auto simp: nth_append)
  then have n: "rd_nbo16 v 2 = Some (length p)" using lv wf(2) by simp
  have "wr_mem (replicate (length p) 0) 0 p = Some p" by (simp add: wr_mem_def patch_def)
  moreover have "eap_is_valid True p = Some (True, p)"
    using eap_is_valid_plain [OF l, of True] wf by (auto simp: eap_wf_def)
  ultimately have "eap_packet_from_vp True vs = Some (Some p)"
    using v n lv l c vp_total_ok [of 0 vs "length p"] by (simp add: eap_packet_from_vp_def)
  moreover have "eap_packet_to_vp p = Some vs"
    using vs(1) eap_reads(1) [OF l] wf(2) l by (auto simp: eap_packet_to_vp_def)
  ultimately show ?thesis using vs(4) by blast
qed

theorem eap_message_roundtrip_witness:
  "\<exists>vs. eap_packet_to_vp ex_eap = Some vs \<and> eap_packet_from_vp True vs = Some (Some ex_eap)"
proof -
  have "eap_wf ex_eap" "nbo16 (ex_eap ! 2) (ex_eap ! 3) = length ex_eap" "unat (ex_eap ! 4) \<noteq> 2"
    by (simp_all add: eap_wf_def ex_eap_def nbo16_def)
  from eap_message_roundtrip [OF this] show ?thesis by blast
qed

lemma eap_packet_from_vp_wf:
  "\<exists>r. eap_packet_from_vp alloc vps = Some r \<and> (\<forall>p. r = Some p \<longrightarrow> eap_wf p)"
proof -
  have valid: "\<exists>ok q. eap_is_valid alloc p = Some (ok, q) \<and> (ok \<longrightarrow> eap_wf q)" for p
  proof (cases "4 < length p")
    case l: True
    show ?thesis
    proof (cases "4 < nbo16 (p ! 2) (p ! 3) \<and> nbo16 (p ! 2) (p ! 3) \<le> length p \<and>
        unat (p ! 4) = FR_EAP_EXPANDED_TYPE \<and>
        (unat (p ! 0) = FR_EAP_CODE_REQUEST \<or> unat (p ! 0) = FR_EAP_CODE_RESPONSE)")
      case True
      then show ?thesis using eap_is_valid_expanded [of p alloc] eap_smash_wf(1) [of p] by blast
    next
      case False
      from eap_is_valid_plain [OF l this, of alloc] show ?thesis by blast
    qed
  qed (use eap_is_valid_rejects_short [of p alloc] in auto)
  show ?thesis
  proof (cases vps)
    case (Cons v ws)
    show ?thesis
    proof (cases "length v < 4")
      case False
      define len where "len = nbo16 (v ! 2) (v ! 3)"
      have n: "rd_nbo16 v 2 = Some len" using False by (simp add: len_def)
      have w: "wr_mem (replicate len 0) 0 (concat vps) = Some (concat vps)"
        if "vp_total len 0 vps = Some t" "\<not> t < len" for t
        using vp_total_Some [OF that(1)] vp_total_le [OF that(1)] that(2) by (simp add: wr_mem_def patch_def)
      show ?thesis
        using n w False valid [of "concat vps"]
        by (auto simp: eap_packet_from_vp_def Cons split: option.splits)
    qed (simp add: eap_packet_from_vp_def Cons)
  qed (simp add: eap_packet_from_vp_def)
qed

text \<open>A packet with the expanded type of the IETF vendor (type 254, vendor 0) is accepted as if
  it had been sent with the plain type: the seven octets of the expanded header are removed, the
  length is corrected, and code, identifier and type data are kept.\<close>

theorem eap_is_valid_expanded_type:
  assumes "eap_expanded p"
  shows "eap_is_valid True p = Some (True, eap_smash p) \<and> eap_wf (eap_smash p) \<and>
    nbo16 (eap_smash p ! 2) (eap_smash p ! 3) = length (eap_smash p) \<and>
    take 2 (eap_smash p) = take 2 p \<and>
    drop 4 (eap_smash p) = chunk p 11 (nbo16 (p ! 2) (p ! 3) - 11)"
proof (intro conjI)
  show "eap_is_valid True p = Some (True, eap_smash p)"
    using eap_is_valid_expanded [of p True] assms by (auto simp: eap_expanded_def)
  show "eap_wf (eap_smash p)" "nbo16 (eap_smash p ! 2) (eap_smash p ! 3) = length (eap_smash p)"
    using eap_smash_wf [OF assms] length_eap_smash [OF assms] by simp_all
  have "2 \<le> length p" using assms by (auto simp: eap_expanded_def)
  then show "drop 4 (eap_smash p) = chunk p 11 (nbo16 (p ! 2) (p ! 3) - 11)" "take 2 (eap_smash p) = take 2 p"
    by (simp_all add: eap_smash_def Let_def min_def)
qed

theorem eap_is_valid_expanded_type_witness:
  "eap_is_valid True ex_expanded = Some (True, [2, 9, 0, 7, 13, 128, 33])"
proof -
  have e: "eap_expanded ex_expanded" by code_simp
  have "eap_smash ex_expanded = [2, 9, 0, 7, 13, 128, 33]" by code_simp
  with eap_is_valid_expanded_type [OF e] show ?thesis by simp
qed

text \<open>(C23) \<open>eap_round_build\<close> reads back what \<open>eap_wireformat\<close> wrote: for a Request or Response with a
  method number below 256 and type data that fits the 16-bit length, the code, the identifier, the
  type and the type data of the received packet are those that were sent.\<close>

theorem eap_wireformat_roundtrip:
  assumes "pk_packet reply = None" "eap_fits reply" "pk_type_num reply < 256"
    and "pk_code reply = FR_EAP_CODE_REQUEST \<or> pk_code reply = FR_EAP_CODE_RESPONSE"
  shows "\<exists>w r. eap_wireformat True reply = Some (0, reply\<lparr>pk_packet := Some w\<rparr>) \<and>
    eap_round_build True w = Some (Some r) \<and>
    pk_code (rd_response r) = pk_code reply \<and> pk_id (rd_response r) = pk_id reply \<and>
    pk_type_num (rd_response r) = pk_type_num reply \<and> type_payload (rd_response r) = type_payload reply"
  using eap_wireformat_request [OF assms(1,2,4)] eap_round_build_wire [OF assms(2,4,3)] by blast

theorem eap_wireformat_roundtrip_witness:
  "\<exists>w r. eap_wireformat True ex_eap_reply = Some (0, ex_eap_reply\<lparr>pk_packet := Some w\<rparr>) \<and>
    eap_round_build True w = Some (Some r) \<and> type_payload (rd_response r) = [32, 1]"
proof -
  have "pk_packet ex_eap_reply = None" "eap_fits ex_eap_reply" "pk_type_num ex_eap_reply < 256"
    "pk_code ex_eap_reply = 1 \<or> pk_code ex_eap_reply = 2" "type_payload ex_eap_reply = [32, 1]"
    by (simp_all add: ex_eap_reply_def eap_packet_zero_def eap_fits_def type_payload_def)
  with eap_wireformat_roundtrip [of ex_eap_reply] show ?thesis by auto
qed

text \<open>A composed reply is one EAP-Message with the packet in wire format, next to a
  Message-Authenticator (one is added if there is none), under the RADIUS code that belongs to
  the EAP code: Challenge for a Request, Accept for a Success, Reject for a Failure.\<close>

theorem eap_compose_reply:
  fixes s :: "'a eap_session_scheme"
  assumes "pk_packet (rd_request (es_this_round s)) = None" "eap_fits (rd_request (es_this_round s))"
    and "(pk_code (rd_request (es_this_round s)), rc, rad) \<in>
      {(1, RLM_MODULE_HANDLED, 11), (2, RLM_MODULE_HANDLED, 2), (3, RLM_MODULE_OK, 2), (4, RLM_MODULE_REJECT, 3)}"
  shows "\<exists>s'. eap_compose True s = Some (rc, s') \<and> rq_reply_code (es_request s') = rad \<and>
    rq_reply_pairs (es_request s') = rq_reply_pairs (es_request s) @
      [(ATTR_EAP_MESSAGE, eap_wire (composed s))] @
      (if fr_pair_find_by_da (rq_reply_pairs (es_request s)) ATTR_MESSAGE_AUTHENTICATOR = None
       then [(ATTR_MESSAGE_AUTHENTICATOR, replicate 16 0)] else [])"
proof -
  have "pk_code (rd_request (es_this_round s)) \<in> {1, 2, 3, 4}" using assms(3) by auto
  from eap_compose_known [OF assms(1,2) this] assms(3) show ?thesis by (auto simp: compose_code_def)
qed

theorem eap_compose_reply_witness:
  "\<exists>s'. eap_compose True ex_session = Some (RLM_MODULE_HANDLED, s') \<and>
    rq_reply_pairs (es_request s') = [(ATTR_STATE, [1]), (ATTR_EAP_MESSAGE, eap_wire (composed ex_session)),
      (ATTR_MESSAGE_AUTHENTICATOR, replicate 16 0)]"
proof -
  have "pk_packet (rd_request (es_this_round ex_session)) = None" "eap_fits (rd_request (es_this_round ex_session))"
    "pk_code (rd_request (es_this_round ex_session)) = 1" "rq_reply_pairs (es_request ex_session) = [(ATTR_STATE, [1])]"
    by (simp_all add: ex_session_def ex_eap_request_def ex_eap_reply_def eap_packet_zero_def eap_fits_def)
  with eap_compose_reply [of ex_session RLM_MODULE_HANDLED 11] show ?thesis
    by (auto simp: fr_pair_find_by_da_def)
qed

text \<open>The total length of the wire format is a 16-bit integer: type data of \<open>65531\<close> octets wraps
  it to \<open>0\<close>, and the header is written outside the empty allocation.\<close>

theorem eap_wireformat_wraps:
  assumes "pk_packet reply = None" "pk_code reply = FR_EAP_CODE_REQUEST" "pk_type_data reply = Some d"
    and "pk_type_length reply = 65531"
  shows "eap_wireformat True reply = None"
  using assms by (simp add: eap_wireformat_def Let_def wr_mem_def)

theorem eap_wireformat_wraps_witness:
  "eap_wireformat True (ex_eap_reply\<lparr>pk_type_length := 65531\<rparr>) = None"
  by (rule eap_wireformat_wraps [where d = "[32, 1]"]) (simp_all add: ex_eap_reply_def eap_packet_zero_def)

end
