(* ===== verification/State_Tree.thy ===== *)
theory State_Tree
  imports Request_Data Rb_Interface Eap_Packet Md5
begin

text \<open>
  Multi-round sessions, \<^verbatim>\<open>src/lib/server/state.c\<close>.

  A state tree holds one entry per ongoing conversation, found by the 16 octets that went out in the \<open>State\<close> attribute of the last reply. Entries live in a
  store (\<open>st_entries\<close>), the tree is a red-black tree of \<open>Rb_Tree\<close> whose nodes are inside the entries: the node of the entry at address \<open>a\<close> is \<open>Ptr a\<close>. The entry that a lookup
  builds on its stack is at address \<open>0\<close>. The attributes of a session and the persisted request data are moved between request and entry.

  The time, the random words, the version number of the build and the address of a new entry are arguments. An operation that holds the mutex is one step; \<open>state_entry_create\<close>, which
  gives it back in the middle, is made of \<open>create_begin\<close>, which runs before, \<open>create_alloc\<close> and \<open>create_value\<close>, which run without it, and \<open>create_insert\<close>, which runs after it is taken again.
\<close>

section \<open>The code\<close>

type_synonym u64 = "64 word"

record state_entry =
  se_id :: u64
  se_state :: bytes
  se_seq_start :: u64
  se_cleanup :: int
  se_tries :: int
  se_ctx :: "pair_list option"
  se_data :: "request_data list"
  se_thawed :: "u64 option"

definition entry_zero :: state_entry where
  "entry_zero = \<lparr>se_id = 0, se_state = replicate 16 0, se_seq_start = 0, se_cleanup = 0, se_tries = 0, se_ctx = None, se_data = [], se_thawed = None\<rparr>"

record state_tree =
  st_addr :: nat
  st_id :: u64
  st_timed_out :: u64
  st_max_sessions :: u32
  st_used_sessions :: u32
  st_tree :: rb_tree
  st_to_expire :: "nat list"
  st_timeout :: int
  st_server_id :: byte
  st_context_id :: u32
  st_entries :: "nat \<rightharpoonup> state_entry"

text \<open>The part of a request that takes part in a session, beyond its attribute lists.\<close>

record state_request = request +
  sr_number :: u64
  sr_seq_start :: u64
  sr_sequence :: int
  sr_session :: pair_list
  sr_data :: "request_data list"

definition octet :: "bytes \<Rightarrow> nat \<Rightarrow> byte" where
  "octet s i = (if i < length s then s ! i else 0)"

fun memcmp :: "nat \<Rightarrow> nat \<Rightarrow> bytes \<Rightarrow> bytes \<Rightarrow> int" where
  "memcmp i 0 a b = 0"
| "memcmp i (Suc n) a b = (if octet a i = octet b i then memcmp (Suc i) n a b else uint (octet a i) - uint (octet b i))"

definition state_of :: "(nat \<rightharpoonup> state_entry) \<Rightarrow> nat \<Rightarrow> bytes" where
  "state_of E a = (case E a of None \<Rightarrow> [] | Some e \<Rightarrow> se_state e)"

definition state_entry_cmp :: "(nat \<rightharpoonup> state_entry) \<Rightarrow> nat \<Rightarrow> nat \<Rightarrow> int" where
  "state_entry_cmp E a b = (let ret = memcmp 0 16 (state_of E a) (state_of E b) in (if ret > 0 then 1 else 0) - (if ret < 0 then 1 else 0))"

definition fr_state_tree_init :: "nat \<Rightarrow> (rptr \<Rightarrow> rb_node) \<Rightarrow> u32 \<Rightarrow> int \<Rightarrow> byte \<Rightarrow> u32 \<Rightarrow> state_tree option" where
  "fr_state_tree_init addr nodes max_sessions timeout server_id context_id = do {
     t \<leftarrow> fr_rb_init nodes 8 False;
     Some \<lparr>st_addr = addr, st_id = 0, st_timed_out = 0, st_max_sessions = max_sessions, st_used_sessions = 0, st_tree = t, st_to_expire = [],
       st_timeout = timeout, st_server_id = server_id, st_context_id = context_id, st_entries = Map.empty\<rparr> }"

definition state_entry_unlink :: "nat \<Rightarrow> state_tree \<Rightarrow> state_tree option" where
  "state_entry_unlink a S = do {
     let S = S\<lparr>st_to_expire := remove1 a (st_to_expire S)\<rparr>;
     (_, t) \<leftarrow> fr_rb_delete (state_entry_cmp (st_entries S)) a (st_tree S);
     Some (S\<lparr>st_tree := t\<rparr>) }"

text \<open>The destructor \<open>_state_entry_free\<close>, and freeing an entry, which runs it.\<close>

definition state_entry_free :: "nat \<Rightarrow> state_tree \<Rightarrow> state_tree" where
  "state_entry_free a S = S\<lparr>st_entries := (st_entries S)(a := map_option (se_ctx_update (\<lambda>_. None)) (st_entries S a)),
     st_used_sessions := st_used_sessions S - 1\<rparr>"

definition entry_talloc_free :: "nat \<Rightarrow> state_tree \<Rightarrow> state_tree" where
  "entry_talloc_free a S = (let S = state_entry_free a S in S\<lparr>st_entries := (st_entries S)(a := None)\<rparr>)"

text \<open>The loop over the entries that may have timed out, with the entries it has unlinked.\<close>

fun expire_loop :: "nat option \<Rightarrow> int \<Rightarrow> nat list \<Rightarrow> state_tree \<Rightarrow> (nat list \<times> state_tree) option" where
  "expire_loop old now [] S = Some ([], S)"
| "expire_loop old now (e # es) S =
     (if Some e = old then expire_loop old now es S
      else if se_cleanup (the (st_entries S e)) < now then do {
        S \<leftarrow> state_entry_unlink e S;
        (to_free, S) \<leftarrow> expire_loop old now es S;
        Some (e # to_free, S) }
      else Some ([], S))"

text \<open>Before the mutex is given back: the entries to free, whether there are too many sessions, and what is remembered of the old entry.\<close>

definition create_begin :: "nat option \<Rightarrow> int \<Rightarrow> state_tree \<Rightarrow> (nat list \<times> bool \<times> int \<times> bytes \<times> state_tree) option" where
  "create_begin old now S = do {
     (to_free, S) \<leftarrow> expire_loop old now (st_to_expire S) S;
     let S = S\<lparr>st_timed_out := st_timed_out S + of_nat (length to_free)\<rparr>;
     Some (case old of
       None \<Rightarrow> (let too_many = (st_used_sessions S = st_max_sessions S)
          in (to_free, too_many, 0, [], if \<not> too_many then S\<lparr>st_used_sessions := st_used_sessions S + 1\<rparr> else S))
     | Some a \<Rightarrow> (to_free, False, se_tries (the (st_entries S a)), se_state (the (st_entries S a)), S)) }"

definition fr_time_add :: "int \<Rightarrow> int \<Rightarrow> int" where
  "fr_time_add a b = (if a + b > 2 ^ 63 - 1 then 2 ^ 63 - 1 else if a + b < - (2 ^ 63) then - (2 ^ 63) else a + b)"

text \<open>A new entry, or the old one cleared.\<close>

definition create_alloc :: "nat option \<Rightarrow> nat \<Rightarrow> int \<Rightarrow> state_tree \<Rightarrow> nat \<times> state_tree" where
  "create_alloc old new now S =
     (let (a, S) = (case old of None \<Rightarrow> (new, S) | Some a \<Rightarrow> (a, state_entry_free a S));
          e = entry_zero\<lparr>se_id := st_id S, se_cleanup := fr_time_add now (st_timeout S)\<rparr>
      in (a, S\<lparr>st_entries := (st_entries S)(a \<mapsto> e), st_id := st_id S + 1\<rparr>))"

text \<open>The octets of a \<open>State\<close> attribute as the value of an entry.\<close>

definition state_key :: "bytes \<Rightarrow> bytes" where
  "state_key v = (if length v = 16 then v else if length v > 16 then fr_md5_calc v else v @ replicate (16 - length v) 0)"

definition state_comp :: "u32 \<Rightarrow> byte \<Rightarrow> int \<Rightarrow> bytes \<Rightarrow> bytes" where
  "state_comp version server_id tries s =
     (let s = s[0 := of_int (tries + 1)];
          s = s[1 := s ! 0 XOR of_int tries];
          s = s[8 := s ! 2 XOR ucast (drop_bit 16 version AND 0xff)];
          s = s[10 := s ! 2 XOR ucast (drop_bit 8 version AND 0xff)];
          s = s[12 := s ! 2 XOR ucast (version AND 0xff)]
      in s[3 := server_id])"

text \<open>The value of the entry, and the reply with it.\<close>

definition create_value ::
    "u32 \<Rightarrow> u32 list \<Rightarrow> (int \<times> bytes) option \<Rightarrow> nat \<Rightarrow> pair_list \<Rightarrow> state_tree \<Rightarrow> pair_list \<times> state_tree" where
  "create_value version rand old a reply S =
     (let e = the (st_entries S a) in
      case fr_pair_find_by_da reply ATTR_STATE of
        Some v \<Rightarrow> (reply, S\<lparr>st_entries := (st_entries S)(a \<mapsto> e\<lparr>se_state := state_key v\<rparr>)\<rparr>)
      | None \<Rightarrow>
          (let e = (case old of
                 Some (old_tries, old_state) \<Rightarrow> e\<lparr>se_state := old_state, se_tries := old_tries + 1\<rparr>
               | None \<Rightarrow> e\<lparr>se_state := concat (map PUT_32BIT_LE (take 4 rand))\<rparr>);
               e = e\<lparr>se_state := state_comp version (st_server_id S) (se_tries e) (se_state e)\<rparr>
           in (reply @ [(ATTR_STATE, se_state e)], S\<lparr>st_entries := (st_entries S)(a \<mapsto> e)\<rparr>)))"

definition xor_context :: "u32 \<Rightarrow> bytes \<Rightarrow> bytes" where
  "xor_context context_id s = take 4 s @ xor_bytes (take 4 (drop 4 s)) (PUT_32BIT_LE context_id) @ drop 8 s"

text \<open>After the mutex is taken again.\<close>

definition create_insert :: "nat \<Rightarrow> pair_list \<Rightarrow> state_tree \<Rightarrow> (nat option \<times> pair_list \<times> state_tree) option" where
  "create_insert a reply S = do {
     let e = the (st_entries S a);
     let S = S\<lparr>st_entries := (st_entries S)(a \<mapsto> e\<lparr>se_state := xor_context (st_context_id S) (se_state e)\<rparr>)\<rparr>;
     (inserted, t) \<leftarrow> fr_rb_insert (state_entry_cmp (st_entries S)) a (Some (Ptr a)) (st_tree S);
     let S = S\<lparr>st_tree := t\<rparr>;
     if \<not> inserted then Some (None, fr_pair_delete_by_da reply ATTR_STATE, entry_talloc_free a S)
     else Some (Some a, reply, S\<lparr>st_to_expire := st_to_expire S @ [a]\<rparr>) }"

definition state_entry_create ::
    "int \<Rightarrow> u32 \<Rightarrow> u32 list \<Rightarrow> nat \<Rightarrow> pair_list \<Rightarrow> nat option \<Rightarrow> state_tree \<Rightarrow> (nat option \<times> pair_list \<times> state_tree) option" where
  "state_entry_create now version rand new reply old S = do {
     (to_free, too_many, old_tries, old_state, S) \<leftarrow> create_begin old now S;
     let S = fold entry_talloc_free to_free S;
     if too_many then Some (None, reply, S)
     else do {
       let (a, S) = create_alloc old new now S;
       let (reply, S) = create_value version rand (if old = None then None else Some (old_tries, old_state)) a reply S;
       create_insert a reply S } }"

definition state_entry_find_and_unlink :: "bytes \<Rightarrow> state_tree \<Rightarrow> (nat option \<times> state_tree) option" where
  "state_entry_find_and_unlink v S = do {
     let my_entry = entry_zero\<lparr>se_state := xor_context (st_context_id S) (state_key v)\<rparr>;
     (entry, t) \<leftarrow> fr_rb_remove (state_entry_cmp ((st_entries S)(0 \<mapsto> my_entry))) 0 (st_tree S);
     let S = S\<lparr>st_tree := t\<rparr>;
     Some (case entry of None \<Rightarrow> (None, S) | Some a \<Rightarrow> (Some a, S\<lparr>st_to_expire := remove1 a (st_to_expire S)\<rparr>)) }"

text \<open>Freeing the context of a session frees the persistable request data, which is allocated in it, and unlinks it from the request.\<close>

definition free_session_state_ctx :: "request_data list \<Rightarrow> request_data list" where
  "free_session_state_ctx = filter (\<lambda>rd. \<not> rd_persist rd)"

definition fr_state_discard :: "state_request \<Rightarrow> state_tree \<Rightarrow> (state_request \<times> state_tree) option" where
  "fr_state_discard r S =
     (case fr_pair_find_by_da (rq_request_pairs r) ATTR_STATE of
        None \<Rightarrow> Some (r, S)
      | Some v \<Rightarrow> do {
          (entry, S) \<leftarrow> state_entry_find_and_unlink v S;
          Some (case entry of None \<Rightarrow> (r, S) | Some a \<Rightarrow> (r\<lparr>sr_session := [], sr_data := free_session_state_ctx (sr_data r)\<rparr>, entry_talloc_free a S)) })"

definition fr_state_to_request :: "state_request \<Rightarrow> state_tree \<Rightarrow> (int \<times> state_request \<times> state_tree) option" where
  "fr_state_to_request r S =
     (case fr_pair_find_by_da (rq_request_pairs r) ATTR_STATE of
        None \<Rightarrow> Some (1, if sr_seq_start r = 0 then r\<lparr>sr_seq_start := sr_number r\<rparr> else r, S)
      | Some v \<Rightarrow> do {
          (entry, S) \<leftarrow> state_entry_find_and_unlink v S;
          case entry of
            None \<Rightarrow> Some (2, r, S)
          | Some a \<Rightarrow>
              (let e = the (st_entries S a) in
               if se_thawed e \<noteq> None then Some (- 2, r, S)
               else do {
                 ctx \<leftarrow> se_ctx e;
                 let r = r\<lparr>sr_seq_start := se_seq_start e, sr_session := ctx\<rparr>;
                 let (freed, data) = request_data_add (st_addr S) 0 a True True False (sr_data r);
                 let S = fold entry_talloc_free freed S;
                 let r = r\<lparr>sr_data := request_data_restore (free_session_state_ctx data) (se_data e)\<rparr>;
                 let S = S\<lparr>st_entries := (st_entries S)(a \<mapsto> e\<lparr>se_data := [], se_ctx := None, se_thawed := Some (sr_number r)\<rparr>)\<rparr>;
                 Some (0, r\<lparr>sr_sequence := se_tries e\<rparr>, S) }) })"

definition fr_request_to_state :: "int \<Rightarrow> u32 \<Rightarrow> u32 list \<Rightarrow> nat \<Rightarrow> state_request \<Rightarrow> state_tree \<Rightarrow> (int \<times> state_request \<times> state_tree) option" where
  "fr_request_to_state now version rand new r S =
     (let (old, rds) = request_data_get (st_addr S) 0 (sr_data r);
          (_, data, rds) = request_data_by_persistance True [] rds;
          r = r\<lparr>sr_data := rds\<rparr>
      in if sr_session r = [] \<and> data = [] then Some (0, r, S)
         else do {
           (entry, reply, S) \<leftarrow> state_entry_create now version rand new (rq_reply_pairs r) (if old = 0 then None else Some old) S;
           let r = r\<lparr>rq_reply_pairs := reply\<rparr>;
           case entry of
             None \<Rightarrow> Some (- 1, r\<lparr>sr_data := request_data_restore (sr_data r) data\<rparr>, S)
           | Some a \<Rightarrow>
               (let e = (the (st_entries S a))\<lparr>se_seq_start := sr_seq_start r, se_ctx := Some (sr_session r), se_data := data\<rparr>;
                    S = S\<lparr>st_entries := (st_entries S)(a \<mapsto> e)\<rparr>
                in Some (0, r\<lparr>sr_session := []\<rparr>, S)) })"

definition fr_state_entries_created :: "state_tree \<Rightarrow> u64" where
  "fr_state_entries_created S = st_id S"

definition fr_state_entries_timeout :: "state_tree \<Rightarrow> u64" where
  "fr_state_entries_timeout S = st_timed_out S"

definition fr_state_entries_tracked :: "state_tree \<Rightarrow> u64" where
  "fr_state_entries_tracked S = ucast (fr_rb_num_elements (st_tree S))"

text \<open>Freeing the whole tree.\<close>

fun state_tree_free_loop :: "nat list \<Rightarrow> state_tree \<Rightarrow> state_tree option" where
  "state_tree_free_loop [] S = Some S"
| "state_tree_free_loop (e # es) S = do { S \<leftarrow> state_entry_unlink e S; state_tree_free_loop es (entry_talloc_free e S) }"

definition state_tree_free :: "state_tree \<Rightarrow> state_tree option" where
  "state_tree_free S = do {
     S \<leftarrow> state_tree_free_loop (st_to_expire S) S;
     (_, t) \<leftarrow> tree_free (st_tree S);
     Some (S\<lparr>st_tree := t\<rparr>) }"

text \<open>The session of a child request is kept in the data of its parent. The entries are in a store of their own.\<close>

record state_child_entry =
  ce_ctx :: "pair_list option"
  ce_data :: "request_data list"
  ce_thawed :: "u64 option"

definition fr_state_store_in_parent ::
    "nat \<Rightarrow> int \<Rightarrow> nat \<Rightarrow> state_request \<Rightarrow> state_request \<Rightarrow> (nat \<rightharpoonup> state_child_entry) \<Rightarrow> state_request \<times> state_request \<times> (nat \<rightharpoonup> state_child_entry)" where
  "fr_state_store_in_parent ptr i new child parent C =
     (if request_data_by_persistance_count True (sr_data child) > 0 \<or> sr_session child \<noteq> [] then
        let (_, data, rds) = request_data_by_persistance True [] (sr_data child);
            C = C(new \<mapsto> \<lparr>ce_ctx = Some (sr_session child), ce_data = data, ce_thawed = None\<rparr>);
            (freed, pdata) = request_data_add ptr i new True False True (sr_data parent)
        in (child\<lparr>sr_data := rds, sr_session := []\<rparr>, parent\<lparr>sr_data := pdata\<rparr>, fold (\<lambda>a C. C(a := None)) freed C)
      else (child, parent, C))"

definition fr_state_restore_to_child ::
    "nat \<Rightarrow> int \<Rightarrow> state_request \<Rightarrow> state_request \<Rightarrow> (nat \<rightharpoonup> state_child_entry) \<Rightarrow> (state_request \<times> state_request \<times> (nat \<rightharpoonup> state_child_entry)) option" where
  "fr_state_restore_to_child ptr i child parent C =
     (let (a, pdata) = request_data_get ptr i (sr_data parent); parent = parent\<lparr>sr_data := pdata\<rparr> in
      if a = 0 then Some (child, parent, C)
      else let ce = the (C a) in
        if ce_thawed ce \<noteq> None then Some (child, parent, C)
        else do {
          ctx \<leftarrow> ce_ctx ce;
          Some (child\<lparr>sr_session := ctx, sr_data := request_data_restore (sr_data child) (ce_data ce)\<rparr>, parent, C(a := None)) })"

definition fr_state_discard_child :: "nat \<Rightarrow> int \<Rightarrow> state_request \<Rightarrow> (nat \<rightharpoonup> state_child_entry) \<Rightarrow> state_request \<times> (nat \<rightharpoonup> state_child_entry)" where
  "fr_state_discard_child ptr i parent C =
     (let (a, pdata) = request_data_get ptr i (sr_data parent); parent = parent\<lparr>sr_data := pdata\<rparr> in
      if a = 0 then (parent, C) else (parent, C(a := None)))"

section \<open>The order of the entries\<close>

lemma memcmp_zero: "memcmp i n a b = 0 \<longleftrightarrow> (\<forall>j<n. octet a (i + j) = octet b (i + j))"
proof (induction n arbitrary: i)
  case (Suc n)
  have "(\<forall>j<Suc n. octet a (i + j) = octet b (i + j)) \<longleftrightarrow> octet a i = octet b i \<and> (\<forall>j<n. octet a (Suc i + j) = octet b (Suc i + j))"
    by (auto simp: less_Suc_eq_0_disj)
  then show ?case using Suc by (simp add: word_uint_eq_iff)
qed simp

lemma memcmp_swap: "memcmp i n b a = - memcmp i n a b"
  by (induction n arbitrary: i) auto

lemma memcmp_trans: "memcmp i n a b \<le> 0 \<Longrightarrow> memcmp i n b c \<le> 0 \<Longrightarrow> memcmp i n a c \<le> 0"
  by (induction n arbitrary: i) (auto split: if_splits simp: word_uint_eq_iff)

lemma memcmp_eq: "length a = n \<Longrightarrow> length b = n \<Longrightarrow> memcmp 0 n a b = 0 \<longleftrightarrow> a = b"
  by (auto simp: memcmp_zero octet_def list_eq_iff_nth_eq)

interpretation st: rb_order "state_entry_cmp E" for E
proof
  fix a b c
  show "state_entry_cmp E a b < 0 \<longleftrightarrow> 0 < state_entry_cmp E b a"
    using memcmp_swap [of 0 16 "state_of E a" "state_of E b"] by (simp add: state_entry_cmp_def Let_def)
  show "state_entry_cmp E a c \<le> 0" if "state_entry_cmp E a b \<le> 0" "state_entry_cmp E b c \<le> 0"
    using that memcmp_trans [of 0 16 "state_of E a" "state_of E b" "state_of E c"] by (simp add: state_entry_cmp_def Let_def split: if_splits)
qed

lemma state_entry_cmp_eq:
  "length (state_of E a) = 16 \<Longrightarrow> length (state_of E b) = 16 \<Longrightarrow> state_entry_cmp E a b = 0 \<longleftrightarrow> state_of E a = state_of E b"
  using memcmp_eq [of "state_of E a" 16 "state_of E b"] by (auto simp: state_entry_cmp_def Let_def split: if_splits)

lemma length_state_key [simp]: "length (state_key v) = 16"
  by (simp add: state_key_def fr_md5_calc_def fr_md5_local_final_def Let_def)

lemma length_xor_context [simp]: "length s = 16 \<Longrightarrow> length (xor_context c s) = 16"
  by (simp add: xor_context_def PUT_32BIT_LE_def)

lemma state_comp_length [simp]: "length (state_comp v i n s) = length s"
  by (simp add: state_comp_def Let_def)

section \<open>The invariant\<close>

text \<open>The tree holds exactly the entries of the list of those that may expire, each at the node inside it.\<close>

definition entry_ok :: "(nat \<rightharpoonup> state_entry) \<Rightarrow> nat \<Rightarrow> bool" where
  "entry_ok E a \<longleftrightarrow> a \<noteq> 0 \<and> (\<exists>e. E a = Some e \<and> length (se_state e) = 16 \<and> se_thawed e = None)"

definition tree_inv :: "(nat \<rightharpoonup> state_entry) \<Rightarrow> rb_tree \<Rightarrow> nat list \<Rightarrow> bool" where
  "tree_inv E t es \<longleftrightarrow> distinct es \<and> (\<forall>a\<in>set es. entry_ok E a \<and> data_of t (Ptr a) = a) \<and> \<not> t_data_free t \<and>
     (\<exists>as. rb_inv (state_entry_cmp E) t as \<and> set as = Ptr ` set es)"

abbreviation tree_ok :: "state_tree \<Rightarrow> bool" where
  "tree_ok S \<equiv> tree_inv (st_entries S) (st_tree S) (st_to_expire S)"

text \<open>The entry of a value.\<close>

definition holder :: "(nat \<rightharpoonup> state_entry) \<Rightarrow> nat list \<Rightarrow> bytes \<Rightarrow> nat option" where
  "holder E es k = List.find (\<lambda>a. state_of E a = k) es"

lemma rb_inv_cmp_cong:
  assumes "rb_inv cmp t as" "\<And>a b. a \<in> set as \<Longrightarrow> b \<in> set as \<Longrightarrow> cmp (data_of t a) (data_of t b) = cmp' (data_of t a) (data_of t b)"
  shows "rb_inv cmp' t as"
proof -
  have "sorted_wrt (\<lambda>a b. cmp' (data_of t a) (data_of t b) < 0) as"
  proof (rule sorted_wrt_mono_rel)
    show "sorted_wrt (\<lambda>a b. cmp (data_of t a) (data_of t b) < 0) as" using assms(1) by (simp add: rb_inv_def rb_sorted_def)
  qed (simp add: assms(2) [symmetric])
  then show ?thesis using assms(1) by (simp add: rb_inv_def rb_sorted_def)
qed

text \<open>Entries that are not in the tree can change.\<close>

lemma tree_inv_cong_state:
  assumes "tree_inv E t es" "\<And>a. a \<in> set es \<Longrightarrow> state_of E' a = state_of E a \<and> entry_ok E' a"
  shows "tree_inv E' t es"
proof -
  obtain as where as: "rb_inv (state_entry_cmp E) t as" "set as = Ptr ` set es" using assms(1) by (auto simp: tree_inv_def)
  have "rb_inv (state_entry_cmp E') t as"
    using assms as(2) by (intro rb_inv_cmp_cong [OF as(1)]) (auto simp: tree_inv_def state_entry_cmp_def)
  then show ?thesis using assms as(2) by (auto simp: tree_inv_def)
qed

lemma tree_inv_cong:
  assumes "tree_inv E t es" "\<And>a. a \<in> set es \<Longrightarrow> E' a = E a"
  shows "tree_inv E' t es"
  using assms by (intro tree_inv_cong_state [OF assms(1)]) (auto simp: tree_inv_def entry_ok_def state_of_def)

lemma state_of_ok: "tree_inv E t es \<Longrightarrow> a \<in> set es \<Longrightarrow> length (state_of E a) = 16"
  by (auto simp: tree_inv_def entry_ok_def state_of_def)

text \<open>The search of the tree by the value of an entry \<open>v\<close>.\<close>

lemma holder_match:
  assumes inv: "tree_inv E t es" "rb_inv (state_entry_cmp E) t as" "set as = Ptr ` set es" and v: "length (state_of E v) = 16"
  shows "rb_match (state_entry_cmp E) t v as = map_option Ptr (holder E es (state_of E v))"
proof -
  have z: "state_entry_cmp E v (data_of t (Ptr a)) = 0 \<longleftrightarrow> state_of E a = state_of E v" if "a \<in> set es" for a
    using state_entry_cmp_eq [OF v, of a] state_of_ok [OF inv(1) that] inv(1) that by (auto simp: tree_inv_def)
  show ?thesis
  proof (cases "holder E es (state_of E v)")
    case None
    then have "rb_match (state_entry_cmp E) t v as = None" using z inv(3) by (auto simp: holder_def find_None_iff rb_match_None)
    then show ?thesis using None by simp
  next
    case (Some a)
    then have a: "a \<in> set es" "state_of E a = state_of E v" by (auto simp: holder_def find_Some_iff)
    have "rb_match (state_entry_cmp E) t v as = Some (Ptr a)"
      using inv(2,3) z [OF a(1)] a by (intro st.rb_match_eq) (auto simp: rb_inv_def)
    then show ?thesis using Some by simp
  qed
qed

section \<open>Looking up, unlinking and inserting entries\<close>

lemma holder_Some: "holder E es k = Some a \<Longrightarrow> a \<in> set es \<and> state_of E a = k"
  by (auto simp: holder_def find_Some_iff)

lemma holder_None: "holder E es k = None \<longleftrightarrow> (\<forall>a\<in>set es. state_of E a \<noteq> k)"
  by (auto simp: holder_def find_None_iff)

text \<open>What a removal from the tree leaves.\<close>

lemma tree_inv_remove:
  assumes inv: "tree_inv E t es" and a: "a \<in> set es" and as: "set as = Ptr ` set es" "distinct as"
    and t': "rb_inv (state_entry_cmp E) t' (remove1 (Ptr a) as)" "\<forall>b. b \<noteq> Ptr a \<longrightarrow> data_of t' b = data_of t b" "\<not> t_data_free t'"
  shows "tree_inv E t' (remove1 a es)"
proof -
  have "set (remove1 a es) = set es - {a}" "set (remove1 (Ptr a) as) = Ptr ` (set es - {a})" using inv as by (auto simp: tree_inv_def)
  then show ?thesis using inv t' by (auto simp: tree_inv_def distinct_remove1)
qed

lemma tree_inv_as:
  assumes "tree_inv E t es"
  obtains as where "rb_inv (state_entry_cmp E) t as" "set as = Ptr ` set es" "distinct as" "\<not> t_data_free t"
  using assms rb_inv_addrs by (auto simp: tree_inv_def)

lemma state_entry_unlink_ok:
  assumes inv: "tree_ok S" and a: "a \<in> set (st_to_expire S)"
  shows "\<exists>t'. state_entry_unlink a S = Some (S\<lparr>st_to_expire := remove1 a (st_to_expire S), st_tree := t'\<rparr>) \<and> tree_inv (st_entries S) t' (remove1 a (st_to_expire S))"
proof -
  obtain as where as: "rb_inv (state_entry_cmp (st_entries S)) (st_tree S) as" "set as = Ptr ` set (st_to_expire S)" "distinct as" "\<not> t_data_free (st_tree S)"
    using tree_inv_as [OF inv] .
  have "data_of (st_tree S) (Ptr a) = a" using inv a by (auto simp: tree_inv_def)
  then have "rb_match (state_entry_cmp (st_entries S)) (st_tree S) a as = Some (Ptr a)"
    using as(1,2) a st.cmp_refl by (intro st.rb_match_eq) (auto simp: rb_inv_def)
  from fr_rb_delete_match [OF st.rb_order_axioms as(1) this] obtain t' where t': "fr_rb_delete (state_entry_cmp (st_entries S)) a (st_tree S) = Some (True, t')"
    "rb_inv (state_entry_cmp (st_entries S)) t' (remove1 (Ptr a) as)" "\<forall>b. b \<noteq> Ptr a \<longrightarrow> data_of t' b = data_of (st_tree S) b" "t_data_free t' = t_data_free (st_tree S)"
    by blast
  then show ?thesis using tree_inv_remove [OF inv a as(2,3) t'(2,3)] as(4) by (auto simp: state_entry_unlink_def)
qed

lemma state_entry_find_and_unlink_ok:
  assumes inv: "tree_ok S" and k: "k = xor_context (st_context_id S) (state_key v)"
  shows "\<exists>t'. state_entry_find_and_unlink v S = Some (holder (st_entries S) (st_to_expire S) k,
      S\<lparr>st_tree := t', st_to_expire := (case holder (st_entries S) (st_to_expire S) k of None \<Rightarrow> st_to_expire S | Some a \<Rightarrow> remove1 a (st_to_expire S))\<rparr>) \<and>
    tree_inv (st_entries S) t' (case holder (st_entries S) (st_to_expire S) k of None \<Rightarrow> st_to_expire S | Some a \<Rightarrow> remove1 a (st_to_expire S))"
proof -
  let ?es = "st_to_expire S" let ?E = "(st_entries S)(0 \<mapsto> entry_zero\<lparr>se_state := k\<rparr>)"
  have z: "0 \<notin> set ?es" using inv by (auto simp: tree_inv_def entry_ok_def)
  then have inv0: "tree_inv ?E (st_tree S) ?es" by (intro tree_inv_cong [OF inv]) auto
  obtain as where as: "rb_inv (state_entry_cmp ?E) (st_tree S) as" "set as = Ptr ` set ?es" "distinct as" "\<not> t_data_free (st_tree S)"
    using tree_inv_as [OF inv0] .
  have s0: "state_of ?E 0 = k" "length k = 16" by (simp_all add: state_of_def k)
  have "holder ?E ?es k = holder (st_entries S) ?es k"
    unfolding holder_def using z by (intro find_cong refl) (auto simp: state_of_def)
  then have m: "rb_match (state_entry_cmp ?E) (st_tree S) 0 as = map_option Ptr (holder (st_entries S) ?es k)"
    using holder_match [OF inv0 as(1,2), of 0] s0 by simp
  show ?thesis
  proof (cases "holder (st_entries S) ?es k")
    case None
    then have "fr_rb_remove (state_entry_cmp ?E) 0 (st_tree S) = Some (None, st_tree S)"
      using fr_rb_delete_absent(2) [OF st.rb_order_axioms as(1)] m by simp
    then show ?thesis using None inv k by (intro exI [of _ "st_tree S"]) (simp add: state_entry_find_and_unlink_def)
  next
    case (Some a)
    have a: "a \<in> set ?es" using holder_Some [OF Some] by simp
    obtain t' where t': "fr_rb_remove (state_entry_cmp ?E) 0 (st_tree S) = Some (Some (data_of (st_tree S) (Ptr a)), t')"
      "rb_inv (state_entry_cmp ?E) t' (remove1 (Ptr a) as)" "\<forall>b. b \<noteq> Ptr a \<longrightarrow> data_of t' b = data_of (st_tree S) b" "\<not> t_data_free t'"
      using fr_rb_remove_match [OF st.rb_order_axioms as(1), of 0 "Ptr a"] m Some as(4) by auto
    have "tree_inv ?E t' (remove1 a ?es)" using tree_inv_remove [OF inv0 a as(2,3) t'(2-4)] .
    then have "tree_inv (st_entries S) t' (remove1 a ?es)" using z by (auto intro!: tree_inv_cong [of ?E] dest: notin_set_remove1)
    moreover have "data_of (st_tree S) (Ptr a) = a" using inv a by (auto simp: tree_inv_def)
    ultimately show ?thesis using Some t'(1) k by (intro exI [of _ t']) (simp add: state_entry_find_and_unlink_def)
  qed
qed

text \<open>The insertion of an entry that is not yet in the tree.\<close>

lemma create_insert_ok:
  assumes inv: "tree_ok S" and a: "a \<notin> set (st_to_expire S)" "a \<noteq> 0" "st_entries S a = Some e" "length (se_state e) = 16" "se_thawed e = None"
    and k: "k = xor_context (st_context_id S) (se_state e)" and E: "E = (st_entries S)(a \<mapsto> e\<lparr>se_state := k\<rparr>)"
  shows "if holder (st_entries S) (st_to_expire S) k = None
    then \<exists>t'. create_insert a reply S = Some (Some a, reply, S\<lparr>st_entries := E, st_tree := t', st_to_expire := st_to_expire S @ [a]\<rparr>) \<and>
      tree_inv E t' (st_to_expire S @ [a]) \<and> holder E (st_to_expire S @ [a]) k = Some a
    else create_insert a reply S = Some (None, fr_pair_delete_by_da reply ATTR_STATE, entry_talloc_free a (S\<lparr>st_entries := E\<rparr>))"
proof -
  let ?es = "st_to_expire S"
  have inv': "tree_inv E (st_tree S) ?es" unfolding E using a(1) by (intro tree_inv_cong [OF inv]) auto
  obtain as where as: "rb_inv (state_entry_cmp E) (st_tree S) as" "set as = Ptr ` set ?es" "distinct as" "\<not> t_data_free (st_tree S)"
    using tree_inv_as [OF inv'] .
  have sa: "state_of E a = k" "length k = 16" using a by (simp_all add: state_of_def k E)
  have h: "holder E ?es k = holder (st_entries S) ?es k"
    unfolding holder_def using a(1) by (intro find_cong refl) (auto simp: state_of_def E)
  then have m: "rb_match (state_entry_cmp E) (st_tree S) a as = map_option Ptr (holder (st_entries S) ?es k)"
    using holder_match [OF inv' as(1,2), of a] sa by simp
  have x: "Ptr a \<notin> set as" using a(1) as(2) by auto
  show ?thesis
  proof (cases "holder (st_entries S) ?es k")
    case None
    then obtain t' where t': "insert_node (state_entry_cmp E) a (Some (Ptr a)) (st_tree S) = Some (0, None, t')"
      "rb_inv (state_entry_cmp E) t' (rb_place (state_entry_cmp E) (st_tree S) a (Ptr a) as)"
      "\<forall>b. data_of t' b = (if b = Ptr a then a else data_of (st_tree S) b)" "t_data_free t' = t_data_free (st_tree S)"
      using st.insert_node_ok [OF as(1) _ x, of a] m by auto
    have "tree_inv E t' (?es @ [a])"
      using inv' t'(2-4) as(2) a sa unfolding tree_inv_def by (auto simp: rb_place_sel entry_ok_def E intro!: exI [of _ "rb_place (state_entry_cmp E) (st_tree S) a (Ptr a) as"])
    moreover have "holder E (?es @ [a]) k = Some a" using h None sa by (simp add: holder_def find_append)
    ultimately show ?thesis using None t'(1) a(3) E k by (auto simp: create_insert_def fr_rb_insert_def)
  next
    case (Some b)
    then have "insert_node (state_entry_cmp E) a (Some (Ptr a)) (st_tree S) = Some (1, Some (Ptr b), st_tree S)"
      using st.insert_node_found [OF as(1)] m by simp
    then show ?thesis using Some a(3) E k by (simp add: create_insert_def fr_rb_insert_def entry_talloc_free_def state_entry_free_def)
  qed
qed

section \<open>Creating entries\<close>

abbreviation timed_out :: "int \<Rightarrow> state_tree \<Rightarrow> nat \<Rightarrow> bool" where
  "timed_out now S e \<equiv> se_cleanup (the (st_entries S e)) < now"

text \<open>The list is in the order of the cleanup times: the entries that have timed out are at its front.\<close>

lemma expire_loop_ok:
  assumes "tree_ok S" "\<And>a. old = Some a \<Longrightarrow> a \<notin> set (st_to_expire S)"
  shows "\<exists>t'. expire_loop old now (st_to_expire S) S =
      Some (takeWhile (timed_out now S) (st_to_expire S), S\<lparr>st_to_expire := dropWhile (timed_out now S) (st_to_expire S), st_tree := t'\<rparr>) \<and>
    tree_inv (st_entries S) t' (dropWhile (timed_out now S) (st_to_expire S))"
proof -
  have "\<exists>t'. expire_loop old now es S = Some (takeWhile (timed_out now S) es, S\<lparr>st_to_expire := dropWhile (timed_out now S) es, st_tree := t'\<rparr>) \<and>
    tree_inv (st_entries S) t' (dropWhile (timed_out now S) es)"
    if "tree_ok S" "st_to_expire S = es" "\<And>a. old = Some a \<Longrightarrow> a \<notin> set es" for es S
    using that
  proof (induction es arbitrary: S)
    case Nil
    then show ?case by (intro exI [of _ "st_tree S"]) simp
  next
    case (Cons e es)
    have n: "Some e \<noteq> old" using Cons.prems(3) [of e] by auto
    show ?case
    proof (cases "timed_out now S e")
      case True
      obtain t' where t': "state_entry_unlink e S = Some (S\<lparr>st_to_expire := es, st_tree := t'\<rparr>)" "tree_inv (st_entries S) t' es"
        using state_entry_unlink_ok [OF Cons.prems(1), of e] Cons.prems(2) by auto
      obtain t'' where "expire_loop old now es (S\<lparr>st_to_expire := es, st_tree := t'\<rparr>) =
          Some (takeWhile (timed_out now S) es, S\<lparr>st_to_expire := dropWhile (timed_out now S) es, st_tree := t''\<rparr>)"
        "tree_inv (st_entries S) t'' (dropWhile (timed_out now S) es)"
        using Cons.IH [of "S\<lparr>st_to_expire := es, st_tree := t'\<rparr>"] t'(2) Cons.prems(3) by auto
      then show ?thesis using True n t'(1) by auto
    next
      case False
      then show ?thesis using n Cons.prems(1,2) by (intro exI [of _ "st_tree S"]) simp
    qed
  qed
  from this [OF assms(1) refl assms(2)] show ?thesis by auto
qed

lemma fold_entry_talloc_free:
  "fold entry_talloc_free fs S = S\<lparr>st_entries := (\<lambda>a. if a \<in> set fs then None else st_entries S a), st_used_sessions := st_used_sessions S - of_nat (length fs)\<rparr>"
proof (induction fs arbitrary: S)
  case (Cons f fs)
  show ?case unfolding fold_Cons comp_def Cons.IH by (auto simp: entry_talloc_free_def state_entry_free_def Let_def fun_eq_iff)
qed simp

text \<open>The entry that an operation may use: a fresh address, or an entry that is in no tree.\<close>

definition usable :: "nat option \<Rightarrow> nat \<Rightarrow> state_tree \<Rightarrow> bool" where
  "usable old new S \<longleftrightarrow> (case old of
     None \<Rightarrow> new \<noteq> 0 \<and> new \<notin> set (st_to_expire S)
   | Some a \<Rightarrow> a \<noteq> 0 \<and> a \<notin> set (st_to_expire S) \<and> (\<exists>e. st_entries S a = Some e \<and> length (se_state e) = 16))"

definition with_state :: "bytes \<Rightarrow> pair_list \<Rightarrow> pair_list" where
  "with_state v reply = (if fr_pair_find_by_da reply ATTR_STATE = None then reply @ [(ATTR_STATE, v)] else reply)"

text \<open>The value of an entry is the one of the \<open>State\<close> attribute of the reply.\<close>

lemma create_value_ok:
  assumes e: "st_entries S a = Some e" "se_thawed e = None" and l: "length rand = 4" "\<forall>n s. old = Some (n, s) \<longrightarrow> length s = 16"
  shows "\<exists>v e'. create_value version rand old a reply S =
      (if fr_pair_find_by_da reply ATTR_STATE = None then reply @ [(ATTR_STATE, v)] else reply, S\<lparr>st_entries := (st_entries S)(a \<mapsto> e')\<rparr>) \<and>
    (fr_pair_find_by_da reply ATTR_STATE \<noteq> None \<longrightarrow> fr_pair_find_by_da reply ATTR_STATE = Some v) \<and>
    se_state e' = state_key v \<and> se_thawed e' = None \<and>
    (fr_pair_find_by_da reply ATTR_STATE = None \<longrightarrow> v = state_comp version (st_server_id S) (case old of None \<Rightarrow> se_tries e | Some (n, _) \<Rightarrow> n + 1)
       (case old of None \<Rightarrow> concat (map PUT_32BIT_LE rand) | Some (_, s) \<Rightarrow> s))"
proof (cases "fr_pair_find_by_da reply ATTR_STATE")
  case (Some v)
  then show ?thesis using e by (intro exI [of _ v] exI [of _ "e\<lparr>se_state := state_key v\<rparr>"]) (simp add: create_value_def)
next
  case None
  let ?e = "case old of Some (old_tries, old_state) \<Rightarrow> e\<lparr>se_state := old_state, se_tries := old_tries + 1\<rparr> | None \<Rightarrow> e\<lparr>se_state := concat (map PUT_32BIT_LE rand)\<rparr>"
  let ?v = "state_comp version (st_server_id S) (se_tries ?e) (se_state ?e)"
  obtain w x y z where "rand = [w, x, y, z]" using l(1) by (auto simp: length_Suc_conv numeral_eq_Suc)
  then have "length ?v = 16" using l(2) by (auto simp: PUT_32BIT_LE_def split: option.split)
  then have "state_key ?v = ?v" by (simp add: state_key_def)
  then show ?thesis using None e l(1)
    by (intro exI [of _ ?v] exI [of _ "?e\<lparr>se_state := ?v\<rparr>"]) (simp add: create_value_def Let_def split: option.split prod.split)
qed

lemma create_begin_ok:
  assumes inv: "tree_ok S" and u: "\<And>x. old = Some x \<Longrightarrow> x \<notin> set (st_to_expire S)" and many: "many \<longleftrightarrow> old = None \<and> st_used_sessions S = st_max_sessions S"
  obtains n s S1 where "create_begin old now S = Some (takeWhile (timed_out now S) (st_to_expire S), many, n, s, S1)"
    "\<forall>x. old = Some x \<longrightarrow> s = se_state (the (st_entries S x))"
    "tree_inv (st_entries S) (st_tree S1) (dropWhile (timed_out now S) (st_to_expire S))" "st_to_expire S1 = dropWhile (timed_out now S) (st_to_expire S)"
    "st_entries S1 = st_entries S" "st_context_id S1 = st_context_id S" "st_addr S1 = st_addr S" "st_max_sessions S1 = st_max_sessions S"
    "st_used_sessions S1 = st_used_sessions S + (if old = None \<and> \<not> many then 1 else 0)"
proof -
  let ?es = "dropWhile (timed_out now S) (st_to_expire S)"
  obtain t1 where "expire_loop old now (st_to_expire S) S = Some (takeWhile (timed_out now S) (st_to_expire S), S\<lparr>st_to_expire := ?es, st_tree := t1\<rparr>)"
    "tree_inv (st_entries S) t1 ?es"
    using expire_loop_ok [OF inv u, where now = now] by auto
  then show thesis using many that by (cases old) (auto simp: create_begin_def Let_def)
qed

lemma timed_out_split:
  assumes "tree_ok S" "b \<in> set (dropWhile (timed_out now S) (st_to_expire S))"
  shows "b \<notin> set (takeWhile (timed_out now S) (st_to_expire S))" "b \<in> set (st_to_expire S)"
proof -
  have "distinct (takeWhile (timed_out now S) (st_to_expire S) @ dropWhile (timed_out now S) (st_to_expire S))" using assms(1) by (simp add: tree_inv_def)
  then have "set (takeWhile (timed_out now S) (st_to_expire S)) \<inter> set (dropWhile (timed_out now S) (st_to_expire S)) = {}" by (simp only: distinct_append)
  then show "b \<notin> set (takeWhile (timed_out now S) (st_to_expire S))" using assms(2) by blast
  show "b \<in> set (st_to_expire S)" using assms(2) by (rule set_dropWhileD)
qed

lemma create_prepare:
  assumes inv: "tree_ok S" and u: "usable old new S" and l: "length rand = 4" and few: "old = None \<longrightarrow> st_used_sessions S \<noteq> st_max_sessions S"
    and a: "a = (case old of None \<Rightarrow> new | Some a \<Rightarrow> a)" and es: "es = dropWhile (timed_out now S) (st_to_expire S)"
  shows "\<exists>reply' v e S'. state_entry_create now version rand new reply old S = create_insert a reply' S' \<and> tree_ok S' \<and> st_to_expire S' = es \<and>
    st_entries S' a = Some e \<and> se_state e = state_key v \<and> se_thawed e = None \<and> fr_pair_find_by_da reply' ATTR_STATE = Some v \<and>
    reply' = with_state v reply \<and>
    (\<forall>b. b \<noteq> a \<longrightarrow> b \<notin> set (takeWhile (timed_out now S) (st_to_expire S)) \<longrightarrow> st_entries S' b = st_entries S b) \<and>
    st_context_id S' = st_context_id S \<and> st_addr S' = st_addr S \<and> st_max_sessions S' = st_max_sessions S \<and>
    st_used_sessions S' = st_used_sessions S - of_nat (length (takeWhile (timed_out now S) (st_to_expire S))) + (if old = None then 1 else - 1)"
proof -
  let ?tf = "takeWhile (timed_out now S) (st_to_expire S)"
  obtain n s S1 where 1: "create_begin old now S = Some (?tf, False, n, s, S1)" "\<forall>x. old = Some x \<longrightarrow> s = se_state (the (st_entries S x))"
    "tree_inv (st_entries S) (st_tree S1) es" "st_to_expire S1 = es" "st_entries S1 = st_entries S" "st_context_id S1 = st_context_id S" "st_addr S1 = st_addr S"
    "st_max_sessions S1 = st_max_sessions S" "st_used_sessions S1 = st_used_sessions S + (if old = None then 1 else 0)"
  proof (rule create_begin_ok [OF inv, where now = now and old = old and many = False])
    show "\<And>x. old = Some x \<Longrightarrow> x \<notin> set (st_to_expire S)" using u by (simp add: usable_def)
  qed (use few that es in auto)
  define S2 where "S2 = fold entry_talloc_free ?tf S1"
  define S3 where "S3 = snd (create_alloc old new now S2)"
  define ov where "ov = (if old = None then None else Some (n, s))"
  have ca: "create_alloc old new now S2 = (a, S3)" by (auto simp: S3_def create_alloc_def a Let_def split: option.split)
  have 3: "st_tree S3 = st_tree S1" "st_to_expire S3 = es" "st_context_id S3 = st_context_id S" "st_addr S3 = st_addr S" "st_max_sessions S3 = st_max_sessions S"
    "st_used_sessions S3 = st_used_sessions S - of_nat (length ?tf) + (if old = None then 1 else - 1)"
    "\<And>b. b \<noteq> a \<Longrightarrow> st_entries S3 b = (if b \<in> set ?tf then None else st_entries S b)" "\<exists>e. st_entries S3 a = Some e \<and> se_thawed e = None"
    by (cases old; simp add: S3_def create_alloc_def S2_def fold_entry_talloc_free 1 a Let_def state_entry_free_def entry_zero_def)+
  then obtain e0 where e0: "st_entries S3 a = Some e0" "se_thawed e0 = None" by blast
  have so: "\<forall>n s. ov = Some (n, s) \<longrightarrow> length s = 16" using u 1(2) by (auto simp: ov_def usable_def split: if_splits)
  obtain v e' where v: "create_value version rand ov a reply S3 = (if fr_pair_find_by_da reply ATTR_STATE = None then reply @ [(ATTR_STATE, v)] else reply,
      S3\<lparr>st_entries := (st_entries S3)(a \<mapsto> e')\<rparr>)"
    "fr_pair_find_by_da reply ATTR_STATE \<noteq> None \<longrightarrow> fr_pair_find_by_da reply ATTR_STATE = Some v" "se_state e' = state_key v" "se_thawed e' = None"
    using create_value_ok [OF e0 l so, of version reply] by blast
  have an: "a \<notin> set (st_to_expire S)" using u a by (auto simp: usable_def split: option.splits)
  have dj: "b \<notin> set ?tf" "b \<noteq> a" if "b \<in> set es" for b
    using timed_out_split [OF inv, of b now] that an es by auto
  let ?r = "with_state v reply" and ?S = "S3\<lparr>st_entries := (st_entries S3)(a \<mapsto> e')\<rparr>"
  have "state_entry_create now version rand new reply old S = create_insert a ?r ?S"
    using 1(1) ca v(1) by (simp add: state_entry_create_def S2_def [symmetric] ov_def with_state_def)
  moreover have "tree_ok ?S" using 1(3) 3(1,2,7) dj by (auto intro!: tree_inv_cong [of "st_entries S"])
  moreover have "fr_pair_find_by_da ?r ATTR_STATE = Some v" using v(2) by (auto simp: fr_pair_find_by_da_def find_append with_state_def)
  moreover have "\<forall>b. b \<noteq> a \<longrightarrow> b \<notin> set ?tf \<longrightarrow> st_entries ?S b = st_entries S b" using 3(7) by auto
  ultimately show ?thesis using v(3,4) 3(2-6) by (intro exI [of _ ?r] exI [of _ v] exI [of _ e'] exI [of _ ?S]) simp
qed

text \<open>A new value of the tree: the entry is stored under the octets of the \<open>State\<close> attribute of the reply, unless another entry has them or there are too many
sessions. In every case the entries that have timed out are gone and no other entry is touched.\<close>

definition entries_kept :: "int \<Rightarrow> nat \<Rightarrow> state_tree \<Rightarrow> state_tree \<Rightarrow> bool" where
  "entries_kept now a S S' \<longleftrightarrow> (\<forall>b. b \<noteq> a \<longrightarrow> b \<notin> set (takeWhile (timed_out now S) (st_to_expire S)) \<longrightarrow> st_entries S' b = st_entries S b) \<and>
     st_context_id S' = st_context_id S \<and> st_addr S' = st_addr S \<and> st_max_sessions S' = st_max_sessions S"

lemma state_entry_create_many:
  assumes inv: "tree_ok S" and many: "st_used_sessions S = st_max_sessions S"
  obtains S' where "state_entry_create now version rand new reply None S = Some (None, reply, S')" "tree_ok S'"
    "st_to_expire S' = dropWhile (timed_out now S) (st_to_expire S)" "\<forall>a. entries_kept now a S S'"
proof -
  let ?tf = "takeWhile (timed_out now S) (st_to_expire S)"
  obtain n s S1 where 1: "create_begin None now S = Some (?tf, True, n, s, S1)"
    "tree_inv (st_entries S) (st_tree S1) (dropWhile (timed_out now S) (st_to_expire S))" "st_to_expire S1 = dropWhile (timed_out now S) (st_to_expire S)"
    "st_entries S1 = st_entries S" "st_context_id S1 = st_context_id S" "st_addr S1 = st_addr S" "st_max_sessions S1 = st_max_sessions S"
    by (rule create_begin_ok [OF inv, where now = now and old = None and many = True]) (use many that in auto)
  let ?S = "fold entry_talloc_free ?tf S1"
  have e: "st_entries ?S b = st_entries S b" if "b \<in> set (dropWhile (timed_out now S) (st_to_expire S))" for b
    using timed_out_split(1) [OF inv that] by (simp add: fold_entry_talloc_free 1(4))
  have "tree_ok ?S" using tree_inv_cong [OF 1(2) e] 1(3) by (simp add: fold_entry_talloc_free)
  then show thesis using that [of ?S] 1 by (simp add: state_entry_create_def fold_entry_talloc_free entries_kept_def)
qed

lemma state_entry_create_cases [consumes 5]:
  assumes inv: "tree_ok S" and u: "usable old new S" and l: "length rand = 4"
    and a: "a = (case old of None \<Rightarrow> new | Some a \<Rightarrow> a)" and es: "es = dropWhile (timed_out now S) (st_to_expire S)"
  obtains (stored) reply' v S' where "state_entry_create now version rand new reply old S = Some (Some a, reply', S')" "tree_ok S'" "st_to_expire S' = es @ [a]"
      "entries_kept now a S S'" "fr_pair_find_by_da reply' ATTR_STATE = Some v"
      "reply' = with_state v reply"
      "holder (st_entries S') (st_to_expire S') (xor_context (st_context_id S') (state_key v)) = Some a"
      "st_used_sessions S' = st_used_sessions S - of_nat (length (takeWhile (timed_out now S) (st_to_expire S))) + (if old = None then 1 else - 1)"
      "old = None \<longrightarrow> st_used_sessions S \<noteq> st_max_sessions S"
  | (failed) reply' S' where "state_entry_create now version rand new reply old S = Some (None, reply', S')" "tree_ok S'" "st_to_expire S' = es"
      "entries_kept now a S S'" "old = None \<and> st_used_sessions S = st_max_sessions S \<or> es \<noteq> []"
proof (cases "old = None \<and> st_used_sessions S = st_max_sessions S")
  case True
  then obtain S' where "state_entry_create now version rand new reply None S = Some (None, reply, S')" "tree_ok S'"
    "st_to_expire S' = dropWhile (timed_out now S) (st_to_expire S)" "\<forall>a. entries_kept now a S S'"
    using state_entry_create_many [OF inv, of now version rand new reply] by blast
  then show thesis using failed [of reply S'] True a es by simp
next
  case False
  then have few: "old = None \<longrightarrow> st_used_sessions S \<noteq> st_max_sessions S" by blast
  obtain r v e S1 where 1: "state_entry_create now version rand new reply old S = create_insert a r S1" "tree_ok S1" "st_to_expire S1 = es"
    "st_entries S1 a = Some e" "se_state e = state_key v" "se_thawed e = None" "fr_pair_find_by_da r ATTR_STATE = Some v" "entries_kept now a S S1"
    "r = with_state v reply"
    "st_used_sessions S1 = st_used_sessions S - of_nat (length (takeWhile (timed_out now S) (st_to_expire S))) + (if old = None then 1 else - 1)"
    using create_prepare [OF inv u l few a es, of version reply] unfolding entries_kept_def by blast
  have an: "a \<notin> set es" "a \<noteq> 0" using u a es by (auto simp: usable_def split: option.splits dest: set_dropWhileD)
  let ?k = "xor_context (st_context_id S1) (se_state e)" let ?E = "(st_entries S1)(a \<mapsto> e\<lparr>se_state := ?k\<rparr>)"
  have ins: "if holder (st_entries S1) es ?k = None
    then \<exists>t'. create_insert a r S1 = Some (Some a, r, S1\<lparr>st_entries := ?E, st_tree := t', st_to_expire := es @ [a]\<rparr>) \<and> tree_inv ?E t' (es @ [a]) \<and> holder ?E (es @ [a]) ?k = Some a
    else create_insert a r S1 = Some (None, fr_pair_delete_by_da r ATTR_STATE, entry_talloc_free a (S1\<lparr>st_entries := ?E\<rparr>))"
    using create_insert_ok [OF 1(2) _ an(2) 1(4) _ 1(6) refl refl, of r] an(1) 1(5) unfolding 1(3) by fastforce
  show thesis
  proof (cases "holder (st_entries S1) es ?k = None")
    case True
    then obtain t' where t': "create_insert a r S1 = Some (Some a, r, S1\<lparr>st_entries := ?E, st_tree := t', st_to_expire := es @ [a]\<rparr>)"
      "tree_inv ?E t' (es @ [a])" "holder ?E (es @ [a]) ?k = Some a" using ins by auto
    show thesis by (rule stored [of r "S1\<lparr>st_entries := ?E, st_tree := t', st_to_expire := es @ [a]\<rparr>" v]) (use t' 1 few in \<open>auto simp: entries_kept_def\<close>)
  next
    case False
    let ?S = "entry_talloc_free a (S1\<lparr>st_entries := ?E\<rparr>)"
    have "tree_inv (st_entries ?S) (st_tree S1) es" using 1(2,3) an(1) by (auto intro!: tree_inv_cong [of "st_entries S1"] simp: entry_talloc_free_def state_entry_free_def)
    moreover have "es \<noteq> []" using False by (auto simp: holder_def)
    ultimately show thesis using failed [of "fr_pair_delete_by_da r ATTR_STATE" ?S] ins False few 1 by (auto simp: entries_kept_def entry_talloc_free_def state_entry_free_def)
  qed
qed

section \<open>Rounds of a session\<close>

text \<open>Every entry of the tree owns the session of the reply it went out with.\<close>

definition state_inv :: "state_tree \<Rightarrow> bool" where
  "state_inv S \<longleftrightarrow> tree_ok S \<and> (\<forall>a\<in>set (st_to_expire S). se_ctx (the (st_entries S a)) \<noteq> None)"

definition held :: "state_tree \<Rightarrow> bytes \<Rightarrow> nat option" where
  "held S v = holder (st_entries S) (st_to_expire S) (xor_context (st_context_id S) (state_key v))"

text \<open>The entry that a request took from the tree in an earlier round.\<close>

definition owned :: "state_request \<Rightarrow> state_tree \<Rightarrow> nat option" where
  "owned r S = (let a = request_data_reference (st_addr S) 0 (sr_data r) in if a = 0 then None else Some a)"

definition persisted :: "state_request \<Rightarrow> state_tree \<Rightarrow> request_data list" where
  "persisted r S = filter rd_persist (filter (\<lambda>rd. rd_key rd \<noteq> (st_addr S, 0)) (sr_data r))"

lemma mset_persist_split: "mset (filter (\<lambda>rd. \<not> rd_persist rd) d @ filter rd_persist d) = mset d"
  by (induction d) auto

lemma holder_removed:
  assumes inv: "tree_inv E t es" and a: "holder E es k = Some a"
  shows "holder E (remove1 a es) k = None"
proof -
  obtain as where as: "rb_inv (state_entry_cmp E) t as" "set as = Ptr ` set es" using tree_inv_as [OF inv] .
  have a': "a \<in> set es" "state_of E a = k" using holder_Some [OF a] by auto
  have "b = a" if "b \<in> set es" "state_of E b = k" for b
  proof -
    have "state_entry_cmp E a (data_of t (Ptr c)) = 0" if "c \<in> set es" "state_of E c = k" for c
      using inv a' that state_entry_cmp_eq [of E a c] state_of_ok [OF inv] by (auto simp: tree_inv_def)
    then have "Ptr b = Ptr a" using as a' that by (intro st.data_unique [of E t as _ _ a]) (auto simp: rb_inv_def)
    then show ?thesis by simp
  qed
  then show ?thesis using inv by (auto simp: holder_None tree_inv_def)
qed

lemma kept_state_inv:
  assumes "state_inv S" "tree_ok S'" "st_to_expire S' = dropWhile (timed_out now S) (st_to_expire S)" "entries_kept now a S S'" "a \<notin> set (st_to_expire S)"
  shows "state_inv S'"
proof -
  have "st_entries S' b = st_entries S b" "b \<in> set (st_to_expire S)" if "b \<in> set (st_to_expire S')" for b
    using assms that timed_out_split [of S b now] by (auto simp: state_inv_def entries_kept_def)
  then show ?thesis using assms(1,2) by (auto simp: state_inv_def)
qed

text \<open>What \<open>fr_request_to_state\<close> does with the data of the request.\<close>

lemma fr_request_to_state_split:
  assumes "rd_inv (sr_data r)" and rds: "rds = filter (\<lambda>rd. \<not> rd_persist rd) (filter (\<lambda>rd. rd_key rd \<noteq> (st_addr S, 0)) (sr_data r))"
  shows "fr_request_to_state now version rand new r S =
    (if sr_session r = [] \<and> persisted r S = [] then Some (0, r\<lparr>sr_data := rds\<rparr>, S)
     else do {
       (entry, reply, S') \<leftarrow> state_entry_create now version rand new (rq_reply_pairs r) (owned r S) S;
       Some (case entry of
         None \<Rightarrow> (- 1, r\<lparr>sr_data := rds @ persisted r S, rq_reply_pairs := reply\<rparr>, S')
       | Some a \<Rightarrow> (0, r\<lparr>sr_data := rds, rq_reply_pairs := reply, sr_session := []\<rparr>,
           S'\<lparr>st_entries := (st_entries S')(a \<mapsto> (the (st_entries S' a))\<lparr>se_seq_start := sr_seq_start r, se_ctx := Some (sr_session r), se_data := persisted r S\<rparr>)\<rparr>)) })"
proof -
  let ?d = "filter (\<lambda>rd. rd_key rd \<noteq> (st_addr S, 0)) (sr_data r)"
  have "request_data_by_persistance True [] ?d = (0, persisted r S, rds)"
    by (simp add: request_data_by_persistance_def by_persistance_loop_filter persisted_def rds)
  moreover have "(if request_data_reference (st_addr S) 0 (sr_data r) = 0 then None else Some (request_data_reference (st_addr S) 0 (sr_data r))) = owned r S"
    by (simp add: owned_def)
  ultimately show ?thesis unfolding fr_request_to_state_def request_data_get_abs [OF assms(1)] Let_def
    by (cases "state_entry_create now version rand new (rq_reply_pairs r) (owned r S) S")
      (auto simp: request_data_restore_def split: option.splits)
qed

lemma fr_request_to_state_saved:
  assumes inv: "state_inv S" and rd: "rd_inv (sr_data r)" and u: "usable (owned r S) new S" and l: "length rand = 4"
    and ne: "sr_session r \<noteq> [] \<or> persisted r S \<noteq> []"
    and ok: "fr_request_to_state now version rand new r S = Some (0, r', S')"
  obtains v a e where "fr_pair_find_by_da (rq_reply_pairs r') ATTR_STATE = Some v" "state_inv S'" "held S' v = Some a"
    "st_entries S' a = Some e" "se_ctx e = Some (sr_session r)" "se_seq_start e = sr_seq_start r" "se_data e = persisted r S" "st_addr S' = st_addr S"
    "st_to_expire S' = dropWhile (timed_out now S) (st_to_expire S) @ [case owned r S of None \<Rightarrow> new | Some a \<Rightarrow> a]"
    "st_max_sessions S' = st_max_sessions S"
    "st_used_sessions S' = st_used_sessions S - of_nat (length (takeWhile (timed_out now S) (st_to_expire S))) + (if owned r S = None then 1 else - 1)"
    "entries_kept now (case owned r S of None \<Rightarrow> new | Some a \<Rightarrow> a) S S'" "rq_reply_code r' = rq_reply_code r"
    "rq_reply_pairs r' = with_state v (rq_reply_pairs r)"
proof -
  let ?es = "dropWhile (timed_out now S) (st_to_expire S)" and ?a = "case owned r S of None \<Rightarrow> new | Some a \<Rightarrow> a"
  obtain a reply S1 where c: "state_entry_create now version rand new (rq_reply_pairs r) (owned r S) S = Some (Some a, reply, S1)"
    and r': "rq_reply_pairs r' = reply" "rq_reply_code r' = rq_reply_code r"
    and S': "S' = S1\<lparr>st_entries := (st_entries S1)(a \<mapsto> (the (st_entries S1 a))\<lparr>se_seq_start := sr_seq_start r, se_ctx := Some (sr_session r), se_data := persisted r S\<rparr>)\<rparr>"
    using ok ne unfolding fr_request_to_state_split [OF rd refl] by (auto split: option.splits bind_splits)
  have tok: "tree_ok S" using inv by (simp add: state_inv_def)
  obtain v where 1: "a = ?a" "tree_ok S1" "st_to_expire S1 = ?es @ [a]"
    "entries_kept now a S S1" "fr_pair_find_by_da reply ATTR_STATE = Some v" "reply = with_state v (rq_reply_pairs r)" "held S1 v = Some a"
    "st_used_sessions S1 = st_used_sessions S - of_nat (length (takeWhile (timed_out now S) (st_to_expire S))) + (if owned r S = None then 1 else - 1)"
    using tok u l refl refl
  proof (cases rule: state_entry_create_cases [where version = version and reply = "rq_reply_pairs r" and now = now])
    case (stored reply1 v T)
    then have a: "a = ?a" and e: "reply1 = reply" "T = S1" using c by simp_all
    show thesis using stored(2-8) unfolding e a [symmetric] held_def [symmetric] by (rule that [OF a])
  next
    case (failed reply1 T)
    then show thesis using c by simp
  qed
  obtain e where e: "st_entries S1 a = Some e" "length (se_state e) = 16" "se_thawed e = None" "a \<noteq> 0"
    using 1(2,3) by (auto simp: tree_inv_def entry_ok_def)
  let ?e = "e\<lparr>se_seq_start := sr_seq_start r, se_ctx := Some (sr_session r), se_data := persisted r S\<rparr>"
  have so: "state_of (st_entries S') = state_of (st_entries S1)" using e(1) S' by (auto simp: fun_eq_iff state_of_def)
  have ok': "tree_ok S'"
  proof -
    have "tree_inv (st_entries S') (st_tree S1) (st_to_expire S1)"
      using e so S' 1(2) by (intro tree_inv_cong_state [OF 1(2)]) (auto simp: tree_inv_def entry_ok_def)
    then show ?thesis by (simp add: S')
  qed
  moreover have "se_ctx (the (st_entries S' b)) \<noteq> None" if "b \<in> set (st_to_expire S')" for b
    using that inv 1(3,4) timed_out_split [OF tok, of b now] by (cases "b = a") (auto simp: S' state_inv_def entries_kept_def)
  ultimately have "state_inv S'" by (simp add: state_inv_def)
  moreover have "held S' v = Some a" using 1(7) so by (simp add: held_def holder_def S')
  moreover have "st_entries S' a = Some ?e" using e(1) by (simp add: S')
  ultimately show thesis using that [of v a ?e] 1 r' by (simp add: S' entries_kept_def)
qed

text \<open>A value that is in no entry is refused.\<close>

lemma fr_state_to_request_unknown:
  assumes "state_inv S" "fr_pair_find_by_da (rq_request_pairs r) ATTR_STATE = Some v" "held S v = None"
  shows "\<exists>S'. fr_state_to_request r S = Some (2, r, S')"
  using state_entry_find_and_unlink_ok [of S _ v, OF _ refl] assms by (auto simp: fr_state_to_request_def state_inv_def held_def)

text \<open>The request gets what the entry holds, and keeps the entry; the tree forgets it.\<close>

lemma fr_state_to_request_restored:
  assumes inv: "state_inv S" and v: "fr_pair_find_by_da (rq_request_pairs r) ATTR_STATE = Some v" and a: "held S v = Some a" and e: "st_entries S a = Some e"
    and rd: "rd_inv (sr_data r)" and new: "rd_abs (sr_data r) (st_addr S, 0) = None"
  obtains r' S' ctx where "fr_state_to_request r S = Some (0, r', S')" "se_ctx e = Some ctx" "sr_session r' = ctx" "sr_seq_start r' = se_seq_start e"
    "sr_sequence r' = se_tries e" "\<exists>items. sr_data r' = items @ se_data e" "owned r' S' = Some a" "state_inv S'" "held S' v = None" "st_to_expire S' = remove1 a (st_to_expire S)"
    "st_addr S' = st_addr S" "st_used_sessions S' = st_used_sessions S" "usable (Some a) 0 S'" "st_max_sessions S' = st_max_sessions S"
    "\<forall>b. b \<noteq> a \<longrightarrow> st_entries S' b = st_entries S b" "rq_request_pairs r' = rq_request_pairs r"
    "\<exists>x. rd_key x = (st_addr S, 0) \<and> sr_data r' = x # free_session_state_ctx (sr_data r) @ se_data e"
proof -
  let ?k = "xor_context (st_context_id S) (state_key v)" and ?es = "remove1 a (st_to_expire S)"
  have tok: "tree_ok S" using inv by (simp add: state_inv_def)
  have h: "holder (st_entries S) (st_to_expire S) ?k = Some a" using a by (simp add: held_def)
  then have ae: "a \<in> set (st_to_expire S)" using holder_Some by blast
  obtain t' where t': "state_entry_find_and_unlink v S = Some (Some a, S\<lparr>st_tree := t', st_to_expire := ?es\<rparr>)" "tree_inv (st_entries S) t' ?es"
    using state_entry_find_and_unlink_ok [OF tok refl, of v] h by auto
  have ea: "se_thawed e = None" "length (se_state e) = 16" "a \<noteq> 0" using tok ae e by (auto simp: tree_inv_def entry_ok_def)
  obtain ctx where ctx: "se_ctx e = Some ctx" using inv ae e by (force simp: state_inv_def)
  have nf: "rd_unlink (st_addr S) 0 (sr_data r) = (None, sr_data r)" using new by (simp add: rd_unlink_find rd_abs_def)
  let ?rd = "\<lparr>rd_unique_ptr = st_addr S, rd_unique_int = 0, rd_opaque = a, rd_free_on_replace = True, rd_free_on_parent = True, rd_persist = False\<rparr>"
  let ?e = "e\<lparr>se_data := [], se_ctx := None, se_thawed := Some (sr_number r)\<rparr>"
  let ?S = "S\<lparr>st_tree := t', st_to_expire := ?es, st_entries := (st_entries S)(a \<mapsto> ?e)\<rparr>"
  let ?r = "r\<lparr>sr_seq_start := se_seq_start e, sr_session := ctx, sr_data := (?rd # free_session_state_ctx (sr_data r)) @ se_data e, sr_sequence := se_tries e\<rparr>"
  have "fr_state_to_request r S = Some (0, ?r, ?S)"
    using v t'(1) e ea(1) ctx nf by (simp add: fr_state_to_request_def request_data_add_def request_data_restore_def free_session_state_ctx_def Let_def)
  moreover have na: "a \<notin> set ?es" using tok by (auto simp: tree_inv_def)
  then have "tree_ok ?S" by (auto intro!: tree_inv_cong [OF t'(2)])
  then have "state_inv ?S" using inv na by (auto simp: state_inv_def dest: notin_set_remove1)
  moreover have "held ?S v = None"
  proof -
    have "holder ((st_entries S)(a \<mapsto> ?e)) ?es ?k = holder (st_entries S) ?es ?k"
      unfolding holder_def using na by (intro find_cong refl) (auto simp: state_of_def)
    then show ?thesis using holder_removed [OF tok h] by (simp add: held_def)
  qed
  moreover have "usable (Some a) 0 ?S" using na ea by (simp add: usable_def)
  moreover have "owned ?r ?S = Some a" using ea(3) by (simp add: owned_def rd_keyed_key)
  moreover have "\<exists>x. rd_key x = (st_addr S, 0) \<and> sr_data ?r = x # free_session_state_ctx (sr_data r) @ se_data e" by (rule exI [of _ ?rd]) simp
  ultimately show thesis using that [of ?r ?S ctx] ctx by (simp add: exI [of _ "?rd # free_session_state_ctx (sr_data r)"])
qed

text \<open>An example: an empty tree for \<open>m\<close> sessions and a request with one session attribute.\<close>

definition ex_tree :: "u32 \<Rightarrow> state_tree" where
  "ex_tree m = the (fr_state_tree_init 9 (\<lambda>_. zeroed) m 30 1 0x01020304)"

definition ex_state_request :: state_request where
  "ex_state_request = \<lparr>rq_request_pairs = [], rq_reply_pairs = [], rq_reply_code = 11, rq_proxy_eap = False, sr_number = 1, sr_seq_start = 1, sr_sequence = 0,
     sr_session = [(ATTR_OTHER 1, [7])], sr_data = []\<rparr>"

lemma ex_tree_sel: "st_addr (ex_tree m) = 9" "st_used_sessions (ex_tree m) = 0" "st_max_sessions (ex_tree m) = m" "st_to_expire (ex_tree m) = []"
    "st_entries (ex_tree m) = Map.empty" "fr_state_tree_init 9 (\<lambda>_. zeroed) m 30 1 0x01020304 = Some (ex_tree m)"
  by (simp_all add: ex_tree_def fr_state_tree_init_def fr_rb_init_def)

lemma ex_state_request_sel: "rd_inv (sr_data ex_state_request)" "rd_abs (sr_data ex_state_request) k = None" "owned ex_state_request S = None" "sr_session ex_state_request = [(ATTR_OTHER 1, [7])]"
    "request_data_reference ptr i (sr_data ex_state_request) = 0" "sr_data ex_state_request = []"
  by (simp_all add: ex_state_request_def rd_inv_def rd_abs_def owned_def)

lemma fr_state_tree_init_ok: "fr_state_tree_init addr nodes max_sessions timeout server_id context_id = Some S \<Longrightarrow> state_inv S"
  using fr_rb_init_empty [of nodes 8 False]
  by (auto simp: fr_state_tree_init_def state_inv_def tree_inv_def fr_rb_init_def split: bind_splits if_splits)

lemma ex_tree_saves:
  assumes r: "rd_inv (sr_data r)" "owned r (ex_tree 10) = None" "sr_session r \<noteq> []"
  shows "\<exists>r' S'. fr_request_to_state 5 0x040000 [1, 2, 3, 4] 1 r (ex_tree 10) = Some (0, r', S')"
proof -
  have t: "tree_ok (ex_tree 10)" using fr_state_tree_init_ok [OF ex_tree_sel(6)] by (simp add: state_inv_def)
  have u: "usable None 1 (ex_tree 10)" by (simp add: usable_def ex_tree_sel)
  have l: "length [1, 2, 3, 4 :: u32] = 4" by simp
  from t u l refl refl show ?thesis
  proof (cases rule: state_entry_create_cases [where version = "0x040000" and reply = "rq_reply_pairs r" and now = 5])
    case (stored reply v T)
    then show ?thesis unfolding fr_request_to_state_split [OF r(1) refl] r(2) by (simp add: r(3))
  next
    case (failed reply T)
    then show ?thesis by (simp add: ex_tree_sel)
  qed
qed

lemma ex_saved: "\<exists>r' S'. fr_request_to_state 5 0x040000 [1, 2, 3, 4] 1 ex_state_request (ex_tree 10) = Some (0, r', S')"
  by (rule ex_tree_saves [OF ex_state_request_sel(1,3)]) (simp add: ex_state_request_sel(4))

text \<open>(C4) What \<open>fr_request_to_state\<close> saves is exactly what the next request with the \<open>State\<close> attribute of the reply gets back from \<open>fr_state_to_request\<close>: the session attributes, the
persisted data and the number of the first request. The value can be used once: a second request with it is refused.\<close>

theorem state_round_trip:
  assumes "state_inv S" "rd_inv (sr_data r)" "usable (owned r S) new S" "length rand = 4"
    "sr_session r \<noteq> [] \<or> persisted r S \<noteq> []" "fr_request_to_state now version rand new r S = Some (0, r', S')"
    "fr_pair_find_by_da (rq_request_pairs q) ATTR_STATE = fr_pair_find_by_da (rq_reply_pairs r') ATTR_STATE" "rd_inv (sr_data q)" "rd_abs (sr_data q) (st_addr S, 0) = None"
  shows "\<exists>q' S''. fr_state_to_request q S' = Some (0, q', S'') \<and> sr_session q' = sr_session r \<and> sr_seq_start q' = sr_seq_start r \<and>
    (\<exists>items. sr_data q' = items @ persisted r S) \<and> state_inv S'' \<and>
    (\<forall>p. fr_pair_find_by_da (rq_request_pairs p) ATTR_STATE = fr_pair_find_by_da (rq_reply_pairs r') ATTR_STATE \<longrightarrow> (\<exists>T. fr_state_to_request p S'' = Some (2, p, T)))"
proof -
  obtain v a e where s: "fr_pair_find_by_da (rq_reply_pairs r') ATTR_STATE = Some v" "state_inv S'" "held S' v = Some a"
    "st_entries S' a = Some e" "se_ctx e = Some (sr_session r)" "se_seq_start e = sr_seq_start r" "se_data e = persisted r S" "st_addr S' = st_addr S"
    using fr_request_to_state_saved [OF assms(1-6)] by metis
  obtain q' S'' ctx where t: "fr_state_to_request q S' = Some (0, q', S'')" "se_ctx e = Some ctx" "sr_session q' = ctx" "sr_seq_start q' = se_seq_start e"
    "\<exists>items. sr_data q' = items @ se_data e" "state_inv S''" "held S'' v = None"
    using fr_state_to_request_restored [OF s(2) _ s(3,4) assms(8)] assms(7,9) s(1,8) by metis
  then show ?thesis using s fr_state_to_request_unknown [OF t(6) _ t(7)] by auto
qed

theorem state_round_trip_witness:
  "\<exists>r' S' q' S''. fr_request_to_state 5 0x040000 [1, 2, 3, 4] 1 ex_state_request (ex_tree 10) = Some (0, r', S') \<and>
    fr_state_to_request (ex_state_request\<lparr>rq_request_pairs := rq_reply_pairs r', sr_session := []\<rparr>) S' = Some (0, q', S'') \<and> sr_session q' = [(ATTR_OTHER 1, [7])] \<and>
    (\<exists>T. fr_state_to_request (ex_state_request\<lparr>rq_request_pairs := rq_reply_pairs r'\<rparr>) S'' = Some (2, ex_state_request\<lparr>rq_request_pairs := rq_reply_pairs r'\<rparr>, T))"
proof -
  obtain r' S' where s: "fr_request_to_state 5 0x040000 [1, 2, 3, 4] 1 ex_state_request (ex_tree 10) = Some (0, r', S')" using ex_saved by blast
  have "usable (owned ex_state_request (ex_tree 10)) 1 (ex_tree 10)" by (simp add: usable_def ex_tree_sel ex_state_request_sel)
  from state_round_trip [OF fr_state_tree_init_ok [OF ex_tree_sel(6)] ex_state_request_sel(1) this _ _ s, of "ex_state_request\<lparr>rq_request_pairs := rq_reply_pairs r', sr_session := []\<rparr>"]
  obtain q' S'' where q: "fr_state_to_request (ex_state_request\<lparr>rq_request_pairs := rq_reply_pairs r', sr_session := []\<rparr>) S' = Some (0, q', S'')" "sr_session q' = [(ATTR_OTHER 1, [7])]"
    "\<forall>p. fr_pair_find_by_da (rq_request_pairs p) ATTR_STATE = fr_pair_find_by_da (rq_reply_pairs r') ATTR_STATE \<longrightarrow> (\<exists>T. fr_state_to_request p S'' = Some (2, p, T))"
    by (auto simp: ex_state_request_sel rd_inv_def rd_abs_def)
  have "\<exists>T. fr_state_to_request (ex_state_request\<lparr>rq_request_pairs := rq_reply_pairs r'\<rparr>) S'' = Some (2, ex_state_request\<lparr>rq_request_pairs := rq_reply_pairs r'\<rparr>, T)"
    using q(3) by simp
  then show ?thesis using s q(1,2) by blast
qed

text \<open>(C37) At the session limit a first round is refused with \<open>-1\<close>: the reply is not touched, the request keeps its session and all of its data, and no session is
added; only the ones that have timed out are gone.\<close>

theorem fr_request_to_state_limit:
  assumes "state_inv S" "rd_inv (sr_data r)" "request_data_reference (st_addr S) 0 (sr_data r) = 0" "st_used_sessions S = st_max_sessions S" "sr_session r \<noteq> []"
  shows "\<exists>r' S'. fr_request_to_state now version rand new r S = Some (- 1, r', S') \<and> rq_reply_pairs r' = rq_reply_pairs r \<and> sr_session r' = sr_session r \<and>
    mset (sr_data r') = mset (filter (\<lambda>rd. rd_key rd \<noteq> (st_addr S, 0)) (sr_data r)) \<and>
    st_to_expire S' = dropWhile (timed_out now S) (st_to_expire S) \<and> state_inv S'"
proof -
  have o: "owned r S = None" using assms(3) by (simp add: owned_def)
  have tok: "tree_ok S" using assms(1) by (simp add: state_inv_def)
  obtain S' where S': "state_entry_create now version rand new (rq_reply_pairs r) None S = Some (None, rq_reply_pairs r, S')" "tree_ok S'"
    "st_to_expire S' = dropWhile (timed_out now S) (st_to_expire S)" "\<forall>a. entries_kept now a S S'"
    using state_entry_create_many [OF tok assms(4)] by blast
  let ?d = "filter (\<lambda>rd. rd_key rd \<noteq> (st_addr S, 0)) (sr_data r)"
  have "mset (filter (\<lambda>rd. \<not> rd_persist rd) ?d @ persisted r S) = mset ?d"
    unfolding persisted_def by (rule mset_persist_split)
  moreover have "state_inv S'" using kept_state_inv [OF assms(1) S'(2), of now 0] S'(3,4) tok by (auto simp: tree_inv_def entry_ok_def)
  ultimately show ?thesis using S' assms(5) unfolding fr_request_to_state_split [OF assms(2) refl] o by simp
qed

theorem fr_request_to_state_limit_witness:
  "\<exists>r' S'. fr_request_to_state 5 0x040000 [1, 2, 3, 4] 1 ex_state_request (ex_tree 0) = Some (- 1, r', S') \<and> rq_reply_pairs r' = [] \<and> sr_session r' = [(ATTR_OTHER 1, [7])]"
proof -
  have "rq_reply_pairs ex_state_request = []" by (simp add: ex_state_request_def)
  then show ?thesis
    using fr_request_to_state_limit [OF fr_state_tree_init_ok [OF ex_tree_sel(6)] ex_state_request_sel(1,5), of 0 5 "0x040000" "[1, 2, 3, 4]" 1] by (auto simp: ex_tree_sel ex_state_request_sel)
qed

text \<open>A round that reuses the entry of the request keeps the number of sessions but counts one less.\<close>

lemma fr_request_to_state_uncounts:
  assumes "state_inv S" "rd_inv (sr_data r)" "owned r S = Some a" "usable (Some a) 0 S" "length rand = 4" "sr_session r \<noteq> []"
    "fr_request_to_state now version rand new r S = Some (0, r', S')" "takeWhile (timed_out now S) (st_to_expire S) = []"
  shows "length (st_to_expire S') = Suc (length (st_to_expire S))" "st_used_sessions S' = st_used_sessions S - 1"
proof -
  have u: "usable (owned r S) new S" using assms(3,4) by (simp add: usable_def)
  have d: "dropWhile (timed_out now S) (st_to_expire S) = st_to_expire S" using assms(8) takeWhile_dropWhile_id [of "timed_out now S" "st_to_expire S"] by simp
  show "length (st_to_expire S') = Suc (length (st_to_expire S))" "st_used_sessions S' = st_used_sessions S - 1"
    by (rule fr_request_to_state_saved [OF assms(1,2) u assms(5) _ assms(7)]; use assms(3,6,8) d in simp)+
qed

text \<open>A request with nothing to save drops the entry it holds: the entry is in no tree and of no request, and stays in memory.\<close>

lemma fr_request_to_state_leaks:
  assumes "rd_inv (sr_data r)" "owned r S = Some a" "sr_session r = []" "persisted r S = []"
  shows "\<exists>r'. fr_request_to_state now version rand new r S = Some (0, r', S) \<and> owned r' S = None"
proof -
  have "rd_abs (filter (\<lambda>rd. \<not> rd_persist rd) (filter (\<lambda>rd. rd_key rd \<noteq> (st_addr S, 0)) (sr_data r))) (st_addr S, 0) = None"
    by (auto simp: rd_abs_def find_None_iff)
  then show ?thesis using assms(3,4) unfolding fr_request_to_state_split [OF assms(1) refl] by (simp add: owned_def request_data_reference_abs)
qed

section \<open>All requests of a server\<close>

text \<open>The tree together with the entries that requests hold.\<close>

definition hold :: "nat option \<Rightarrow> nat set" where
  "hold a = (case a of None \<Rightarrow> {} | Some a \<Rightarrow> {a})"

inductive served :: "state_tree \<Rightarrow> nat set \<Rightarrow> bool" where
  start: "fr_state_tree_init addr nodes max_sessions timeout server_id context_id = Some S \<Longrightarrow> served S {}"
| restore: "served S H \<Longrightarrow> rd_inv (sr_data r) \<Longrightarrow> rd_abs (sr_data r) (st_addr S, 0) = None \<Longrightarrow> fr_state_to_request r S = Some (n, r', S') \<Longrightarrow>
    served S' (H \<union> hold (owned r' S'))"
| save: "served S H \<Longrightarrow> rd_inv (sr_data r) \<Longrightarrow> hold (owned r S) \<subseteq> H \<Longrightarrow> new \<noteq> 0 \<Longrightarrow> st_entries S new = None \<Longrightarrow> length rand = 4 \<Longrightarrow>
    fr_request_to_state now version rand new r S = Some (n, r', S') \<Longrightarrow> served S' (H - hold (owned r S))"
| discard: "served S H \<Longrightarrow> fr_state_discard r S = Some (r', S') \<Longrightarrow> served S' H"
| request_done: "served S H \<Longrightarrow> a \<in> H \<Longrightarrow> served (entry_talloc_free a S) (H - {a})"

definition served_inv :: "state_tree \<Rightarrow> nat set \<Rightarrow> bool" where
  "served_inv S H \<longleftrightarrow> state_inv S \<and> (\<forall>a\<in>H. usable (Some a) 0 S)"

lemma usable_kept:
  assumes "usable (Some b) 0 S" "b \<notin> set (st_to_expire S')" "st_entries S' b = st_entries S b"
  shows "usable (Some b) 0 S'"
  using assms by (simp add: usable_def)

lemma served_inv_restore:
  assumes inv: "served_inv S H" and rd: "rd_inv (sr_data r)" "rd_abs (sr_data r) (st_addr S, 0) = None" and r': "fr_state_to_request r S = Some (n, r', S')"
  shows "served_inv S' (H \<union> hold (owned r' S'))"
proof -
  have si: "state_inv S" and tok: "tree_ok S" using inv by (auto simp: served_inv_def state_inv_def)
  have on: "owned r S = None" using rd(2) by (simp add: owned_def request_data_reference_abs)
  show ?thesis
  proof (cases "fr_pair_find_by_da (rq_request_pairs r) ATTR_STATE")
    case None
    then have "S' = S" "owned r' S = owned r S" using r' by (auto simp: fr_state_to_request_def owned_def split: if_splits)
    then show ?thesis using inv on by (simp add: hold_def)
  next
    case (Some v)
    show ?thesis
    proof (cases "held S v")
      case None
      obtain t' where t': "state_entry_find_and_unlink v S = Some (None, S\<lparr>st_tree := t', st_to_expire := st_to_expire S\<rparr>)" "tree_inv (st_entries S) t' (st_to_expire S)"
        using state_entry_find_and_unlink_ok [OF tok refl, of v] None by (auto simp: held_def)
      then have "r' = r" "S' = S\<lparr>st_tree := t', st_to_expire := st_to_expire S\<rparr>" using r' Some by (auto simp: fr_state_to_request_def)
      then show ?thesis using t'(2) inv on by (auto simp: served_inv_def state_inv_def usable_def hold_def owned_def)
    next
      case a: (Some a)
      have ae: "a \<in> set (st_to_expire S)" using a holder_Some by (auto simp: held_def)
      then obtain e where e: "st_entries S a = Some e" using tok by (auto simp: tree_inv_def entry_ok_def)
      obtain q T where q: "fr_state_to_request r S = Some (0, q, T)" "owned q T = Some a" "state_inv T" "st_to_expire T = remove1 a (st_to_expire S)" "usable (Some a) 0 T"
        "\<forall>b. b \<noteq> a \<longrightarrow> st_entries T b = st_entries S b"
        using fr_state_to_request_restored [OF si Some a e rd] .
      have "usable (Some b) 0 T" if "b \<in> H" for b
        using inv that ae q(4,6) by (intro usable_kept [of b S T]) (auto simp: served_inv_def usable_def dest: notin_set_remove1)
      then show ?thesis using q r' by (auto simp: served_inv_def hold_def)
    qed
  qed
qed

lemma served_inv_usable:
  assumes "served_inv S H" "hold (owned r S) \<subseteq> H" "new \<noteq> 0" "st_entries S new = None"
  shows "usable (owned r S) new S"
  using assms by (cases "owned r S") (auto simp: served_inv_def state_inv_def usable_def hold_def tree_inv_def entry_ok_def)

lemma served_inv_save:
  assumes inv: "served_inv S H" and rd: "rd_inv (sr_data r)" and H: "hold (owned r S) \<subseteq> H" and new: "new \<noteq> 0" "st_entries S new = None" and l: "length rand = 4"
    and r': "fr_request_to_state now version rand new r S = Some (n, r', S')"
  shows "served_inv S' (H - hold (owned r S))"
proof (cases "sr_session r = [] \<and> persisted r S = []")
  case True
  then show ?thesis using r' inv unfolding fr_request_to_state_split [OF rd refl] by (auto simp: served_inv_def)
next
  case ne: False
  let ?a = "case owned r S of None \<Rightarrow> new | Some a \<Rightarrow> a"
  have si: "state_inv S" and tok: "tree_ok S" using inv by (auto simp: served_inv_def state_inv_def)
  have u: "usable (owned r S) new S" by (rule served_inv_usable [OF inv H new])
  then have an: "?a \<notin> set (st_to_expire S)" by (auto simp: usable_def split: option.splits)
  have S': "state_inv S' \<and> set (st_to_expire S') \<subseteq> insert ?a (set (st_to_expire S)) \<and> entries_kept now ?a S S'"
    using tok u l refl refl
  proof (cases rule: state_entry_create_cases [where version = version and reply = "rq_reply_pairs r" and now = now])
    case (stored reply v T)
    then have "n = 0" using r' ne unfolding fr_request_to_state_split [OF rd refl] by auto
    then have "fr_request_to_state now version rand new r S = Some (0, r', S')" using r' by simp
    from fr_request_to_state_saved [OF si rd u l _ this] ne
    have "state_inv S' \<and> st_to_expire S' = dropWhile (timed_out now S) (st_to_expire S) @ [?a] \<and> entries_kept now ?a S S'" by blast
    then show ?thesis by (auto dest: set_dropWhileD)
  next
    case (failed reply T)
    then have "S' = T" using r' ne unfolding fr_request_to_state_split [OF rd refl] by auto
    then show ?thesis using kept_state_inv [OF si failed(2,3,4) an] failed(3,4) by (auto dest: set_dropWhileD)
  qed
  have "usable (Some b) 0 S'" if "b \<in> H - hold (owned r S)" for b
  proof (rule usable_kept [of b S])
    show ub: "usable (Some b) 0 S" using inv that by (auto simp: served_inv_def)
    have ba: "b \<noteq> ?a" using that ub new by (cases "owned r S") (auto simp: hold_def usable_def)
    then show "b \<notin> set (st_to_expire S')" using S' ub by (auto simp: usable_def)
    show "st_entries S' b = st_entries S b" using S' ub ba by (auto simp: entries_kept_def usable_def dest: set_takeWhileD)
  qed
  then show ?thesis using S' by (auto simp: served_inv_def)
qed

lemma served_inv_free:
  assumes "served_inv S H" "a \<notin> set (st_to_expire S)"
  shows "served_inv (entry_talloc_free a S) (H - {a})"
proof -
  have "tree_inv ((st_entries S)(a := None)) (st_tree S) (st_to_expire S)"
    by (rule tree_inv_cong [of "st_entries S"]) (use assms in \<open>auto simp: served_inv_def state_inv_def\<close>)
  then have "tree_ok (entry_talloc_free a S)" by (simp add: entry_talloc_free_def state_entry_free_def)
  then show ?thesis using assms by (auto simp: served_inv_def state_inv_def usable_def entry_talloc_free_def state_entry_free_def)
qed

lemma served_inv_discard:
  assumes inv: "served_inv S H" and r': "fr_state_discard r S = Some (r', S')"
  shows "served_inv S' H"
proof (cases "fr_pair_find_by_da (rq_request_pairs r) ATTR_STATE")
  case None
  then show ?thesis using r' inv by (simp add: fr_state_discard_def)
next
  case (Some v)
  have tok: "tree_ok S" using inv by (auto simp: served_inv_def state_inv_def)
  let ?h = "holder (st_entries S) (st_to_expire S) (xor_context (st_context_id S) (state_key v))"
  obtain t' where t': "state_entry_find_and_unlink v S = Some (?h, S\<lparr>st_tree := t', st_to_expire := (case ?h of None \<Rightarrow> st_to_expire S | Some a \<Rightarrow> remove1 a (st_to_expire S))\<rparr>)"
    "tree_inv (st_entries S) t' (case ?h of None \<Rightarrow> st_to_expire S | Some a \<Rightarrow> remove1 a (st_to_expire S))"
    using state_entry_find_and_unlink_ok [OF tok refl, of v] by blast
  show ?thesis
  proof (cases ?h)
    case None
    then have "S' = S\<lparr>st_tree := t', st_to_expire := st_to_expire S\<rparr>" using r' Some t'(1) by (auto simp: fr_state_discard_def)
    then show ?thesis using t'(2) None inv by (simp add: served_inv_def state_inv_def usable_def)
  next
    case h: (Some a)
    let ?S = "S\<lparr>st_tree := t', st_to_expire := remove1 a (st_to_expire S)\<rparr>"
    have ae: "a \<in> set (st_to_expire S)" "a \<notin> set (remove1 a (st_to_expire S))" using holder_Some [OF h] tok by (auto simp: tree_inv_def)
    have "served_inv ?S H" using t'(2) h inv by (auto simp: served_inv_def state_inv_def usable_def dest: notin_set_remove1)
    moreover have "a \<notin> H" using inv ae(1) by (auto simp: served_inv_def usable_def)
    moreover have "S' = entry_talloc_free a ?S" using r' Some t'(1) h by (auto simp: fr_state_discard_def)
    ultimately show ?thesis using served_inv_free [of ?S H a] ae(2) by simp
  qed
qed

lemma served_inv_init: "fr_state_tree_init addr nodes max_sessions timeout server_id context_id = Some S \<Longrightarrow> served_inv S {}"
  using fr_state_tree_init_ok by (simp add: served_inv_def)

lemma served_holds: "served S H \<Longrightarrow> served_inv S H"
proof (induction rule: served.induct)
  case (request_done S H a)
  then show ?case using served_inv_free [of S H a] by (auto simp: served_inv_def usable_def)
qed (auto intro: served_inv_init served_inv_restore served_inv_save served_inv_discard)

text \<open>(C10) In whatever order requests restore, save and discard sessions and end: the red-black tree and the list of entries hold the same entries, each with a session and
with a value of its own, and no entry that a request holds is among them.\<close>

theorem served_invariant:
  assumes "served S H"
  shows "state_inv S \<and> (\<forall>a\<in>H. usable (Some a) 0 S)"
  using served_holds [OF assms] by (simp add: served_inv_def)

theorem served_invariant_witness: "\<exists>S. served S {} \<and> st_to_expire S = [1] \<and> state_inv S"
proof -
  obtain r' S' where s: "fr_request_to_state 5 0x040000 [1, 2, 3, 4] 1 ex_state_request (ex_tree 10) = Some (0, r', S')" using ex_saved by blast
  have "served (ex_tree 10) {}" using served.start [OF ex_tree_sel(6)] .
  then have "served S' ({} - hold (owned ex_state_request (ex_tree 10)))" by (rule served.save [OF _ ex_state_request_sel(1) _ _ _ _ s]) (simp_all add: ex_state_request_sel ex_tree_sel hold_def)
  then have v: "served S' {}" by simp
  have u: "usable (owned ex_state_request (ex_tree 10)) 1 (ex_tree 10)" by (simp add: usable_def ex_tree_sel ex_state_request_sel)
  have "st_to_expire S' = [1]"
    by (rule fr_request_to_state_saved [OF fr_state_tree_init_ok [OF ex_tree_sel(6)] ex_state_request_sel(1) u _ _ s]) (simp_all add: ex_state_request_sel ex_tree_sel)
  then show ?thesis using v served_invariant [OF v] by blast
qed

text \<open>A request that holds an entry: \<open>ex_tree\<close> after the session of a request was saved and the next request has restored it.\<close>

lemma ex_restored:
  "\<exists>r' S' q S''. fr_request_to_state 5 0x040000 [1, 2, 3, 4] 1 ex_state_request (ex_tree 10) = Some (0, r', S') \<and>
    fr_state_to_request (ex_state_request\<lparr>rq_request_pairs := rq_reply_pairs r', sr_session := []\<rparr>) S' = Some (0, q, S'') \<and>
    served S'' {1} \<and> owned q S'' = Some 1 \<and> rd_inv (sr_data q) \<and> sr_session q = [(ATTR_OTHER 1, [7])] \<and> st_entries S'' 2 = None"
proof -
  obtain r' S' where s: "fr_request_to_state 5 0x040000 [1, 2, 3, 4] 1 ex_state_request (ex_tree 10) = Some (0, r', S')" using ex_saved by blast
  let ?q = "ex_state_request\<lparr>rq_request_pairs := rq_reply_pairs r', sr_session := []\<rparr>"
  have u: "usable (owned ex_state_request (ex_tree 10)) 1 (ex_tree 10)" by (simp add: usable_def ex_tree_sel ex_state_request_sel)
  obtain v a e where v: "fr_pair_find_by_da (rq_reply_pairs r') ATTR_STATE = Some v" "state_inv S'" "held S' v = Some a" "st_entries S' a = Some e"
    "se_ctx e = Some [(ATTR_OTHER 1, [7])]" "se_data e = []" "st_to_expire S' = [1]" "entries_kept 5 1 (ex_tree 10) S'"
    by (rule fr_request_to_state_saved [OF fr_state_tree_init_ok [OF ex_tree_sel(6)] ex_state_request_sel(1) u _ _ s])
      (auto simp: ex_state_request_sel ex_tree_sel persisted_def)
  have a: "a = 1" using v(3,7) holder_Some by (fastforce simp: held_def)
  have "st_entries S' 2 = None" using v(8) by (simp add: entries_kept_def ex_tree_sel)
  moreover obtain q S'' where q: "fr_state_to_request ?q S' = Some (0, q, S'')" "owned q S'' = Some 1" "sr_session q = [(ATTR_OTHER 1, [7])]"
    "\<forall>b. b \<noteq> 1 \<longrightarrow> st_entries S'' b = st_entries S' b" "\<exists>x. sr_data q = [x]"
    by (rule fr_state_to_request_restored [OF v(2) _ v(3,4), of ?q]) (use v a in \<open>auto simp: ex_state_request_sel rd_inv_def rd_abs_def free_session_state_ctx_def\<close>)
  moreover have "served (ex_tree 10) {}" using served.start [OF ex_tree_sel(6)] .
  then have "served S' ({} - hold (owned ex_state_request (ex_tree 10)))" by (rule served.save [OF _ ex_state_request_sel(1) _ _ _ _ s]) (simp_all add: ex_state_request_sel ex_tree_sel hold_def)
  then have "served S'' (({} - hold (owned ex_state_request (ex_tree 10))) \<union> hold (owned q S''))"
    by (rule served.restore [OF _ _ _ q(1)]) (simp_all add: ex_state_request_sel rd_inv_def rd_abs_def)
  then have "served S'' {1}" using q(2) by (simp add: hold_def ex_state_request_sel)
  ultimately show ?thesis using s by (fastforce simp: rd_inv_def)
qed

text \<open>(C38) No operation on sessions runs forever: whatever the requests before have done, restoring, discarding and saving a session end with a result, in a first round and
in one whose request holds the entry of the round before. The address of a new entry is not in use, and the entry of the request is one that a request may hold.\<close>

theorem state_operations_end:
  assumes "served S H" "rd_inv (sr_data r)" "hold (owned r S) \<subseteq> H" "new \<noteq> 0" "st_entries S new = None" "length rand = 4"
  shows "fr_state_to_request r S \<noteq> None \<and> fr_state_discard r S \<noteq> None \<and> fr_request_to_state now version rand new r S \<noteq> None"
proof (intro conjI)
  have inv: "served_inv S H" using served_holds [OF assms(1)] .
  then have si: "state_inv S" and tok: "tree_ok S" by (auto simp: served_inv_def state_inv_def)
  show "fr_state_to_request r S \<noteq> None"
  proof (cases "fr_pair_find_by_da (rq_request_pairs r) ATTR_STATE")
    case None
    then show ?thesis by (simp add: fr_state_to_request_def)
  next
    case (Some v)
    let ?h = "holder (st_entries S) (st_to_expire S) (xor_context (st_context_id S) (state_key v))"
    have "a \<in> set (st_to_expire S)" if "?h = Some a" for a using that holder_Some by blast
    then have "se_ctx (the (st_entries S a)) \<noteq> None" if "?h = Some a" for a using that si by (simp add: state_inv_def)
    then show ?thesis using state_entry_find_and_unlink_ok [OF tok refl, of v] Some by (auto simp: fr_state_to_request_def Let_def split: option.splits prod.splits)
  qed
  show "fr_state_discard r S \<noteq> None"
  proof (cases "fr_pair_find_by_da (rq_request_pairs r) ATTR_STATE")
    case (Some v)
    then show ?thesis using state_entry_find_and_unlink_ok [OF tok refl, of v] by (auto simp: fr_state_discard_def)
  qed (simp add: fr_state_discard_def)
  have "usable (owned r S) new S" by (rule served_inv_usable [OF inv assms(3-5)])
  from tok this assms(6) refl refl have "state_entry_create now version rand new (rq_reply_pairs r) (owned r S) S \<noteq> None"
    by (cases rule: state_entry_create_cases [where version = version and reply = "rq_reply_pairs r" and now = now]) auto
  then show "fr_request_to_state now version rand new r S \<noteq> None"
    unfolding fr_request_to_state_split [OF assms(2) refl] by (auto split: option.splits)
qed

theorem state_operations_end_witness:
  "\<exists>q S. owned q S = Some 1 \<and> served S {1} \<and> fr_state_to_request q S \<noteq> None \<and> fr_state_discard q S \<noteq> None \<and> fr_request_to_state 6 0x040000 [5, 6, 7, 8] 2 q S \<noteq> None"
proof -
  obtain q S where q: "served S {1}" "owned q S = Some 1" "rd_inv (sr_data q)" "st_entries S 2 = None" using ex_restored by blast
  have "fr_state_to_request q S \<noteq> None \<and> fr_state_discard q S \<noteq> None \<and> fr_request_to_state 6 0x040000 [5, 6, 7, 8] 2 q S \<noteq> None"
    by (rule state_operations_end [OF q(1,3) _ _ q(4)]) (simp_all add: hold_def q(2))
  then show ?thesis using q(1,2) by blast
qed

text \<open>Discarding after the session was restored does nothing: the request keeps the session, as the value is no longer in the tree.\<close>

lemma fr_state_discard_restored:
  assumes "state_inv S" "fr_pair_find_by_da (rq_request_pairs r) ATTR_STATE = Some v" "held S v = Some a" "st_entries S a = Some e" "rd_inv (sr_data r)"
    "rd_abs (sr_data r) (st_addr S, 0) = None"
  shows "\<exists>r' S' T. fr_state_to_request r S = Some (0, r', S') \<and> fr_state_discard r' S' = Some (r', T) \<and> Some (sr_session r') = se_ctx e"
proof -
  obtain r' S' ctx where 1: "fr_state_to_request r S = Some (0, r', S')" "se_ctx e = Some ctx" "sr_session r' = ctx" "state_inv S'" "held S' v = None"
    "rq_request_pairs r' = rq_request_pairs r"
    using fr_state_to_request_restored [OF assms] by metis
  then show ?thesis using state_entry_find_and_unlink_ok [of S' _ v, OF _ refl] assms(2) by (auto simp: fr_state_discard_def state_inv_def held_def)
qed

text \<open>What a child stores in its parent is what the next child gets.\<close>

lemma fr_state_child_round_trip:
  assumes "rd_inv (sr_data parent)" "new \<noteq> 0" "request_data_reference ptr i (sr_data parent) \<noteq> new" "sr_session child \<noteq> []"
    "fr_state_store_in_parent ptr i new child parent C = (child', parent', C')"
  shows "\<exists>parent'' C''. fr_state_restore_to_child ptr i next parent' C' =
    Some (next\<lparr>sr_session := sr_session child, sr_data := sr_data next @ filter rd_persist (sr_data child)\<rparr>, parent'', C'') \<and> sr_session child' = []"
proof -
  let ?ce = "\<lparr>ce_ctx = Some (sr_session child), ce_data = filter rd_persist (sr_data child), ce_thawed = None\<rparr>"
  have f: "new \<notin> set (fst (request_data_add ptr i new True False True (sr_data parent)))"
    using assms(2,3) unfolding request_data_reference_abs
    by (auto simp: request_data_add_def rd_unlink_find rd_abs_def request_data_free_def Let_def split: option.splits)
  have fold: "fold (\<lambda>a C. C(a := None)) xs D a = D a" if "a \<notin> set xs" for xs a and D :: "nat \<rightharpoonup> state_child_entry"
    using that by (induction xs arbitrary: D) auto
  have p: "sr_data parent' = snd (request_data_add ptr i new True False True (sr_data parent))" "sr_session child' = []" "C' new = Some ?ce"
    using assms(4,5) f by (auto simp: fr_state_store_in_parent_def request_data_by_persistance_def by_persistance_loop_filter fold split: prod.splits)
  have "fst (request_data_get ptr i (sr_data parent')) = new"
    using request_data_add_abs [OF assms(1)] by (simp add: p(1) request_data_get_def rd_keyed_key)
  then show ?thesis using p assms(2) by (auto simp: fr_state_restore_to_child_def request_data_restore_def split: prod.splits)
qed

end
