(* ===== verification/Eap_Session.thy ===== *)
theory Eap_Session
  imports State_Tree
begin

text \<open>
  The life of an EAP session, \<^verbatim>\<open>src/lib/eap/session.c\<close>, and the EAP module that drives it, \<^verbatim>\<open>src/modules/rlm_eap/rlm_eap.c\<close>.

  A session is kept in the data of the request under the key \<open>(NULL, REQUEST_DATA_EAP_SESSION)\<close>, from where the state tree carries it to the next request. Sessions live in a
  store of their own; using an address that is not in the store is \<open>None\<close>. The methods (EAP-TLS and others) are modules the code calls through function pointers, here a
  function from the callback, the session, the control lists and the subrequest to what the method answers (\<open>sub_result\<close>). The data of the method has any type; what the module
  relies on of a method is the locale \<open>eap_submodule\<close>.

  The lemmas show that a session is never used after it was freed and always frozen between requests, that it belongs to one method that is enabled, that it ends after fifty
  rounds, that the method chosen after a NAK is the one the code means, and that a challenge leads to the same session in the next request.
\<close>

section \<open>Sessions\<close>

abbreviation REQUEST_DATA_EAP_SESSION :: int where "REQUEST_DATA_EAP_SESSION \<equiv> 1"
abbreviation FR_EAP_METHOD_INVALID :: nat where "FR_EAP_METHOD_INVALID \<equiv> 0"
abbreviation FR_EAP_METHOD_LEAP :: nat where "FR_EAP_METHOD_LEAP \<equiv> 17"
abbreviation MAX_STRING_LENGTH :: nat where "MAX_STRING_LENGTH \<equiv> 253"

text \<open>Attributes by their numbers; those of the server's own dictionary start at \<open>10000\<close>.\<close>

abbreviation ATTR_USER_NAME :: pair_attr where "ATTR_USER_NAME \<equiv> ATTR_OTHER 1"
abbreviation ATTR_AUTH_TYPE :: pair_attr where "ATTR_AUTH_TYPE \<equiv> ATTR_OTHER 10012"
abbreviation ATTR_STRIPPED_USER_DOMAIN :: pair_attr where "ATTR_STRIPPED_USER_DOMAIN \<equiv> ATTR_OTHER 11001"
abbreviation ATTR_EAP_IDENTITY :: pair_attr where "ATTR_EAP_IDENTITY \<equiv> ATTR_OTHER 14003"

text \<open>The callback for the next round: none, the one the method of a type starts with, or one it has set (\<open>Process\<close> and the type of the method).\<close>

datatype eap_process = No_process | Session_init nat | Process nat

record 'o esession =
  ss_inst :: nat
  ss_type :: nat
  ss_request :: "u64 option"
  ss_identity :: "bytes option"
  ss_prev_round :: "eap_round option"
  ss_this_round :: "eap_round option"
  ss_opaque :: "'o option"
  ss_process :: eap_process
  ss_rounds :: int
  ss_updated :: int
  ss_tls :: bool
  ss_finished :: bool

text \<open>The request, the sessions and the sessions of subrequests.\<close>

record 'o eap_world =
  ew_request :: state_request
  ew_sessions :: "nat \<rightharpoonup> 'o esession"
  ew_children :: "nat \<rightharpoonup> state_child_entry"

abbreviation ew_data :: "'o eap_world \<Rightarrow> request_data list" where
  "ew_data W \<equiv> sr_data (ew_request W)"

definition set_data :: "request_data list \<Rightarrow> 'o eap_world \<Rightarrow> 'o eap_world" where
  "set_data d W = W\<lparr>ew_request := (ew_request W)\<lparr>sr_data := d\<rparr>\<rparr>"

definition set_session :: "nat \<Rightarrow> 'o esession \<Rightarrow> 'o eap_world \<Rightarrow> 'o eap_world" where
  "set_session a s W = W\<lparr>ew_sessions := (ew_sessions W)(a \<mapsto> s)\<rparr>"

text \<open>The destructor and freeing: a thawed session takes itself out of the request.\<close>

definition eap_session_free :: "nat \<Rightarrow> 'o eap_world \<Rightarrow> 'o eap_world option" where
  "eap_session_free a W = do {
     s \<leftarrow> ew_sessions W a;
     let W = (if ss_request s = None then W else set_data (snd (request_data_get 0 REQUEST_DATA_EAP_SESSION (ew_data W))) W);
     Some (W\<lparr>ew_sessions := (ew_sessions W)(a := None)\<rparr>) }"

text \<open>\<open>new\<close> is the address of the allocation, \<open>0\<close> when it fails. Adding the item frees what was there before.\<close>

definition eap_session_alloc :: "int \<Rightarrow> nat \<Rightarrow> 'o eap_world \<Rightarrow> nat option \<times> 'o eap_world" where
  "eap_session_alloc now new W =
     (if new = 0 then (None, W)
      else
        let s = \<lparr>ss_inst = 0, ss_type = 0, ss_request = Some (sr_number (ew_request W)), ss_identity = None, ss_prev_round = None, ss_this_round = None,
                 ss_opaque = None, ss_process = No_process, ss_rounds = 0, ss_updated = now, ss_tls = False, ss_finished = False\<rparr>;
            W = set_session new s W;
            (freed, data) = request_data_add 0 REQUEST_DATA_EAP_SESSION new True True True (ew_data W);
            W = set_data data W
        in (Some new, W\<lparr>ew_sessions := fold (\<lambda>a E. E(a := None)) freed (ew_sessions W)\<rparr>))"

definition eap_session_destroy :: "nat option \<Rightarrow> 'o eap_world \<Rightarrow> 'o eap_world option" where
  "eap_session_destroy a W = (case a of None \<Rightarrow> Some W | Some a \<Rightarrow> eap_session_free a W)"

definition eap_session_freeze :: "nat option \<Rightarrow> 'o eap_world \<Rightarrow> 'o eap_world option" where
  "eap_session_freeze a W =
     (case a of
        None \<Rightarrow> Some W
      | Some a \<Rightarrow> do { s \<leftarrow> ew_sessions W a; Some (set_session a (s\<lparr>ss_request := None\<rparr>) W) })"

definition eap_session_thaw :: "int \<Rightarrow> 'o eap_world \<Rightarrow> (nat option \<times> 'o eap_world) option" where
  "eap_session_thaw now W =
     (let a = request_data_reference 0 REQUEST_DATA_EAP_SESSION (ew_data W) in
      if a = 0 then Some (None, W)
      else do {
        s \<leftarrow> ew_sessions W a;
        if ss_inst s = 0 then Some (None, W)
        else Some (Some a, set_session a (s\<lparr>ss_request := Some (sr_number (ew_request W)), ss_updated := now\<rparr>) W) })"

definition eap_identity :: "bytes \<Rightarrow> bytes option option" where
  "eap_identity packet = do {
     code \<leftarrow> rd8 packet 0;
     t \<leftarrow> rd8 packet 4;
     if unat code \<noteq> FR_EAP_CODE_RESPONSE \<or> unat t \<noteq> FR_EAP_METHOD_IDENTITY then Some None
     else do {
       len \<leftarrow> rd_nbo16 packet 2;
       if len < 5 then Some None
       else do { d \<leftarrow> rd_mem packet 5 (len - 5); Some (Some d) } } }"

text \<open>The first half of \<open>eap_session_continue\<close>: the session, and whether it goes on or the jump to \<open>error\<close> is taken.\<close>

definition continue_new :: "nat \<Rightarrow> bytes \<Rightarrow> nat \<Rightarrow> 'o eap_world \<Rightarrow> (bool \<times> 'o eap_world) option" where
  "continue_new instance packet a W = do {
     s \<leftarrow> ew_sessions W a;
     let s = s\<lparr>ss_inst := instance\<rparr>;
     t \<leftarrow> rd8 packet 4;
     if unat t = FR_EAP_METHOD_IDENTITY then do {
       identity \<leftarrow> eap_identity packet;
       Some (identity \<noteq> None, set_session a (s\<lparr>ss_identity := identity\<rparr>) W) }
     else if unat t = FR_EAP_METHOD_INVALID \<or> unat t = FR_EAP_METHOD_NOTIFICATION \<or> unat t = FR_EAP_METHOD_NAK then Some (False, set_session a s W)
     else Some (True, set_session a (s\<lparr>ss_identity := Some []\<rparr>) W) }"

definition continue_old :: "bytes \<Rightarrow> nat \<Rightarrow> 'o eap_world \<Rightarrow> (bool \<times> 'o eap_world) option" where
  "continue_old packet a W = do {
     s \<leftarrow> ew_sessions W a;
     let s = s\<lparr>ss_rounds := ss_rounds s + 1\<rparr>;
     let W = set_session a s W;
     if 50 \<le> ss_rounds s then Some (False, W)
     else do {
       t \<leftarrow> rd8 packet 4;
       Some (unat t = FR_EAP_METHOD_NAK \<or> unat t = ss_type s, W) } }"

text \<open>The comparison with User-Name; without one it is made from the identity.\<close>

definition continue_user :: "nat \<Rightarrow> 'o eap_world \<Rightarrow> (bool \<times> 'o eap_world) option" where
  "continue_user a W = do {
     s \<leftarrow> ew_sessions W a;
     identity \<leftarrow> ss_identity s;
     let r = ew_request W;
     Some (case fr_pair_find_by_da (rq_request_pairs r) ATTR_USER_NAME of
             None \<Rightarrow> (True, W\<lparr>ew_request := r\<lparr>rq_request_pairs := rq_request_pairs r @ [(ATTR_USER_NAME, identity)]\<rparr>\<rparr>)
           | Some user \<Rightarrow> (\<not> (length identity \<le> MAX_STRING_LENGTH \<and> identity \<noteq> user), W)) }"

text \<open>The error exit, and the second half of \<open>eap_session_continue\<close>.\<close>

definition continue_error :: "nat \<Rightarrow> 'o eap_world \<Rightarrow> (nat option \<times> 'o eap_world) option" where
  "continue_error a W = do { W \<leftarrow> eap_session_destroy (Some a) W; Some (None, W) }"

definition continue_round :: "bool \<Rightarrow> bytes \<Rightarrow> nat \<Rightarrow> bool \<Rightarrow> 'o eap_world \<Rightarrow> (nat option \<times> 'o eap_world) option" where
  "continue_round alloc packet a ok W =
     (if \<not> ok then continue_error a W
      else do {
        (ok, W) \<leftarrow> continue_user a W;
        if \<not> ok then continue_error a W
        else do {
          s \<leftarrow> ew_sessions W a;
          round \<leftarrow> eap_round_build alloc packet;
          let W = set_session a (s\<lparr>ss_this_round := round\<rparr>) W;
          if round = None then continue_error a W else Some (Some a, W) } })"

definition eap_session_continue :: "int \<Rightarrow> nat \<Rightarrow> bool \<Rightarrow> nat \<Rightarrow> bytes \<Rightarrow> 'o eap_world \<Rightarrow> (nat option \<times> 'o eap_world) option" where
  "eap_session_continue now new alloc instance packet W = do {
     (old, W) \<leftarrow> eap_session_thaw now W;
     case old of
       Some a \<Rightarrow> do { (ok, W) \<leftarrow> continue_old packet a W; continue_round alloc packet a ok W }
     | None \<Rightarrow>
         (case eap_session_alloc now new W of
            (None, W) \<Rightarrow> Some (None, W)
          | (Some a, W) \<Rightarrow> do { (ok, W) \<leftarrow> continue_new instance packet a W; continue_round alloc packet a ok W }) }"

section \<open>The module\<close>

datatype require_realm = REQUIRE_REALM_YES | REQUIRE_REALM_NO | REQUIRE_REALM_NAI

record rlm_eap =
  ei_instance :: nat
  ei_methods :: "nat \<Rightarrow> bool"
  ei_clone_parent_lists :: "nat \<Rightarrow> bool"
  ei_default_method :: nat
  ei_type_identity :: "(bytes \<Rightarrow> nat) list"
  ei_ignore_unknown_types :: bool
  ei_require_realm :: require_realm
  ei_auth_type :: "bytes option"

text \<open>What the code reads of the control list: the values of its EAP-Type attributes, numbers of 32 bits.\<close>

definition pair_uint32 :: "bytes \<Rightarrow> nat" where
  "pair_uint32 v = foldl (\<lambda>n b. 256 * n + unat b) 0 v"

definition pair_values :: "pair_list \<Rightarrow> pair_attr \<Rightarrow> bytes list" where
  "pair_values ps da = map snd (filter (\<lambda>p. fst p = da) ps)"

text \<open>The loop over the types of the NAK: \<open>None\<close> is the return with \<open>FR_EAP_METHOD_INVALID\<close>.\<close>

fun nak_loop :: "(nat \<Rightarrow> bool) \<Rightarrow> nat \<Rightarrow> bytes \<Rightarrow> nat list \<Rightarrow> nat list option" where
  "nak_loop methods last_type [] sanitised = Some sanitised"
| "nak_loop methods last_type (t # ts) sanitised =
     (if unat t = 0 then None
      else if unat t < FR_EAP_METHOD_MD5 then None
      else if unat t \<ge> FR_EAP_METHOD_MAX \<or> \<not> methods (unat t) then nak_loop methods last_type ts sanitised
      else if last_type = unat t then nak_loop methods last_type ts sanitised
      else nak_loop methods last_type ts (sanitised @ [unat t]))"

text \<open>The loop over the EAP-Type attributes of the control list.\<close>

fun nak_select :: "nat list \<Rightarrow> nat list \<Rightarrow> nat" where
  "nak_select [] sanitised = FR_EAP_METHOD_INVALID"
| "nak_select (v # vs) sanitised =
     (if v = FR_EAP_METHOD_INVALID then nak_select vs sanitised
      else case List.find (\<lambda>t. v = t) sanitised of
             Some t \<Rightarrow> (if t \<noteq> FR_EAP_METHOD_INVALID then t else nak_select vs sanitised)
           | None \<Rightarrow> nak_select vs sanitised)"

definition eap_process_nak :: "rlm_eap \<Rightarrow> pair_list \<Rightarrow> nat \<Rightarrow> eap_packet \<Rightarrow> nat option" where
  "eap_process_nak inst control last_type nak =
     (case pk_type_data nak of
        None \<Rightarrow> Some FR_EAP_METHOD_INVALID
      | Some data \<Rightarrow> do {
          types \<leftarrow> rd_mem data 0 (pk_type_length nak);
          Some (case nak_loop (ei_methods inst) last_type types [] of
                  None \<Rightarrow> FR_EAP_METHOD_INVALID
                | Some [] \<Rightarrow> FR_EAP_METHOD_INVALID
                | Some (t # ts) \<Rightarrow>
                    (case pair_values control ATTR_EAP_TYPE of
                       [] \<Rightarrow> t
                     | vs \<Rightarrow> nak_select (map pair_uint32 vs) (t # ts))) })"

text \<open>\<open>memrchr\<close> and \<open>memchr\<close>: the index of the last and the first octet with a value, from an index on.\<close>

fun memchr :: "byte \<Rightarrow> nat \<Rightarrow> bytes \<Rightarrow> nat option" where
  "memchr c i [] = None"
| "memchr c i (b # bs) = (if b = c then Some i else memchr c (Suc i) bs)"

definition memrchr :: "byte \<Rightarrow> bytes \<Rightarrow> nat option" where
  "memrchr c bs = map_option (\<lambda>j. length bs - 1 - j) (memchr c 0 (rev bs))"

definition eap_identity_is_nai_with_realm :: "bytes \<Rightarrow> int" where
  "eap_identity_is_nai_with_realm identity =
     (case memrchr 0x40 identity of
        None \<Rightarrow> - int (length identity)
      | Some realm \<Rightarrow>
          (case memchr 0x2e realm (drop realm identity) of
             None \<Rightarrow> - int (length identity)
           | Some p \<Rightarrow>
               if int realm - 1 = int p then - int realm
               else if p + 1 = length identity then - int (length identity)
               else int (length identity)))"

text \<open>What a call depends on besides the session: the time, the control list of the request, whether the request is in a tunnel inside a tunnel, whether the interpreter
takes the subrequest, whether memory is left, the addresses of new objects, and what is in memory that is not written.\<close>

record eap_ctx =
  ec_now :: int
  ec_control :: pair_list
  ec_nested :: bool
  ec_push :: bool
  ec_alloc :: bool
  ec_new_session :: nat
  ec_new_child :: nat
  ec_child_number :: u64
  ec_memory :: bytes

text \<open>The method for an identity: \<open>None\<close> is the jump to \<open>is_invalid\<close>.\<close>

definition identity_allowed :: "require_realm \<Rightarrow> pair_list \<Rightarrow> bytes \<Rightarrow> bool" where
  "identity_allowed require_realm request_pairs identity =
     (case require_realm of
        REQUIRE_REALM_NAI \<Rightarrow> \<not> eap_identity_is_nai_with_realm identity \<le> 0
      | REQUIRE_REALM_YES \<Rightarrow> \<not> (eap_identity_is_nai_with_realm identity \<le> 0 \<and> fr_pair_find_by_da request_pairs ATTR_STRIPPED_USER_DOMAIN = None)
      | REQUIRE_REALM_NO \<Rightarrow> True)"

fun type_identity_loop :: "(bytes \<Rightarrow> nat) list \<Rightarrow> bytes \<Rightarrow> nat \<Rightarrow> nat" where
  "type_identity_loop [] identity dflt = dflt"
| "type_identity_loop (f # fs) identity dflt =
     (let ret = f identity in if ret \<noteq> FR_EAP_METHOD_INVALID then ret else type_identity_loop fs identity dflt)"

definition select_identity :: "rlm_eap \<Rightarrow> pair_list \<Rightarrow> pair_list \<Rightarrow> bytes \<Rightarrow> nat option" where
  "select_identity inst control request_pairs identity =
     (if \<not> identity_allowed (ei_require_realm inst) request_pairs identity then None
      else
        let dflt = ei_default_method inst;
            next = (case fr_pair_find_by_da control ATTR_EAP_TYPE of
                      Some v \<Rightarrow> pair_uint32 v
                    | None \<Rightarrow> type_identity_loop (ei_type_identity inst) identity dflt)
        in if next < FR_EAP_METHOD_MD5 \<or> next \<ge> FR_EAP_METHOD_MAX \<or> \<not> ei_methods inst next then None else Some next)"

text \<open>\<open>Some rcode\<close> is \<open>UNLANG_ACTION_CALCULATE_RESULT\<close> with that result, \<open>None\<close> is \<open>UNLANG_ACTION_PUSHED_CHILD\<close>.\<close>

definition select_init :: "nat \<Rightarrow> 'o esession \<Rightarrow> 'o esession" where
  "select_init next s = s\<lparr>ss_process := Session_init next, ss_type := next\<rparr>"

definition eap_method_select :: "eap_ctx \<Rightarrow> rlm_eap \<Rightarrow> nat \<Rightarrow> 'o eap_world \<Rightarrow> (rlm_rcode option \<times> 'o eap_world) option" where
  "eap_method_select ctx inst a W = do {
     s \<leftarrow> ew_sessions W a;
     round \<leftarrow> ss_this_round s;
     let type = rd_response round;
     if pk_type_num type = 0 \<or> pk_type_num type \<ge> FR_EAP_METHOD_MAX then Some (Some RLM_MODULE_INVALID, W)
     else if ec_nested ctx then Some (Some RLM_MODULE_INVALID, W)
     else do {
       (result, s, W) \<leftarrow>
         (if pk_type_num type = FR_EAP_METHOD_IDENTITY then do {
            identity \<leftarrow> ss_identity s;
            Some (case select_identity inst (ec_control ctx) (rq_request_pairs (ew_request W)) identity of
                    None \<Rightarrow> (Some RLM_MODULE_INVALID, s, W)
                  | Some next \<Rightarrow> (None, select_init next s, W)) }
          else if pk_type_num type = FR_EAP_METHOD_NAK then do {
            let s = s\<lparr>ss_opaque := None\<rparr>;
            let (r, C) = fr_state_discard_child a 0 (ew_request W) (ew_children W);
            let W = W\<lparr>ew_request := r, ew_children := C\<rparr>;
            next \<leftarrow> eap_process_nak inst (ec_control ctx) (ss_type s) type;
            Some (if next = FR_EAP_METHOD_INVALID then (Some RLM_MODULE_REJECT, s, W) else (None, select_init next s, W)) }
          else if \<not> ei_methods inst (pk_type_num type) then Some (Some RLM_MODULE_INVALID, s, W)
          else Some (None, s\<lparr>ss_type := pk_type_num type\<rparr>, W));
       let W = set_session a s W;
       Some (if result = None \<and> \<not> ec_push ctx then (Some RLM_MODULE_FAIL, W) else (result, W)) } }"

text \<open>\<open>pair_update_reply\<close>: the attribute replaces the first one of the same name.\<close>

fun pair_update :: "pair_attr \<Rightarrow> bytes \<Rightarrow> pair_list \<Rightarrow> pair_list" where
  "pair_update da v [] = [(da, v)]"
| "pair_update da v (p # ps) = (if fst p = da then (da, v) # ps else p # pair_update da v ps)"

text \<open>What a method answers: its result, the reply it has built, what it leaves in the session, the attributes it sets in the reply of the request, and the subrequest when it
is done. It is called with the callback, the session, the control lists of the request and of the subrequest, and the subrequest; \<open>None\<close> is an access outside of memory.\<close>

record 'o sub_result =
  sb_rcode :: rlm_rcode
  sb_reply :: eap_packet
  sb_set_request_id :: bool
  sb_process :: eap_process
  sb_opaque :: "'o option"
  sb_tls :: bool
  sb_finished :: bool
  sb_pairs :: pair_list
  sb_child :: state_request

type_synonym 'o eap_method = "eap_process \<Rightarrow> 'o esession \<Rightarrow> pair_list \<Rightarrow> pair_list \<Rightarrow> state_request \<Rightarrow> 'o sub_result option"

definition child_request :: "rlm_eap \<Rightarrow> u64 \<Rightarrow> 'o esession \<Rightarrow> state_request \<Rightarrow> state_request" where
  "child_request inst number s r =
     \<lparr>rq_request_pairs = (if ei_clone_parent_lists inst (ss_type s) then rq_request_pairs r else []) @
        (case ss_identity s of None \<Rightarrow> [] | Some identity \<Rightarrow> [(ATTR_EAP_IDENTITY, identity)]) @ [(ATTR_EAP_TYPE, put32 (ss_type s))],
      rq_reply_pairs = [], rq_reply_code = 0, rq_proxy_eap = False, sr_number = number, sr_seq_start = 0, sr_sequence = 0, sr_session = [], sr_data = []\<rparr>"

definition child_control :: "rlm_eap \<Rightarrow> 'o esession \<Rightarrow> pair_list \<Rightarrow> pair_list" where
  "child_control inst s control = (if ei_clone_parent_lists inst (ss_type s) then control else [])"

text \<open>The interpreter runs the subrequest: the session data of the method is restored to it, the callback is called, and what it leaves is stored in the parent. A callback that
is not set is a call of address \<open>0\<close>.\<close>

definition run_method :: "eap_ctx \<Rightarrow> rlm_eap \<Rightarrow> 'o eap_method \<Rightarrow> nat \<Rightarrow> 'o eap_world \<Rightarrow> (rlm_rcode \<times> 'o eap_world) option" where
  "run_method ctx inst method a W = do {
     s \<leftarrow> ew_sessions W a;
     (child, r, C) \<leftarrow> fr_state_restore_to_child a 0 (child_request inst (ec_child_number ctx) s (ew_request W)) (ew_request W) (ew_children W);
     round \<leftarrow> ss_this_round s;
     if ss_process s = No_process then None
     else do {
       res \<leftarrow> method (ss_process s) s (ec_control ctx) (child_control inst s (ec_control ctx)) child;
       let s = s\<lparr>ss_this_round := Some (round\<lparr>rd_request := sb_reply res, rd_set_request_id := sb_set_request_id res\<rparr>),
                 ss_process := sb_process res, ss_opaque := sb_opaque res, ss_tls := sb_tls res, ss_finished := sb_finished res\<rparr>;
       let r = r\<lparr>rq_reply_pairs := fold (\<lambda>(da, v). pair_update da v) (sb_pairs res) (rq_reply_pairs r)\<rparr>;
       let (_, r, C) = fr_state_store_in_parent a 0 (ec_new_child ctx) (sb_child res) r C;
       Some (sb_rcode res, set_session a s (W\<lparr>ew_request := r, ew_children := C\<rparr>)) } }"

text \<open>\<open>eap_compose\<close> and \<open>eap_fail\<close> on the session: they write the reply of the request the session is thawed for.\<close>

definition eap_view :: "state_request \<Rightarrow> 'o esession \<Rightarrow> eap_session option" where
  "eap_view r s =
     (if ss_request s = None then None
      else map_option (\<lambda>round. \<lparr>es_type = ss_type s, es_request = request.truncate r, es_prev_round = ss_prev_round s, es_this_round = round,
        es_finished = ss_finished s\<rparr>) (ss_this_round s))"

definition on_session :: "(eap_session \<Rightarrow> (rlm_rcode \<times> eap_session) option) \<Rightarrow> nat \<Rightarrow> 'o eap_world \<Rightarrow> (rlm_rcode \<times> 'o eap_world) option" where
  "on_session f a W = do {
     s \<leftarrow> ew_sessions W a;
     v \<leftarrow> eap_view (ew_request W) s;
     (rcode, v) \<leftarrow> f v;
     let r = (ew_request W)\<lparr>rq_reply_pairs := rq_reply_pairs (es_request v), rq_reply_code := rq_reply_code (es_request v)\<rparr>;
     let s = s\<lparr>ss_this_round := Some (es_this_round v), ss_finished := es_finished v\<rparr>;
     Some (rcode, set_session a s (W\<lparr>ew_request := r\<rparr>)) }"

definition set_reply_code :: "nat \<Rightarrow> nat \<Rightarrow> 'o eap_world \<Rightarrow> 'o eap_world option" where
  "set_reply_code code a W = do {
     s \<leftarrow> ew_sessions W a;
     round \<leftarrow> ss_this_round s;
     Some (set_session a (s\<lparr>ss_this_round := Some (round\<lparr>rd_request := (rd_request round)\<lparr>pk_code := code\<rparr>\<rparr>)\<rparr>) W) }"

text \<open>Whether the conversation goes on.\<close>

definition awaits_response :: "eap_round \<Rightarrow> bool" where
  "awaits_response round \<longleftrightarrow>
     (pk_code (rd_request round) = FR_EAP_CODE_REQUEST \<and> pk_type_num (rd_request round) \<ge> FR_EAP_METHOD_MD5) \<or>
     (pk_code (rd_response round) = FR_EAP_CODE_RESPONSE \<and> pk_type_num (rd_response round) = FR_EAP_METHOD_LEAP \<and>
      pk_code (rd_request round) = FR_EAP_CODE_SUCCESS \<and> pk_type_num (rd_request round) = 0)"

definition mod_authenticate_result :: "bool \<Rightarrow> rlm_rcode \<Rightarrow> nat \<Rightarrow> 'o eap_world \<Rightarrow> (rlm_rcode \<times> 'o eap_world) option" where
  "mod_authenticate_result alloc result a W =
     (if result = RLM_MODULE_FAIL \<or> result = RLM_MODULE_INVALID then do {
        (_, W) \<leftarrow> on_session (eap_fail alloc) a W;
        W \<leftarrow> eap_session_destroy (Some a) W;
        Some (RLM_MODULE_INVALID, W) }
      else do {
        W \<leftarrow> (if result = RLM_MODULE_REJECT \<or> result = RLM_MODULE_DISALLOW then set_reply_code FR_EAP_CODE_FAILURE a W else Some W);
        (rcode, W) \<leftarrow> on_session (eap_compose alloc) a W;
        s \<leftarrow> ew_sessions W a;
        round \<leftarrow> ss_this_round s;
        (eap_session, W) \<leftarrow>
          (if awaits_response round then Some (Some a, set_session a (s\<lparr>ss_prev_round := Some round, ss_this_round := None\<rparr>) W)
           else do { W \<leftarrow> eap_session_destroy (Some a) W; Some (None, W) });
        W \<leftarrow> eap_session_freeze eap_session W;
        Some (rcode, W) })"

definition mod_authenticate_cancel :: "nat \<Rightarrow> 'o eap_world \<Rightarrow> 'o eap_world option" where
  "mod_authenticate_cancel a W = eap_session_destroy (Some a) W"

definition mod_authenticate :: "eap_ctx \<Rightarrow> rlm_eap \<Rightarrow> 'o eap_method \<Rightarrow> 'o eap_world \<Rightarrow> (rlm_rcode \<times> 'o eap_world) option" where
  "mod_authenticate ctx inst method W =
     (if fr_pair_find_by_da (rq_request_pairs (ew_request W)) ATTR_EAP_MESSAGE = None then Some (RLM_MODULE_INVALID, W)
      else do {
        packet \<leftarrow> eap_packet_from_vp (ec_alloc ctx) (pair_values (rq_request_pairs (ew_request W)) ATTR_EAP_MESSAGE);
        case packet of
          None \<Rightarrow> Some (RLM_MODULE_FAIL, W)
        | Some packet \<Rightarrow> do {
            (eap_session, W) \<leftarrow> eap_session_continue (ec_now ctx) (ec_new_session ctx) (ec_alloc ctx) (ei_instance inst) packet W;
            case eap_session of
              None \<Rightarrow> Some (RLM_MODULE_INVALID, W)
            | Some a \<Rightarrow> do {
                (result, W) \<leftarrow> eap_method_select ctx inst a W;
                case result of
                  None \<Rightarrow> do { (rcode, W) \<leftarrow> run_method ctx inst method a W; mod_authenticate_result (ec_alloc ctx) rcode a W }
                | Some rcode \<Rightarrow> do {
                    W \<leftarrow> (if rcode = RLM_MODULE_OK \<or> rcode = RLM_MODULE_UPDATED then eap_session_freeze (Some a) W
                          else do { (_, W) \<leftarrow> on_session (eap_fail (ec_alloc ctx)) a W; eap_session_destroy (Some a) W });
                    Some (rcode, W) } } } })"

text \<open>The values of the results in C. \<open>mod_authorize\<close> returns an action and may set a result; the actions are the integers of \<open>unlang_action_t\<close>.\<close>

definition rcode_value :: "rlm_rcode \<Rightarrow> int" where
  "rcode_value rcode = (case rcode of
     RLM_MODULE_REJECT \<Rightarrow> 0 | RLM_MODULE_FAIL \<Rightarrow> 1 | RLM_MODULE_OK \<Rightarrow> 2 | RLM_MODULE_HANDLED \<Rightarrow> 3 | RLM_MODULE_INVALID \<Rightarrow> 4 | RLM_MODULE_DISALLOW \<Rightarrow> 5
   | RLM_MODULE_NOTFOUND \<Rightarrow> 6 | RLM_MODULE_NOOP \<Rightarrow> 7 | RLM_MODULE_UPDATED \<Rightarrow> 8 | RLM_MODULE_NUMCODES \<Rightarrow> 9 | RLM_MODULE_NOT_SET \<Rightarrow> 10)"

abbreviation CALCULATE_RESULT :: int where "CALCULATE_RESULT \<equiv> 1"
abbreviation PUSHED_CHILD :: int where "PUSHED_CHILD \<equiv> 3"

definition module_rlm_section_type_set :: "pair_attr \<Rightarrow> bytes \<Rightarrow> pair_list \<Rightarrow> bool \<times> pair_list" where
  "module_rlm_section_type_set da v control =
     (case fr_pair_find_by_da control da of None \<Rightarrow> (True, control @ [(da, v)]) | Some _ \<Rightarrow> (False, control))"

definition mod_authorize :: "rlm_eap \<Rightarrow> pair_list \<Rightarrow> request \<Rightarrow> (int \<times> rlm_rcode option \<times> pair_list \<times> request) option" where
  "mod_authorize inst control r =
     (case ei_auth_type inst of
        None \<Rightarrow> Some (CALCULATE_RESULT, Some RLM_MODULE_NOOP, control, r)
      | Some auth_type \<Rightarrow> do {
          (status, r) \<leftarrow> eap_start r (ei_methods inst) (ei_ignore_unknown_types inst);
          Some (if status = RLM_MODULE_NOOP \<or> status = RLM_MODULE_FAIL \<or> status = RLM_MODULE_HANDLED then (rcode_value status, None, control, r)
                else
                  let (set, control) = module_rlm_section_type_set ATTR_AUTH_TYPE auth_type control
                  in (CALCULATE_RESULT,
                      Some (if \<not> set then RLM_MODULE_NOOP else if status = RLM_MODULE_OK then RLM_MODULE_OK else RLM_MODULE_UPDATED), control, r)) })"

definition mod_post_auth :: "eap_ctx \<Rightarrow> 'o eap_world \<Rightarrow> (rlm_rcode \<times> 'o eap_world) option" where
  "mod_post_auth ctx W = do {
     let r = ew_request W;
     let r = (case fr_pair_find_by_da (rq_request_pairs r) ATTR_USER_NAME of
                Some username \<Rightarrow>
                  if rq_reply_code r = RADIUS_ACCESS_ACCEPT \<and> fr_pair_find_by_da (rq_reply_pairs r) ATTR_USER_NAME = None
                  then r\<lparr>rq_reply_pairs := rq_reply_pairs r @ [(ATTR_USER_NAME, username)]\<rparr> else r
              | None \<Rightarrow> r);
     let W = W\<lparr>ew_request := r\<rparr>;
     if rq_reply_code r \<noteq> RADIUS_ACCESS_REJECT then Some (RLM_MODULE_NOOP, W)
     else if fr_pair_find_by_da (rq_request_pairs r) ATTR_EAP_MESSAGE = None then Some (RLM_MODULE_NOOP, W)
     else if fr_pair_find_by_da (rq_reply_pairs r) ATTR_EAP_MESSAGE \<noteq> None then Some (RLM_MODULE_NOOP, W)
     else do {
       (eap_session, W) \<leftarrow> eap_session_thaw (ec_now ctx) W;
       case eap_session of
         None \<Rightarrow> Some (RLM_MODULE_NOOP, W)
       | Some a \<Rightarrow> do {
           s \<leftarrow> ew_sessions W a;
           case ss_this_round s of
             None \<Rightarrow> do { W \<leftarrow> eap_session_destroy (Some a) W; Some (RLM_MODULE_FAIL, W) }
           | Some round \<Rightarrow>
               if pk_code (rd_request round) = FR_EAP_CODE_FAILURE then Some (RLM_MODULE_NOOP, W)
               else do {
                 (_, W) \<leftarrow> on_session (eap_fail (ec_alloc ctx)) a W;
                 W \<leftarrow> eap_session_destroy (Some a) W;
                 let r = ew_request W;
                 Some (RLM_MODULE_UPDATED,
                   W\<lparr>ew_request := r\<lparr>rq_reply_pairs := pair_update ATTR_MESSAGE_AUTHENTICATOR (ec_memory ctx) (rq_reply_pairs r)\<rparr>\<rparr>) } } } }"

section \<open>The choice of the method\<close>

text \<open>A module with EAP-MD5 and EAP-TLS.\<close>

definition ex_inst :: rlm_eap where
  "ex_inst = \<lparr>ei_instance = 1, ei_methods = (\<lambda>t. t = 4 \<or> t = 13), ei_clone_parent_lists = (\<lambda>_. False), ei_default_method = 13, ei_type_identity = [],
     ei_ignore_unknown_types = False, ei_require_realm = REQUIRE_REALM_NO, ei_auth_type = Some [0, 0, 0, 1]\<rparr>"

lemma nak_loop_filter:
  "nak_loop methods last_type ts acc =
    (if \<exists>t\<in>set ts. unat t < FR_EAP_METHOD_MD5 then None
     else Some (acc @ filter (\<lambda>t. t < FR_EAP_METHOD_MAX \<and> methods t \<and> t \<noteq> last_type) (map unat ts)))"
  by (induction methods last_type ts acc rule: nak_loop.induct) auto

lemma nak_select_find:
  assumes "0 \<notin> set sanitised"
  shows "nak_select vs sanitised = (case List.find (\<lambda>v. v \<in> set sanitised) vs of None \<Rightarrow> FR_EAP_METHOD_INVALID | Some v \<Rightarrow> v)"
  using assms
proof (induction vs)
  case (Cons v vs)
  have "List.find (\<lambda>t. v = t) xs = (if v \<in> set xs then Some v else None)" for xs by (induction xs) auto
  with Cons show ?case by (auto split: option.splits)
qed simp

text \<open>The types of a NAK that the module could go on with.\<close>

definition nak_candidates :: "rlm_eap \<Rightarrow> nat \<Rightarrow> bytes \<Rightarrow> nat list" where
  "nak_candidates inst last_type types = filter (\<lambda>t. t < FR_EAP_METHOD_MAX \<and> ei_methods inst t \<and> t \<noteq> last_type) (map unat types)"

lemma eap_process_nak_result:
  assumes "pk_type_data nak = Some data" "pk_type_length nak \<le> length data"
  shows "eap_process_nak inst control last_type nak =
    (let types = take (pk_type_length nak) data;
         allowed = map pair_uint32 (pair_values control ATTR_EAP_TYPE);
         proposed = nak_candidates inst last_type types
     in Some (if list_ex (\<lambda>t. unat t < FR_EAP_METHOD_MD5) types then FR_EAP_METHOD_INVALID
              else if allowed = [] then (case proposed of [] \<Rightarrow> FR_EAP_METHOD_INVALID | t # _ \<Rightarrow> t)
              else (case List.find (\<lambda>v. v \<in> set proposed) allowed of None \<Rightarrow> FR_EAP_METHOD_INVALID | Some v \<Rightarrow> v)))"
proof -
  define types where "types = take (pk_type_length nak) data"
  define allowed where "allowed = map pair_uint32 (pair_values control ATTR_EAP_TYPE)"
  define proposed where "proposed = nak_candidates inst last_type types"
  have "rd_mem data 0 (pk_type_length nak) = Some types" using assms(2) by (simp add: rd_mem_def chunk_def types_def)
  then have e: "eap_process_nak inst control last_type nak = Some (case (if \<exists>t\<in>set types. unat t < FR_EAP_METHOD_MD5 then None else Some proposed) of
      None \<Rightarrow> FR_EAP_METHOD_INVALID | Some [] \<Rightarrow> FR_EAP_METHOD_INVALID
    | Some (t # ts) \<Rightarrow> (case pair_values control ATTR_EAP_TYPE of [] \<Rightarrow> t | vs \<Rightarrow> nak_select (map pair_uint32 vs) (t # ts)))"
    using assms(1) by (simp add: eap_process_nak_def nak_loop_filter proposed_def nak_candidates_def)
  have "eap_process_nak inst control last_type nak = Some (if \<exists>t\<in>set types. unat t < FR_EAP_METHOD_MD5 then FR_EAP_METHOD_INVALID
      else if allowed = [] then (case proposed of [] \<Rightarrow> FR_EAP_METHOD_INVALID | t # _ \<Rightarrow> t)
      else (case List.find (\<lambda>v. v \<in> set proposed) allowed of None \<Rightarrow> FR_EAP_METHOD_INVALID | Some v \<Rightarrow> v))"
  proof (cases "\<exists>t\<in>set types. unat t < FR_EAP_METHOD_MD5")
    case False
    then have z: "0 \<notin> set proposed" by (force simp: proposed_def nak_candidates_def)
    show ?thesis
    proof (cases proposed)
      case Nil
      have "List.find (\<lambda>v. False) vs = None" for vs :: "nat list" by (induction vs) auto
      then show ?thesis using e False Nil by simp
    next
      case (Cons t ts)
      have "(case vs of [] \<Rightarrow> t | v # ws \<Rightarrow> nak_select (map pair_uint32 (v # ws)) (t # ts)) = (if map pair_uint32 vs = [] then t else nak_select (map pair_uint32 vs) (t # ts))" for vs
        by (cases vs) auto
      then show ?thesis using e False Cons nak_select_find [OF z, of allowed] by (simp add: allowed_def)
    qed
  qed (use e in simp)
  then show ?thesis by (simp add: Let_def list_ex_iff types_def [symmetric] allowed_def [symmetric] proposed_def [symmetric])
qed

text \<open>(C40) The answer to a NAK: nothing if the peer names a type below MD5 or \<open>0\<close>; otherwise, of the types it proposes that are enabled and are not the one it refuses, the first
one, or with EAP-Type attributes in the control list the one that comes first there.\<close>

theorem eap_process_nak_spec:
  assumes "pk_type_data nak = Some data" "pk_type_length nak \<le> length data"
  shows "eap_process_nak inst control last_type nak =
    (let types = take (pk_type_length nak) data;
         allowed = map pair_uint32 (pair_values control ATTR_EAP_TYPE);
         proposed = nak_candidates inst last_type types
     in Some (if list_ex (\<lambda>t. unat t < FR_EAP_METHOD_MD5) types then FR_EAP_METHOD_INVALID
              else if allowed = [] then (case proposed of [] \<Rightarrow> FR_EAP_METHOD_INVALID | t # _ \<Rightarrow> t)
              else (case List.find (\<lambda>v. v \<in> set proposed) allowed of None \<Rightarrow> FR_EAP_METHOD_INVALID | Some v \<Rightarrow> v)))"
  using assms by (rule eap_process_nak_result)

theorem eap_process_nak_spec_witness:
  "eap_process_nak ex_inst [(ATTR_EAP_TYPE, put32 21), (ATTR_EAP_TYPE, put32 13)] 4 (eap_packet_zero\<lparr>pk_type_data := Some [21, 4, 13], pk_type_length := 3\<rparr>) = Some 13"
proof -
  have c: "nak_candidates ex_inst 4 [21, 4, 13] = [13]" by (simp add: nak_candidates_def ex_inst_def)
  have u: "pair_uint32 (put32 21) = 21" "pair_uint32 (put32 13) = 13" by (simp_all add: pair_uint32_def put32_def)
  show ?thesis
    by (subst eap_process_nak_spec [of _ "[21, 4, 13]"]) (simp_all add: pair_values_def c u)
qed

lemma memchr_Some:
  "memchr c i bs = Some p \<longleftrightarrow> (\<exists>l r. bs = l @ c # r \<and> c \<notin> set l \<and> p = i + length l)"
proof (induction bs arbitrary: i)
  case (Cons b bs)
  show ?case
  proof (cases "b = c")
    case True
    then show ?thesis by (auto simp: Cons_eq_append_conv)
  next
    case False
    then have "(\<exists>l r. b # bs = l @ c # r \<and> c \<notin> set l \<and> p = i + length l) \<longleftrightarrow> (\<exists>l r. bs = l @ c # r \<and> c \<notin> set (b # l) \<and> p = i + length (b # l))"
      unfolding Cons_eq_append_conv by fastforce
    then show ?thesis using Cons [of "Suc i"] False by simp
  qed
qed simp

lemma memchr_None: "memchr c i bs = None \<longleftrightarrow> c \<notin> set bs"
  by (induction bs arbitrary: i) auto

lemma memrchr_Some:
  "memrchr c bs = Some p \<longleftrightarrow> (\<exists>l r. bs = l @ c # r \<and> c \<notin> set r \<and> p = length l)"
proof -
  have "memchr c 0 (rev bs) = Some j \<longleftrightarrow> (\<exists>l r. bs = l @ c # r \<and> c \<notin> set r \<and> j = length r)" for j
  proof
    assume "memchr c 0 (rev bs) = Some j"
    then obtain l r where l: "rev bs = l @ c # r" "c \<notin> set l" "j = length l" unfolding memchr_Some by auto
    then have "bs = rev r @ c # rev l" by (metis append.assoc append_Cons append_Nil rev.simps(2) rev_append rev_rev_ident)
    then show "\<exists>l r. bs = l @ c # r \<and> c \<notin> set r \<and> j = length r" using l by (metis length_rev set_rev)
  next
    assume "\<exists>l r. bs = l @ c # r \<and> c \<notin> set r \<and> j = length r"
    then obtain l r where "bs = l @ c # r" "c \<notin> set r" "j = length r" by blast
    then show "memchr c 0 (rev bs) = Some j" unfolding memchr_Some by (intro exI [of _ "rev r"] exI [of _ "rev l"]) simp
  qed
  then show ?thesis by (force simp: memrchr_def)
qed

text \<open>An identity with a realm: a label, a dot and something after it behind the last \<open>@\<close>.\<close>

lemma eap_identity_is_nai_exact:
  "0 < eap_identity_is_nai_with_realm identity \<longleftrightarrow>
    (\<exists>user label rest. identity = user @ 0x40 # label @ 0x2e # rest \<and> 0x40 \<notin> set (label @ rest) \<and> 0x2e \<notin> set label \<and> rest \<noteq> [])"
  (is "_ \<longleftrightarrow> ?R")
proof (cases "memrchr 0x40 identity")
  case None
  then have "0x40 \<notin> set identity" by (simp add: memrchr_def memchr_None)
  then show ?thesis using None by (auto simp: eap_identity_is_nai_with_realm_def)
next
  case (Some realm)
  then obtain user dom where d: "identity = user @ 0x40 # dom" "0x40 \<notin> set dom" "realm = length user" unfolding memrchr_Some by blast
  have uniq: "user' = user \<and> dom' = dom" if "identity = user' @ 0x40 # dom'" "0x40 \<notin> set dom'" for user' dom'
    using that d(1,2) by (auto simp: append_eq_append_conv2 Cons_eq_append_conv append_eq_Cons_conv)
  have drop: "drop realm identity = 0x40 # dom" by (simp add: d(1,3))
  show ?thesis
  proof (cases "memchr 0x2e realm (drop realm identity)")
    case None
    then have "0x2e \<notin> set dom" by (auto simp: memchr_None drop)
    then have "\<not> ?R" using uniq by fastforce
    then show ?thesis using Some None by (simp add: eap_identity_is_nai_with_realm_def)
  next
    case (Some p)
    then obtain l r where l: "0x40 # dom = l @ 0x2e # r" "0x2e \<notin> set l" "p = realm + length l" unfolding drop memchr_Some by blast
    then obtain label where lab: "l = 0x40 # label" "dom = label @ 0x2e # r" by (cases l) auto
    have e: "eap_identity_is_nai_with_realm identity = (if r = [] then - int (length identity) else int (length identity))"
      using \<open>memrchr 0x40 identity = Some realm\<close> Some l(3) lab d by (auto simp: eap_identity_is_nai_with_realm_def)
    have "?R \<longleftrightarrow> r \<noteq> []"
    proof
      assume ?R
      then obtain user' label' rest where q: "identity = user' @ 0x40 # label' @ 0x2e # rest" "0x40 \<notin> set (label' @ rest)" "0x2e \<notin> set label'" "rest \<noteq> []" by blast
      then have "label' @ 0x2e # rest = label @ 0x2e # r" using uniq [of user' "label' @ 0x2e # rest"] lab by auto
      then have "rest = r" using q(3) l(2) lab(1) by (auto simp: append_eq_append_conv2 Cons_eq_append_conv append_eq_Cons_conv)
      then show "r \<noteq> []" using q by simp
    next
      assume "r \<noteq> []"
      then show ?R using d lab l(2) by (intro exI [of _ user] exI [of _ label] exI [of _ r]) auto
    qed
    moreover have "identity \<noteq> []" using d by simp
    ultimately show ?thesis unfolding e by auto
  qed
qed

text \<open>The check for an empty label after the \<open>@\<close> compares with the octet before it: \<open>@.x\<close> is accepted.\<close>

lemma eap_identity_empty_label: "0 < eap_identity_is_nai_with_realm [0x40, 0x2e, 0x78]"
  by code_simp

section \<open>What holds between requests and during one\<close>

lemma set_data_sel [simp]: "ew_request (set_data d W) = (ew_request W)\<lparr>sr_data := d\<rparr>" "ew_sessions (set_data d W) = ew_sessions W" "ew_children (set_data d W) = ew_children W"
  by (simp_all add: set_data_def)

lemma set_session_sel [simp]: "ew_request (set_session a s W) = ew_request W" "ew_sessions (set_session a s W) = (ew_sessions W)(a \<mapsto> s)"
    "ew_children (set_session a s W) = ew_children W"
  by (simp_all add: set_session_def)

definition esession_ok :: "'o esession \<Rightarrow> bool" where
  "esession_ok s \<longleftrightarrow> ss_inst s \<noteq> 0 \<and> ss_identity s \<noteq> None \<and> 0 \<le> ss_rounds s \<and> ss_rounds s < 50"

definition method_set :: "(eap_process \<Rightarrow> 'o option \<Rightarrow> bool) \<Rightarrow> rlm_eap \<Rightarrow> 'o esession \<Rightarrow> bool" where
  "method_set V inst s \<longleftrightarrow> FR_EAP_METHOD_MD5 \<le> ss_type s \<and> ss_type s < FR_EAP_METHOD_MAX \<and> ei_methods inst (ss_type s) \<and> ss_process s \<noteq> No_process \<and> V (ss_process s) (ss_opaque s)"

text \<open>A session that waits for the next request is frozen and has a round it has sent.\<close>

definition session_rest :: "(eap_process \<Rightarrow> 'o option \<Rightarrow> bool) \<Rightarrow> rlm_eap \<Rightarrow> 'o esession \<Rightarrow> bool" where
  "session_rest V inst s \<longleftrightarrow> esession_ok s \<and> method_set V inst s \<and> ss_request s = None \<and> ss_this_round s = None \<and> ss_prev_round s \<noteq> None"

text \<open>The data of the request: unique keys, a session that can be carried to the next request, and child data that can be restored.\<close>

definition data_ok :: "request_data list \<Rightarrow> bool" where
  "data_ok d \<longleftrightarrow> rd_inv d \<and> (\<forall>rd\<in>set d. rd_key rd = (0, REQUEST_DATA_EAP_SESSION) \<longrightarrow> rd_persist rd)"

definition child_ok :: "nat \<Rightarrow> request_data list \<Rightarrow> (nat \<rightharpoonup> state_child_entry) \<Rightarrow> bool" where
  "child_ok a d C \<longleftrightarrow> (\<forall>c. rd_abs d (a, 0) = Some c \<longrightarrow> c \<noteq> 0 \<longrightarrow> (\<exists>e. C c = Some e \<and> ce_thawed e = None \<and> ce_ctx e \<noteq> None))"

definition at_rest :: "(eap_process \<Rightarrow> 'o option \<Rightarrow> bool) \<Rightarrow> rlm_eap \<Rightarrow> request_data list \<Rightarrow> (nat \<rightharpoonup> 'o esession) \<Rightarrow> (nat \<rightharpoonup> state_child_entry) \<Rightarrow> bool" where
  "at_rest V inst d E C \<longleftrightarrow> data_ok d \<and>
     (\<forall>a. rd_abs d (0, REQUEST_DATA_EAP_SESSION) = Some a \<longrightarrow> a \<noteq> 0 \<and> (\<exists>s. E a = Some s \<and> session_rest V inst s) \<and> child_ok a d C)"

abbreviation eap_rest :: "(eap_process \<Rightarrow> 'o option \<Rightarrow> bool) \<Rightarrow> rlm_eap \<Rightarrow> 'o eap_world \<Rightarrow> bool" where
  "eap_rest V inst W \<equiv> at_rest V inst (ew_data W) (ew_sessions W) (ew_children W)"

text \<open>A round as it is built from a packet: a response whose type data has the length the packet gave it, no reply yet, and a response the methods accept (\<open>A\<close>).\<close>

definition response_ok :: "eap_packet \<Rightarrow> bool" where
  "response_ok p \<longleftrightarrow>
     (case pk_type_data p of
        None \<Rightarrow> pk_type_length p = 0 \<and> pk_length p \<le> 5
      | Some data \<Rightarrow> data \<noteq> [] \<and> pk_type_length p = length data \<and> pk_length p = 5 + length data \<and> length data \<le> 65530)"

definition fresh_round :: "(eap_packet \<Rightarrow> bool) \<Rightarrow> eap_round \<Rightarrow> bool" where
  "fresh_round A round \<longleftrightarrow> rd_request round = eap_packet_zero \<and> response_ok (rd_response round) \<and> A (rd_response round)"

lemma response_ok_type_data: "response_ok p \<Longrightarrow> \<forall>data. pk_type_data p = Some data \<longrightarrow> pk_type_length p \<le> length data"
  by (auto simp: response_ok_def)

text \<open>A session at work: thawed, with a new round, and a callback unless the peer has sent something the module answers itself.\<close>

definition working :: "(eap_process \<Rightarrow> 'o option \<Rightarrow> bool) \<Rightarrow> (eap_packet \<Rightarrow> bool) \<Rightarrow> rlm_eap \<Rightarrow> 'o esession \<Rightarrow> bool" where
  "working V A inst s \<longleftrightarrow> esession_ok s \<and> ss_request s \<noteq> None \<and>
     (\<exists>round. ss_this_round s = Some round \<and> fresh_round A round \<and>
       (ss_process s \<noteq> No_process \<and> V (ss_process s) (ss_opaque s) \<or> pk_type_num (rd_response round) < FR_EAP_METHOD_MD5 \<or> \<not> ei_methods inst (pk_type_num (rd_response round))))"

definition at_work :: "(('o esession) \<Rightarrow> bool) \<Rightarrow> nat \<Rightarrow> request_data list \<Rightarrow> (nat \<rightharpoonup> 'o esession) \<Rightarrow> (nat \<rightharpoonup> state_child_entry) \<Rightarrow> bool" where
  "at_work P a d E C \<longleftrightarrow> data_ok d \<and> rd_abs d (0, REQUEST_DATA_EAP_SESSION) = Some a \<and> a \<noteq> 0 \<and> (\<exists>s. E a = Some s \<and> ss_request s \<noteq> None \<and> P s) \<and> child_ok a d C"

abbreviation eap_work :: "('o esession \<Rightarrow> bool) \<Rightarrow> nat \<Rightarrow> 'o eap_world \<Rightarrow> bool" where
  "eap_work P a W \<equiv> at_work P a (ew_data W) (ew_sessions W) (ew_children W)"

lemma at_work_update:
  assumes "at_work P a d E C" "ss_request s \<noteq> None" "Q s"
  shows "at_work Q a d (E(a \<mapsto> s)) C"
  using assms by (auto simp: at_work_def)

lemma data_ok_filter: "data_ok d \<Longrightarrow> data_ok (filter P d)"
  by (auto simp: data_ok_def rd_inv_def distinct_map_filter)

lemma data_ok_get: "data_ok d \<Longrightarrow> data_ok (snd (request_data_get ptr i d))"
  using request_data_get_abs [of d] data_ok_filter by (auto simp: data_ok_def [of d])

lemma data_ok_add:
  assumes "data_ok d" "(ptr, i) = (0, REQUEST_DATA_EAP_SESSION) \<longrightarrow> p"
  shows "data_ok (snd (request_data_add ptr i v r f p d))"
  using assms rd_inv_ops(1) [of d ptr i v r f p] by (auto simp: data_ok_def request_data_add_abs)

lemma at_rest_none:
  assumes "data_ok d" "rd_abs d (0, REQUEST_DATA_EAP_SESSION) = None"
  shows "at_rest V inst d E C"
  using assms by (simp add: at_rest_def)

text \<open>Destroying a session at work leaves a request without one.\<close>

lemma destroy_work:
  assumes "eap_work P a W"
  shows "\<exists>W'. eap_session_destroy (Some a) W = Some W' \<and> eap_rest V inst W' \<and> rd_abs (ew_data W') (0, REQUEST_DATA_EAP_SESSION) = None \<and> ew_sessions W' a = None \<and>
    ew_request W' = (ew_request W)\<lparr>sr_data := filter (\<lambda>rd. rd_key rd \<noteq> (0, REQUEST_DATA_EAP_SESSION)) (ew_data W)\<rparr>"
proof -
  from assms obtain s y where s: "data_ok (ew_data W)" "ew_sessions W a = Some s" "ss_request s = Some y" by (auto simp: at_work_def)
  then have g: "snd (request_data_get 0 REQUEST_DATA_EAP_SESSION (ew_data W)) = filter (\<lambda>rd. rd_key rd \<noteq> (0, REQUEST_DATA_EAP_SESSION)) (ew_data W)"
    by (simp add: request_data_get_abs data_ok_def)
  have n: "rd_abs (filter (\<lambda>rd. rd_key rd \<noteq> (0, REQUEST_DATA_EAP_SESSION)) (ew_data W)) (0, REQUEST_DATA_EAP_SESSION) = None" by (simp add: rd_abs_filter)
  show ?thesis using s g n at_rest_none [OF data_ok_filter [OF s(1)] n]
    by (simp add: eap_session_destroy_def eap_session_free_def Let_def)
qed

section \<open>Continuing a session\<close>

lemma nbo16_le: "nbo16 a b - 5 \<le> 65530"
  using nbo16_less [of a b] by linarith

lemma eap_wf_reads:
  assumes "eap_wf p"
  shows "rd8 p 0 = Some (p ! 0)" "rd8 p 4 = Some (p ! 4)" "rd_nbo16 p 2 = Some (nbo16 (p ! 2) (p ! 3))" "\<exists>x. eap_identity p = Some x"
    "\<exists>x. eap_round_build alloc p = Some x \<and> (\<forall>round. x = Some round \<longrightarrow> pk_type_num (rd_response round) = unat (p ! 4) \<and> pk_id (rd_response round) = p ! 1 \<and>
       rd_request round = eap_packet_zero \<and> response_ok (rd_response round))"
proof -
  have l: "4 < length p" and n: "5 \<le> nbo16 (p ! 2) (p ! 3)" "nbo16 (p ! 2) (p ! 3) \<le> length p" using assms by (auto simp: eap_wf_def)
  note r = eap_reads [OF l]
  show "rd8 p 0 = Some (p ! 0)" "rd8 p 4 = Some (p ! 4)" "rd_nbo16 p 2 = Some (nbo16 (p ! 2) (p ! 3))" using r by auto
  show "\<exists>x. eap_identity p = Some x" using r n by (simp add: eap_identity_def rd_mem_def)
  show "\<exists>x. eap_round_build alloc p = Some x \<and> (\<forall>round. x = Some round \<longrightarrow> pk_type_num (rd_response round) = unat (p ! 4) \<and> pk_id (rd_response round) = p ! 1 \<and>
       rd_request round = eap_packet_zero \<and> response_ok (rd_response round))"
    using r n nbo16_le [of "p ! 2" "p ! 3"]
    by (cases "5 < nbo16 (p ! 2) (p ! 3)") (auto simp: eap_round_build_def eap_round_alloc_def rd_mem_def response_ok_def Let_def simp del: rd_nbo16_in)
qed

lemma thaw_rest:
  assumes "eap_rest V inst W"
  shows "case rd_abs (ew_data W) (0, REQUEST_DATA_EAP_SESSION) of
      None \<Rightarrow> eap_session_thaw now W = Some (None, W)
    | Some a \<Rightarrow> \<exists>s. ew_sessions W a = Some s \<and> session_rest V inst s \<and> eap_session_thaw now W = Some (Some a, set_session a (s\<lparr>ss_request := Some (sr_number (ew_request W)), ss_updated := now\<rparr>) W) \<and>
        eap_work (\<lambda>s. esession_ok s \<and> method_set V inst s \<and> ss_this_round s = None) a (set_session a (s\<lparr>ss_request := Some (sr_number (ew_request W)), ss_updated := now\<rparr>) W)"
  using assms
  by (auto simp: eap_session_thaw_def request_data_reference_abs at_rest_def at_work_def session_rest_def esession_ok_def method_set_def split: option.splits)

lemma alloc_rest:
  assumes "eap_rest V inst W" "rd_abs (ew_data W) (0, REQUEST_DATA_EAP_SESSION) = None" "new \<noteq> 0" "rd_abs (ew_data W) (new, 0) = None"
  shows "\<exists>W'. eap_session_alloc now new W = (Some new, W') \<and>
    eap_work (\<lambda>s. ss_process s = No_process \<and> ss_rounds s = 0) new W' \<and> rq_request_pairs (ew_request W') = rq_request_pairs (ew_request W)"
proof -
  have d: "data_ok (ew_data W)" using assms(1) by (simp add: at_rest_def)
  have f: "fst (request_data_add 0 REQUEST_DATA_EAP_SESSION new True True True (ew_data W)) = []"
    using assms(2) by (auto simp: request_data_add_def rd_unlink_find rd_abs_def)
  let ?d = "snd (request_data_add 0 REQUEST_DATA_EAP_SESSION new True True True (ew_data W))"
  have "data_ok ?d" using data_ok_add [OF d] by simp
  moreover have "rd_abs ?d (0, REQUEST_DATA_EAP_SESSION) = Some new" "rd_abs ?d (new, 0) = None"
    using request_data_add_abs d assms(4) by (simp_all add: data_ok_def rd_abs_Cons rd_abs_filter)
  ultimately show ?thesis using f assms(3)
    by (auto simp: eap_session_alloc_def at_work_def child_ok_def Let_def split: prod.splits)
qed

text \<open>The two halves that decide whether the session goes on.\<close>

definition goes_on :: "(eap_process \<Rightarrow> 'o option \<Rightarrow> bool) \<Rightarrow> rlm_eap \<Rightarrow> nat \<Rightarrow> 'o esession \<Rightarrow> bool" where
  "goes_on V inst t s \<longleftrightarrow> esession_ok s \<and> (ss_process s \<noteq> No_process \<and> V (ss_process s) (ss_opaque s) \<or> t < FR_EAP_METHOD_MD5 \<or> \<not> ei_methods inst t)"

lemma continue_new_ok:
  assumes W: "eap_work (\<lambda>s. ss_process s = No_process \<and> ss_rounds s = 0) a W" and p: "eap_wf p" "instance \<noteq> 0"
    and t: "unat (p ! 4) < FR_EAP_METHOD_MD5 \<or> \<not> ei_methods inst (unat (p ! 4))"
  shows "\<exists>ok s. continue_new instance p a W = Some (ok, set_session a s W) \<and> eap_work (\<lambda>s. ok \<longrightarrow> goes_on V inst (unat (p ! 4)) s) a (set_session a s W)"
proof -
  obtain s x where s: "ew_sessions W a = Some s" "ss_request s \<noteq> None" "ss_process s = No_process" "ss_rounds s = 0" and x: "eap_identity p = Some x"
    using W eap_wf_reads(4) [OF p(1)] by (auto simp: at_work_def)
  define s' where "s' = (if unat (p ! 4) = FR_EAP_METHOD_IDENTITY then s\<lparr>ss_inst := instance, ss_identity := x\<rparr>
    else if unat (p ! 4) = FR_EAP_METHOD_INVALID \<or> unat (p ! 4) = FR_EAP_METHOD_NOTIFICATION \<or> unat (p ! 4) = FR_EAP_METHOD_NAK then s\<lparr>ss_inst := instance\<rparr>
    else s\<lparr>ss_inst := instance, ss_identity := Some []\<rparr>)"
  define ok where "ok = (if unat (p ! 4) = FR_EAP_METHOD_IDENTITY then x \<noteq> None
    else \<not> (unat (p ! 4) = FR_EAP_METHOD_INVALID \<or> unat (p ! 4) = FR_EAP_METHOD_NOTIFICATION \<or> unat (p ! 4) = FR_EAP_METHOD_NAK))"
  have "continue_new instance p a W = Some (ok, set_session a s' W)"
    using s(1) x eap_wf_reads(2) [OF p(1)] by (simp add: continue_new_def s'_def ok_def)
  moreover have "eap_work (\<lambda>s. ok \<longrightarrow> goes_on V inst (unat (p ! 4)) s) a (set_session a s' W)"
    unfolding set_session_sel by (rule at_work_update [OF W]) (use s p(2) t in \<open>auto simp: s'_def ok_def goes_on_def esession_ok_def split: if_splits\<close>)
  ultimately show ?thesis by blast
qed

lemma continue_old_ok:
  assumes W: "eap_work (\<lambda>s. esession_ok s \<and> method_set V inst s \<and> ss_this_round s = None) a W" and p: "eap_wf p"
  shows "\<exists>ok s. continue_old p a W = Some (ok, set_session a s W) \<and> eap_work (\<lambda>s. ok \<longrightarrow> goes_on V inst (unat (p ! 4)) s) a (set_session a s W)"
proof -
  obtain s where s: "ew_sessions W a = Some s" "ss_request s \<noteq> None" "esession_ok s" "method_set V inst s"
    using W by (auto simp: at_work_def)
  let ?s = "s\<lparr>ss_rounds := ss_rounds s + 1\<rparr>"
  define ok where "ok = (ss_rounds s + 1 < 50 \<and> (unat (p ! 4) = FR_EAP_METHOD_NAK \<or> unat (p ! 4) = ss_type s))"
  have "continue_old p a W = Some (ok, set_session a ?s W)"
    using s(1) eap_wf_reads(2) [OF p] by (simp add: continue_old_def ok_def Let_def)
  moreover have "eap_work (\<lambda>s. ok \<longrightarrow> goes_on V inst (unat (p ! 4)) s) a (set_session a ?s W)"
    unfolding set_session_sel by (rule at_work_update [OF W]) (use s in \<open>auto simp: ok_def goes_on_def esession_ok_def method_set_def\<close>)
  ultimately show ?thesis by blast
qed

lemma continue_user_ok:
  assumes W: "eap_work (goes_on V inst t) a W"
  shows "\<exists>ok W'. continue_user a W = Some (ok, W') \<and> eap_work (goes_on V inst t) a W'"
proof -
  obtain s identity where s: "ew_sessions W a = Some s" "ss_identity s = Some identity" using W by (auto simp: at_work_def goes_on_def esession_ok_def)
  show ?thesis
  proof (cases "fr_pair_find_by_da (rq_request_pairs (ew_request W)) ATTR_USER_NAME")
    case None
    then show ?thesis using s W by (auto simp: continue_user_def Let_def)
  next
    case (Some user)
    then show ?thesis using s W by (simp add: continue_user_def Let_def)
  qed
qed

lemma continue_round_ok:
  assumes w: "eap_work (\<lambda>s. ok \<longrightarrow> goes_on V inst (unat (p ! 4)) s) a W" and p: "eap_wf p"
    and A: "\<forall>round. eap_round_build alloc p = Some (Some round) \<longrightarrow> A (rd_response round)"
  shows "\<exists>x W'. continue_round alloc p a ok W = Some (x, W') \<and> (case x of None \<Rightarrow> eap_rest V inst W' | Some a \<Rightarrow> eap_work (working V A inst) a W')"
proof (cases ok)
  case False
  then show ?thesis using destroy_work [OF w, of V inst] by (auto simp: continue_round_def continue_error_def)
next
  case True
  then have "eap_work (goes_on V inst (unat (p ! 4))) a W" using w by simp
  from continue_user_ok [OF this] obtain ok' W3 where u: "continue_user a W = Some (ok', W3)" "eap_work (goes_on V inst (unat (p ! 4))) a W3" by blast
  obtain s where s: "ew_sessions W3 a = Some s" "ss_request s \<noteq> None" "goes_on V inst (unat (p ! 4)) s" using u(2) by (auto simp: at_work_def)
  obtain x where x: "eap_round_build alloc p = Some x" "\<forall>round. x = Some round \<longrightarrow> pk_type_num (rd_response round) = unat (p ! 4) \<and> pk_id (rd_response round) = p ! 1 \<and>
       rd_request round = eap_packet_zero \<and> response_ok (rd_response round)" using eap_wf_reads(5) [OF p] by blast
  let ?s = "s\<lparr>ss_this_round := x\<rparr>"
  have w4: "eap_work (\<lambda>s. x \<noteq> None \<longrightarrow> working V A inst s) a (set_session a ?s W3)" unfolding set_session_sel
    by (rule at_work_update [OF u(2)]) (use s x A in \<open>auto simp: working_def goes_on_def esession_ok_def fresh_round_def\<close>)
  note d = True u(1) s(1) x(1) continue_round_def continue_error_def
  consider "\<not> ok'" | "ok'" "x = None" | round where "ok'" "x = Some round" by blast
  then show ?thesis
  proof cases
    case 1
    then show ?thesis using destroy_work [OF u(2), of V inst] by (auto simp: d)
  next
    case 2
    then show ?thesis using destroy_work [OF w4, of V inst] by (auto simp: d)
  next
    case 3
    then show ?thesis using w4 by (simp add: d Let_def)
  qed
qed

lemma eap_session_continue_ok:
  assumes W: "eap_rest V inst W" and p: "eap_wf p" and inst: "instance \<noteq> 0" and new: "rd_abs (ew_data W) (new, 0) = None"
    and t: "rd_abs (ew_data W) (0, REQUEST_DATA_EAP_SESSION) = None \<longrightarrow> unat (p ! 4) < FR_EAP_METHOD_MD5 \<or> \<not> ei_methods inst (unat (p ! 4))"
    and A: "\<forall>round. eap_round_build alloc p = Some (Some round) \<longrightarrow> A (rd_response round)"
  shows "\<exists>a W'. eap_session_continue now new alloc instance p W = Some (a, W') \<and> (case a of None \<Rightarrow> eap_rest V inst W' | Some a \<Rightarrow> eap_work (working V A inst) a W')"
proof (cases "rd_abs (ew_data W) (0, REQUEST_DATA_EAP_SESSION)")
  case None
  then have th: "eap_session_thaw now W = Some (None, W)" using thaw_rest [OF W, of now] by simp
  show ?thesis
  proof (cases "new = 0")
    case True
    then show ?thesis using th W by (simp add: eap_session_continue_def eap_session_alloc_def)
  next
    case False
    then obtain W1 where a: "eap_session_alloc now new W = (Some new, W1)" "eap_work (\<lambda>s. ss_process s = No_process \<and> ss_rounds s = 0) new W1"
      using alloc_rest [OF W None _ new] by blast
    obtain ok s where c: "continue_new instance p new W1 = Some (ok, set_session new s W1)" "eap_work (\<lambda>s. ok \<longrightarrow> goes_on V inst (unat (p ! 4)) s) new (set_session new s W1)"
      using continue_new_ok [OF a(2) p inst] t None by blast
    show ?thesis using continue_round_ok [OF c(2) p A] th a(1) c(1) by (simp add: eap_session_continue_def)
  qed
next
  case (Some b)
  then obtain W1 where a: "eap_session_thaw now W = Some (Some b, W1)" "eap_work (\<lambda>s. esession_ok s \<and> method_set V inst s \<and> ss_this_round s = None) b W1"
    using thaw_rest [OF W, of now] by auto
  obtain ok s where c: "continue_old p b W1 = Some (ok, set_session b s W1)" "eap_work (\<lambda>s. ok \<longrightarrow> goes_on V inst (unat (p ! 4)) s) b (set_session b s W1)"
    using continue_old_ok [OF a(2) p] by blast
  show ?thesis using continue_round_ok [OF c(2) p A] a(1) c(1) by (simp add: eap_session_continue_def)
qed

section \<open>The method and its answer\<close>

lemma select_identity_enabled:
  "select_identity inst control pairs identity = Some n \<Longrightarrow> FR_EAP_METHOD_MD5 \<le> n \<and> n < FR_EAP_METHOD_MAX \<and> ei_methods inst n"
  by (auto simp: select_identity_def Let_def split: if_splits)

lemma eap_process_nak_enabled:
  assumes "\<forall>data. pk_type_data nak = Some data \<longrightarrow> pk_type_length nak \<le> length data"
  shows "\<exists>m. eap_process_nak inst control last_type nak = Some m \<and> (m \<noteq> FR_EAP_METHOD_INVALID \<longrightarrow> FR_EAP_METHOD_MD5 \<le> m \<and> m < FR_EAP_METHOD_MAX \<and> ei_methods inst m \<and> m \<noteq> last_type)"
proof (cases "pk_type_data nak")
  case None
  then show ?thesis by (simp add: eap_process_nak_def)
next
  case (Some data)
  then have l: "pk_type_length nak \<le> length data" using assms by blast
  let ?t = "take (pk_type_length nak) data"
  show ?thesis
  proof (cases "list_ex (\<lambda>t. unat t < FR_EAP_METHOD_MD5) ?t")
    case True
    then show ?thesis using eap_process_nak_result [OF Some l] by (simp add: Let_def)
  next
    case False
    then have c: "FR_EAP_METHOD_MD5 \<le> m \<and> m < FR_EAP_METHOD_MAX \<and> ei_methods inst m \<and> m \<noteq> last_type" if "m \<in> set (nak_candidates inst last_type ?t)" for m
      using that by (force simp: nak_candidates_def list_ex_iff)
    show ?thesis using False c eap_process_nak_result [OF Some l, of inst control last_type]
      by (auto simp: Let_def find_Some_iff split: option.splits list.splits)
  qed
qed

lemma discard_child_work:
  assumes "at_work P a d E C" "sr_data r = d" "fr_state_discard_child a 0 r C = (r', C')"
  shows "at_work P a (sr_data r') E C' \<and> rq_request_pairs r' = rq_request_pairs r \<and> rq_reply_pairs r' = rq_reply_pairs r"
proof -
  have d: "rd_inv d" "a \<noteq> 0" using assms(1) by (auto simp: at_work_def data_ok_def)
  have r': "sr_data r' = filter (\<lambda>rd. rd_key rd \<noteq> (a, 0)) d" "rq_request_pairs r' = rq_request_pairs r" "rq_reply_pairs r' = rq_reply_pairs r"
    using assms(2,3) d by (auto simp: fr_state_discard_child_def request_data_get_abs Let_def split: if_splits)
  then show ?thesis using assms(1) d by (auto simp: at_work_def data_ok_filter child_ok_def rd_abs_filter)
qed

text \<open>Submodules are registered for the types from \<open>MD5\<close> on, and can be started.\<close>

definition inst_ok :: "(eap_process \<Rightarrow> 'o option \<Rightarrow> bool) \<Rightarrow> rlm_eap \<Rightarrow> bool" where
  "inst_ok V inst \<longleftrightarrow> ei_instance inst \<noteq> 0 \<and> (\<forall>t. ei_methods inst t \<longrightarrow> FR_EAP_METHOD_MD5 \<le> t \<and> (\<forall>x. V (Session_init t) x))"

text \<open>The session when the method is chosen.\<close>

definition selected :: "(eap_packet \<Rightarrow> bool) \<Rightarrow> 'o esession \<Rightarrow> bool" where
  "selected A s \<longleftrightarrow> esession_ok s \<and> (\<exists>round. ss_this_round s = Some round \<and> fresh_round A round)"

lemma eap_method_select_ok:
  assumes W: "eap_work (working V A inst) a W" and inst: "inst_ok V inst"
  shows "\<exists>x W'. eap_method_select ctx inst a W = Some (x, W') \<and>
    eap_work (\<lambda>s. selected A s \<and> (x = None \<longrightarrow> method_set V inst s)) a W' \<and> x \<noteq> Some RLM_MODULE_OK \<and> x \<noteq> Some RLM_MODULE_UPDATED"
proof -
  obtain s round where s: "ew_sessions W a = Some s" "ss_request s \<noteq> None" "esession_ok s" "ss_this_round s = Some round"
    "fresh_round A round"
    "ss_process s \<noteq> No_process \<and> V (ss_process s) (ss_opaque s) \<or> pk_type_num (rd_response round) < FR_EAP_METHOD_MD5 \<or> \<not> ei_methods inst (pk_type_num (rd_response round))"
    using W by (auto simp: at_work_def working_def)
  let ?t = "pk_type_num (rd_response round)" and ?Q = "\<lambda>x s. selected A s \<and> (x = None \<longrightarrow> method_set V inst s)"
  have keep: "eap_work (?Q (Some rc)) a W" for rc :: rlm_rcode using W by (auto simp: at_work_def working_def selected_def)
  have upd: "eap_work (?Q x) a (set_session a s' W')" if "eap_work P a W'" "ss_request s' \<noteq> None" "?Q x s'" for P s' W' and x :: "rlm_rcode option"
    using that by (simp add: at_work_update)
  have init: "?Q x (select_init n s')" if "selected A s'" "FR_EAP_METHOD_MD5 \<le> n" "n < FR_EAP_METHOD_MAX" "ei_methods inst n" for n s' and x :: "rlm_rcode option"
    using that inst by (auto simp: select_init_def method_set_def esession_ok_def inst_ok_def selected_def)
  have sel: "selected A s" using s by (auto simp: selected_def)
  consider (range) "?t = 0 \<or> ?t \<ge> FR_EAP_METHOD_MAX \<or> ec_nested ctx"
    | (identity) "?t = FR_EAP_METHOD_IDENTITY" "\<not> ec_nested ctx"
    | (nak) "?t = FR_EAP_METHOD_NAK" "\<not> ec_nested ctx"
    | (enabled) "0 < ?t" "?t < FR_EAP_METHOD_MAX" "\<not> ec_nested ctx" "?t \<noteq> FR_EAP_METHOD_IDENTITY" "?t \<noteq> FR_EAP_METHOD_NAK" by linarith
  then show ?thesis
  proof cases
    case range
    then show ?thesis using s keep by (auto simp: eap_method_select_def Let_def)
  next
    case identity
    obtain i where i: "ss_identity s = Some i" using s(3) by (auto simp: esession_ok_def)
    show ?thesis
    proof (cases "select_identity inst (ec_control ctx) (rq_request_pairs (ew_request W)) i")
      case None
      then show ?thesis using s identity i upd [OF W s(2), of "Some RLM_MODULE_INVALID"] sel by (simp add: eap_method_select_def Let_def)
    next
      case (Some n)
      have "ss_request (select_init n s) \<noteq> None" using s(2) by (simp add: select_init_def)
      then show ?thesis using s identity i Some upd [OF W _ init [of s n, OF sel]] select_identity_enabled [OF Some]
        by (cases "ec_push ctx") (simp_all add: eap_method_select_def Let_def)
    qed
  next
    case nak
    obtain r C where c: "fr_state_discard_child a 0 (ew_request W) (ew_children W) = (r, C)" by (metis surj_pair)
    have w: "eap_work (working V A inst) a (W\<lparr>ew_request := r, ew_children := C\<rparr>)" using discard_child_work [OF W refl c] by simp
    obtain m where m: "eap_process_nak inst (ec_control ctx) (ss_type s) (rd_response round) = Some m"
      "m \<noteq> FR_EAP_METHOD_INVALID \<longrightarrow> FR_EAP_METHOD_MD5 \<le> m \<and> m < FR_EAP_METHOD_MAX \<and> ei_methods inst m" using eap_process_nak_enabled [OF response_ok_type_data] s(5) unfolding fresh_round_def by blast
    let ?s = "s\<lparr>ss_opaque := None\<rparr>"
    have q: "ss_request (select_init m ?s) \<noteq> None" "ss_request ?s \<noteq> None" "selected A ?s" using s by (auto simp: select_init_def selected_def esession_ok_def)
    show ?thesis
    proof (cases "m = FR_EAP_METHOD_INVALID")
      case True
      then show ?thesis using s nak c m(1) upd [OF w q(2), of "Some RLM_MODULE_REJECT"] q(3) by (simp add: eap_method_select_def Let_def)
    next
      case False
      then show ?thesis using s nak c m upd [OF w q(1) init [OF q(3)]] by (cases "ec_push ctx") (simp_all add: eap_method_select_def Let_def)
    qed
  next
    case enabled
    show ?thesis
    proof (cases "ei_methods inst ?t")
      case m: True
      then have True: "ei_methods inst ?t \<and> FR_EAP_METHOD_MD5 \<le> ?t" using inst by (simp add: inst_ok_def)
      let ?s = "s\<lparr>ss_type := ?t\<rparr>"
      have "ss_request ?s \<noteq> None" "?Q x ?s" for x :: "rlm_rcode option" using s True enabled by (auto simp: selected_def esession_ok_def method_set_def)
      then show ?thesis using s enabled True upd [OF W, of ?s] by (cases "ec_push ctx") (simp_all add: eap_method_select_def Let_def)
    next
      case False
      then show ?thesis using s enabled upd [OF W s(2), of "Some RLM_MODULE_INVALID"] sel by (simp add: eap_method_select_def Let_def)
    qed
  qed
qed

text \<open>What the module needs of a reply.\<close>

definition reply_ok :: "eap_packet \<Rightarrow> bool" where
  "reply_ok p \<longleftrightarrow> pk_packet p = None \<and> eap_fits p"

text \<open>The answer of a method: a failure, or a reply that fits a packet; after a request (and a success, which LEAP goes on from) a callback that can be called with what the method
keeps in the session.\<close>

definition sub_ok :: "(eap_process \<Rightarrow> 'o option \<Rightarrow> bool) \<Rightarrow> 'o sub_result \<Rightarrow> bool" where
  "sub_ok V res \<longleftrightarrow> sb_rcode res = RLM_MODULE_FAIL \<or> sb_rcode res = RLM_MODULE_INVALID \<or>
     reply_ok (sb_reply res) \<and>
     (pk_code (sb_reply res) = FR_EAP_CODE_REQUEST \<or> pk_code (sb_reply res) = FR_EAP_CODE_SUCCESS \<longrightarrow>
      sb_process res \<noteq> No_process \<and> V (sb_process res) (sb_opaque res))"

lemma restore_child_work:
  assumes W: "at_work P a d E C" and r: "sr_data r = d"
  shows "\<exists>child' r' C'. fr_state_restore_to_child a 0 child r C = Some (child', r', C') \<and> at_work P a (sr_data r') E C' \<and> rd_abs (sr_data r') (a, 0) = None \<and>
    rq_reply_pairs r' = rq_reply_pairs r"
proof -
  have d: "rd_inv d" "a \<noteq> 0" "child_ok a d C" using W by (auto simp: at_work_def data_ok_def)
  let ?c = "request_data_reference a 0 d"
  have w: "at_work P a (filter (\<lambda>rd. rd_key rd \<noteq> (a, 0)) d) E C'" for C'
    using W d by (auto simp: at_work_def data_ok_filter child_ok_def rd_abs_filter)
  have n: "rd_abs (filter (\<lambda>rd. rd_key rd \<noteq> (a, 0)) d) (a, 0) = None" by (simp add: rd_abs_filter)
  show ?thesis
  proof (cases "?c = 0")
    case True
    then show ?thesis using w n r d by (simp add: fr_state_restore_to_child_def request_data_get_abs)
  next
    case False
    then obtain e ctx where "C ?c = Some e" "ce_thawed e = None" "ce_ctx e = Some ctx" using d(3) by (auto simp: child_ok_def request_data_reference_abs split: option.splits)
    then show ?thesis using w n r d False by (simp add: fr_state_restore_to_child_def request_data_get_abs Let_def)
  qed
qed

lemma store_child_work:
  assumes W: "at_work P a d E C" and r: "sr_data r = d" and n: "rd_abs d (a, 0) = None"
    and st: "fr_state_store_in_parent a 0 new child r C = (child', r', C')"
  shows "at_work P a (sr_data r') E C' \<and> rq_reply_pairs r' = rq_reply_pairs r"
proof (cases "request_data_by_persistance_count True (sr_data child) > 0 \<or> sr_session child \<noteq> []")
  case False
  then show ?thesis using st W r by (auto simp: fr_state_store_in_parent_def)
next
  case True
  have d: "data_ok d" "rd_inv d" "a \<noteq> 0" using W by (auto simp: at_work_def data_ok_def)
  have f: "fst (request_data_add a 0 new True False True d) = []"
    using n by (auto simp: request_data_add_def rd_unlink_find rd_abs_def)
  have r': "sr_data r' = snd (request_data_add a 0 new True False True d)" "rq_reply_pairs r' = rq_reply_pairs r"
    "\<exists>e. C' new = Some e \<and> ce_thawed e = None \<and> ce_ctx e \<noteq> None"
    using True st r f by (auto simp: fr_state_store_in_parent_def split: prod.splits)
  have "data_ok (sr_data r')" using data_ok_add [OF d(1), of a 0 True] d(3) r'(1) by simp
  moreover have "rd_abs (sr_data r') = (rd_abs d)((a, 0) \<mapsto> new)" using r'(1) d by (simp add: request_data_add_abs rd_abs_Cons rd_abs_filter)
  ultimately show ?thesis using W r'(2,3) d(3) by (auto simp: at_work_def child_ok_def)
qed

lemma at_work_mono: "at_work P a d E C \<Longrightarrow> (\<And>s. P s \<Longrightarrow> Q s) \<Longrightarrow> at_work Q a d E C"
  by (auto simp: at_work_def)

text \<open>After the method was called.\<close>

definition answered :: "(eap_process \<Rightarrow> 'o option \<Rightarrow> bool) \<Rightarrow> rlm_eap \<Rightarrow> 'o esession \<Rightarrow> bool" where
  "answered V inst s \<longleftrightarrow> esession_ok s \<and> (\<exists>round. ss_this_round s = Some round \<and> reply_ok (rd_request round) \<and>
     (pk_code (rd_request round) = FR_EAP_CODE_REQUEST \<or> pk_code (rd_request round) = FR_EAP_CODE_SUCCESS \<longrightarrow> method_set V inst s))"

text \<open>The interface between the module and its methods: called with a callback and data that are valid, in a round with a response it accepts, a method answers.\<close>

locale eap_submodule =
  fixes submodule :: "'o eap_method" and valid :: "eap_process \<Rightarrow> 'o option \<Rightarrow> bool" and accepts :: "eap_packet \<Rightarrow> bool"
  assumes answers: "ss_process s \<noteq> No_process \<Longrightarrow> valid (ss_process s) (ss_opaque s) \<Longrightarrow> ss_this_round s = Some round \<Longrightarrow> fresh_round accepts round \<Longrightarrow>
    \<exists>res. submodule (ss_process s) s control sub_control child = Some res \<and> sub_ok valid res"
begin

lemma run_method_ok:
  assumes W: "eap_work (\<lambda>s. selected accepts s \<and> method_set valid inst s) a W"
  shows "\<exists>rc W'. run_method ctx inst submodule a W = Some (rc, W') \<and>
    eap_work (\<lambda>s. ss_this_round s \<noteq> None \<and> (rc \<noteq> RLM_MODULE_FAIL \<and> rc \<noteq> RLM_MODULE_INVALID \<longrightarrow> answered valid inst s)) a W'"
proof -
  obtain s round where s: "ew_sessions W a = Some s" "ss_request s \<noteq> None" "esession_ok s" "ss_this_round s = Some round" "fresh_round accepts round" "method_set valid inst s"
    using W by (auto simp: at_work_def selected_def)
  obtain child r C where c: "fr_state_restore_to_child a 0 (child_request inst (ec_child_number ctx) s (ew_request W)) (ew_request W) (ew_children W) = Some (child, r, C)"
    "at_work (\<lambda>s. selected accepts s \<and> method_set valid inst s) a (sr_data r) (ew_sessions W) C" "rd_abs (sr_data r) (a, 0) = None"
    using restore_child_work [OF W refl, of "child_request inst (ec_child_number ctx) s (ew_request W)"] by blast
  obtain res where res: "submodule (ss_process s) s (ec_control ctx) (child_control inst s (ec_control ctx)) child = Some res" "sub_ok valid res"
    using answers [OF _ _ s(4,5)] s(6) unfolding method_set_def by blast
  let ?s = "s\<lparr>ss_this_round := Some (round\<lparr>rd_request := sb_reply res, rd_set_request_id := sb_set_request_id res\<rparr>),
                 ss_process := sb_process res, ss_opaque := sb_opaque res, ss_tls := sb_tls res, ss_finished := sb_finished res\<rparr>"
  let ?r = "r\<lparr>rq_reply_pairs := fold (\<lambda>(da, v). pair_update da v) (sb_pairs res) (rq_reply_pairs r)\<rparr>"
  let ?Q = "\<lambda>s. ss_this_round s \<noteq> None \<and> (sb_rcode res \<noteq> RLM_MODULE_FAIL \<and> sb_rcode res \<noteq> RLM_MODULE_INVALID \<longrightarrow> answered valid inst s)"
  obtain child' r' C' where st: "fr_state_store_in_parent a 0 (ec_new_child ctx) (sb_child res) ?r C = (child', r', C')" by (metis prod.collapse)
  have w: "at_work (\<lambda>s. selected accepts s \<and> method_set valid inst s) a (sr_data r') (ew_sessions W) C'"
    using store_child_work [OF c(2) _ c(3) st] by simp
  have "ss_request ?s \<noteq> None" "?Q ?s" using s res(2) by (auto simp: answered_def sub_ok_def esession_ok_def method_set_def)
  from at_work_update [where Q = ?Q, OF w this] show ?thesis using s res(1) c(1) st by (simp add: run_method_def Let_def method_set_def)
qed

end

text \<open>Composing a reply keeps the response and the code of the reply, or makes it a failure. Only a response or a success is an Access-Accept.\<close>

lemma eap_wireformat_other:
  assumes "pk_packet reply = None" "eap_fits reply" "pk_code reply \<notin> {1, 2, 3, 4}"
  shows "\<exists>p. eap_wireformat True reply = Some (0, reply\<lparr>pk_packet := Some p\<rparr>) \<and> rd_nbo16 p 2 = Some (length p)"
proof -
  define n where "n = (if pk_code reply < 3 then 5 + (if pk_type_data reply \<noteq> None then pk_type_length reply else 0) else 4)"
  have n: "4 \<le> n" "n < 65536" using assms(2) by (auto simp: n_def eap_fits_def)
  define p where "p = patch (replicate n 0) 0 ([word_of_nat (pk_code reply), pk_id reply] @ put16 n)"
  have "eap_wireformat True reply = Some (0, reply\<lparr>pk_packet := Some p\<rparr>)"
    using assms n by (auto simp: eap_wireformat_def Let_def p_def n_def eap_fits_def wr_mem_def)
  moreover have "p = word_of_nat (pk_code reply) # pk_id reply # put16 n @ replicate (n - 4) 0" using n by (simp add: p_def patch_def put16_def)
  then have "length p = n" "rd_nbo16 p 2 = Some n" using n nbo16_put16 [of n] by (simp_all add: rd_nbo16_def rd8_def put16_def)
  ultimately show ?thesis by blast
qed

lemma eap_compose_total:
  fixes s :: eap_session
  assumes "reply_ok (rd_request (es_this_round s))"
  shows "\<exists>rc s'. eap_compose alloc s = Some (rc, s') \<and> rd_response (es_this_round s') = rd_response (es_this_round s) \<and>
    (pk_code (rd_request (es_this_round s')) = pk_code (rd_request (es_this_round s)) \<or> pk_code (rd_request (es_this_round s')) = FR_EAP_CODE_FAILURE)"
proof (cases alloc)
  case False
  then show ?thesis using assms by (auto simp: eap_compose_def eap_wireformat_def Let_def reply_ok_def)
next
  case True
  let ?r = "composed s"
  have f: "pk_packet ?r = None" "eap_fits ?r" using assms by (auto simp: reply_ok_def)
  obtain p where p: "eap_wireformat True ?r = Some (0, ?r\<lparr>pk_packet := Some p\<rparr>)" "rd_nbo16 p 2 = Some (length p)"
  proof (cases "pk_code ?r \<in> {1, 2, 3, 4}")
    case True
    then show ?thesis using that f eap_wireformat_request [of ?r] eap_wireformat_result [of ?r] eap_wire_reads [OF f(2)] by auto
  next
    case False
    then show ?thesis using that eap_wireformat_other [OF f] by blast
  qed
  have m: "rd_mem p 0 (length p) = Some p" by (simp add: rd_mem_def chunk_def)
  obtain rc rad code where cc: "compose_code (rq_proxy_eap (es_request s)) (pk_code ?r) = (rc, rad, code)" by (metis prod.collapse)
  then have "code = pk_code ?r \<or> code = FR_EAP_CODE_FAILURE" by (auto simp: compose_code_def split: if_splits)
  then show ?thesis using True p m cc by (auto simp: eap_compose_def Let_def)
qed

lemma eap_fail_total:
  fixes s :: eap_session
  shows "\<exists>rc s'. eap_fail alloc s = Some (rc, s')"
proof -
  have z: "reply_ok (eap_packet_zero\<lparr>pk_code := FR_EAP_CODE_FAILURE\<rparr>)" by (simp add: reply_ok_def eap_packet_zero_def eap_fits_def)
  show ?thesis unfolding eap_fail_def Let_def
    using eap_compose_total [of "s\<lparr>es_request := _, es_this_round := (es_this_round s)\<lparr>rd_request := eap_packet_zero\<lparr>pk_code := FR_EAP_CODE_FAILURE\<rparr>\<rparr>, es_finished := True\<rparr>" alloc] z
    by fastforce
qed

lemma on_session_work:
  assumes W: "eap_work P a W" and s: "ew_sessions W a = Some s" "ss_this_round s = Some round"
    and f: "\<And>v. es_this_round v = round \<Longrightarrow> es_type v = ss_type s \<Longrightarrow> \<exists>rc v'. f v = Some (rc, v') \<and> Q (es_this_round v')"
  shows "\<exists>rc W' round'. on_session f a W = Some (rc, W') \<and> ew_data W' = ew_data W \<and> Q round' \<and>
    eap_work (\<lambda>s'. \<exists>fin. s' = s\<lparr>ss_this_round := Some round', ss_finished := fin\<rparr>) a W'"
proof -
  obtain y where y: "ss_request s = Some y" using W s(1) by (auto simp: at_work_def)
  let ?v = "\<lparr>es_type = ss_type s, es_request = request.truncate (ew_request W), es_prev_round = ss_prev_round s, es_this_round = round, es_finished = ss_finished s\<rparr>"
  obtain rc v' where v': "f ?v = Some (rc, v')" "Q (es_this_round v')" using f [of ?v] by auto
  have "at_work (\<lambda>s'. \<exists>fin. s' = s\<lparr>ss_this_round := Some (es_this_round v'), ss_finished := fin\<rparr>) a (ew_data W)
      ((ew_sessions W)(a \<mapsto> s\<lparr>ss_this_round := Some (es_this_round v'), ss_finished := es_finished v'\<rparr>)) (ew_children W)"
    by (rule at_work_update [OF W]) (use y in auto)
  then show ?thesis using s y v' by (auto simp: on_session_def eap_view_def Let_def)
qed

lemma fail_and_destroy:
  assumes W: "eap_work P a W" and s: "\<forall>s. P s \<longrightarrow> ss_this_round s \<noteq> None"
  shows "\<exists>rc W1 W'. on_session (eap_fail alloc) a W = Some (rc, W1) \<and> eap_session_destroy (Some a) W1 = Some W' \<and> eap_rest V inst W' \<and>
    rd_abs (ew_data W') (0, REQUEST_DATA_EAP_SESSION) = None"
proof -
  obtain s round where t: "ew_sessions W a = Some s" "ss_this_round s = Some round" using assms by (fastforce simp: at_work_def)
  obtain rc W1 round' where 1: "on_session (eap_fail alloc) a W = Some (rc, W1)" "eap_work (\<lambda>s'. \<exists>fin. s' = s\<lparr>ss_this_round := Some round', ss_finished := fin\<rparr>) a W1"
    using on_session_work [OF W t, of "eap_fail alloc" "\<lambda>_. True"] eap_fail_total by blast
  show ?thesis using destroy_work [OF 1(2), of V inst] 1(1) by auto
qed

lemma set_reply_code_work:
  assumes "eap_work (answered V inst) a W" "code = FR_EAP_CODE_FAILURE"
  shows "\<exists>W'. set_reply_code code a W = Some W' \<and> eap_work (answered V inst) a W'"
proof -
  obtain s round where s: "ew_sessions W a = Some s" "ss_request s \<noteq> None" "ss_this_round s = Some round" "answered V inst s" "reply_ok (rd_request round)"
    using assms(1) by (auto simp: at_work_def answered_def)
  let ?s = "s\<lparr>ss_this_round := Some (round\<lparr>rd_request := (rd_request round)\<lparr>pk_code := code\<rparr>\<rparr>)\<rparr>"
  have "ss_request ?s \<noteq> None" "answered V inst ?s" using s assms(2) by (auto simp: answered_def reply_ok_def eap_fits_def esession_ok_def method_set_def)
  from at_work_update [where Q = "answered V inst", OF assms(1) this] show ?thesis using s by (simp add: set_reply_code_def)
qed

lemma mod_authenticate_result_ok:
  assumes W: "eap_work (\<lambda>s. ss_this_round s \<noteq> None \<and> (result \<noteq> RLM_MODULE_FAIL \<and> result \<noteq> RLM_MODULE_INVALID \<longrightarrow> answered V inst s)) a W"
  shows "\<exists>rc W'. mod_authenticate_result alloc result a W = Some (rc, W') \<and> eap_rest V inst W'"
proof (cases "result = RLM_MODULE_FAIL \<or> result = RLM_MODULE_INVALID")
  case True
  from fail_and_destroy [OF W, of alloc V inst] True show ?thesis by (auto simp: mod_authenticate_result_def)
next
  case False
  then have W: "eap_work (answered V inst) a W" using W by (auto simp: at_work_def)
  obtain W1 where 1: "(if result = RLM_MODULE_REJECT \<or> result = RLM_MODULE_DISALLOW then set_reply_code FR_EAP_CODE_FAILURE a W else Some W) = Some W1"
    "eap_work (answered V inst) a W1" using set_reply_code_work [OF W refl] W by (cases "result = RLM_MODULE_REJECT \<or> result = RLM_MODULE_DISALLOW") auto
  obtain s round where s: "ew_sessions W1 a = Some s" "ss_this_round s = Some round" "reply_ok (rd_request round)" "esession_ok s"
    "pk_code (rd_request round) = FR_EAP_CODE_REQUEST \<or> pk_code (rd_request round) = FR_EAP_CODE_SUCCESS \<longrightarrow> method_set V inst s"
    using 1(2) by (auto simp: at_work_def answered_def)
  let ?Q = "\<lambda>round'. pk_code (rd_request round') = pk_code (rd_request round) \<or> pk_code (rd_request round') = FR_EAP_CODE_FAILURE"
  obtain rc W2 round' where 2: "on_session (eap_compose alloc) a W1 = Some (rc, W2)" "?Q round'"
    "eap_work (\<lambda>s'. \<exists>fin. s' = s\<lparr>ss_this_round := Some round', ss_finished := fin\<rparr>) a W2"
    using on_session_work [OF 1(2) s(1,2), of "eap_compose alloc" ?Q] eap_compose_total s(3) by blast
  then obtain fin where t: "ew_sessions W2 a = Some (s\<lparr>ss_this_round := Some round', ss_finished := fin\<rparr>)" by (auto simp: at_work_def)
  note d = mod_authenticate_result_def False 1(1) 2(1) t
  show ?thesis
  proof (cases "awaits_response round'")
    case True
    then have "method_set V inst s" using 2(2) s(5) by (auto simp: awaits_response_def)
    let ?s = "s\<lparr>ss_finished := fin, ss_prev_round := Some round', ss_this_round := None, ss_request := None\<rparr>"
    have "session_rest V inst ?s" using s(4) \<open>method_set V inst s\<close> by (auto simp: session_rest_def esession_ok_def method_set_def)
    then have "at_rest V inst (ew_data W2) ((ew_sessions W2)(a \<mapsto> ?s)) (ew_children W2)" using 2(3) by (auto simp: at_work_def at_rest_def)
    then show ?thesis using True by (simp add: d eap_session_freeze_def)
  next
    case False
    then show ?thesis using destroy_work [OF 2(3), of V inst] by (auto simp: d eap_session_freeze_def)
  qed
qed

section \<open>A round of the module\<close>

text \<open>The packet of a request.\<close>

abbreviation eap_received :: "eap_ctx \<Rightarrow> 'o eap_world \<Rightarrow> bytes option option" where
  "eap_received ctx W \<equiv> eap_packet_from_vp (ec_alloc ctx) (pair_values (rq_request_pairs (ew_request W)) ATTR_EAP_MESSAGE)"

context eap_submodule
begin

lemma mod_authenticate_ok:
  assumes "inst_ok valid inst" "eap_rest valid inst W" "rd_abs (ew_data W) (ec_new_session ctx, 0) = None"
    and first: "rd_abs (ew_data W) (0, REQUEST_DATA_EAP_SESSION) = None \<longrightarrow> (\<forall>p. eap_received ctx W = Some (Some p) \<longrightarrow> \<not> ei_methods inst (unat (p ! 4)))"
    and acc: "\<forall>p round. eap_received ctx W = Some (Some p) \<longrightarrow> eap_round_build (ec_alloc ctx) p = Some (Some round) \<longrightarrow> accepts (rd_response round)"
  shows "\<exists>rc W'. mod_authenticate ctx inst submodule W = Some (rc, W') \<and> eap_rest valid inst W'"
proof -
  let ?vs = "pair_values (rq_request_pairs (ew_request W)) ATTR_EAP_MESSAGE"
  obtain x where x: "eap_packet_from_vp (ec_alloc ctx) ?vs = Some x" "\<forall>p. x = Some p \<longrightarrow> eap_wf p" using eap_packet_from_vp_wf by blast
  show ?thesis
  proof (cases "fr_pair_find_by_da (rq_request_pairs (ew_request W)) ATTR_EAP_MESSAGE = None \<or> x = None")
    case True
    then show ?thesis using assms(2) x(1) by (auto simp: mod_authenticate_def)
  next
    case False
    then obtain p where p: "x = Some p" "eap_wf p" using x(2) by blast
    have t: "rd_abs (ew_data W) (0, REQUEST_DATA_EAP_SESSION) = None \<longrightarrow> unat (p ! 4) < FR_EAP_METHOD_MD5 \<or> \<not> ei_methods inst (unat (p ! 4))"
      using first x(1) p(1) by blast
    have A: "\<forall>round. eap_round_build (ec_alloc ctx) p = Some (Some round) \<longrightarrow> accepts (rd_response round)" using acc x(1) p(1) by blast
    obtain so W1 where 1: "eap_session_continue (ec_now ctx) (ec_new_session ctx) (ec_alloc ctx) (ei_instance inst) p W = Some (so, W1)"
      "case so of None \<Rightarrow> eap_rest valid inst W1 | Some a \<Rightarrow> eap_work (working valid accepts inst) a W1"
      using eap_session_continue_ok [OF assms(2) p(2) _ assms(3) t A, of "ei_instance inst"] assms(1) unfolding inst_ok_def by blast
    note d = mod_authenticate_def False x(1) p(1) 1(1)
    show ?thesis
    proof (cases so)
      case None
      then show ?thesis using False 1 x(1) p(1) by (auto simp: mod_authenticate_def)
    next
      case (Some a)
      then have w: "eap_work (working valid accepts inst) a W1" using 1(2) by simp
      obtain y W2 where 2: "eap_method_select ctx inst a W1 = Some (y, W2)"
        "eap_work (\<lambda>s. selected accepts s \<and> (y = None \<longrightarrow> method_set valid inst s)) a W2" "y \<noteq> Some RLM_MODULE_OK" "y \<noteq> Some RLM_MODULE_UPDATED"
        using eap_method_select_ok [OF w assms(1), of ctx] by blast
      show ?thesis
      proof (cases y)
        case None
        then have "eap_work (\<lambda>s. selected accepts s \<and> method_set valid inst s) a W2" using 2(2) by simp
        from run_method_ok [OF this] obtain rc W3 where 3: "run_method ctx inst submodule a W2 = Some (rc, W3)"
          "eap_work (\<lambda>s. ss_this_round s \<noteq> None \<and> (rc \<noteq> RLM_MODULE_FAIL \<and> rc \<noteq> RLM_MODULE_INVALID \<longrightarrow> answered valid inst s)) a W3" by blast
        show ?thesis using mod_authenticate_result_ok [OF 3(2), of "ec_alloc ctx"] None Some 2(1) 3(1) False x(1) p(1) 1(1) by (auto simp: mod_authenticate_def)
      next
        case rc: (Some rc)
        obtain rc' W3 W4 where 3: "on_session (eap_fail (ec_alloc ctx)) a W2 = Some (rc', W3)" "eap_session_destroy (Some a) W3 = Some W4" "eap_rest valid inst W4"
          using fail_and_destroy [OF 2(2), of "ec_alloc ctx" valid inst] by (auto simp: selected_def)
        have n: "rc \<noteq> RLM_MODULE_OK" "rc \<noteq> RLM_MODULE_UPDATED" using 2(3,4) rc by auto
        show ?thesis using rc Some 2(1) 3 n False x(1) p(1) 1(1) by (auto simp: mod_authenticate_def)
      qed
    qed
  qed
qed

end

section \<open>Examples\<close>

definition ex_ctx :: eap_ctx where
  "ex_ctx = \<lparr>ec_now = 5, ec_control = [], ec_nested = False, ec_push = True, ec_alloc = True, ec_new_session = 7, ec_new_child = 8, ec_child_number = 2,
     ec_memory = replicate 16 0\<rparr>"

text \<open>A request with an EAP packet of one attribute, and sessions at address \<open>5\<close>.\<close>

definition ex_eap_world :: "'o \<Rightarrow> bytes \<Rightarrow> request_data list \<Rightarrow> 'o eap_world" where
  "ex_eap_world x packet data = \<lparr>ew_request = ex_state_request\<lparr>rq_request_pairs := [(ATTR_EAP_MESSAGE, packet)], sr_data := data\<rparr>,
     ew_sessions = [5 \<mapsto> \<lparr>ss_inst = 1, ss_type = 13, ss_request = None, ss_identity = Some [98], ss_prev_round = Some (es_this_round ex_session), ss_this_round = None,
       ss_opaque = Some x, ss_process = Process 13, ss_rounds = 0, ss_updated = 0, ss_tls = True, ss_finished = False\<rparr>],
     ew_children = Map.empty\<rparr>"

abbreviation ex_item :: request_data where
  "ex_item \<equiv> \<lparr>rd_unique_ptr = 0, rd_unique_int = REQUEST_DATA_EAP_SESSION, rd_opaque = 5, rd_free_on_replace = True, rd_free_on_parent = True, rd_persist = True\<rparr>"

lemma ex_world_rest:
  "eap_rest V ex_inst (ex_eap_world x p [])" "V (Process 13) (Some x) \<Longrightarrow> eap_rest V ex_inst (ex_eap_world x p [ex_item])"
  by (auto simp: ex_eap_world_def at_rest_def data_ok_def rd_inv_def rd_abs_def session_rest_def esession_ok_def method_set_def ex_inst_def child_ok_def)

text \<open>A response of type Identity, and one of type TLS.\<close>

lemma ex_packets:
  "eap_packet_from_vp True [[2, 1, 0, 6, 1, 98]] = Some (Some [2, 1, 0, 6, 1, 98])"
  "eap_packet_from_vp True [[2, 1, 0, 6, 13, 0]] = Some (Some [2, 1, 0, 6, 13, 0])"
  by code_simp+

section \<open>From request to request\<close>

lemma rd_abs_filter_Some:
  assumes "rd_inv d" "rd_abs (filter P d) k = Some c"
  shows "rd_abs d k = Some c"
  using assms
proof (induction d)
  case (Cons rd d)
  have "rd_abs (filter P d) k = None" if "rd_key rd = k"
    using Cons.prems(1) that by (auto simp: rd_abs_def rd_inv_def find_None_iff image_iff)
  then show ?case using Cons by (auto simp: rd_abs_Cons rd_inv_def split: if_splits)
qed (simp add: rd_abs_def)

lemma rd_abs_SomeD: "rd_abs d k = Some a \<Longrightarrow> \<exists>rd\<in>set d. rd_key rd = k"
  by (induction d) (auto simp: rd_abs_def split: if_splits)

lemma rd_abs_persisted:
  assumes "data_ok (sr_data r)"
  shows "rd_abs (persisted r S) (0, REQUEST_DATA_EAP_SESSION) = rd_abs (sr_data r) (0, REQUEST_DATA_EAP_SESSION)"
    "rd_abs (persisted r S) k = Some c \<Longrightarrow> rd_abs (sr_data r) k = Some c" "data_ok (persisted r S)" "(st_addr S, 0) \<notin> rd_key ` set (persisted r S)"
proof -
  have i: "rd_inv (sr_data r)" using assms by (simp add: data_ok_def)
  have p: "persisted r S = filter (\<lambda>rd. rd_key rd \<noteq> (st_addr S, 0) \<and> rd_persist rd) (sr_data r)" by (simp add: persisted_def)
  show q: "rd_abs (persisted r S) k = Some c \<Longrightarrow> rd_abs (sr_data r) k = Some c" for k c using rd_abs_filter_Some [OF i] unfolding p .
  show "data_ok (persisted r S)" unfolding p by (rule data_ok_filter [OF assms])
  show "(st_addr S, 0) \<notin> rd_key ` set (persisted r S)" by (auto simp: p)
  show "rd_abs (persisted r S) (0, REQUEST_DATA_EAP_SESSION) = rd_abs (sr_data r) (0, REQUEST_DATA_EAP_SESSION)"
  proof (cases "rd_abs (sr_data r) (0, REQUEST_DATA_EAP_SESSION)")
    case None
    then show ?thesis using q by (metis not_None_eq)
  next
    case (Some a)
    then obtain rd where rd: "rd \<in> set (sr_data r)" "rd_key rd = (0, REQUEST_DATA_EAP_SESSION)" using rd_abs_SomeD by blast
    then have "rd \<in> set (persisted r S)" using assms by (auto simp: p data_ok_def)
    then obtain b where "rd_abs (persisted r S) (0, REQUEST_DATA_EAP_SESSION) = Some b" using rd(2) by (fastforce simp: rd_abs_def find_None_iff)
    then show ?thesis using q Some by metis
  qed
qed

text \<open>A session that waits is carried by the state tree to the request that answers the challenge.\<close>

lemma eap_session_resumed:
  assumes W: "eap_rest V inst W" "rd_abs (ew_data W) (0, REQUEST_DATA_EAP_SESSION) = Some a" "ew_sessions W a = Some s" "a \<noteq> st_addr S"
    and S: "state_inv S" "usable (owned (ew_request W) S) new S" "length rand = 4" "fr_request_to_state now version rand new (ew_request W) S = Some (0, r', S')"
    and q: "fr_pair_find_by_da (rq_request_pairs q) ATTR_STATE = fr_pair_find_by_da (rq_reply_pairs r') ATTR_STATE" "sr_data q = []"
  shows "\<exists>q' S'' W'. fr_state_to_request q S' = Some (0, q', S'') \<and> eap_rest V inst (W\<lparr>ew_request := q'\<rparr>) \<and>
    rd_abs (sr_data q') (0, REQUEST_DATA_EAP_SESSION) = Some a \<and> rq_request_pairs q' = rq_request_pairs q \<and>
    (\<forall>k c. k \<noteq> (st_addr S, 0) \<longrightarrow> rd_abs (sr_data q') k = Some c \<longrightarrow> rd_abs (ew_data W) k = Some c) \<and>
    eap_session_thaw t (W\<lparr>ew_request := q'\<rparr>) = Some (Some a, W') \<and> ew_sessions W' a = Some (s\<lparr>ss_request := Some (sr_number q'), ss_updated := t\<rparr>)"
proof -
  let ?r = "ew_request W"
  have d: "data_ok (sr_data ?r)" "rd_inv (sr_data ?r)" using W(1) by (auto simp: at_rest_def data_ok_def)
  note p = rd_abs_persisted [OF d(1), of S]
  have ne: "sr_session ?r \<noteq> [] \<or> persisted ?r S \<noteq> []" using p(1) W(2) by (auto simp: rd_abs_def)
  obtain v b e where v: "fr_pair_find_by_da (rq_reply_pairs r') ATTR_STATE = Some v" "state_inv S'" "held S' v = Some b" "st_entries S' b = Some e"
    "se_data e = persisted ?r S" "st_addr S' = st_addr S"
    using fr_request_to_state_saved [OF S(1) d(2) S(2,3) ne S(4)] by metis
  have q': "fr_pair_find_by_da (rq_request_pairs q) ATTR_STATE = Some v" "rd_inv (sr_data q)" "rd_abs (sr_data q) (st_addr S', 0) = None"
    using q v(1) by (simp_all add: rd_inv_def rd_abs_def)
  obtain q1 S1 x where 1: "fr_state_to_request q S' = Some (0, q1, S1)" "rd_key x = (st_addr S', 0)" "sr_data q1 = x # free_session_state_ctx (sr_data q) @ se_data e"
    "rq_request_pairs q1 = rq_request_pairs q"
    using fr_state_to_request_restored [OF v(2) q'(1) v(3,4) q'(2,3)] by metis
  have dat: "sr_data q1 = x # persisted ?r S" "rd_key x = (st_addr S, 0)" using 1 v(5,6) q(2) by (simp_all add: free_session_state_ctx_def)
  have ok: "data_ok (sr_data q1)" using p(3,4) dat by (auto simp: data_ok_def rd_inv_def)
  have abs: "rd_abs (sr_data q1) (0, REQUEST_DATA_EAP_SESSION) = Some a" using p(1) W(2) dat by (simp add: rd_abs_Cons)
  have ch: "child_ok a (sr_data q1) (ew_children W)" unfolding child_ok_def
  proof (intro allI impI)
    fix c assume c: "rd_abs (sr_data q1) (a, 0) = Some c" "c \<noteq> 0"
    then have "rd_abs (persisted ?r S) (a, 0) = Some c" using dat W(4) by (simp add: rd_abs_Cons split: if_splits)
    then have "rd_abs (ew_data W) (a, 0) = Some c" by (rule p(2))
    then show "\<exists>e. ew_children W c = Some e \<and> ce_thawed e = None \<and> ce_ctx e \<noteq> None" using W(1,2) c(2) by (auto simp: at_rest_def child_ok_def)
  qed
  have rest: "eap_rest V inst (W\<lparr>ew_request := q1\<rparr>)" using W ok abs ch by (auto simp: at_rest_def)
  have old: "rd_abs (ew_data W) k = Some c" if "k \<noteq> (st_addr S, 0)" "rd_abs (sr_data q1) k = Some c" for k c
    using that dat p(2) by (simp add: rd_abs_Cons split: if_splits)
  show ?thesis using thaw_rest [OF rest, of t] abs W(3) 1(1,4) rest old by auto
qed

section \<open>What a continued session has passed\<close>

lemma continue_user_Some: "ew_sessions W a = Some s \<Longrightarrow> ss_identity s = Some identity \<Longrightarrow> \<exists>ok W'. continue_user a W = Some (ok, W')"
  by (cases "fr_pair_find_by_da (rq_request_pairs (ew_request W)) ATTR_USER_NAME") (auto simp: continue_user_def Let_def)

lemma eap_session_continued:
  assumes W: "eap_rest V inst W" "rd_abs (ew_data W) (0, REQUEST_DATA_EAP_SESSION) = Some b" "ew_sessions W b = Some s" "eap_wf p"
    and c: "eap_session_continue now new alloc instance p W = Some (Some a, W')"
  shows "a = b \<and> ss_rounds s + 1 < 50 \<and> (unat (p ! 4) = FR_EAP_METHOD_NAK \<or> unat (p ! 4) = ss_type s) \<and>
    (\<exists>identity user round. ss_identity s = Some identity \<and> fr_pair_find_by_da (rq_request_pairs (ew_request W')) ATTR_USER_NAME = Some user \<and>
      (length identity \<le> MAX_STRING_LENGTH \<longrightarrow> user = identity) \<and>
      ew_sessions W' a = Some (s\<lparr>ss_request := Some (sr_number (ew_request W)), ss_updated := now, ss_rounds := ss_rounds s + 1, ss_this_round := Some round\<rparr>) \<and> eap_round_build alloc p = Some (Some round))"
proof -
  let ?s = "s\<lparr>ss_request := Some (sr_number (ew_request W)), ss_updated := now\<rparr>"
  have th: "eap_session_thaw now W = Some (Some b, set_session b ?s W)" "session_rest V inst s" using thaw_rest [OF W(1), of now] W(2,3) by auto
  obtain identity where i: "ss_identity s = Some identity" using th(2) by (auto simp: session_rest_def esession_ok_def)
  let ?t = "s\<lparr>ss_request := Some (sr_number (ew_request W)), ss_updated := now, ss_rounds := ss_rounds s + 1\<rparr>"
  define ok where "ok = (ss_rounds s + 1 < 50 \<and> (unat (p ! 4) = FR_EAP_METHOD_NAK \<or> unat (p ! 4) = ss_type s))"
  have o: "continue_old p b (set_session b ?s W) = Some (ok, set_session b ?t (set_session b ?s W))"
    using eap_wf_reads(2) [OF W(4)] by (simp add: continue_old_def ok_def Let_def)
  have cr: "continue_round alloc p b ok (set_session b ?t (set_session b ?s W)) = Some (Some a, W')"
    using c th(1) o by (simp add: eap_session_continue_def)
  then have ok by (auto simp: continue_round_def continue_error_def split: if_splits bind_splits)
  obtain ok' W2 where u: "continue_user b (set_session b ?t (set_session b ?s W)) = Some (ok', W2)"
    using continue_user_Some [of "set_session b ?t (set_session b ?s W)" b ?t identity] i by auto
  have ok' using cr u \<open>ok\<close> by (auto simp: continue_round_def continue_error_def split: if_splits bind_splits)
  have W2: "ew_sessions W2 b = Some ?t" "\<exists>user. fr_pair_find_by_da (rq_request_pairs (ew_request W2)) ATTR_USER_NAME = Some user \<and> (length identity \<le> MAX_STRING_LENGTH \<longrightarrow> user = identity)"
    using u \<open>ok'\<close> i by (auto simp: continue_user_def Let_def fr_pair_find_by_da_def find_append split: option.splits)
  obtain x where x: "eap_round_build alloc p = Some x" using eap_wf_reads(5) [OF W(4)] by blast
  have "x \<noteq> None" "a = b" "W' = set_session b (?t\<lparr>ss_this_round := x\<rparr>) W2"
    using cr u \<open>ok\<close> \<open>ok'\<close> W2(1) x by (auto simp: continue_round_def continue_error_def Let_def split: if_splits bind_splits)
  then show ?thesis using W2(2) \<open>ok\<close> i x by (auto simp: ok_def)
qed

text \<open>(C39) A packet continues a session only if it has the type of the session or is a NAK, if fewer than fifty rounds have passed, and, for an identity of at most 253
octets, if the User-Name of the request is the identity the session began with. For a longer identity, which fits no attribute, the code ignores a mismatch: the request only has
some User-Name.\<close>

theorem eap_session_continue_checks:
  assumes W: "eap_rest V inst W" "rd_abs (ew_data W) (0, REQUEST_DATA_EAP_SESSION) = Some b" "ew_sessions W b = Some s" "eap_wf p"
    and c: "eap_session_continue now new alloc instance p W = Some (Some a, W')"
  shows "a = b \<and> ss_rounds s + 1 < 50 \<and> (unat (p ! 4) = FR_EAP_METHOD_NAK \<or> unat (p ! 4) = ss_type s) \<and>
    (\<exists>identity user round. ss_identity s = Some identity \<and> fr_pair_find_by_da (rq_request_pairs (ew_request W')) ATTR_USER_NAME = Some user \<and>
      (length identity \<le> MAX_STRING_LENGTH \<longrightarrow> user = identity) \<and>
      ew_sessions W' a = Some (s\<lparr>ss_request := Some (sr_number (ew_request W)), ss_updated := now, ss_rounds := ss_rounds s + 1, ss_this_round := Some round\<rparr>))"
  using eap_session_continued [OF assms] by blast

theorem eap_session_continue_checks_witness:
  "\<exists>W'. eap_session_continue 5 7 True 1 [2, 1, 0, 6, 13, 0] (ex_eap_world () [2, 1, 0, 6, 13, 0] [ex_item]) = Some (Some 5, W') \<and>
    fr_pair_find_by_da (rq_request_pairs (ew_request W')) ATTR_USER_NAME = Some [98]"
proof -
  let ?p = "[2, 1, 0, 6, 13, 0] :: bytes"
  let ?W = "ex_eap_world () ?p [ex_item]"
  have wf: "eap_wf ?p" by (simp add: eap_wf_def nbo16_def)
  have e: "\<exists>W'. eap_session_continue 5 7 True 1 ?p ?W = Some (Some 5, W')"
    by (simp add: eap_session_continue_def eap_session_thaw_def continue_old_def continue_round_def continue_user_def ex_eap_world_def rd_keyed_def
        fr_pair_find_by_da_def eap_round_build_def eap_round_alloc_def rd8_def rd_mem_def rd_nbo16_def nbo16_def chunk_def Let_def)
  then obtain W' where W': "eap_session_continue 5 7 True 1 ?p ?W = Some (Some 5, W')" by blast
  obtain s where s: "rd_abs (ew_data ?W) (0, REQUEST_DATA_EAP_SESSION) = Some 5" "ew_sessions ?W 5 = Some s" "ss_identity s = Some [98]"
    by (auto simp: ex_eap_world_def rd_abs_def)
  from eap_session_continue_checks [OF ex_world_rest(2) s(1,2) wf W', of "\<lambda>_ _. True"] s(3) W' show ?thesis by auto
qed

section \<open>Where the code goes wrong\<close>

text \<open>A first packet of an enabled method, in a request without User-Name, makes the module call a method whose callback was never set.\<close>

lemma mod_authenticate_null_callback:
  "mod_authenticate ex_ctx ex_inst submodule (ex_eap_world x [2, 1, 0, 6, 13, 0] []) = None"
  by (simp add: mod_authenticate_def ex_eap_world_def ex_ctx_def ex_packets pair_values_def fr_pair_find_by_da_def eap_session_continue_def eap_session_thaw_def
      eap_session_alloc_def set_data_def set_session_def request_data_add_def continue_new_def continue_round_def continue_user_def eap_round_build_def eap_round_alloc_def
      rd8_def rd_mem_def rd_nbo16_def nbo16_def chunk_def ex_inst_def eap_method_select_def run_method_def fr_state_restore_to_child_def request_data_get_def rd_keyed_def Let_def)

text \<open>A request that is rejected before the EAP module has seen its packet gets no EAP-Failure: the restored session has no round yet.\<close>

lemma mod_post_auth_no_failure:
  assumes W: "eap_rest V inst W" "rd_abs (ew_data W) (0, REQUEST_DATA_EAP_SESSION) = Some a" "rq_reply_code (ew_request W) = RADIUS_ACCESS_REJECT"
    "fr_pair_find_by_da (rq_request_pairs (ew_request W)) ATTR_EAP_MESSAGE \<noteq> None" "fr_pair_find_by_da (rq_reply_pairs (ew_request W)) ATTR_EAP_MESSAGE = None"
  shows "\<exists>W'. mod_post_auth ctx W = Some (RLM_MODULE_FAIL, W') \<and> rq_reply_pairs (ew_request W') = rq_reply_pairs (ew_request W) \<and> ew_sessions W' a = None"
proof -
  obtain s where s: "ew_sessions W a = Some s" "session_rest V inst s" "eap_session_thaw (ec_now ctx) W = Some (Some a, set_session a (s\<lparr>ss_request := Some (sr_number (ew_request W)), ss_updated := ec_now ctx\<rparr>) W)"
    "eap_work (\<lambda>s. esession_ok s \<and> method_set V inst s \<and> ss_this_round s = None) a (set_session a (s\<lparr>ss_request := Some (sr_number (ew_request W)), ss_updated := ec_now ctx\<rparr>) W)"
    using thaw_rest [OF W(1), of "ec_now ctx"] W(2) by auto
  have w: "W\<lparr>ew_request := ew_request W\<rparr> = W" by simp
  have "ss_this_round s = None" using s(2) by (simp add: session_rest_def)
  moreover obtain W' where "eap_session_destroy (Some a) (set_session a (s\<lparr>ss_request := Some (sr_number (ew_request W)), ss_updated := ec_now ctx\<rparr>) W) = Some W'"
    "ew_sessions W' a = None" "rq_reply_pairs (ew_request W') = rq_reply_pairs (ew_request W)"
    using destroy_work [OF s(4), of V inst] by auto
  ultimately show ?thesis using s(3) W(3-5) by (auto simp: mod_post_auth_def Let_def split: option.splits)
qed

text \<open>\<open>mod_authorize\<close> returns the result of \<open>eap_start\<close> as an action: after it has answered an EAP-Start it says that it has pushed a child, and no result is set.\<close>

lemma mod_authorize_start:
  assumes "ei_auth_type inst = Some v" "fr_pair_find_by_da (rq_request_pairs r) ATTR_EAP_MESSAGE = Some []" "fr_pair_find_by_da (rq_request_pairs r) ATTR_EAP_TYPE = None"
  shows "\<exists>r'. mod_authorize inst control r = Some (PUSHED_CHILD, None, control, r')"
  using assms by (simp add: mod_authorize_def eap_start_def rcode_value_def)

end
