(* ===== verification/Eap_Md5.thy ===== *)
theory Eap_Md5
  imports Eap_Session Radius_Packet
begin

text \<open>
  EAP-MD5, \<^verbatim>\<open>src/modules/rlm_eap/types/rlm_eap_md5/eap_md5.c\<close> and \<^verbatim>\<open>eap_md5.h\<close>: the packet in the type data of a response, the comparison of the response with the digest of
  identifier, password and challenge, and the type data of a request.

  The lemmas say for which responses the packet is read inside the type data and inside which bounds of the password the digest is computed, and that verification accepts
  exactly the digest. The value size of the peer is not checked, and a password of more than 492 octets does not fit the buffer on the stack.
\<close>

abbreviation FR_MD5_CHALLENGE :: nat where "FR_MD5_CHALLENGE \<equiv> 1"
abbreviation FR_MD5_RESPONSE :: nat where "FR_MD5_RESPONSE \<equiv> 2"
abbreviation FR_MD5_SUCCESS :: nat where "FR_MD5_SUCCESS \<equiv> 3"
abbreviation FR_MD5_FAILURE :: nat where "FR_MD5_FAILURE \<equiv> 4"
abbreviation MD5_HEADER_LEN :: nat where "MD5_HEADER_LEN \<equiv> 4"
abbreviation MD5_CHALLENGE_LEN :: nat where "MD5_CHALLENGE_LEN \<equiv> 16"
abbreviation FR_MAX_STRING_LEN :: nat where "FR_MAX_STRING_LEN \<equiv> 254"

record MD5_PACKET =
  mp_code :: nat
  mp_id :: byte
  mp_length :: nat
  mp_value_size :: nat
  mp_value :: bytes
  mp_name :: "bytes option"

text \<open>The outer \<open>None\<close> is a read outside of the type data, the inner one a \<open>NULL\<close>. Lengths are of 16 bits and wrap.\<close>

definition eap_md5_extract :: "bool \<Rightarrow> eap_round \<Rightarrow> MD5_PACKET option option" where
  "eap_md5_extract alloc eap_round =
     (let response = rd_response eap_round in
      if pk_code response \<noteq> FR_MD5_RESPONSE \<or> pk_type_num response \<noteq> FR_EAP_METHOD_MD5 then Some None
      else (case pk_type_data response of
              None \<Rightarrow> Some None
            | Some data \<Rightarrow>
                if pk_length response \<le> MD5_HEADER_LEN then Some None
                else do {
                  value_size \<leftarrow> rd8 data 0;
                  if value_size = 0 then Some None
                  else if \<not> alloc then Some None
                  else do {
                    let len = (pk_length response - (MD5_HEADER_LEN + 1)) mod 2 ^ 16;
                    value \<leftarrow> rd_mem data 1 (unat value_size);
                    let name_len = (len + 2 ^ 16 - (unat value_size + 1)) mod 2 ^ 16;
                    name \<leftarrow> (if name_len \<noteq> 0 then do { n \<leftarrow> rd_mem data (1 + unat value_size) name_len; Some (Some (n @ [0])) } else Some None);
                    Some (Some \<lparr>mp_code = pk_code response, mp_id = pk_id response, mp_length = len, mp_value_size = unat value_size, mp_value = value, mp_name = name\<rparr>) } }))"

text \<open>The buffer on the stack; what is not written is never read.\<close>

definition eap_md5_verify :: "MD5_PACKET \<Rightarrow> bytes \<Rightarrow> bytes \<Rightarrow> bool option" where
  "eap_md5_verify packet password challenge =
     (if mp_value_size packet \<noteq> 16 then Some False
      else do {
        string \<leftarrow> wr_mem (replicate (1 + FR_MAX_STRING_LEN * 2) 0) 0 [mp_id packet];
        string \<leftarrow> wr_mem string 1 password;
        c \<leftarrow> rd_mem challenge 0 MD5_CHALLENGE_LEN;
        string \<leftarrow> wr_mem string (1 + length password) c;
        let len = (1 + length password + MD5_CHALLENGE_LEN) mod 2 ^ 16;
        data \<leftarrow> rd_mem string 0 len;
        value \<leftarrow> rd_mem (mp_value packet) 0 16;
        Some (fr_digest_cmp (fr_md5_calc data) value = 0) })"

definition eap_md5_compose :: "bool \<Rightarrow> eap_packet \<Rightarrow> MD5_PACKET \<Rightarrow> (int \<times> eap_packet) option" where
  "eap_md5_compose alloc request reply =
     (if mp_code reply < 3 then
        let request = request\<lparr>pk_type_num := FR_EAP_METHOD_MD5\<rparr> in
        if \<not> alloc then Some (0, request\<lparr>pk_type_data := None\<rparr>)
        else do {
          p \<leftarrow> wr_mem (replicate (mp_length reply) 0) 0 [word_of_nat (mp_value_size reply)];
          v \<leftarrow> rd_mem (mp_value reply) 0 (mp_value_size reply);
          p \<leftarrow> wr_mem p 1 v;
          let name_len = (mp_length reply + 2 ^ 16 - (mp_value_size reply + 1)) mod 2 ^ 16;
          (p, len) \<leftarrow>
            (case mp_name reply of
               Some name \<Rightarrow>
                 if name_len \<noteq> 0 then do {
                   n \<leftarrow> rd_mem name 0 name_len;
                   p \<leftarrow> wr_mem p (1 + mp_value_size reply) n;
                   Some (p, mp_value_size reply + 1 + name_len) }
                 else Some (p, mp_value_size reply + 1)
             | None \<Rightarrow> Some (p, mp_value_size reply + 1));
          Some (1, request\<lparr>pk_type_data := Some p, pk_type_length := len, pk_code := mp_code reply\<rparr>) }
      else Some (1, request\<lparr>pk_type_length := 0, pk_code := mp_code reply\<rparr>))"

section \<open>Reading a response\<close>

text \<open>What a peer that knows the password sends: the size of the value, the digest and its name.\<close>

definition md5_answer :: "byte \<Rightarrow> bytes \<Rightarrow> bytes \<Rightarrow> bytes" where
  "md5_answer ident password challenge = md5_hash (ident # password @ take MD5_CHALLENGE_LEN challenge)"

text \<open>The sizes a response has to have for the packet to be read inside it.\<close>

definition md5_sane :: "eap_packet \<Rightarrow> bool" where
  "md5_sane response \<longleftrightarrow> (\<forall>data. pk_type_num response = FR_EAP_METHOD_MD5 \<and> pk_type_data response = Some data \<longrightarrow> data \<noteq> [] \<longrightarrow> unat (data ! 0) < length data)"

lemma md5_name_len: "v < n \<Longrightarrow> n \<le> 65530 \<Longrightarrow> (65535 + n - v) mod 65536 = n - Suc v" for n v :: nat
proof -
  assume "v < n" "n \<le> 65530"
  then have "65535 + n - v = (n - Suc v) + 65536" by simp
  then show ?thesis using \<open>n \<le> 65530\<close> by (simp only: mod_add_self2) simp
qed

lemma eap_md5_extract_sane:
  assumes "response_ok (rd_response round)" "md5_sane (rd_response round)"
  shows "\<exists>x. eap_md5_extract alloc round = Some x \<and>
    (\<forall>packet. x = Some packet \<longrightarrow> mp_id packet = pk_id (rd_response round) \<and> length (mp_value packet) = mp_value_size packet \<and>
      (\<exists>data. pk_type_data (rd_response round) = Some data \<and> data \<noteq> [] \<and> mp_value_size packet = unat (data ! 0) \<and> mp_value packet = take (unat (data ! 0)) (tl data)))"
proof (cases "pk_type_data (rd_response round)")
  case None
  then show ?thesis by (simp add: eap_md5_extract_def Let_def)
next
  case (Some data)
  note r = assms Some
  have d: "data \<noteq> []" "length data \<le> 65530" "pk_length (rd_response round) = 5 + length data" using r by (auto simp: response_ok_def)
  show ?thesis
  proof (cases "pk_code (rd_response round) = FR_MD5_RESPONSE \<and> pk_type_num (rd_response round) = FR_EAP_METHOD_MD5 \<and> data ! 0 \<noteq> 0 \<and> alloc")
    case True
    let ?v = "unat (data ! 0)"
    have v: "?v < length data" using r True d by (auto simp: md5_sane_def)
    note n = md5_name_len [OF v d(2)]
    have c: "chunk data 1 ?v = take ?v (tl data)" by (simp add: chunk_def drop_Suc)
    show ?thesis using r(3) True v c d n by (auto simp: eap_md5_extract_def Let_def)
  next
    case False
    then have "eap_md5_extract alloc round = Some None" using r d by (auto simp: eap_md5_extract_def Let_def)
    then show ?thesis by simp
  qed
qed

text \<open>Otherwise the value, or a name of nearly 65536 octets, is read from what follows the type data in memory.\<close>

lemma eap_md5_extract_outside:
  assumes "response_ok (rd_response round)" "pk_type_data (rd_response round) = Some data" "pk_code (rd_response round) = FR_MD5_RESPONSE"
    "pk_type_num (rd_response round) = FR_EAP_METHOD_MD5" "data ! 0 \<noteq> 0" "length data \<le> unat (data ! 0)"
  shows "eap_md5_extract True round = None"
  using assms by (auto simp: eap_md5_extract_def response_ok_def rd_mem_def Let_def)

section \<open>Verification\<close>

lemma eap_md5_verify_exact:
  assumes "length (mp_value packet) = mp_value_size packet" "length password \<le> 492" "MD5_CHALLENGE_LEN \<le> length challenge"
  shows "eap_md5_verify packet password challenge =
    Some (mp_value_size packet = 16 \<and> mp_value packet = md5_answer (mp_id packet) password challenge)"
proof (cases "mp_value_size packet = 16")
  case True
  let ?c = "take 16 challenge" and ?b = "mp_id packet # password"
  have l: "length ?c = 16" using assms(3) by simp
  have 1: "patch (patch (patch (replicate 509 0) 0 [mp_id packet]) 1 password) (1 + length password) ?c = ?b @ ?c @ replicate (492 - length password) 0"
    using assms(2) l by (simp add: patch_def drop_Cons')
  have m: "(17 + length password) mod 65536 = 17 + length password" using assms(2) by simp
  have 2: "chunk (?b @ ?c @ replicate (492 - length password) 0) 0 (17 + length password) = ?b @ ?c" using l by (simp add: chunk_def take_Cons')
  have h: "fr_md5_calc (?b @ ?c) = md5_answer (mp_id packet) password challenge"
    using assms(2) l by (subst fr_md5_calc_hash) (auto simp: md5_answer_def md5_limit_def)
  have "fr_digest_cmp (md5_answer (mp_id packet) password challenge) (mp_value packet) = 0 \<longleftrightarrow> mp_value packet = md5_answer (mp_id packet) password challenge"
    using assms(1) True by (subst fr_digest_cmp_eq) (auto simp: md5_answer_def)
  moreover have "chunk challenge 0 16 = ?c" "chunk (mp_value packet) 0 16 = mp_value packet" using assms(1) True by (simp_all add: chunk_def)
  ultimately show ?thesis using True assms l 1 2 m h by (simp add: eap_md5_verify_def Let_def)
next
  case False
  then show ?thesis by (simp add: eap_md5_verify_def)
qed

text \<open>A longer password runs over the end of the buffer.\<close>

lemma eap_md5_verify_overflow:
  assumes "mp_value_size packet = 16" "492 < length password" "MD5_CHALLENGE_LEN \<le> length challenge"
  shows "eap_md5_verify packet password challenge = None"
  using assms by (auto simp: eap_md5_verify_def wr_mem_def Let_def)

section \<open>Requests\<close>

lemma eap_md5_compose_challenge:
  assumes "length value = 16"
  shows "eap_md5_compose True request \<lparr>mp_code = FR_MD5_CHALLENGE, mp_id = i, mp_length = 17, mp_value_size = 16, mp_value = value, mp_name = None\<rparr> =
    Some (1, request\<lparr>pk_type_num := FR_EAP_METHOD_MD5, pk_type_data := Some (16 # value), pk_type_length := 17, pk_code := FR_EAP_CODE_REQUEST\<rparr>)"
  using assms by (simp add: eap_md5_compose_def Let_def patch_def chunk_def)

end
