(* ===== verification/Eap_Tls.thy ===== *)
theory Eap_Tls
  imports Eap_Packet
begin

text \<open>
  The EAP-TLS framing of \<^verbatim>\<open>src/lib/eap/tls.c\<close> and \<^verbatim>\<open>tls.h\<close>, and the record buffers of
  \<^verbatim>\<open>src/lib/tls/session.c\<close>: fragments of TLS records are received, checked, acknowledged and
  reassembled in \<open>dirty_in\<close>, and records in \<open>dirty_out\<close> are sent in fragments of the MTU.

  OpenSSL and the asynchronous interpreter are parameters, collected in \<open>tls_env\<close>: whether the
  handshake is finished, the handling of a complete record, and the pushes of the next handshake round.
  The EAP session is the one of \<open>Eap_Packet\<close> extended by the EAP-TLS session it points to.

  The lemmas show the bounds of the record buffers, that receiving never exceeds the announced
  length, that the checks read inside the packet, and that the fragments one side sends
  are reassembled by the other to the record.
\<close>

subsection \<open>Types\<close>

datatype eap_tls_status =
    EAP_TLS_INVALID | EAP_TLS_ESTABLISHED | EAP_TLS_FAIL | EAP_TLS_HANDLED
  | EAP_TLS_START_SEND | EAP_TLS_RECORD_SEND | EAP_TLS_ACK_SEND
  | EAP_TLS_RECORD_RECV_FIRST | EAP_TLS_RECORD_RECV_MORE | EAP_TLS_RECORD_RECV_COMPLETE

abbreviation FR_TLS_MAX_RECORD_SIZE :: nat where "FR_TLS_MAX_RECORD_SIZE \<equiv> 16384"
abbreviation TLS_HEADER_LENGTH_FIELD_LEN :: nat where "TLS_HEADER_LENGTH_FIELD_LEN \<equiv> 4"

record tls_record =
  rec_data :: bytes
  rec_used :: nat

datatype fr_tls_result = FR_TLS_RESULT_IN_PROGRESS | FR_TLS_RESULT_ERROR | FR_TLS_RESULT_SUCCESS

text \<open>TLS content types and versions, as OpenSSL reports them.\<close>

abbreviation SSL3_RT_ALERT :: nat where "SSL3_RT_ALERT \<equiv> 21"
abbreviation SSL3_RT_HANDSHAKE :: nat where "SSL3_RT_HANDSHAKE \<equiv> 22"
abbreviation SSL3_RT_APPLICATION_DATA :: nat where "SSL3_RT_APPLICATION_DATA \<equiv> 23"
abbreviation TLS1_3_VERSION :: nat where "TLS1_3_VERSION \<equiv> 0x304"

text \<open>\<open>ts_ssl\<close> stands for the OpenSSL object.\<close>

record fr_tls_session =
  ts_ssl :: nat
  ts_result :: fr_tls_result
  ts_initialized :: bool
  ts_content_type :: nat
  ts_origin :: nat
  ts_version :: nat
  ts_clean_in :: tls_record
  ts_dirty_in :: tls_record
  ts_dirty_out :: tls_record
  ts_mtu :: nat
  ts_client_cert_ok :: bool

record eap_tls_session =
  ets_state :: eap_tls_status
  ets_tls_session :: "fr_tls_session option"
  ets_base_flags :: u32
  ets_phase2 :: bool
  ets_include_length :: bool
  ets_authentication_success :: bool
  ets_record_out_started :: bool
  ets_record_out_total_len :: nat
  ets_record_in_started :: bool
  ets_record_in_total_len :: nat
  ets_record_in_recvd_len :: nat

record tls_eap_session = eap_session +
  es_opaque :: eap_tls_session

text \<open>Code the framing calls: \<open>SSL_is_init_finished\<close>, \<open>SSL_session_reused\<close>, \<open>fr_tls_session_recv\<close>,
  \<open>fr_tls_session_async_handshake_push\<close> with the round of the handshake the interpreter then runs, \<open>unlang_function_push\<close> and \<open>fr_tls_cache_deny\<close>. The number of an SSL
  object stands for its state.\<close>

record tls_env =
  env_init_finished :: "nat \<Rightarrow> bool"
  env_session_reused :: "nat \<Rightarrow> bool"
  env_session_recv :: "fr_tls_session \<Rightarrow> int \<times> fr_tls_session"
  env_handshake_push :: "fr_tls_session \<Rightarrow> int \<times> fr_tls_session"
  env_function_push :: int
  env_cache_deny :: "fr_tls_session \<Rightarrow> fr_tls_session"

datatype unlang_action =
    UNLANG_ACTION_FAIL | UNLANG_ACTION_CALCULATE_RESULT | UNLANG_ACTION_EXECUTE_NEXT
  | UNLANG_ACTION_PUSHED_CHILD | UNLANG_ACTION_UNWIND | UNLANG_ACTION_YIELD | UNLANG_ACTION_STOP_PROCESSING

definition TLS_START :: "byte \<Rightarrow> bool" where "TLS_START x \<longleftrightarrow> x AND 0x20 \<noteq> 0"
definition TLS_MORE_FRAGMENTS :: "byte \<Rightarrow> bool" where "TLS_MORE_FRAGMENTS x \<longleftrightarrow> x AND 0x40 \<noteq> 0"
definition TLS_LENGTH_INCLUDED :: "byte \<Rightarrow> bool" where "TLS_LENGTH_INCLUDED x \<longleftrightarrow> x AND 0x80 \<noteq> 0"
definition SET_START :: "byte \<Rightarrow> byte" where "SET_START x = x OR 0x20"
definition SET_MORE_FRAGMENTS :: "byte \<Rightarrow> byte" where "SET_MORE_FRAGMENTS x = x OR 0x40"
definition SET_LENGTH_INCLUDED :: "byte \<Rightarrow> byte" where "SET_LENGTH_INCLUDED x = x OR 0x80"

subsection \<open>Record buffers\<close>

definition record_init :: "tls_record \<Rightarrow> tls_record" where
  "record_init rec = rec\<lparr>rec_used := 0\<rparr>"

definition record_close :: "tls_record \<Rightarrow> tls_record" where
  "record_close rec = rec\<lparr>rec_used := 0\<rparr>"

text \<open>How many bytes were added, and the record.\<close>

definition record_from_buff :: "tls_record \<Rightarrow> bytes \<Rightarrow> nat \<Rightarrow> (nat \<times> tls_record) option" where
  "record_from_buff rec inp inlen =
     (let added = (FR_TLS_MAX_RECORD_SIZE + 2 ^ 32 - rec_used rec) mod 2 ^ 32;
          added = (if inlen < added then inlen else added)
      in if added = 0 then Some (0, rec)
         else do {
           d \<leftarrow> rd_mem inp 0 added;
           data \<leftarrow> wr_mem (rec_data rec) (rec_used rec) d;
           Some (added, rec\<lparr>rec_data := data, rec_used := rec_used rec + added\<rparr>) })"

text \<open>The bytes taken (as many as the length returned), and the record.\<close>

definition record_to_buff :: "tls_record \<Rightarrow> nat \<Rightarrow> (bytes \<times> tls_record) option" where
  "record_to_buff rec outlen =
     (let taken = rec_used rec;
          taken = (if outlen < taken then outlen else taken)
      in if taken = 0 then Some ([], rec)
         else do {
           out \<leftarrow> rd_mem (rec_data rec) 0 taken;
           let used = rec_used rec - taken;
           data \<leftarrow> (if 0 < used then do {
                       d \<leftarrow> rd_mem (rec_data rec) taken used;
                       wr_mem (rec_data rec) 0 d }
                     else Some (rec_data rec));
           Some (out, rec\<lparr>rec_data := data, rec_used := used\<rparr>) })"

subsection \<open>Sending\<close>

text \<open>\<open>eap_tls_compose\<close>: the \<open>record\<close> argument is \<open>NULL\<close> or \<open>&tls_session->dirty_out\<close>, here a
  flag. Bytes of the new array that are not written are unspecified in the code and zero here.\<close>

definition compose_len :: "eap_tls_status \<Rightarrow> byte \<Rightarrow> bool \<Rightarrow> nat \<Rightarrow> nat \<Rightarrow> nat" where
  "compose_len status flags rec record_len frag_len =
     (1 + (case status of
            EAP_TLS_RECORD_SEND \<Rightarrow>
              (if TLS_LENGTH_INCLUDED flags then TLS_HEADER_LENGTH_FIELD_LEN else 0) + (if rec then frag_len else 0)
          | EAP_TLS_START_SEND \<Rightarrow> if record_len \<noteq> 0 then frag_len else 0
          | _ \<Rightarrow> 0)) mod 2 ^ 64"

definition compose_eap_code :: "eap_tls_status \<Rightarrow> nat \<Rightarrow> nat" where
  "compose_eap_code status code =
     (case status of
        EAP_TLS_ACK_SEND \<Rightarrow> FR_EAP_CODE_REQUEST
      | EAP_TLS_START_SEND \<Rightarrow> FR_EAP_CODE_REQUEST
      | EAP_TLS_RECORD_SEND \<Rightarrow> FR_EAP_CODE_REQUEST
      | EAP_TLS_ESTABLISHED \<Rightarrow> FR_EAP_CODE_SUCCESS
      | EAP_TLS_FAIL \<Rightarrow> FR_EAP_CODE_FAILURE
      | _ \<Rightarrow> code)"

abbreviation set_tls :: "fr_tls_session \<Rightarrow> tls_eap_session \<Rightarrow> tls_eap_session" where
  "set_tls t s \<equiv> s\<lparr>es_opaque := (es_opaque s)\<lparr>ets_tls_session := Some t\<rparr>\<rparr>"

abbreviation set_request :: "eap_packet \<Rightarrow> tls_eap_session \<Rightarrow> tls_eap_session" where
  "set_request p s \<equiv> s\<lparr>es_this_round := (es_this_round s)\<lparr>rd_request := p\<rparr>\<rparr>"

definition eap_tls_compose ::
  "bool \<Rightarrow> tls_eap_session \<Rightarrow> eap_tls_status \<Rightarrow> byte \<Rightarrow> bool \<Rightarrow> nat \<Rightarrow> nat \<Rightarrow> (int \<times> tls_eap_session) option" where
  "eap_tls_compose alloc s status flags rec record_len frag_len = do {
     let len = compose_len status flags rec record_len frag_len;
     let req = rd_request (es_this_round s);
     if \<not> alloc then Some (-1, set_request (req\<lparr>pk_type_data := None\<rparr>) s)
     else do {
       p \<leftarrow> wr_mem (replicate len 0) 0 [flags];
       p \<leftarrow> (if TLS_LENGTH_INCLUDED flags then wr_mem p 1 (put32 record_len) else Some p);
       let off = (if TLS_LENGTH_INCLUDED flags then 5 else 1);
       (p, s) \<leftarrow> (if rec then do {
                      t \<leftarrow> ets_tls_session (es_opaque s);
                      (out, r) \<leftarrow> record_to_buff (ts_dirty_out t) (frag_len mod 2 ^ 32);
                      p \<leftarrow> wr_mem p off out;
                      Some (p, set_tls (t\<lparr>ts_dirty_out := r\<rparr>) s) }
                    else Some (p, s));
       Some (0, set_request (req\<lparr>pk_type_data := Some p, pk_type_length := len,
                                 pk_code := compose_eap_code status (pk_code req)\<rparr>) s) } }"

definition eap_tls_start :: "bool \<Rightarrow> tls_eap_session \<Rightarrow> (int \<times> tls_eap_session) option" where
  "eap_tls_start alloc s =
     eap_tls_compose alloc s EAP_TLS_START_SEND (SET_START (ucast (ets_base_flags (es_opaque s)))) False 0 0"

definition eap_tls_fail :: "tls_env \<Rightarrow> bool \<Rightarrow> tls_eap_session \<Rightarrow> (int \<times> tls_eap_session) option" where
  "eap_tls_fail env alloc s = do {
     t \<leftarrow> ets_tls_session (es_opaque s);
     let s = (set_tls (env_cache_deny env t) s)\<lparr>es_finished := True\<rparr>;
     (rc, s) \<leftarrow> eap_tls_compose alloc s EAP_TLS_FAIL (ucast (ets_base_flags (es_opaque s))) False 0 0;
     Some (if rc < 0 then -1 else 0, s) }"

definition eap_tls_request :: "bool \<Rightarrow> tls_eap_session \<Rightarrow> (int \<times> tls_eap_session) option" where
  "eap_tls_request alloc s = do {
     let e = es_opaque s;
     t \<leftarrow> ets_tls_session e;
     let flags = (ucast (ets_base_flags e) :: byte);
     let length_included = ets_include_length e;
     let used = rec_used (ts_dirty_out t);
     let e = (if \<not> ets_record_out_started e then e\<lparr>ets_record_out_total_len := used\<rparr> else e);
     let (e, flags, length_included, frag_len) =
       (if ts_mtu t < used + (if length_included then TLS_HEADER_LENGTH_FIELD_LEN else 0) then
          let length_included = (if \<not> ets_record_out_started e then True else length_included);
              frag_len = (if length_included
                          then (ts_mtu t + 2 ^ 64 - TLS_HEADER_LENGTH_FIELD_LEN) mod 2 ^ 64 else ts_mtu t)
          in (e\<lparr>ets_record_out_started := True\<rparr>, SET_MORE_FRAGMENTS flags, length_included, frag_len)
        else (e\<lparr>ets_record_out_started := False\<rparr>, flags, length_included, used));
     let flags = (if length_included then SET_LENGTH_INCLUDED flags else flags);
     eap_tls_compose alloc (s\<lparr>es_opaque := e\<rparr>) EAP_TLS_RECORD_SEND flags True (ets_record_out_total_len e) frag_len }"

definition eap_tls_ack :: "bool \<Rightarrow> tls_eap_session \<Rightarrow> (int \<times> tls_eap_session) option" where
  "eap_tls_ack alloc s =
     eap_tls_compose alloc s EAP_TLS_ACK_SEND (ucast (ets_base_flags (es_opaque s))) False 0 0"

subsection \<open>Receiving\<close>

definition eap_tls_session_status :: "tls_env \<Rightarrow> tls_eap_session \<Rightarrow> eap_tls_status \<times> tls_eap_session" where
  "eap_tls_session_status env s =
     (case ets_tls_session (es_opaque s) of
        None \<Rightarrow> (EAP_TLS_INVALID, s)
      | Some t \<Rightarrow>
          if \<not> ts_initialized t then (EAP_TLS_RECORD_SEND, s)
          else if ts_content_type t = SSL3_RT_HANDSHAKE \<and> ts_origin t = 0 then (EAP_TLS_INVALID, s)
          else if ts_content_type t = SSL3_RT_ALERT then (EAP_TLS_FAIL, s)
          else if ts_content_type t = SSL3_RT_HANDSHAKE then
            if env_init_finished env (ts_ssl t) \<and> rec_used (ts_dirty_out t) = 0 then
              (EAP_TLS_ESTABLISHED, set_tls (t\<lparr>ts_content_type := SSL3_RT_APPLICATION_DATA\<rparr>) s)
            else (EAP_TLS_RECORD_SEND, s)
          else if ts_content_type t = SSL3_RT_APPLICATION_DATA then (EAP_TLS_RECORD_SEND, s)
          else (EAP_TLS_INVALID, s))"

text \<open>The code after the label \<open>ignore_length\<close>.\<close>

definition verify_fragment :: "eap_tls_session \<Rightarrow> byte \<Rightarrow> nat \<Rightarrow> eap_tls_status \<times> eap_tls_session" where
  "verify_fragment e flags frag_len =
     (if TLS_MORE_FRAGMENTS flags then
        if \<not> ets_record_in_started e then (EAP_TLS_INVALID, e)
        else
          let e = e\<lparr>ets_record_in_recvd_len := ets_record_in_recvd_len e + frag_len\<rparr> in
          if ets_record_in_total_len e < ets_record_in_recvd_len e then (EAP_TLS_INVALID, e)
          else (EAP_TLS_RECORD_RECV_MORE, e)
      else if ets_record_in_started e then
        let e = e\<lparr>ets_record_in_started := False,
                  ets_record_in_recvd_len := ets_record_in_recvd_len e + frag_len\<rparr> in
        if ets_record_in_recvd_len e \<noteq> ets_record_in_total_len e then (EAP_TLS_INVALID, e)
        else (EAP_TLS_RECORD_RECV_COMPLETE, e)
      else (EAP_TLS_RECORD_RECV_COMPLETE, e))"

definition verify_length :: "eap_tls_session \<Rightarrow> byte \<Rightarrow> nat \<Rightarrow> nat \<Rightarrow> eap_tls_status \<times> eap_tls_session" where
  "verify_length e flags total_len frag_len =
     (if total_len < frag_len then (EAP_TLS_INVALID, e)
      else if FR_TLS_MAX_RECORD_SIZE < total_len then (EAP_TLS_INVALID, e)
      else if ets_record_in_started e then verify_fragment e flags frag_len
      else if TLS_MORE_FRAGMENTS flags then
        (EAP_TLS_RECORD_RECV_FIRST,
         e\<lparr>ets_record_in_total_len := total_len, ets_record_in_recvd_len := frag_len, ets_record_in_started := True\<rparr>)
      else if total_len \<noteq> frag_len then (EAP_TLS_INVALID, e)
      else (EAP_TLS_RECORD_RECV_COMPLETE, e))"

definition eap_tls_verify :: "tls_env \<Rightarrow> tls_eap_session \<Rightarrow> (eap_tls_status \<times> tls_eap_session) option" where
  "eap_tls_verify env s =
     (let resp = rd_response (es_this_round s) in
      if pk_length resp < EAP_HEADER_LEN + 2 then Some (EAP_TLS_INVALID, s)
      else (case pk_type_data resp of
              None \<Rightarrow> Some (EAP_TLS_INVALID, s)
            | Some data \<Rightarrow> do {
                flags \<leftarrow> rd8 data 0;
                let header_len = EAP_HEADER_LEN + (if TLS_LENGTH_INCLUDED flags then 6 else 2);
                if pk_length resp < header_len then Some (EAP_TLS_INVALID, s)
                else if pk_length resp = EAP_HEADER_LEN + 2 \<and> flags AND 0xc0 = 0 then
                  (case es_prev_round s of
                     None \<Rightarrow> Some (EAP_TLS_INVALID, s)
                   | Some prev \<Rightarrow>
                       if pk_id (rd_request prev) \<noteq> pk_id resp then Some (EAP_TLS_INVALID, s)
                       else Some (eap_tls_session_status env s))
                else if TLS_START flags then Some (EAP_TLS_INVALID, s)
                else do {
                  let frag_len = pk_length resp - header_len;
                  (status, e) \<leftarrow>
                    (if TLS_LENGTH_INCLUDED flags then do {
                       total_len \<leftarrow> rd_nbo16 data 3;
                       Some (verify_length (es_opaque s) flags total_len frag_len) }
                     else Some (verify_fragment (es_opaque s) flags frag_len));
                  Some (status, s\<lparr>es_opaque := e\<rparr>) } }))"

subsection \<open>The state machine\<close>

abbreviation set_state :: "eap_tls_status \<Rightarrow> tls_eap_session \<Rightarrow> tls_eap_session" where
  "set_state st s \<equiv> s\<lparr>es_opaque := (es_opaque s)\<lparr>ets_state := st\<rparr>\<rparr>"

definition eap_tls_handshake_push :: "tls_env \<Rightarrow> tls_eap_session \<Rightarrow> (unlang_action \<times> tls_eap_session) option" where
  "eap_tls_handshake_push env s = do {
     t \<leftarrow> ets_tls_session (es_opaque s);
     if env_function_push env < 0 then Some (UNLANG_ACTION_FAIL, s)
     else
       let (rc, t) = env_handshake_push env t in
       if rc < 0 then Some (UNLANG_ACTION_FAIL, set_tls t s)
       else Some (UNLANG_ACTION_PUSHED_CHILD, set_tls t s) }"

text \<open>The fragment of the response: its bytes, after the flags and the length field.\<close>

definition process_fragment :: "eap_packet \<Rightarrow> (bytes \<times> nat) option" where
  "process_fragment resp = do {
     data \<leftarrow> pk_type_data resp;
     flags \<leftarrow> rd8 data 0;
     let off = (if TLS_LENGTH_INCLUDED flags then 5 else 1);
     Some (drop off data, (pk_type_length resp + 2 ^ 64 - off) mod 2 ^ 64) }"

text \<open>A complete record: application data, or the next round of the handshake.\<close>

definition process_complete :: "tls_env \<Rightarrow> tls_eap_session \<Rightarrow> (unlang_action \<times> tls_eap_session) option" where
  "process_complete env s = do {
     t \<leftarrow> ets_tls_session (es_opaque s);
     if ets_phase2 (es_opaque s) \<or> env_init_finished env (ts_ssl t) then
       let s = s\<lparr>es_opaque := (es_opaque s)\<lparr>ets_phase2 := True\<rparr>\<rparr>;
           (ret, t) = env_session_recv env t;
           s = set_tls t s
       in Some (UNLANG_ACTION_CALCULATE_RESULT,
                set_state (if ret = 0 then EAP_TLS_RECORD_RECV_COMPLETE
                           else if ret = 1 then EAP_TLS_RECORD_RECV_MORE else EAP_TLS_FAIL) s)
     else eap_tls_handshake_push env s }"

definition process_received :: "tls_env \<Rightarrow> bool \<Rightarrow> eap_tls_status \<Rightarrow> tls_eap_session \<Rightarrow> (unlang_action \<times> tls_eap_session) option" where
  "process_received env alloc status s = do {
     t \<leftarrow> ets_tls_session (es_opaque s);
     (data, data_len) \<leftarrow> process_fragment (rd_response (es_this_round s));
     (added, r) \<leftarrow> record_from_buff (ts_dirty_in t) data (data_len mod 2 ^ 32);
     let t = t\<lparr>ts_dirty_in := r\<rparr>;
     let s = set_tls t s;
     if added \<noteq> data_len then Some (UNLANG_ACTION_CALCULATE_RESULT, set_state EAP_TLS_FAIL s)
     else if status \<noteq> EAP_TLS_RECORD_RECV_COMPLETE then do {
       (rc, s) \<leftarrow> eap_tls_ack alloc s;
       Some (UNLANG_ACTION_CALCULATE_RESULT, set_state EAP_TLS_HANDLED s) }
     else process_complete env s }"

definition eap_tls_process :: "tls_env \<Rightarrow> bool \<Rightarrow> tls_eap_session \<Rightarrow> (unlang_action \<times> tls_eap_session) option" where
  "eap_tls_process env alloc s = do {
     (status, s) \<leftarrow> eap_tls_verify env s;
     let s = set_state status s;
     (case status of
        EAP_TLS_RECORD_RECV_COMPLETE \<Rightarrow> process_received env alloc status s
      | EAP_TLS_RECORD_RECV_FIRST \<Rightarrow> process_received env alloc status s
      | EAP_TLS_RECORD_RECV_MORE \<Rightarrow> process_received env alloc status s
      | EAP_TLS_RECORD_SEND \<Rightarrow> do {
          t \<leftarrow> ets_tls_session (es_opaque s);
          if \<not> ets_phase2 (es_opaque s) \<and> rec_used (ts_dirty_out t) = 0 \<and> env_init_finished env (ts_ssl t) then
            Some (UNLANG_ACTION_CALCULATE_RESULT,
                  set_state EAP_TLS_ESTABLISHED (s\<lparr>es_opaque := (es_opaque s)\<lparr>ets_phase2 := True\<rparr>\<rparr>))
          else do {
            (rc, s) \<leftarrow> eap_tls_request alloc s;
            Some (UNLANG_ACTION_CALCULATE_RESULT, set_state EAP_TLS_HANDLED s) } }
      | _ \<Rightarrow> Some (UNLANG_ACTION_CALCULATE_RESULT, s)) }"

text \<open>Here \<open>fr_tls_session_async_handshake_push\<close> only pushes a frame: nothing of the session has changed when its result is tested, and the interpreter pops the frame without
running it, because the function does not return \<open>UNLANG_ACTION_PUSHED_CHILD\<close>.\<close>

definition eap_tls_handshake_resume :: "tls_env \<Rightarrow> bool \<Rightarrow> tls_eap_session \<Rightarrow> tls_eap_session option" where
  "eap_tls_handshake_resume env alloc s = do {
     t \<leftarrow> ets_tls_session (es_opaque s);
     (case ts_result t of
        FR_TLS_RESULT_IN_PROGRESS \<Rightarrow> Some s
      | FR_TLS_RESULT_ERROR \<Rightarrow> Some (set_state EAP_TLS_FAIL (set_tls (env_cache_deny env t) s))
      | FR_TLS_RESULT_SUCCESS \<Rightarrow> do {
          let reused = env_session_reused env (ts_ssl t);
          let commit = (ts_version t = TLS1_3_VERSION \<and>
                        (ts_client_cert_ok t \<or> ets_authentication_success (es_opaque s) \<or> reused));
          (t, s) \<leftarrow> (if commit \<and> (es_type s = FR_EAP_METHOD_TLS \<or> reused) then do {
                         (added, r) \<leftarrow> record_from_buff (ts_clean_in t) [0] 1;
                         Some (t\<lparr>ts_clean_in := r\<rparr>,
                               s\<lparr>es_opaque := (es_opaque s)\<lparr>ets_authentication_success := True\<rparr>\<rparr>) }
                       else Some (t, s));
          if commit \<and> ts_result t \<noteq> FR_TLS_RESULT_SUCCESS then
            Some (set_state EAP_TLS_FAIL (set_tls (env_cache_deny env t) s))
          else do {
            let s = set_tls t s;
            if 0 < rec_used (ts_dirty_out t) then do {
              (rc, s) \<leftarrow> eap_tls_request alloc s;
              Some (set_state EAP_TLS_HANDLED s) }
            else if ets_phase2 (es_opaque s) \<or> env_init_finished env (ts_ssl t) then
              Some (set_state EAP_TLS_ESTABLISHED
                     (set_tls (t\<lparr>ts_content_type := SSL3_RT_APPLICATION_DATA\<rparr>)
                       (s\<lparr>es_opaque := (es_opaque s)\<lparr>ets_phase2 := True\<rparr>\<rparr>)))
            else Some (set_state EAP_TLS_FAIL s) } }) }"

subsection \<open>Record buffers hold byte strings\<close>

definition rec_ok :: "tls_record \<Rightarrow> bool" where
  "rec_ok r \<longleftrightarrow> length (rec_data r) = FR_TLS_MAX_RECORD_SIZE \<and> rec_used r \<le> FR_TLS_MAX_RECORD_SIZE"

definition rec_contents :: "tls_record \<Rightarrow> bytes" where
  "rec_contents r = take (rec_used r) (rec_data r)"

lemma length_rec_contents [simp]: "rec_ok r \<Longrightarrow> length (rec_contents r) = rec_used r"
  by (simp add: rec_ok_def rec_contents_def)

lemma rec_used_contents: "rec_ok r \<Longrightarrow> rec_used r = length (rec_contents r)"
  by simp

lemma record_from_buff_ok:
  assumes ok: "rec_ok r" and inp: "inlen \<le> length inp"
  defines "added \<equiv> min inlen (FR_TLS_MAX_RECORD_SIZE - rec_used r)"
  obtains r' where "record_from_buff r inp inlen = Some (added, r')" "rec_ok r'"
    "rec_contents r' = rec_contents r @ take added inp"
proof -
  have room: "(FR_TLS_MAX_RECORD_SIZE + 2 ^ 32 - rec_used r) mod 2 ^ 32 = FR_TLS_MAX_RECORD_SIZE - rec_used r"
  proof -
    have "FR_TLS_MAX_RECORD_SIZE + 2 ^ 32 - rec_used r = (FR_TLS_MAX_RECORD_SIZE - rec_used r) + 2 ^ 32"
      using ok by (simp add: rec_ok_def)
    moreover have "(FR_TLS_MAX_RECORD_SIZE - rec_used r + 2 ^ 32) mod 2 ^ 32 = FR_TLS_MAX_RECORD_SIZE - rec_used r"
      by (simp only: mod_add_self2) simp
    ultimately show ?thesis by metis
  qed
  have add: "(if inlen < FR_TLS_MAX_RECORD_SIZE - rec_used r then inlen else FR_TLS_MAX_RECORD_SIZE - rec_used r) = added"
    by (simp add: added_def)
  show thesis
  proof (cases "added = 0")
    case True
    have "record_from_buff r inp inlen = Some (added, r)"
      unfolding record_from_buff_def room Let_def add using True by simp
    then show thesis using True ok by (intro that [of r]) simp_all
  next
    case False
    have b: "added \<le> length inp" "rec_used r + added \<le> length (rec_data r)"
      using ok inp by (auto simp: added_def rec_ok_def min_def)
    let ?r = "r\<lparr>rec_data := patch (rec_data r) (rec_used r) (take added inp), rec_used := rec_used r + added\<rparr>"
    have "record_from_buff r inp inlen = Some (added, ?r)"
      unfolding record_from_buff_def room Let_def add using False b by (simp add: chunk_def)
    moreover have "rec_ok ?r" using ok b by (simp add: rec_ok_def)
    moreover have "rec_contents ?r = rec_contents r @ take added inp"
      using b by (simp add: rec_contents_def patch_def min_def)
    ultimately show thesis by (rule that)
  qed
qed

lemma record_to_buff_ok:
  assumes ok: "rec_ok r"
  obtains r' where "record_to_buff r outlen = Some (take outlen (rec_contents r), r')" "rec_ok r'"
    "rec_contents r' = drop outlen (rec_contents r)"
proof -
  define taken where "taken = (if outlen < rec_used r then outlen else rec_used r)"
  have t: "taken \<le> rec_used r" "take outlen (rec_contents r) = take taken (rec_data r)"
    "drop outlen (rec_contents r) = drop taken (rec_contents r)"
    by (auto simp: taken_def rec_contents_def min_def)
  have b: "rec_used r \<le> length (rec_data r)" using ok by (simp add: rec_ok_def)
  have td: "(let taken = rec_used r; taken = if outlen < taken then outlen else taken in f taken) = f taken"
    for f :: "nat \<Rightarrow> (bytes \<times> tls_record) option" by (simp add: taken_def Let_def)
  show thesis
  proof (cases "taken = 0")
    case True
    have "record_to_buff r outlen = Some ([], r)" unfolding record_to_buff_def td using True by simp
    then show thesis using True t ok by (intro that [of r]) simp_all
  next
    case False
    define r' where "r' = r\<lparr>rec_data := (if 0 < rec_used r - taken
        then patch (rec_data r) 0 (chunk (rec_data r) taken (rec_used r - taken)) else rec_data r),
      rec_used := rec_used r - taken\<rparr>"
    have "record_to_buff r outlen = Some (take taken (rec_data r), r')"
      unfolding record_to_buff_def td using False b t(1) by (simp add: r'_def chunk_def Let_def)
    moreover have "rec_ok r'" using ok t(1) by (auto simp: r'_def rec_ok_def)
    moreover have "rec_contents r' = drop taken (rec_contents r)"
      using b t(1) by (auto simp: r'_def rec_contents_def patch_def chunk_def drop_take)
    ultimately show thesis using t that by simp
  qed
qed

subsection \<open>Flags\<close>

lemmas flag_defs = TLS_START_def TLS_MORE_FRAGMENTS_def TLS_LENGTH_INCLUDED_def
  SET_START_def SET_MORE_FRAGMENTS_def SET_LENGTH_INCLUDED_def

lemma flag_simps [simp]:
  "TLS_START (SET_MORE_FRAGMENTS x) = TLS_START x"
  "TLS_START (SET_LENGTH_INCLUDED x) = TLS_START x"
  "TLS_MORE_FRAGMENTS (SET_MORE_FRAGMENTS x)"
  "TLS_MORE_FRAGMENTS (SET_LENGTH_INCLUDED x) = TLS_MORE_FRAGMENTS x"
  "TLS_MORE_FRAGMENTS (SET_START x) = TLS_MORE_FRAGMENTS x"
  "TLS_LENGTH_INCLUDED (SET_LENGTH_INCLUDED x)"
  "TLS_LENGTH_INCLUDED (SET_MORE_FRAGMENTS x) = TLS_LENGTH_INCLUDED x"
  "TLS_LENGTH_INCLUDED (SET_START x) = TLS_LENGTH_INCLUDED x"
  by (simp_all add: flag_defs bit.conj_disj_distrib2)

lemma flags_c0: "(x :: byte) AND 0xc0 = 0 \<longleftrightarrow> \<not> TLS_MORE_FRAGMENTS x \<and> \<not> TLS_LENGTH_INCLUDED x"
proof -
  have "x AND 0xc0 = (x AND 0x40) OR (x AND 0x80)" by (simp flip: bit.conj_disj_distrib)
  then show ?thesis by (simp add: flag_defs or_eq_0_iff)
qed


subsection \<open>What is sent\<close>

text \<open>The fragment of a record \<open>R\<close> that goes out, as a function of the settings: whether more follow,
  whether the length is included, how much of the record is taken, the flags and the EAP-TLS data.\<close>

definition frag_more :: "bool \<Rightarrow> nat \<Rightarrow> nat \<Rightarrow> bool" where
  "frag_more inc mtu n \<longleftrightarrow> mtu < n + (if inc then 4 else 0)"

definition frag_lbit :: "bool \<Rightarrow> nat \<Rightarrow> bool \<Rightarrow> nat \<Rightarrow> bool" where
  "frag_lbit inc mtu started n \<longleftrightarrow> inc \<or> frag_more inc mtu n \<and> \<not> started"

definition frag_take :: "bool \<Rightarrow> nat \<Rightarrow> bool \<Rightarrow> nat \<Rightarrow> nat" where
  "frag_take inc mtu started n =
     (if frag_more inc mtu n then if frag_lbit inc mtu started n then mtu - 4 else mtu else n)"

definition frag_flags :: "byte \<Rightarrow> bool \<Rightarrow> nat \<Rightarrow> bool \<Rightarrow> nat \<Rightarrow> byte" where
  "frag_flags base inc mtu started n =
     (let f = (if frag_more inc mtu n then SET_MORE_FRAGMENTS base else base)
      in if frag_lbit inc mtu started n then SET_LENGTH_INCLUDED f else f)"

definition frag_data :: "byte \<Rightarrow> bool \<Rightarrow> nat \<Rightarrow> bool \<Rightarrow> nat \<Rightarrow> bytes \<Rightarrow> bytes" where
  "frag_data base inc mtu started tot R =
     frag_flags base inc mtu started (length R) #
     (if frag_lbit inc mtu started (length R) then put32 tot else []) @
     take (frag_take inc mtu started (length R)) R"

definition plain_flags :: "byte \<Rightarrow> bool" where
  "plain_flags f \<longleftrightarrow> \<not> TLS_START f \<and> \<not> TLS_MORE_FRAGMENTS f \<and> \<not> TLS_LENGTH_INCLUDED f"

lemma frag_flags_simps [simp]:
  assumes "plain_flags base"
  shows "\<not> TLS_START (frag_flags base inc mtu started n)"
    "TLS_MORE_FRAGMENTS (frag_flags base inc mtu started n) = frag_more inc mtu n"
    "TLS_LENGTH_INCLUDED (frag_flags base inc mtu started n) = frag_lbit inc mtu started n"
  using assms by (simp_all add: plain_flags_def frag_flags_def Let_def)

lemma frag_take_le: "4 \<le> mtu \<Longrightarrow> frag_take inc mtu started n \<le> n"
  by (auto simp: frag_take_def frag_more_def frag_lbit_def split: if_splits)

lemma frag_take_bounds:
  assumes "5 \<le> mtu" "0 < n"
  shows "0 < frag_take inc mtu started n" "frag_take inc mtu started n \<le> n"
    "frag_more inc mtu n \<longleftrightarrow> frag_take inc mtu started n < n"
  using assms by (auto simp: frag_take_def frag_more_def frag_lbit_def split: if_splits)

lemma compose_record_ok:
  assumes t: "ets_tls_session (es_opaque s) = Some t" and ok: "rec_ok (ts_dirty_out t)"
    and k: "frag_len \<le> rec_used (ts_dirty_out t)"
  obtains r' where
    "eap_tls_compose True s EAP_TLS_RECORD_SEND flags True tot frag_len =
       Some (0, set_request ((rd_request (es_this_round s))
          \<lparr>pk_type_data := Some (flags # (if TLS_LENGTH_INCLUDED flags then put32 tot else []) @
                               take frag_len (rec_contents (ts_dirty_out t))),
           pk_type_length := 1 + (if TLS_LENGTH_INCLUDED flags then 4 else 0) + frag_len,
           pk_code := FR_EAP_CODE_REQUEST\<rparr>)
         (set_tls (t\<lparr>ts_dirty_out := r'\<rparr>) s))"
    "rec_ok r'" "rec_contents r' = drop frag_len (rec_contents (ts_dirty_out t))"
proof -
  obtain r' where r': "record_to_buff (ts_dirty_out t) frag_len = Some (take frag_len (rec_contents (ts_dirty_out t)), r')"
    "rec_ok r'" "rec_contents r' = drop frag_len (rec_contents (ts_dirty_out t))"
    using record_to_buff_ok [OF ok] by metis
  have fm: "frag_len mod 4294967296 = frag_len" "(5 + frag_len) mod 18446744073709551616 = 5 + frag_len"
    "Suc frag_len mod 18446744073709551616 = Suc frag_len"
    using k ok by (simp_all add: rec_ok_def)
  have len: "length (take frag_len (rec_contents (ts_dirty_out t))) = frag_len" using k ok by simp
  have "eap_tls_compose True s EAP_TLS_RECORD_SEND flags True tot frag_len =
       Some (0, set_request ((rd_request (es_this_round s))
          \<lparr>pk_type_data := Some (flags # (if TLS_LENGTH_INCLUDED flags then put32 tot else []) @
                               take frag_len (rec_contents (ts_dirty_out t))),
           pk_type_length := 1 + (if TLS_LENGTH_INCLUDED flags then 4 else 0) + frag_len,
           pk_code := FR_EAP_CODE_REQUEST\<rparr>)
         (set_tls (t\<lparr>ts_dirty_out := r'\<rparr>) s))"
  proof (cases "TLS_LENGTH_INCLUDED flags")
    case True
    have p: "patch (replicate (5 + frag_len) 0) 0 [flags] = flags # replicate (4 + frag_len) (0 :: byte)"
      by (simp add: patch_def)
    have q: "patch (flags # replicate (4 + frag_len) (0 :: byte)) (Suc 0) (put32 tot) =
      flags # put32 tot @ replicate frag_len 0"
      by (simp add: patch_def)
    have u: "patch (flags # put32 tot @ replicate frag_len 0) 5 v = flags # put32 tot @ v"
      if "length v = frag_len" for v :: bytes
      using that by (simp add: patch_def take_Cons drop_Cons split: nat.split)
    show ?thesis
      using True t len by (simp add: eap_tls_compose_def compose_len_def compose_eap_code_def Let_def fm r'(1) p q u)
  next
    case False
    have p: "patch (0 # replicate frag_len 0) 0 [flags] = flags # replicate frag_len (0 :: byte)"
      by (simp add: patch_def)
    have u: "patch (flags # replicate frag_len 0) (Suc 0) v = flags # v" if "length v = frag_len" for v :: bytes
      using that by (simp add: patch_def)
    show ?thesis
      using False t len by (simp add: eap_tls_compose_def compose_len_def compose_eap_code_def Let_def fm r'(1) p u)
  qed
  then show thesis using r'(2,3) by (rule that)
qed


text \<open>The sender: its record, and the settings the fragmentation depends on.\<close>

abbreviation base_of :: "tls_eap_session \<Rightarrow> byte" where
  "base_of s \<equiv> ucast (ets_base_flags (es_opaque s))"

abbreviation sent_data :: "tls_eap_session \<Rightarrow> bytes option" where
  "sent_data s \<equiv> pk_type_data (rd_request (es_this_round s))"

definition sending :: "tls_eap_session \<Rightarrow> byte \<Rightarrow> bool \<Rightarrow> nat \<Rightarrow> bool \<Rightarrow> nat \<Rightarrow> bytes \<Rightarrow> bool" where
  "sending s base inc mtu started tot R \<longleftrightarrow>
     (\<exists>t. ets_tls_session (es_opaque s) = Some t \<and> rec_ok (ts_dirty_out t) \<and>
          rec_contents (ts_dirty_out t) = R \<and> ts_mtu t = mtu \<and> base_of s = base \<and>
          ets_include_length (es_opaque s) = inc \<and> ets_record_out_started (es_opaque s) = started \<and>
          (started \<longrightarrow> ets_record_out_total_len (es_opaque s) = tot) \<and> (\<not> started \<longrightarrow> tot = length R))"

lemma eap_tls_request_ok:
  assumes snd: "sending s base inc mtu started tot R" and base: "plain_flags base"
    and mtu: "4 \<le> mtu" "mtu < 2 ^ 64"
  obtains s' r' where "eap_tls_request True s = Some (0, s')"
    "es_opaque s' = (es_opaque s)\<lparr>ets_record_out_total_len := tot, ets_record_out_started := frag_more inc mtu (length R),
       ets_tls_session := Some ((the (ets_tls_session (es_opaque s)))\<lparr>ts_dirty_out := r'\<rparr>)\<rparr>" "rec_ok r'"
    "sent_data s' = Some (frag_data base inc mtu started tot R)"
    "pk_code (rd_request (es_this_round s')) = FR_EAP_CODE_REQUEST"
    "pk_type_length (rd_request (es_this_round s')) = length (frag_data base inc mtu started tot R)"
    "ets_record_out_started (es_opaque s') = frag_more inc mtu (length R)"
    "frag_more inc mtu (length R) \<Longrightarrow>
       sending s' base inc mtu True tot (drop (frag_take inc mtu started (length R)) R)"
proof -
  let ?n = "length R" and ?e = "es_opaque s"
  obtain t where t: "ets_tls_session ?e = Some t" "rec_ok (ts_dirty_out t)" "rec_contents (ts_dirty_out t) = R"
      "ts_mtu t = mtu" and e: "base_of s = base" "ets_include_length ?e = inc" "ets_record_out_started ?e = started"
      "started \<longrightarrow> ets_record_out_total_len ?e = tot" "\<not> started \<longrightarrow> tot = ?n"
    using snd by (auto simp: sending_def)
  have used: "rec_used (ts_dirty_out t) = ?n" using t(2,3) by (simp add: rec_used_contents)
  let ?k = "frag_take inc mtu started ?n" and ?f = "frag_flags base inc mtu started ?n"
  let ?e' = "?e\<lparr>ets_record_out_total_len := tot, ets_record_out_started := frag_more inc mtu ?n\<rparr>"
  have w: "(18446744073709551612 + mtu) mod 18446744073709551616 = mtu - 4"
  proof -
    have "18446744073709551612 + mtu = (mtu - 4) + 18446744073709551616" using mtu by simp
    then show ?thesis using mtu by (simp only: mod_add_self2) simp
  qed
  have e': "?e\<lparr>ets_record_out_total_len := tot, ets_record_out_started := b\<rparr> = ?e\<lparr>ets_record_out_started := b\<rparr>"
    if "started" for b
    using e(4) that by (cases ?e) simp
  have red: "eap_tls_request True s =
      eap_tls_compose True (s\<lparr>es_opaque := ?e'\<rparr>) EAP_TLS_RECORD_SEND ?f True tot ?k"
    using t(1,4) e used w
    by (cases started) (simp_all add: e' eap_tls_request_def Let_def frag_flags_def frag_take_def frag_lbit_def frag_more_def)
  have k: "?k \<le> rec_used (ts_dirty_out t)" using frag_take_le [OF mtu(1)] used by simp
  obtain r' where r': "eap_tls_compose True (s\<lparr>es_opaque := ?e'\<rparr>) EAP_TLS_RECORD_SEND ?f True tot ?k =
      Some (0, set_request ((rd_request (es_this_round s))
          \<lparr>pk_type_data := Some (?f # (if TLS_LENGTH_INCLUDED ?f then put32 tot else []) @ take ?k R),
           pk_type_length := 1 + (if TLS_LENGTH_INCLUDED ?f then 4 else 0) + ?k,
           pk_code := FR_EAP_CODE_REQUEST\<rparr>)
         (set_tls (t\<lparr>ts_dirty_out := r'\<rparr>) (s\<lparr>es_opaque := ?e'\<rparr>)))"
    "rec_ok r'" "rec_contents r' = drop ?k R"
    using compose_record_ok [of "s\<lparr>es_opaque := ?e'\<rparr>" t ?k ?f tot] t k by auto
  show thesis
  proof (rule that)
    show "eap_tls_request True s = Some (0, set_request ((rd_request (es_this_round s))
          \<lparr>pk_type_data := Some (?f # (if TLS_LENGTH_INCLUDED ?f then put32 tot else []) @ take ?k R),
           pk_type_length := 1 + (if TLS_LENGTH_INCLUDED ?f then 4 else 0) + ?k,
           pk_code := FR_EAP_CODE_REQUEST\<rparr>)
         (set_tls (t\<lparr>ts_dirty_out := r'\<rparr>) (s\<lparr>es_opaque := ?e'\<rparr>)))"
      unfolding red by (rule r')
    show "rec_ok r'" by (rule r')
  qed (use k used r' e t base in \<open>simp_all add: frag_data_def sending_def\<close>)
qed


subsection \<open>What is received\<close>

text \<open>The next response of the peer, with the EAP-TLS data \<open>d\<close>.\<close>

definition deliver :: "bytes \<Rightarrow> tls_eap_session \<Rightarrow> tls_eap_session" where
  "deliver d s = s\<lparr>es_this_round := (es_this_round s)\<lparr>rd_response := (rd_response (es_this_round s))
     \<lparr>pk_length := 5 + length d, pk_type_length := length d, pk_type_data := Some d\<rparr>\<rparr>\<rparr>"

lemma deliver_simps [simp]:
  "es_opaque (deliver d s) = es_opaque s"
  "pk_length (rd_response (es_this_round (deliver d s))) = 5 + length d"
  "pk_type_length (rd_response (es_this_round (deliver d s))) = length d"
  "pk_type_data (rd_response (es_this_round (deliver d s))) = Some d"
  by (simp_all add: deliver_def)

definition receiving :: "tls_eap_session \<Rightarrow> bool \<Rightarrow> nat \<Rightarrow> bytes \<Rightarrow> bool" where
  "receiving s started tot got \<longleftrightarrow>
     (\<exists>t. ets_tls_session (es_opaque s) = Some t \<and> rec_ok (ts_dirty_in t) \<and>
          rec_contents (ts_dirty_in t) = got \<and> \<not> TLS_LENGTH_INCLUDED (base_of s)) \<and>
     ets_record_in_started (es_opaque s) = started \<and>
     (started \<longrightarrow> ets_record_in_total_len (es_opaque s) = tot \<and> ets_record_in_recvd_len (es_opaque s) = length got)"

text \<open>The data of a fragment: flags, the announced length when the L bit is set, payload.\<close>

definition tls_data :: "byte \<Rightarrow> nat \<Rightarrow> bytes \<Rightarrow> bytes" where
  "tls_data f tot x = f # (if TLS_LENGTH_INCLUDED f then put32 tot else []) @ x"

lemma frag_data_tls_data:
  "plain_flags base \<Longrightarrow> frag_data base inc mtu started tot R =
     tls_data (frag_flags base inc mtu started (length R)) tot (take (frag_take inc mtu started (length R)) R)"
  by (simp add: frag_data_def tls_data_def)

lemma tls_data_simps:
  "tls_data f tot x ! 0 = f" "tls_data f tot x \<noteq> []"
  "length (tls_data f tot x) = (if TLS_LENGTH_INCLUDED f then 5 else 1) + length x"
  "drop (if TLS_LENGTH_INCLUDED f then 5 else 1) (tls_data f tot x) = x"
  by (simp_all add: tls_data_def drop_Cons')

lemma put32_low: "n < 65536 \<Longrightarrow> nbo16 (put32 n ! 2) (put32 n ! 3) = n"
  using nbo16_put16 [of n] by (simp add: put32_def)

lemma tls_data_length_field:
  "TLS_LENGTH_INCLUDED f \<Longrightarrow> tot < 65536 \<Longrightarrow> rd_nbo16 (tls_data f tot x) 3 = Some tot"
  using put32_low [of tot] by (simp add: tls_data_def nth_append nth_Cons')

lemma process_fragment_deliver:
  "length x < 2 ^ 64 - 5 \<Longrightarrow>
   process_fragment (rd_response (es_this_round (deliver (tls_data f tot x) s))) = Some (x, length x)"
  using tls_data_simps [of f tot x]
  by (cases "TLS_LENGTH_INCLUDED f") (auto simp: process_fragment_def mod_if)

lemma ack_ok:
  assumes "\<not> TLS_LENGTH_INCLUDED (base_of s)"
  shows "eap_tls_ack True s = Some (0, set_request ((rd_request (es_this_round s))
     \<lparr>pk_type_data := Some [base_of s], pk_type_length := 1, pk_code := FR_EAP_CODE_REQUEST\<rparr>) s)"
  using assms by (simp add: eap_tls_ack_def eap_tls_compose_def compose_len_def compose_eap_code_def patch_def)

text \<open>Verification of a nonempty fragment that is not a Start.\<close>

lemma eap_tls_verify_deliver:
  assumes "x \<noteq> []" "\<not> TLS_START f" "tot < 65536"
  shows "eap_tls_verify env (deliver (tls_data f tot x) s) =
     (let (status, e) = (if TLS_LENGTH_INCLUDED f then verify_length (es_opaque s) f tot (length x)
                         else verify_fragment (es_opaque s) f (length x))
      in Some (status, (deliver (tls_data f tot x) s)\<lparr>es_opaque := e\<rparr>))"
  using assms tls_data_length_field [of f tot x]
  by (cases "TLS_LENGTH_INCLUDED f") (auto simp: eap_tls_verify_def Let_def tls_data_simps split: prod.splits)


text \<open>A received fragment that fits is appended to the record.\<close>

lemma received_fits:
  assumes rec: "receiving s started tot got" and fits: "length got + length x \<le> FR_TLS_MAX_RECORD_SIZE"
    and e: "ets_tls_session e = ets_tls_session (es_opaque s)"
  obtains t r where
    "ets_tls_session e = Some t" "rec_ok r" "rec_contents r = got @ x"
    "process_received env True status ((deliver (tls_data f tot x) s)\<lparr>es_opaque := e\<rparr>) =
      (let s' = set_tls (t\<lparr>ts_dirty_in := r\<rparr>) ((deliver (tls_data f tot x) s)\<lparr>es_opaque := e\<rparr>) in
       if status \<noteq> EAP_TLS_RECORD_RECV_COMPLETE then do {
         (rc, s) \<leftarrow> eap_tls_ack True s';
         Some (UNLANG_ACTION_CALCULATE_RESULT, set_state EAP_TLS_HANDLED s) }
       else process_complete env s')"
proof -
  obtain t where t: "ets_tls_session (es_opaque s) = Some t" "rec_ok (ts_dirty_in t)" "rec_contents (ts_dirty_in t) = got"
    using rec by (auto simp: receiving_def)
  have used: "rec_used (ts_dirty_in t) = length got" using t(2,3) by (simp add: rec_used_contents)
  have room: "min (length x) (FR_TLS_MAX_RECORD_SIZE - rec_used (ts_dirty_in t)) = length x" using fits used by simp
  obtain r where r: "record_from_buff (ts_dirty_in t) x (length x) = Some (length x, r)" "rec_ok r" "rec_contents r = got @ x"
    using record_from_buff_ok [OF t(2) order_refl [of "length x"]] unfolding room t(3) by auto
  have x: "length x mod 4294967296 = length x" "length x < 2 ^ 64 - 5" using fits by simp_all
  note pf = process_fragment_deliver [OF x(2), of f tot s]
  show thesis
  proof (rule that [OF _ r(2,3)])
    show et: "ets_tls_session e = Some t" using t(1) e by simp
    show "process_received env True status ((deliver (tls_data f tot x) s)\<lparr>es_opaque := e\<rparr>) =
      (let s' = set_tls (t\<lparr>ts_dirty_in := r\<rparr>) ((deliver (tls_data f tot x) s)\<lparr>es_opaque := e\<rparr>) in
       if status \<noteq> EAP_TLS_RECORD_RECV_COMPLETE then do {
         (rc, s) \<leftarrow> eap_tls_ack True s';
         Some (UNLANG_ACTION_CALCULATE_RESULT, set_state EAP_TLS_HANDLED s) }
       else process_complete env s')"
      by (simp add: process_received_def pf Let_def et x(1) r(1))
  qed
qed

lemma eap_tls_process_more:
  assumes rec: "receiving s started tot got" and f: "TLS_MORE_FRAGMENTS f" "\<not> TLS_START f" "started \<or> TLS_LENGTH_INCLUDED f \<and> got = []"
    and x: "x \<noteq> []" "length got + length x \<le> tot" and tot: "tot \<le> FR_TLS_MAX_RECORD_SIZE"
  obtains s' where "eap_tls_process env True (deliver (tls_data f tot x) s) = Some (UNLANG_ACTION_CALCULATE_RESULT, s')"
    "ets_state (es_opaque s') = EAP_TLS_HANDLED" "receiving s' True tot (got @ x)"
    "sent_data s' = Some [base_of s']"
proof -
  define status where "status = (if started then EAP_TLS_RECORD_RECV_MORE else EAP_TLS_RECORD_RECV_FIRST)"
  define e where "e = (es_opaque s)\<lparr>ets_record_in_started := True, ets_record_in_total_len := tot,
      ets_record_in_recvd_len := length got + length x\<rparr>"
  have st: "status \<noteq> EAP_TLS_RECORD_RECV_COMPLETE" by (simp add: status_def)
  have v: "eap_tls_verify env (deliver (tls_data f tot x) s) = Some (status, (deliver (tls_data f tot x) s)\<lparr>es_opaque := e\<rparr>)"
    using rec f x tot
    by (cases started; cases "es_opaque s")
       (simp_all add: eap_tls_verify_deliver verify_length_def verify_fragment_def receiving_def e_def status_def Let_def)
  have p: "eap_tls_process env True (deliver (tls_data f tot x) s) =
      process_received env True status ((deliver (tls_data f tot x) s)\<lparr>es_opaque := e\<lparr>ets_state := status\<rparr>\<rparr>)"
    by (simp add: eap_tls_process_def v) (simp add: status_def)
  have fits: "length got + length x \<le> FR_TLS_MAX_RECORD_SIZE" using x tot by simp
  have et: "ets_tls_session (e\<lparr>ets_state := st\<rparr>) = ets_tls_session (es_opaque s)" for st by (simp add: e_def)
  obtain t r where r: "ets_tls_session (e\<lparr>ets_state := status\<rparr>) = Some t" "rec_ok r" "rec_contents r = got @ x"
    "process_received env True status ((deliver (tls_data f tot x) s)\<lparr>es_opaque := e\<lparr>ets_state := status\<rparr>\<rparr>) =
      (let s' = set_tls (t\<lparr>ts_dirty_in := r\<rparr>) ((deliver (tls_data f tot x) s)\<lparr>es_opaque := e\<lparr>ets_state := status\<rparr>\<rparr>) in
       if status \<noteq> EAP_TLS_RECORD_RECV_COMPLETE then do {
         (rc, s) \<leftarrow> eap_tls_ack True s';
         Some (UNLANG_ACTION_CALCULATE_RESULT, set_state EAP_TLS_HANDLED s) }
       else process_complete env s')"
    using received_fits [OF rec fits, of "e\<lparr>ets_state := status\<rparr>" env status f] et by (simp only:) blast
  have base: "\<not> TLS_LENGTH_INCLUDED (ucast (ets_base_flags e) :: byte)" using rec by (auto simp: receiving_def e_def)
  show thesis
    by (rule that) (use p r st base in \<open>simp_all add: ack_ok receiving_def Let_def\<close>, simp_all add: e_def)
qed

lemma eap_tls_process_last:
  assumes rec: "receiving s started tot got" and f: "\<not> TLS_MORE_FRAGMENTS f" "\<not> TLS_START f" "started \<or> got = []"
    and x: "x \<noteq> []" "length got + length x = tot" and tot: "tot \<le> FR_TLS_MAX_RECORD_SIZE"
  obtains s' where "eap_tls_process env True (deliver (tls_data f tot x) s) = process_complete env s'"
    "receiving s' False tot (got @ x)"
proof -
  let ?st = EAP_TLS_RECORD_RECV_COMPLETE
  define e where "e = (if started then (es_opaque s)\<lparr>ets_record_in_started := False, ets_record_in_recvd_len := tot\<rparr> else es_opaque s)"
  have v: "eap_tls_verify env (deliver (tls_data f tot x) s) = Some (?st, (deliver (tls_data f tot x) s)\<lparr>es_opaque := e\<rparr>)"
    using rec f x tot
    by (cases started; cases "es_opaque s")
       (auto simp: eap_tls_verify_deliver verify_length_def verify_fragment_def receiving_def e_def Let_def)
  have p: "eap_tls_process env True (deliver (tls_data f tot x) s) =
      process_received env True ?st ((deliver (tls_data f tot x) s)\<lparr>es_opaque := e\<lparr>ets_state := ?st\<rparr>\<rparr>)"
    by (simp add: eap_tls_process_def v)
  have fits: "length got + length x \<le> FR_TLS_MAX_RECORD_SIZE" using x tot by simp
  have et: "ets_tls_session (e\<lparr>ets_state := st\<rparr>) = ets_tls_session (es_opaque s)" for st by (simp add: e_def)
  obtain t r where r: "ets_tls_session (e\<lparr>ets_state := ?st\<rparr>) = Some t" "rec_ok r" "rec_contents r = got @ x"
    "process_received env True ?st ((deliver (tls_data f tot x) s)\<lparr>es_opaque := e\<lparr>ets_state := ?st\<rparr>\<rparr>) =
      process_complete env (set_tls (t\<lparr>ts_dirty_in := r\<rparr>) ((deliver (tls_data f tot x) s)\<lparr>es_opaque := e\<lparr>ets_state := ?st\<rparr>\<rparr>))"
    using received_fits [OF rec fits, of "e\<lparr>ets_state := ?st\<rparr>" env ?st f] et
    by (simp only: Let_def if_not_P not_not simp_thms if_False) blast
  have e': "\<not> TLS_LENGTH_INCLUDED (ucast (ets_base_flags e) :: byte)" "\<not> ets_record_in_started e"
    using rec by (auto simp: receiving_def e_def)
  show thesis
    by (rule that [OF p [unfolded r(4)]]) (use r e' in \<open>simp add: receiving_def\<close>)
qed


subsection \<open>A whole record\<close>

text \<open>The data of the requests a record goes out in, one call of \<open>eap_tls_request\<close> after another until
  no fragment remains, and the processing of such a sequence, where each but the last has to be
  acknowledged.\<close>

fun send_record :: "nat \<Rightarrow> tls_eap_session \<Rightarrow> bytes list option" where
  "send_record 0 s = None"
| "send_record (Suc fuel) s = do {
     (rc, s) \<leftarrow> eap_tls_request True s;
     d \<leftarrow> sent_data s;
     if rc < 0 then None
     else if ets_record_out_started (es_opaque s) then do { ds \<leftarrow> send_record fuel s; Some (d # ds) }
     else Some [d] }"

fun recv_record :: "tls_env \<Rightarrow> tls_eap_session \<Rightarrow> bytes list \<Rightarrow> (unlang_action \<times> tls_eap_session) option" where
  "recv_record env s [] = None"
| "recv_record env s [d] = eap_tls_process env True (deliver d s)"
| "recv_record env s (d # ds) = do {
     (action, s) \<leftarrow> eap_tls_process env True (deliver d s);
     if action = UNLANG_ACTION_CALCULATE_RESULT \<and> ets_state (es_opaque s) = EAP_TLS_HANDLED
     then recv_record env s ds else None }"

lemma record_transfer:
  assumes "sending s base inc mtu started tot R" "receiving p started tot got" "started \<or> got = []"
    and "length got + length R = tot" "0 < length R" "length R \<le> fuel"
    and base: "plain_flags base" and mtu: "5 \<le> mtu" "mtu < 2 ^ 64" and tot: "tot \<le> FR_TLS_MAX_RECORD_SIZE"
  shows "\<exists>ds p'. send_record fuel s = Some ds \<and> ds \<noteq> [] \<and> recv_record env p ds = process_complete env p' \<and>
    receiving p' False tot (got @ R) \<and> (\<forall>d \<in> set ds. length d \<le> 1 + mtu)"
  using assms(1-6)
proof (induction fuel arbitrary: s p started got R)
  case 0
  then show ?case by simp
next
  case (Suc fuel)
  let ?n = "length R" and ?k = "frag_take inc mtu started (length R)" and ?f = "frag_flags base inc mtu started (length R)"
  note k = frag_take_bounds [OF mtu(1) Suc.prems(5), of inc started]
  have mtu4: "4 \<le> mtu" using mtu(1) by simp
  obtain s' where s': "eap_tls_request True s = Some (0, s')" "sent_data s' = Some (tls_data ?f tot (take ?k R))"
      "ets_record_out_started (es_opaque s') = frag_more inc mtu ?n"
      "frag_more inc mtu ?n \<Longrightarrow> sending s' base inc mtu True tot (drop ?k R)"
    using eap_tls_request_ok [OF Suc.prems(1) base mtu4 mtu(2)] unfolding frag_data_tls_data [OF base] by metis
  have small: "length (tls_data ?f tot (take ?k R)) \<le> 1 + mtu"
    using mtu base by (auto simp: tls_data_simps frag_take_def frag_lbit_def frag_more_def)
  have x: "take ?k R \<noteq> []" using k Suc.prems(5) by auto
  show ?case
  proof (cases "frag_more inc mtu ?n")
    case True
    have lb: "started \<or> TLS_LENGTH_INCLUDED ?f \<and> got = []"
      using True Suc.prems(3) base by (auto simp: frag_lbit_def)
    have le: "length got + length (take ?k R) \<le> tot" using k Suc.prems(4) by simp
    obtain p' where p': "eap_tls_process env True (deliver (tls_data ?f tot (take ?k R)) p) = Some (UNLANG_ACTION_CALCULATE_RESULT, p')"
        "ets_state (es_opaque p') = EAP_TLS_HANDLED" "receiving p' True tot (got @ take ?k R)"
      using eap_tls_process_more [OF Suc.prems(2) _ _ lb x le tot, of env] True base by auto
    have "\<exists>ds q. send_record fuel s' = Some ds \<and> ds \<noteq> [] \<and> recv_record env p' ds = process_complete env q \<and>
        receiving q False tot ((got @ take ?k R) @ drop ?k R) \<and> (\<forall>d \<in> set ds. length d \<le> 1 + mtu)"
      by (rule Suc.IH [OF s'(4) [OF True] p'(3)]) (use k True Suc.prems in auto)
    then obtain ds q where q: "send_record fuel s' = Some ds" "ds \<noteq> []" "recv_record env p' ds = process_complete env q"
        "receiving q False tot (got @ R)" "\<forall>d \<in> set ds. length d \<le> 1 + mtu"
      by auto
    obtain d ds' where ds: "ds = d # ds'" using q(2) by (cases ds) auto
    show ?thesis
      by (rule exI [of _ "tls_data ?f tot (take ?k R) # ds"], rule exI [of _ q])
         (use s'(1-3) True q p' small in \<open>simp add: ds\<close>)
  next
    case False
    then have R: "take ?k R = R" using k by simp
    obtain p' where p': "eap_tls_process env True (deliver (tls_data ?f tot R) p) = process_complete env p'"
        "receiving p' False tot (got @ R)"
      using eap_tls_process_last [OF Suc.prems(2) _ _ Suc.prems(3) _ Suc.prems(4) tot, of ?f env] False base Suc.prems(5) by auto
    show ?thesis
      by (rule exI [of _ "[tls_data ?f tot R]"], rule exI [of _ p']) (use s'(1-3) False p' small R in simp)
  qed
qed




subsection \<open>Any peer\<close>

text \<open>What the receiver keeps while a peer sends what it likes: the buffers are intact, and
  \<open>dirty_in\<close> holds as much as was counted, never more than was announced.\<close>

definition in_ok :: "eap_tls_session \<Rightarrow> nat \<Rightarrow> bool" where
  "in_ok e used \<longleftrightarrow>
     (if ets_record_in_started e
      then ets_record_in_recvd_len e = used \<and> used \<le> ets_record_in_total_len e \<and>
           ets_record_in_total_len e \<le> FR_TLS_MAX_RECORD_SIZE
      else used = 0)"

definition session_ok :: "eap_tls_session \<Rightarrow> fr_tls_session \<Rightarrow> bool" where
  "session_ok e t \<longleftrightarrow> ets_tls_session e = Some t \<and> rec_ok (ts_dirty_in t) \<and> rec_ok (ts_dirty_out t) \<and>
     4 \<le> ts_mtu t \<and> ts_mtu t < 2 ^ 64 \<and> plain_flags (ucast (ets_base_flags e))"

definition transfer_ok :: "eap_tls_session \<Rightarrow> bool" where
  "transfer_ok e \<longleftrightarrow> (\<exists>t. session_ok e t \<and> in_ok e (rec_used (ts_dirty_in t)))"

abbreviation tls_payload :: "bytes \<Rightarrow> bytes" where
  "tls_payload d \<equiv> drop (if TLS_LENGTH_INCLUDED (d ! 0) then 5 else 1) d"

lemma verify_fragment_in_ok:
  assumes "verify_fragment e f n = (st, e')" "in_ok e u"
  shows "st \<in> {EAP_TLS_RECORD_RECV_FIRST, EAP_TLS_RECORD_RECV_MORE} \<Longrightarrow> in_ok e' (u + n)"
    "session_ok e' t = session_ok e t" "st \<noteq> EAP_TLS_RECORD_SEND"
  using assms by (auto simp: verify_fragment_def in_ok_def session_ok_def Let_def split: if_splits)

lemma verify_length_in_ok:
  assumes "verify_length e f tot n = (st, e')" "in_ok e u"
  shows "st \<in> {EAP_TLS_RECORD_RECV_FIRST, EAP_TLS_RECORD_RECV_MORE} \<Longrightarrow> in_ok e' (u + n)"
    "session_ok e' t = session_ok e t" "st \<noteq> EAP_TLS_RECORD_SEND"
  using assms verify_fragment_in_ok [of e f n st e' u]
  by (auto simp: verify_length_def in_ok_def session_ok_def split: if_splits)

lemma eap_tls_session_status_cases:
  obtains "eap_tls_session_status env s = (EAP_TLS_RECORD_SEND, s)"
  | st s' where "eap_tls_session_status env s = (st, s')" "st \<in> {EAP_TLS_INVALID, EAP_TLS_FAIL, EAP_TLS_ESTABLISHED}"
  by (cases "eap_tls_session_status env s")
     (auto simp: eap_tls_session_status_def split: option.splits if_splits)

text \<open>Verification is safe on every response, and its outcome is one of three: nothing to receive,
  more to send, or a fragment whose payload is in the packet.\<close>

lemma eap_tls_verify_cases:
  fixes s :: tls_eap_session
  assumes ok: "in_ok (es_opaque s) u"
  obtains (stop) st s' where "eap_tls_verify env (deliver d s) = Some (st, s')"
      "st \<in> {EAP_TLS_INVALID, EAP_TLS_FAIL, EAP_TLS_ESTABLISHED}"
  | (send) "eap_tls_verify env (deliver d s) = Some (EAP_TLS_RECORD_SEND, deliver d s)"
  | (recv) st e where "eap_tls_verify env (deliver d s) = Some (st, (deliver d s)\<lparr>es_opaque := e\<rparr>)"
      "st \<in> {EAP_TLS_RECORD_RECV_FIRST, EAP_TLS_RECORD_RECV_MORE, EAP_TLS_RECORD_RECV_COMPLETE}"
      "\<And>t. session_ok e t = session_ok (es_opaque s) t"
      "st \<noteq> EAP_TLS_RECORD_RECV_COMPLETE \<Longrightarrow> in_ok e (u + length (tls_payload d))"
      "d \<noteq> []" "TLS_LENGTH_INCLUDED (d ! 0) \<Longrightarrow> 5 \<le> length d"
proof -
  let ?L = "TLS_LENGTH_INCLUDED (d ! 0)"
  let ?v = "eap_tls_verify env (deliver d s)"
  consider "d = [] \<or> ?L \<and> length d < 5" | "d \<noteq> []" "?L \<longrightarrow> 5 \<le> length d" "length d = 1 \<and> d ! 0 AND 0xc0 = 0"
    | "d \<noteq> []" "?L \<longrightarrow> 5 \<le> length d" "\<not> (length d = 1 \<and> d ! 0 AND 0xc0 = 0)" "TLS_START (d ! 0)"
    | "d \<noteq> []" "?L \<longrightarrow> 5 \<le> length d" "\<not> (length d = 1 \<and> d ! 0 AND 0xc0 = 0)" "\<not> TLS_START (d ! 0)"
    by fastforce
  then show thesis
  proof cases
    case 1
    then have "?v = Some (EAP_TLS_INVALID, deliver d s)" by (cases d) (auto simp: eap_tls_verify_def)
    then show thesis by (rule stop) simp
  next
    case 2
    then have "?v = (case es_prev_round (deliver d s) of None \<Rightarrow> Some (EAP_TLS_INVALID, deliver d s)
        | Some prev \<Rightarrow> if pk_id (rd_request prev) \<noteq> pk_id (rd_response (es_this_round (deliver d s)))
            then Some (EAP_TLS_INVALID, deliver d s) else Some (eap_tls_session_status env (deliver d s)))"
      by (auto simp: eap_tls_verify_def flags_c0)
    with eap_tls_session_status_cases [of env "deliver d s"] stop send show thesis
      by (auto split: option.splits if_splits)
  next
    case 3
    then have "?v = Some (EAP_TLS_INVALID, deliver d s)" by (auto simp: eap_tls_verify_def)
    then show thesis by (rule stop) simp
  next
    case 4
    define n where "n = length (tls_payload d)"
    define r where "r = (if ?L then verify_length (es_opaque s) (d ! 0) (nbo16 (d ! 3) (d ! 4)) n
                         else verify_fragment (es_opaque s) (d ! 0) n)"
    obtain st e where e: "r = (st, e)" by (cases r)
    have v: "?v = Some (st, (deliver d s)\<lparr>es_opaque := e\<rparr>)"
      using 4 e by (cases ?L) (auto simp: eap_tls_verify_def Let_def r_def n_def)
    have i: "st \<in> {EAP_TLS_RECORD_RECV_FIRST, EAP_TLS_RECORD_RECV_MORE} \<Longrightarrow> in_ok e (u + n)"
      "\<And>t. session_ok e t = session_ok (es_opaque s) t" "st \<noteq> EAP_TLS_RECORD_SEND"
      using e verify_length_in_ok [OF _ ok] verify_fragment_in_ok [OF _ ok] unfolding r_def by (metis (full_types))+
    have st: "st \<in> {EAP_TLS_INVALID, EAP_TLS_RECORD_RECV_FIRST, EAP_TLS_RECORD_RECV_MORE, EAP_TLS_RECORD_RECV_COMPLETE}"
      using e by (auto simp: r_def verify_length_def verify_fragment_def Let_def split: if_splits)
    show thesis
    proof (cases "st = EAP_TLS_INVALID")
      case True
      then show thesis using v stop by simp
    next
      case False
      then show thesis using recv [OF v] st i 4(1,2) by (auto simp: n_def)
    qed
  qed
qed


lemma process_fragment_payload:
  assumes "d \<noteq> []" "TLS_LENGTH_INCLUDED (d ! 0) \<Longrightarrow> 5 \<le> length d" "length d \<le> 65530"
  shows "process_fragment (rd_response (es_this_round (deliver d s))) = Some (tls_payload d, length (tls_payload d))"
  using assms by (cases "TLS_LENGTH_INCLUDED (d ! 0)") (auto simp: process_fragment_def mod_if)

lemma process_complete_total:
  assumes "ets_tls_session (es_opaque s) = Some t" "ets_state (es_opaque s) = EAP_TLS_RECORD_RECV_COMPLETE"
  shows "\<exists>a s'. process_complete env s = Some (a, s') \<and> ets_state (es_opaque s') \<notin> {EAP_TLS_HANDLED, EAP_TLS_ESTABLISHED}"
  using assms by (auto simp: process_complete_def eap_tls_handshake_push_def Let_def split: prod.splits)

lemma process_received_safe:
  assumes ses: "session_ok e t" and d: "d \<noteq> []" "TLS_LENGTH_INCLUDED (d ! 0) \<Longrightarrow> 5 \<le> length d" "length d \<le> 65530"
    and st: "ets_state e = st"
  shows "\<exists>a s'. process_received env True st ((deliver d s)\<lparr>es_opaque := e\<rparr>) = Some (a, s') \<and>
    ets_state (es_opaque s') \<noteq> EAP_TLS_ESTABLISHED \<and>
    (ets_state (es_opaque s') = EAP_TLS_HANDLED \<longrightarrow> st = EAP_TLS_HANDLED \<or> st \<noteq> EAP_TLS_RECORD_RECV_COMPLETE \<and>
      (\<exists>r. rec_ok r \<and> rec_used r = rec_used (ts_dirty_in t) + length (tls_payload d) \<and>
        es_opaque s' = e\<lparr>ets_tls_session := Some (t\<lparr>ts_dirty_in := r\<rparr>), ets_state := EAP_TLS_HANDLED\<rparr>))"
    (is "\<exists>a s'. ?run = Some (a, s') \<and> ?post s'")
proof -
  let ?x = "tls_payload d" and ?s = "(deliver d s)\<lparr>es_opaque := e\<rparr>"
  have t: "ets_tls_session e = Some t" "rec_ok (ts_dirty_in t)" "\<not> TLS_LENGTH_INCLUDED (ucast (ets_base_flags e) :: byte)"
    using ses by (simp_all add: session_ok_def plain_flags_def)
  define added where "added = min (length ?x) (FR_TLS_MAX_RECORD_SIZE - rec_used (ts_dirty_in t))"
  obtain r where r: "record_from_buff (ts_dirty_in t) ?x (length ?x) = Some (added, r)" "rec_ok r"
      "rec_contents r = rec_contents (ts_dirty_in t) @ take added ?x"
    using record_from_buff_ok [OF t(2) order_refl [of "length ?x"]] unfolding added_def by blast
  have x: "length ?x mod 4294967296 = length ?x" using d(3) by simp
  let ?s' = "set_tls (t\<lparr>ts_dirty_in := r\<rparr>) ?s"
  have run: "?run = (if added \<noteq> length ?x then Some (UNLANG_ACTION_CALCULATE_RESULT, set_state EAP_TLS_FAIL ?s')
      else if st \<noteq> EAP_TLS_RECORD_RECV_COMPLETE then do {
         (rc, s) \<leftarrow> eap_tls_ack True ?s';
         Some (UNLANG_ACTION_CALCULATE_RESULT, set_state EAP_TLS_HANDLED s) }
      else process_complete env ?s')"
    using process_fragment_payload [OF d, of s] t(1) r(1) x by (simp add: process_received_def Let_def)
  have used: "rec_used r = rec_used (ts_dirty_in t) + length ?x" if "added = length ?x"
    using arg_cong [OF r(3), of length] r(2) t(2) that by simp
  show ?thesis
  proof (cases "added = length ?x \<and> st = EAP_TLS_RECORD_RECV_COMPLETE")
    case True
    then show ?thesis unfolding run using process_complete_total [of ?s' _ env] st by auto
  next
    case False
    then show ?thesis unfolding run using used t(3) r(2) by (auto simp: ack_ok)
  qed
qed

lemma eap_tls_process_transfer:
  assumes ok: "transfer_ok (es_opaque s)" and d: "length d \<le> 65530"
  shows "\<exists>a s'. eap_tls_process env True (deliver d s) = Some (a, s') \<and>
    (ets_state (es_opaque s') = EAP_TLS_HANDLED \<longrightarrow> transfer_ok (es_opaque s'))"
proof -
  obtain t where t: "session_ok (es_opaque s) t" "in_ok (es_opaque s) (rec_used (ts_dirty_in t))"
    using ok by (auto simp: transfer_ok_def)
  from t(2) show ?thesis
  proof (cases rule: eap_tls_verify_cases [where env = env and d = d])
    case (stop st s')
    then show ?thesis by (auto simp: eap_tls_process_def)
  next
    case send
    have ts: "ets_tls_session (es_opaque s) = Some t" using t(1) by (simp add: session_ok_def)
    let ?e = "(es_opaque s)\<lparr>ets_state := EAP_TLS_RECORD_SEND\<rparr>"
    let ?s = "(deliver d s)\<lparr>es_opaque := ?e\<rparr>"
    have "\<exists>tot. sending ?s (base_of s) (ets_include_length (es_opaque s)) (ts_mtu t)
        (ets_record_out_started (es_opaque s)) tot (rec_contents (ts_dirty_out t))"
      using t(1) by (auto simp: sending_def session_ok_def)
    then obtain tot where snd: "sending ?s (base_of s) (ets_include_length (es_opaque s)) (ts_mtu t)
        (ets_record_out_started (es_opaque s)) tot (rec_contents (ts_dirty_out t))" by blast
    have m: "plain_flags (base_of s)" "4 \<le> ts_mtu t" "ts_mtu t < 2 ^ 64" using t(1) by (simp_all add: session_ok_def)
    have "\<exists>s' r' b. eap_tls_request True ?s = Some (0, s') \<and> rec_ok r' \<and>
        es_opaque s' = ?e\<lparr>ets_record_out_total_len := tot, ets_record_out_started := b,
           ets_tls_session := Some (t\<lparr>ts_dirty_out := r'\<rparr>)\<rparr>"
      by (rule eap_tls_request_ok [OF snd m]) (use ts in auto)
    then obtain s' r' b where s': "eap_tls_request True ?s = Some (0, s')" "rec_ok r'"
        "es_opaque s' = ?e\<lparr>ets_record_out_total_len := tot, ets_record_out_started := b,
           ets_tls_session := Some (t\<lparr>ts_dirty_out := r'\<rparr>)\<rparr>" by blast
    have "transfer_ok ((es_opaque s')\<lparr>ets_state := EAP_TLS_HANDLED\<rparr>)"
      using t s'(2,3) by (simp add: transfer_ok_def session_ok_def in_ok_def)
    then show ?thesis using s'(1) send ts by (simp add: eap_tls_process_def Let_def)
  next
    case (recv st e)
    have "session_ok e t" using recv(3) t(1) by simp
    then have ses: "session_ok (e\<lparr>ets_state := st\<rparr>) t" by (simp add: session_ok_def)
    have p: "eap_tls_process env True (deliver d s) =
        process_received env True st ((deliver d s)\<lparr>es_opaque := e\<lparr>ets_state := st\<rparr>\<rparr>)"
      using recv(1,2) by (auto simp: eap_tls_process_def)
    have "in_ok (e\<lparr>ets_tls_session := x, ets_state := y\<rparr>) n = in_ok e n" for x y n by (simp add: in_ok_def)
    then show ?thesis
      unfolding p using process_received_safe [OF ses recv(5,6) d, of st env s] recv(2,4) ses
      by (fastforce simp: transfer_ok_def session_ok_def)
  qed
qed


text \<open>Rounds that end with a request to the peer (\<open>EAP_TLS_HANDLED\<close>), whatever the peer answers. Between
  two rounds only the rounds of the EAP session change, not the EAP-TLS session.\<close>

inductive tls_conversation :: "tls_env \<Rightarrow> tls_eap_session \<Rightarrow> tls_eap_session \<Rightarrow> bool"
  for env :: tls_env and s0 :: tls_eap_session where
  first: "tls_conversation env s0 s0"
| round: "tls_conversation env s0 s \<Longrightarrow> es_opaque s1 = es_opaque s \<Longrightarrow> length d \<le> 65530 \<Longrightarrow>
    eap_tls_process env True (deliver d s1) = Some (a, s') \<Longrightarrow> ets_state (es_opaque s') = EAP_TLS_HANDLED \<Longrightarrow>
    tls_conversation env s0 s'"

lemma tls_conversation_transfer_ok:
  "tls_conversation env s0 s \<Longrightarrow> transfer_ok (es_opaque s0) \<Longrightarrow> transfer_ok (es_opaque s)"
proof (induction rule: tls_conversation.induct)
  case (round s s1 d a s')
  then show ?case using eap_tls_process_transfer [of s1 d env] by auto
qed

subsection \<open>Established sessions\<close>

lemma session_status_established:
  assumes "eap_tls_session_status env s = (EAP_TLS_ESTABLISHED, s')"
  shows "\<exists>t. ets_tls_session (es_opaque s) = Some t \<and> env_init_finished env (ts_ssl t) \<and> rec_used (ts_dirty_out t) = 0"
  using assms by (auto simp: eap_tls_session_status_def split: option.splits if_splits)

lemma verify_fragment_status: "fst (verify_fragment e f n) \<notin> {EAP_TLS_ESTABLISHED, EAP_TLS_RECORD_SEND}"
  by (simp add: verify_fragment_def Let_def)

lemma verify_length_status: "fst (verify_length e f tot n) \<notin> {EAP_TLS_ESTABLISHED, EAP_TLS_RECORD_SEND}"
  using verify_fragment_status by (simp add: verify_length_def)

lemma verify_from_status:
  assumes v: "eap_tls_verify env s = Some (st, s')" and st: "st \<in> {EAP_TLS_ESTABLISHED, EAP_TLS_RECORD_SEND}"
  shows "eap_tls_session_status env s = (st, s')"
proof -
  have "verify_fragment e f n \<noteq> (st, e')" "verify_length e f tot n \<noteq> (st, e')" for e f n e' tot
    using st verify_fragment_status [of e f n] verify_length_status [of e f tot n] by fastforce+
  then show ?thesis
    using v st
    by (auto simp: eap_tls_verify_def Let_def Option.bind_eq_Some_conv split: option.splits if_splits prod.splits)
qed

lemma process_complete_not_established:
  "process_complete env s = Some (a, s') \<Longrightarrow> ets_state (es_opaque s) \<noteq> EAP_TLS_ESTABLISHED \<Longrightarrow>
   ets_state (es_opaque s') \<noteq> EAP_TLS_ESTABLISHED"
  by (auto simp: process_complete_def eap_tls_handshake_push_def Let_def Option.bind_eq_Some_conv
      split: if_splits prod.splits)

lemma process_received_not_established:
  assumes "process_received env alloc st s = Some (a, s')" "ets_state (es_opaque s) \<noteq> EAP_TLS_ESTABLISHED"
  shows "ets_state (es_opaque s') \<noteq> EAP_TLS_ESTABLISHED"
  using assms process_complete_not_established
  by (fastforce simp: process_received_def Let_def Option.bind_eq_Some_conv split: if_splits prod.splits)


section \<open>Properties\<close>

definition ex_record :: "bytes \<Rightarrow> tls_record" where
  "ex_record R = \<lparr>rec_data = R @ replicate (16384 - length R) 0, rec_used = length R\<rparr>"

definition ex_tls :: "bytes \<Rightarrow> fr_tls_session" where
  "ex_tls R = \<lparr>ts_ssl = 1, ts_result = FR_TLS_RESULT_IN_PROGRESS, ts_initialized = True, ts_content_type = SSL3_RT_HANDSHAKE,
     ts_origin = 1, ts_version = TLS1_3_VERSION, ts_clean_in = ex_record [], ts_dirty_in = ex_record [],
     ts_dirty_out = ex_record R, ts_mtu = 10, ts_client_cert_ok = False\<rparr>"

definition ex_eap_tls :: "bytes \<Rightarrow> eap_tls_session" where
  "ex_eap_tls R = \<lparr>ets_state = EAP_TLS_HANDLED, ets_tls_session = Some (ex_tls R), ets_base_flags = 0, ets_phase2 = False,
     ets_include_length = False, ets_authentication_success = False, ets_record_out_started = False,
     ets_record_out_total_len = 0, ets_record_in_started = False, ets_record_in_total_len = 0, ets_record_in_recvd_len = 0\<rparr>"

definition ex_tls_session :: "bytes \<Rightarrow> tls_eap_session" where
  "ex_tls_session R = eap_session.extend ex_session \<lparr>es_opaque = ex_eap_tls R\<rparr>"

definition ex_env :: tls_env where
  "ex_env = \<lparr>env_init_finished = (\<lambda>ssl. True), env_session_reused = (\<lambda>ssl. False), env_session_recv = (\<lambda>t. (0, t)),
     env_handshake_push = (\<lambda>t. (0, t)), env_function_push = 0, env_cache_deny = (\<lambda>t. t)\<rparr>"

lemmas ex_tls_defs = ex_record_def ex_tls_def ex_eap_tls_def ex_tls_session_def eap_session.defs tls_eap_session.defs ex_session_def

text \<open>(C6) The fragments a record goes out in reassemble to the record: for an MTU of at least five octets,
  with or without a length field in every fragment, \<open>eap_tls_request\<close> called for the whole record
  yields fragments of at most the MTU (after the flags) which \<open>eap_tls_process\<close> acknowledges one by one,
  and with the last it hands exactly the record on to TLS. As many calls as the record has octets are
  enough.\<close>

theorem eap_tls_record_roundtrip:
  assumes "sending s base inc mtu False (length R) R" "receiving p False (length R) []" "plain_flags base"
    and "5 \<le> mtu" "mtu < 2 ^ 64" "0 < length R" "length R \<le> FR_TLS_MAX_RECORD_SIZE"
  shows "\<exists>ds p'. send_record (length R) s = Some ds \<and> recv_record env p ds = process_complete env p' \<and>
    (\<exists>t. ets_tls_session (es_opaque p') = Some t \<and> rec_contents (ts_dirty_in t) = R) \<and>
    (\<forall>d \<in> set ds. length d \<le> 1 + mtu)"
  using record_transfer [OF assms(1,2) _ _ assms(6) order_refl assms(3-5,7), of env]
  by (fastforce simp: receiving_def)

theorem eap_tls_record_roundtrip_witness:
  "\<exists>ds p'. send_record 25 (ex_tls_session (replicate 25 7)) = Some ds \<and>
    recv_record ex_env (ex_tls_session []) ds = process_complete ex_env p' \<and>
    (\<exists>t. ets_tls_session (es_opaque p') = Some t \<and> rec_contents (ts_dirty_in t) = replicate 25 7)"
proof -
  have "sending (ex_tls_session (replicate 25 7)) 0 False 10 False 25 (replicate 25 7)"
    by (simp add: sending_def ex_tls_defs rec_ok_def rec_contents_def)
  moreover have "receiving (ex_tls_session []) False 25 []"
    by (simp add: receiving_def ex_tls_defs rec_ok_def rec_contents_def flag_defs)
  moreover have "plain_flags 0" by (simp add: plain_flags_def flag_defs)
  ultimately show ?thesis
    using eap_tls_record_roundtrip [of "ex_tls_session (replicate 25 7)" 0 False 10 "replicate 25 7" "ex_tls_session []" ex_env]
    by simp blast
qed

text \<open>(C24) Whatever a peer answers, round after round: \<open>eap_tls_process\<close> neither reads outside the response
  nor writes outside the record buffers, the counted length of a record in transfer is the length
  buffered, and it never passes the announced length, itself at most \<open>16384\<close>.\<close>

theorem eap_tls_conversation_safe:
  assumes "tls_conversation env s0 s" "transfer_ok (es_opaque s0)"
    and "es_opaque s1 = es_opaque s" "length d \<le> 65530"
  shows "transfer_ok (es_opaque s) \<and> eap_tls_process env True (deliver d s1) \<noteq> None"
  using tls_conversation_transfer_ok [OF assms(1,2)] eap_tls_process_transfer [of s1 d env] assms(3,4) by auto

theorem eap_tls_conversation_safe_witness:
  "eap_tls_process ex_env True (deliver [0xc0, 0, 0, 0, 9, 1, 2] (ex_tls_session [])) \<noteq> None"
proof -
  have "transfer_ok (es_opaque (ex_tls_session []))"
    by (simp add: transfer_ok_def session_ok_def in_ok_def ex_tls_defs rec_ok_def plain_flags_def flag_defs)
  then show ?thesis
    using eap_tls_conversation_safe [OF tls_conversation.first, of "ex_tls_session []"] by simp
qed

text \<open>(C25) A response makes the session \<open>EAP_TLS_ESTABLISHED\<close> only when OpenSSL says the handshake is finished
  and nothing is left to send.\<close>

theorem eap_tls_established_finished:
  assumes p: "eap_tls_process env alloc s = Some (a, s')" and st: "ets_state (es_opaque s') = EAP_TLS_ESTABLISHED"
  shows "\<exists>t. ets_tls_session (es_opaque s) = Some t \<and> env_init_finished env (ts_ssl t) \<and> rec_used (ts_dirty_out t) = 0"
proof -
  obtain status s1 where v: "eap_tls_verify env s = Some (status, s1)"
    using p by (auto simp: eap_tls_process_def Option.bind_eq_Some_conv)
  let ?s = "set_state status s1"
  consider "status = EAP_TLS_ESTABLISHED" | "status = EAP_TLS_RECORD_SEND"
    | "status \<in> {EAP_TLS_RECORD_RECV_FIRST, EAP_TLS_RECORD_RECV_MORE, EAP_TLS_RECORD_RECV_COMPLETE}"
        "process_received env alloc status ?s = Some (a, s')"
    using p v st by (cases status) (auto simp: eap_tls_process_def)
  then show ?thesis
  proof cases
    case 1
    then show ?thesis using verify_from_status [OF v] session_status_established [of env s s1] by simp
  next
    case 2
    then have "s1 = s"
      using verify_from_status [OF v] by (cases rule: eap_tls_session_status_cases [of env s]) auto
    then show ?thesis
      using p v st 2 by (auto simp: eap_tls_process_def Let_def Option.bind_eq_Some_conv split: if_splits)
  next
    case 3
    then show ?thesis using process_received_not_established [OF 3(2)] st by auto
  qed
qed

definition ex_tls_acked :: tls_eap_session where
  "ex_tls_acked = (let s = deliver [0] (ex_tls_session []) in
     s\<lparr>es_prev_round := Some ((es_this_round s)\<lparr>rd_request := rd_response (es_this_round s)\<rparr>)\<rparr>)"

theorem eap_tls_established_finished_witness:
  "\<exists>a s'. eap_tls_process ex_env True ex_tls_acked = Some (a, s') \<and> env_init_finished ex_env 1"
proof -
  have v: "fst (the (eap_tls_verify ex_env ex_tls_acked)) = EAP_TLS_ESTABLISHED" "eap_tls_verify ex_env ex_tls_acked \<noteq> None"
    by (simp_all add: ex_tls_acked_def eap_tls_verify_def eap_tls_session_status_def deliver_def ex_tls_defs ex_env_def flag_defs Let_def)
  then have "\<exists>a s'. eap_tls_process ex_env True ex_tls_acked = Some (a, s') \<and> ets_state (es_opaque s') = EAP_TLS_ESTABLISHED"
    by (auto simp: eap_tls_process_def)
  with eap_tls_established_finished [of ex_env True ex_tls_acked] show ?thesis
    by (auto simp: ex_tls_defs ex_tls_acked_def Let_def)
qed

text \<open>Only the last two of the four octets of the TLS Message Length are read: a single fragment is
  accepted as complete whatever the first two say.\<close>

theorem eap_tls_length_low_octets:
  assumes "TLS_LENGTH_INCLUDED f" "\<not> TLS_MORE_FRAGMENTS f" "\<not> TLS_START f"
    and "length x \<le> FR_TLS_MAX_RECORD_SIZE" "\<not> ets_record_in_started (es_opaque s)"
  shows "eap_tls_verify env (deliver (f # a # b # put16 (length x) @ x) s) =
    Some (EAP_TLS_RECORD_RECV_COMPLETE, deliver (f # a # b # put16 (length x) @ x) s)"
  using assms nbo16_put16 [of "length x"]
  by (simp add: eap_tls_verify_def put16_def Let_def verify_length_def flags_c0)

theorem eap_tls_length_low_octets_witness:
  "\<exists>s'. eap_tls_verify ex_env (deliver [0x80, 0xff, 0xff, 0, 1, 42] (ex_tls_session [])) = Some (EAP_TLS_RECORD_RECV_COMPLETE, s')"
  using eap_tls_length_low_octets [of "0x80" "[42]" "ex_tls_session []" ex_env "0xff" "0xff"]
  by (simp add: flag_defs ex_tls_defs put16_def)

end
