(* ===== verification/Rlm_Eap_Tls.thy ===== *)
theory Rlm_Eap_Tls
  imports Eap_Session Eap_Tls
begin

text \<open>
  The EAP-TLS method, \<^verbatim>\<open>src/modules/rlm_eap/types/rlm_eap_tls/rlm_eap_tls.c\<close>, with the end of a successful handshake, \<open>eap_tls_success\<close> of \<^verbatim>\<open>src/lib/eap/tls.c\<close> and the keys
  of \<^verbatim>\<open>src/lib/eap/crypto.c\<close>, and \<open>eap_tls_session_init\<close>.

  OpenSSL, the session cache and the allocation of a TLS session are parameters (\<open>tls_method\<close>). A push onto the stack of the interpreter that fails makes the method fail.

  The lemmas show that a round of the method with any response ends, that the reply it leaves fits a packet, that the session it leaves for the next round is intact, and that
  it answers with a success only when OpenSSL has finished the handshake and nothing is left to send.
\<close>

abbreviation ATTR_EAP_MSK :: pair_attr where "ATTR_EAP_MSK \<equiv> ATTR_OTHER 14004"
abbreviation ATTR_EAP_EMSK :: pair_attr where "ATTR_EAP_EMSK \<equiv> ATTR_OTHER 14005"
abbreviation ATTR_EAP_SESSION_ID :: pair_attr where "ATTR_EAP_SESSION_ID \<equiv> ATTR_OTHER 14006"
abbreviation ATTR_EAP_TLS_REQUIRE_CLIENT_CERT :: pair_attr where "ATTR_EAP_TLS_REQUIRE_CLIENT_CERT \<equiv> ATTR_OTHER 14130"
abbreviation ATTR_MS_MPPE_SEND_KEY :: pair_attr where "ATTR_MS_MPPE_SEND_KEY \<equiv> ATTR_OTHER 311016"
abbreviation ATTR_MS_MPPE_RECV_KEY :: pair_attr where "ATTR_MS_MPPE_RECV_KEY \<equiv> ATTR_OTHER 311017"
abbreviation EAP_TLS_MPPE_KEY_LEN :: nat where "EAP_TLS_MPPE_KEY_LEN \<equiv> 32"

text \<open>The settings of the module, and the code it calls: \<open>fr_tls_session_alloc_server\<close> (with whether a client certificate is required), \<open>SSL_export_keying_material\<close> (object,
length, label and context), the protocol version and the randoms of the session, and \<open>fr_tls_cache_pending_push\<close>, which has no operation
of the cache to run, or runs one that ends with a result, or fails to push one.\<close>

datatype cache_push = Cache_idle | Cache_ran rlm_rcode | Cache_push_failed

record tls_method =
  tm_env :: tls_env
  tm_session_alloc :: "bool \<Rightarrow> fr_tls_session option"
  tm_include_length :: bool
  tm_req_client_cert :: bool
  tm_export :: "nat \<Rightarrow> nat \<Rightarrow> string \<Rightarrow> bytes \<Rightarrow> bytes option"
  tm_protocol :: "nat \<Rightarrow> nat"
  tm_randoms :: "nat \<Rightarrow> bytes \<times> bytes"
  tm_cache_push :: "fr_tls_session \<Rightarrow> cache_push"

section \<open>Keys\<close>

record eap_tls_prf_label =
  pl_keying :: "string option"
  pl_sessid :: "string option"
  pl_context :: bytes

definition eap_crypto_prf_label_init :: "fr_tls_session \<Rightarrow> nat \<Rightarrow> string \<Rightarrow> eap_tls_prf_label" where
  "eap_crypto_prf_label_init t type keying_prf_label =
     (if ts_version t = TLS1_3_VERSION
      then \<lparr>pl_keying = Some ''EXPORTER_EAP_TLS_Key_Material'', pl_sessid = Some ''EXPORTER_EAP_TLS_Method-Id'', pl_context = [word_of_nat type]\<rparr>
      else \<lparr>pl_keying = Some keying_prf_label, pl_sessid = None, pl_context = []\<rparr>)"

text \<open>The attributes it sets in the reply; \<open>None\<close> is the return of \<open>-1\<close>.\<close>

definition eap_crypto_mppe_keys :: "tls_method \<Rightarrow> nat \<Rightarrow> eap_tls_prf_label \<Rightarrow> pair_list option" where
  "eap_crypto_mppe_keys M ssl prf_label =
     (case pl_keying prf_label of
        None \<Rightarrow> Some []
      | Some keying \<Rightarrow>
          (case tm_export M ssl (4 * EAP_TLS_MPPE_KEY_LEN) keying (pl_context prf_label) of
             None \<Rightarrow> None
           | Some out \<Rightarrow>
               Some [(ATTR_MS_MPPE_RECV_KEY, chunk out 0 EAP_TLS_MPPE_KEY_LEN), (ATTR_MS_MPPE_SEND_KEY, chunk out EAP_TLS_MPPE_KEY_LEN EAP_TLS_MPPE_KEY_LEN),
                     (ATTR_EAP_MSK, chunk out 0 64), (ATTR_EAP_EMSK, chunk out 64 64)]))"

definition eap_crypto_tls_session_id :: "tls_method \<Rightarrow> nat \<Rightarrow> eap_tls_prf_label \<Rightarrow> nat \<Rightarrow> bytes option" where
  "eap_crypto_tls_session_id M ssl prf_label eap_type =
     (let random_based_session_id = Some (word_of_nat eap_type # fst (tm_randoms M ssl) @ snd (tm_randoms M ssl)) in
      case pl_sessid prf_label of
        None \<Rightarrow> random_based_session_id
      | Some sessid \<Rightarrow>
          if tm_protocol M ssl = 2 \<or> tm_protocol M ssl = 0x300 then None
          else if tm_protocol M ssl = 0x301 \<or> tm_protocol M ssl = 0x302 \<or> tm_protocol M ssl = 0x303 then random_based_session_id
          else map_option (\<lambda>buff. word_of_nat eap_type # buff) (tm_export M ssl 64 sessid (pl_context prf_label)))"

text \<open>The attributes for the reply of the request, and the subrequest, whose reply gets the session identifier.\<close>

definition eap_tls_success :: "tls_method \<Rightarrow> bool \<Rightarrow> eap_tls_prf_label \<Rightarrow> state_request \<Rightarrow> tls_eap_session \<Rightarrow> (int \<times> pair_list \<times> state_request \<times> tls_eap_session) option" where
  "eap_tls_success M alloc prf_label child s = do {
     t \<leftarrow> ets_tls_session (es_opaque s);
     let s = s\<lparr>es_finished := True\<rparr>;
     (rc, s) \<leftarrow> eap_tls_compose alloc s EAP_TLS_ESTABLISHED (ucast (ets_base_flags (es_opaque s))) False 0 0;
     if rc < 0 then Some (-1, [], child, s)
     else
       Some (case eap_crypto_mppe_keys M (ts_ssl t) prf_label of
               None \<Rightarrow> (-1, [], child, s)
             | Some keys \<Rightarrow>
                 (case eap_crypto_tls_session_id M (ts_ssl t) prf_label (es_type s) of
                    None \<Rightarrow> (-1, keys, child, s)
                  | Some session_id \<Rightarrow> (0, keys, child\<lparr>rq_reply_pairs := rq_reply_pairs child @ [(ATTR_EAP_SESSION_ID, session_id)]\<rparr>, s))) }"

section \<open>The method\<close>

definition eap_tls_session_init :: "tls_method \<Rightarrow> bool \<Rightarrow> eap_tls_session option" where
  "eap_tls_session_init M client_cert =
     map_option (\<lambda>t. \<lparr>ets_state = EAP_TLS_START_SEND, ets_tls_session = Some t, ets_base_flags = 0, ets_phase2 = False, ets_include_length = True,
       ets_authentication_success = False, ets_record_out_started = False, ets_record_out_total_len = 0, ets_record_in_started = False, ets_record_in_total_len = 0,
       ets_record_in_recvd_len = 0\<rparr>) (tm_session_alloc M client_cert)"

text \<open>The result of the cache is replaced by the one of \<open>mod_handshake_done\<close> after a success, and replaces the reject after a failure.\<close>

definition mod_handshake_resume :: "tls_method \<Rightarrow> bool \<Rightarrow> state_request \<Rightarrow> tls_eap_session \<Rightarrow> (rlm_rcode \<times> pair_list \<times> state_request \<times> tls_eap_session) option" where
  "mod_handshake_resume M alloc child s = do {
     t \<leftarrow> ets_tls_session (es_opaque s);
     (case ets_state (es_opaque s) of
        EAP_TLS_ESTABLISHED \<Rightarrow> do {
          (rc, pairs, child, s) \<leftarrow> eap_tls_success M alloc (eap_crypto_prf_label_init t (es_type s) ''client EAP encryption'') child s;
          Some (if rc < 0 \<or> tm_cache_push M t = Cache_push_failed then RLM_MODULE_FAIL else RLM_MODULE_OK, pairs, child, s) }
      | EAP_TLS_HANDLED \<Rightarrow> Some (RLM_MODULE_HANDLED, [], child, s)
      | EAP_TLS_RECORD_RECV_COMPLETE \<Rightarrow> do {
          (rc, s) \<leftarrow> eap_tls_fail (tm_env M) alloc s;
          Some (RLM_MODULE_INVALID, [], child, s) }
      | _ \<Rightarrow>
          let t = env_cache_deny (tm_env M) t
          in Some (case tm_cache_push M t of Cache_idle \<Rightarrow> RLM_MODULE_REJECT | Cache_ran rcode \<Rightarrow> rcode | Cache_push_failed \<Rightarrow> RLM_MODULE_FAIL, [], child, set_tls t s)) }"

definition mod_handshake_process :: "tls_method \<Rightarrow> bool \<Rightarrow> state_request \<Rightarrow> tls_eap_session \<Rightarrow> (rlm_rcode \<times> pair_list \<times> state_request \<times> tls_eap_session) option" where
  "mod_handshake_process M alloc child s = do {
     (action, s) \<leftarrow> eap_tls_process (tm_env M) alloc s;
     (case action of
        UNLANG_ACTION_FAIL \<Rightarrow> Some (RLM_MODULE_FAIL, [], child, s)
      | UNLANG_ACTION_PUSHED_CHILD \<Rightarrow> do {
          s \<leftarrow> eap_tls_handshake_resume (tm_env M) alloc s;
          mod_handshake_resume M alloc child s }
      | _ \<Rightarrow> mod_handshake_resume M alloc child s) }"

section \<open>What the framing keeps\<close>

text \<open>The TLS session is there and its buffers are intact.\<close>

definition tls_live :: "eap_tls_session \<Rightarrow> bool" where
  "tls_live e \<longleftrightarrow> (\<exists>t. session_ok e t \<and> rec_ok (ts_clean_in t))"

text \<open>Between two rounds also the count of what was received is right.\<close>

definition tls_rest :: "eap_tls_session \<Rightarrow> bool" where
  "tls_rest e \<longleftrightarrow> tls_live e \<and> transfer_ok e"

text \<open>What the code relies on: OpenSSL and the glue around it keep the buffers and the MTU of a session, and a round of the handshake that succeeds has taken all that was received.\<close>

definition tls_kept :: "fr_tls_session \<Rightarrow> bool" where
  "tls_kept t \<longleftrightarrow> rec_ok (ts_dirty_in t) \<and> rec_ok (ts_dirty_out t) \<and> rec_ok (ts_clean_in t) \<and> 4 \<le> ts_mtu t \<and> ts_mtu t < 2 ^ 64"

definition glue_ok :: "tls_method \<Rightarrow> bool" where
  "glue_ok M \<longleftrightarrow>
     (\<forall>t. tls_kept t \<longrightarrow> tls_kept (snd (env_handshake_push (tm_env M) t)) \<and>
        (ts_result (snd (env_handshake_push (tm_env M) t)) = FR_TLS_RESULT_SUCCESS \<longrightarrow> rec_used (ts_dirty_in (snd (env_handshake_push (tm_env M) t))) = 0) \<and>
        tls_kept (snd (env_session_recv (tm_env M) t)) \<and> tls_kept (env_cache_deny (tm_env M) t)) \<and>
     (\<forall>b t. tm_session_alloc M b = Some t \<longrightarrow> tls_kept t \<and> rec_used (ts_dirty_in t) = 0)"

lemma tls_live_kept: "tls_live e \<longleftrightarrow> plain_flags (ucast (ets_base_flags e)) \<and> (\<exists>t. ets_tls_session e = Some t \<and> tls_kept t)"
  by (auto simp: tls_live_def session_ok_def tls_kept_def)

lemma tls_rest_kept: "tls_rest e \<longleftrightarrow> plain_flags (ucast (ets_base_flags e)) \<and> (\<exists>t. ets_tls_session e = Some t \<and> tls_kept t \<and> in_ok e (rec_used (ts_dirty_in t)))"
  by (auto simp: tls_rest_def tls_live_kept transfer_ok_def session_ok_def tls_kept_def)

lemma tls_live_simps [simp]:
  "tls_live (e\<lparr>ets_state := x\<rparr>) = tls_live e" "tls_live (e\<lparr>ets_phase2 := b\<rparr>) = tls_live e" "tls_live (e\<lparr>ets_authentication_success := b\<rparr>) = tls_live e"
  "tls_rest (e\<lparr>ets_state := x\<rparr>) = tls_rest e" "tls_rest (e\<lparr>ets_phase2 := b\<rparr>) = tls_rest e" "tls_rest (e\<lparr>ets_authentication_success := b\<rparr>) = tls_rest e"
  by (simp_all add: tls_live_kept tls_rest_kept in_ok_def)

lemma tls_rest_live: "tls_rest e \<Longrightarrow> tls_live e"
  by (simp add: tls_rest_def)

text \<open>The handshake is finished and nothing is left to send.\<close>

definition handshake_finished :: "tls_env \<Rightarrow> eap_tls_session \<Rightarrow> bool" where
  "handshake_finished env e \<longleftrightarrow> (\<exists>t. ets_tls_session e = Some t \<and> env_init_finished env (ts_ssl t) \<and> rec_used (ts_dirty_out t) = 0)"

lemma verify_fragment_frame:
  assumes "verify_fragment e f n = (st, e')"
  shows "ets_tls_session e' = ets_tls_session e" "ets_base_flags e' = ets_base_flags e" "ets_phase2 e' = ets_phase2 e"
    "st = EAP_TLS_RECORD_RECV_COMPLETE \<Longrightarrow> \<not> ets_record_in_started e'" "st \<noteq> EAP_TLS_ESTABLISHED"
  using assms by (auto simp: verify_fragment_def Let_def split: if_splits)

lemma verify_length_frame:
  assumes "verify_length e f tot n = (st, e')"
  shows "ets_tls_session e' = ets_tls_session e" "ets_base_flags e' = ets_base_flags e" "ets_phase2 e' = ets_phase2 e"
    "st = EAP_TLS_RECORD_RECV_COMPLETE \<Longrightarrow> \<not> ets_record_in_started e'" "st \<noteq> EAP_TLS_ESTABLISHED"
  using assms verify_fragment_frame [of e f n st e'] by (auto simp: verify_length_def split: if_splits)

lemma session_status_frame:
  assumes "eap_tls_session_status env s = (st, s')"
  shows "es_this_round s' = es_this_round s" "es_type s' = es_type s" "tls_live (es_opaque s) \<Longrightarrow> tls_live (es_opaque s')" "st \<noteq> EAP_TLS_RECORD_RECV_COMPLETE"
    "st = EAP_TLS_ESTABLISHED \<Longrightarrow> handshake_finished env (es_opaque s') \<and> (tls_rest (es_opaque s) \<longrightarrow> tls_rest (es_opaque s'))"
    "ets_phase2 (es_opaque s') = ets_phase2 (es_opaque s)"
  using assms
  by (auto simp: eap_tls_session_status_def handshake_finished_def tls_live_kept tls_rest_kept tls_kept_def in_ok_def split: option.splits if_splits)

text \<open>The four ways out of \<open>eap_tls_verify\<close>.\<close>

lemma verify_exits:
  assumes "eap_tls_verify env s = Some (st, s')"
  obtains "s' = s" "st = EAP_TLS_INVALID" | "eap_tls_session_status env s = (st, s')"
  | e f n where "s' = s\<lparr>es_opaque := e\<rparr>" "verify_fragment (es_opaque s) f n = (st, e)"
  | e f tot n where "s' = s\<lparr>es_opaque := e\<rparr>" "verify_length (es_opaque s) f tot n = (st, e)"
proof -
  let ?r = "rd_response (es_this_round s)"
  note v = assms [unfolded eap_tls_verify_def Let_def]
  consider "s' = s" "st = EAP_TLS_INVALID" | data f where "pk_type_data ?r = Some data" "rd8 data 0 = Some f" "EAP_HEADER_LEN + 2 \<le> pk_length ?r"
    using v by (auto simp: Option.bind_eq_Some_conv split: if_splits option.splits)
  then show thesis
  proof cases
    case 1
    then show ?thesis using that by blast
  next
    case (2 data f)
    define h where "h = EAP_HEADER_LEN + (if TLS_LENGTH_INCLUDED f then 6 else 2)"
    define n where "n = pk_length ?r - h"
    define ack where "ack \<longleftrightarrow> pk_length ?r = EAP_HEADER_LEN + 2 \<and> f AND 0xc0 = 0"
    let ?put = "\<lambda>(status, e). Some (status, s\<lparr>es_opaque := e\<rparr>)"
    have w: "(if pk_length ?r < h then Some (EAP_TLS_INVALID, s)
        else if ack then
          (case es_prev_round s of None \<Rightarrow> Some (EAP_TLS_INVALID, s)
           | Some prev \<Rightarrow> if pk_id (rd_request prev) \<noteq> pk_id ?r then Some (EAP_TLS_INVALID, s) else Some (eap_tls_session_status env s))
        else if TLS_START f then Some (EAP_TLS_INVALID, s)
        else (if TLS_LENGTH_INCLUDED f then rd_nbo16 data 3 \<bind> (\<lambda>tot. Some (verify_length (es_opaque s) f tot n))
              else Some (verify_fragment (es_opaque s) f n)) \<bind> ?put) = Some (st, s')"
      unfolding assms [symmetric] h_def n_def ack_def using 2
      by (simp add: eap_tls_verify_def Let_def not_less [symmetric] del: rd_nbo16_in not_less split del: if_split cong: if_cong)
    consider "pk_length ?r < h" | "\<not> pk_length ?r < h" ack | "\<not> pk_length ?r < h" "\<not> ack" "TLS_START f" | "\<not> pk_length ?r < h" "\<not> ack" "\<not> TLS_START f" by blast
    then show ?thesis
    proof cases
      case 2
      then show ?thesis using w that by (simp split: option.splits if_splits)
    next
      case 4
      then have w: "(if TLS_LENGTH_INCLUDED f then rd_nbo16 data 3 \<bind> (\<lambda>tot. Some (verify_length (es_opaque s) f tot n))
              else Some (verify_fragment (es_opaque s) f n)) \<bind> ?put = Some (st, s')" using w by simp
      show ?thesis
      proof (cases "TLS_LENGTH_INCLUDED f")
        case True
        then obtain tot where "?put (verify_length (es_opaque s) f tot n) = Some (st, s')" using w by (cases "rd_nbo16 data 3") auto
        then show ?thesis using that by (cases "verify_length (es_opaque s) f tot n") auto
      next
        case False
        then show ?thesis using w that by (cases "verify_fragment (es_opaque s) f n") auto
      qed
    qed (use w that in simp_all)
  qed
qed

lemma verify_frame:
  assumes "eap_tls_verify env s = Some (st, s')"
  shows "es_this_round s' = es_this_round s \<and> es_type s' = es_type s \<and> (tls_live (es_opaque s) \<longrightarrow> tls_live (es_opaque s')) \<and>
    (st = EAP_TLS_RECORD_RECV_COMPLETE \<longrightarrow> \<not> ets_record_in_started (es_opaque s')) \<and>
    (st = EAP_TLS_ESTABLISHED \<longrightarrow> handshake_finished env (es_opaque s') \<and> (tls_rest (es_opaque s) \<longrightarrow> tls_rest (es_opaque s'))) \<and>
    ets_phase2 (es_opaque s') = ets_phase2 (es_opaque s)"
  using assms
proof (cases rule: verify_exits)
  case 2
  then show ?thesis using session_status_frame [OF 2] by simp
next
  case (3 e f n)
  then show ?thesis using verify_fragment_frame [OF 3(2)] by (auto simp: tls_live_kept)
next
  case (4 e f tot n)
  then show ?thesis using verify_length_frame [OF 4(2)] by (auto simp: tls_live_kept)
qed simp

lemma compose_control:
  assumes "\<not> TLS_LENGTH_INCLUDED f" "st \<noteq> EAP_TLS_RECORD_SEND"
  shows "eap_tls_compose True s st f False 0 0 = Some (0, set_request ((rd_request (es_this_round s))
     \<lparr>pk_type_data := Some [f], pk_type_length := 1, pk_code := compose_eap_code st (pk_code (rd_request (es_this_round s)))\<rparr>) s)"
  using assms by (cases st) (simp_all add: eap_tls_compose_def compose_len_def patch_def Let_def)

lemma compose_packet:
  "eap_tls_compose alloc s st f rec tot n = Some (rc, s') \<Longrightarrow> pk_packet (rd_request (es_this_round s')) = pk_packet (rd_request (es_this_round s))"
  by (auto simp: eap_tls_compose_def Let_def Option.bind_eq_Some_conv split: if_splits prod.splits)

lemma request_packet:
  "eap_tls_request alloc s = Some (rc, s') \<Longrightarrow> pk_packet (rd_request (es_this_round s')) = pk_packet (rd_request (es_this_round s))"
  by (auto simp: eap_tls_request_def Let_def Option.bind_eq_Some_conv dest!: compose_packet split: if_splits prod.splits)

lemma request_live:
  assumes live: "tls_live (es_opaque s)" and p: "pk_packet (rd_request (es_this_round s)) = None"
  shows "\<exists>s'. eap_tls_request True s = Some (0, s') \<and> tls_live (es_opaque s') \<and> (tls_rest (es_opaque s) \<longrightarrow> tls_rest (es_opaque s')) \<and>
    reply_ok (rd_request (es_this_round s')) \<and> pk_code (rd_request (es_this_round s')) = FR_EAP_CODE_REQUEST"
proof -
  let ?e = "es_opaque s"
  obtain t where t: "ets_tls_session ?e = Some t" "tls_kept t" "plain_flags (base_of s)" using live by (auto simp: tls_live_kept)
  let ?R = "rec_contents (ts_dirty_out t)" and ?inc = "ets_include_length ?e" and ?st = "ets_record_out_started ?e"
  define tot where "tot = (if ?st then ets_record_out_total_len ?e else length ?R)"
  have "sending s (base_of s) ?inc (ts_mtu t) ?st tot ?R" using t by (auto simp: sending_def tls_kept_def tot_def)
  moreover have m: "4 \<le> ts_mtu t" "ts_mtu t < 2 ^ 64" using t(2) by (auto simp: tls_kept_def)
  ultimately obtain s' r' where s': "eap_tls_request True s = Some (0, s')" "rec_ok r'"
    "es_opaque s' = ?e\<lparr>ets_record_out_total_len := tot, ets_record_out_started := frag_more ?inc (ts_mtu t) (length ?R),
       ets_tls_session := Some ((the (ets_tls_session ?e))\<lparr>ts_dirty_out := r'\<rparr>)\<rparr>"
    "sent_data s' = Some (frag_data (base_of s) ?inc (ts_mtu t) ?st tot ?R)" "pk_code (rd_request (es_this_round s')) = FR_EAP_CODE_REQUEST"
    "pk_type_length (rd_request (es_this_round s')) = length (frag_data (base_of s) ?inc (ts_mtu t) ?st tot ?R)"
    using eap_tls_request_ok [OF _ t(3)] by metis
  have "length ?R \<le> 16384" using t(2) by (simp add: tls_kept_def rec_ok_def rec_contents_def)
  then have "length (frag_data (base_of s) ?inc (ts_mtu t) ?st tot ?R) \<le> 16389"
    using frag_take_le [OF m(1), of ?inc ?st "length ?R"] by (auto simp: frag_data_def)
  then have "reply_ok (rd_request (es_this_round s'))" using s'(4,6) request_packet [OF s'(1)] p by (simp add: reply_ok_def eap_fits_def)
  moreover have "tls_live (es_opaque s')" "tls_rest ?e \<longrightarrow> tls_rest (es_opaque s')"
    using s'(2,3) t by (auto simp: tls_live_kept tls_rest_kept tls_kept_def in_ok_def)
  ultimately show ?thesis using s'(1,5) by blast
qed

lemma record_from_buff_keeps:
  assumes "record_from_buff r inp n = Some (added, r')" "rec_ok r"
  shows "rec_ok r'"
  using assms by (auto simp: record_from_buff_def rec_ok_def Let_def Option.bind_eq_Some_conv mem_simps split: if_splits)

section \<open>A round of the framing\<close>

text \<open>What a round leaves: intact buffers, a reply only when it is handled, and what the next round needs when it is handled or established, or waits for the handshake.\<close>

definition tls_round :: "tls_env \<Rightarrow> unlang_action \<Rightarrow> tls_eap_session \<Rightarrow> bool" where
  "tls_round env a s \<longleftrightarrow> tls_live (es_opaque s) \<and>
     (if ets_state (es_opaque s) = EAP_TLS_HANDLED then reply_ok (rd_request (es_this_round s)) \<and> pk_code (rd_request (es_this_round s)) = FR_EAP_CODE_REQUEST
      else rd_request (es_this_round s) = eap_packet_zero) \<and>
     (ets_state (es_opaque s) = EAP_TLS_ESTABLISHED \<longrightarrow> handshake_finished env (es_opaque s) \<and> tls_rest (es_opaque s)) \<and>
     (a = UNLANG_ACTION_PUSHED_CHILD \<longrightarrow> (\<forall>t. ets_tls_session (es_opaque s) = Some t \<longrightarrow> ts_result t = FR_TLS_RESULT_SUCCESS \<longrightarrow> tls_rest (es_opaque s)) \<and> \<not> ets_phase2 (es_opaque s) \<and> \<not> ets_record_in_started (es_opaque s) \<and> ets_state (es_opaque s) = EAP_TLS_RECORD_RECV_COMPLETE)"

lemma process_complete_round:
  assumes run: "process_complete (tm_env M) s = Some (a, s')" and glue: "glue_ok M" and live: "tls_live (es_opaque s)" "\<not> ets_record_in_started (es_opaque s)"
    and s: "ets_state (es_opaque s) = EAP_TLS_RECORD_RECV_COMPLETE" "rd_request (es_this_round s) = eap_packet_zero"
  shows "tls_round (tm_env M) a s'"
proof -
  obtain t where t: "ets_tls_session (es_opaque s) = Some t" "tls_kept t" "plain_flags (base_of s)" using live by (auto simp: tls_live_kept)
  obtain rc t1 ret t2 where g: "env_handshake_push (tm_env M) t = (rc, t1)" "env_session_recv (tm_env M) t = (ret, t2)" by (metis prod.collapse)
  have k: "tls_kept t1" "ts_result t1 = FR_TLS_RESULT_SUCCESS \<longrightarrow> rec_used (ts_dirty_in t1) = 0" "tls_kept t2"
    using glue t(2) g unfolding glue_ok_def by (metis snd_conv)+
  show ?thesis using run t k live s g
    by (auto simp: process_complete_def eap_tls_handshake_push_def tls_round_def tls_live_kept tls_rest_kept in_ok_def Let_def split: if_splits)
qed

lemma process_received_round:
  assumes run: "process_received (tm_env M) True st s = Some (a, s')" and glue: "glue_ok M" and live: "tls_live (es_opaque s)"
    and s: "ets_state (es_opaque s) = st" "st \<in> {EAP_TLS_RECORD_RECV_FIRST, EAP_TLS_RECORD_RECV_MORE, EAP_TLS_RECORD_RECV_COMPLETE}"
      "st = EAP_TLS_RECORD_RECV_COMPLETE \<longrightarrow> \<not> ets_record_in_started (es_opaque s)" "rd_request (es_this_round s) = eap_packet_zero"
  shows "tls_round (tm_env M) a s'"
proof -
  obtain t where t: "ets_tls_session (es_opaque s) = Some t" "tls_kept t" "plain_flags (base_of s)" using live by (auto simp: tls_live_kept)
  obtain data data_len added r where d: "process_fragment (rd_response (es_this_round s)) = Some (data, data_len)"
    "record_from_buff (ts_dirty_in t) data (data_len mod 2 ^ 32) = Some (added, r)"
    using run t(1) by (auto simp: process_received_def Option.bind_eq_Some_conv)
  let ?s = "set_tls (t\<lparr>ts_dirty_in := r\<rparr>) s"
  have "rec_ok r" using record_from_buff_keeps [OF d(2)] t(2) by (simp add: tls_kept_def)
  then have l: "tls_live (es_opaque ?s)" using t by (simp add: tls_live_kept tls_kept_def)
  have run: "(if added \<noteq> data_len then Some (UNLANG_ACTION_CALCULATE_RESULT, set_state EAP_TLS_FAIL ?s)
      else if st \<noteq> EAP_TLS_RECORD_RECV_COMPLETE then do {
         (rc, s) \<leftarrow> eap_tls_ack True ?s;
         Some (UNLANG_ACTION_CALCULATE_RESULT, set_state EAP_TLS_HANDLED s) }
      else process_complete (tm_env M) ?s) = Some (a, s')"
    using run t(1) d by (simp add: process_received_def Let_def)
  have b: "\<not> TLS_LENGTH_INCLUDED (base_of ?s)" using t(3) by (simp add: plain_flags_def)
  consider "added \<noteq> data_len" | "added = data_len" "st \<noteq> EAP_TLS_RECORD_RECV_COMPLETE" | "added = data_len" "st = EAP_TLS_RECORD_RECV_COMPLETE" by blast
  then show ?thesis
  proof cases
    case 1
    then show ?thesis using run l s(4) by (auto simp: tls_round_def)
  next
    case 2
    then show ?thesis using run l s(4) ack_ok [OF b] by (auto simp: tls_round_def reply_ok_def eap_fits_def eap_packet_zero_def)
  next
    case 3
    then show ?thesis using run process_complete_round [OF _ glue l, of a s'] s by simp
  qed
qed

lemma eap_tls_process_round:
  assumes glue: "glue_ok M" and rest: "tls_rest (es_opaque s)" and d: "length d \<le> 65530" and z: "rd_request (es_this_round s) = eap_packet_zero"
  shows "\<exists>a s'. eap_tls_process (tm_env M) True (deliver d s) = Some (a, s') \<and> tls_round (tm_env M) a s' \<and> (ets_state (es_opaque s') = EAP_TLS_HANDLED \<longrightarrow> tls_rest (es_opaque s'))"
proof -
  let ?env = "tm_env M"
  have ok: "transfer_ok (es_opaque s)" "tls_live (es_opaque s)" using rest by (simp_all add: tls_rest_def)
  obtain a s' where p: "eap_tls_process ?env True (deliver d s) = Some (a, s')" "ets_state (es_opaque s') = EAP_TLS_HANDLED \<longrightarrow> transfer_ok (es_opaque s')"
    using eap_tls_process_transfer [OF ok(1) d, of ?env] by blast
  obtain st s1 where v: "eap_tls_verify ?env (deliver d s) = Some (st, s1)" using p(1) by (auto simp: eap_tls_process_def Option.bind_eq_Some_conv)
  have z1: "rd_request (es_this_round (deliver d s)) = eap_packet_zero" "tls_live (es_opaque (deliver d s))" "tls_rest (es_opaque (deliver d s))" using z ok rest by (simp_all add: deliver_def)
  note f = verify_frame [OF v]
  have r1: "rd_request (es_this_round s1) = eap_packet_zero" "tls_live (es_opaque s1)" using f z1 by auto
  obtain t where t: "ets_tls_session (es_opaque s1) = Some t" using r1(2) by (auto simp: tls_live_kept)
  consider (stop) "st \<in> {EAP_TLS_INVALID, EAP_TLS_FAIL, EAP_TLS_ESTABLISHED}" | (send) "st = EAP_TLS_RECORD_SEND" "s1 = deliver d s"
    | (recv) "st \<in> {EAP_TLS_RECORD_RECV_FIRST, EAP_TLS_RECORD_RECV_MORE, EAP_TLS_RECORD_RECV_COMPLETE}"
    using ok(1) v by (auto simp: transfer_ok_def elim: eap_tls_verify_cases [where env = ?env and d = d])
  then have "tls_round ?env a s'"
  proof cases
    case stop
    then have "a = UNLANG_ACTION_CALCULATE_RESULT" "s' = set_state st s1" using p(1) v by (auto simp: eap_tls_process_def)
    then show ?thesis using stop r1 f z1(3) by (auto simp: tls_round_def handshake_finished_def)
  next
    case send
    let ?s = "set_state st s1"
    show ?thesis
    proof (cases "\<not> ets_phase2 (es_opaque ?s) \<and> rec_used (ts_dirty_out t) = 0 \<and> env_init_finished ?env (ts_ssl t)")
      case True
      then have "a = UNLANG_ACTION_CALCULATE_RESULT" "s' = set_state EAP_TLS_ESTABLISHED (?s\<lparr>es_opaque := (es_opaque ?s)\<lparr>ets_phase2 := True\<rparr>\<rparr>)"
        using p(1) v send t by (auto simp: eap_tls_process_def Let_def)
      then show ?thesis using True send r1 z1 t by (auto simp: tls_round_def handshake_finished_def)
    next
      case False
      obtain s2 where s2: "eap_tls_request True ?s = Some (0, s2)" "tls_live (es_opaque s2)" "reply_ok (rd_request (es_this_round s2))"
        "pk_code (rd_request (es_this_round s2)) = FR_EAP_CODE_REQUEST"
        using request_live [of ?s] r1 by (auto simp: eap_packet_zero_def)
      then have "a = UNLANG_ACTION_CALCULATE_RESULT" "s' = set_state EAP_TLS_HANDLED s2"
        using False p(1) v send t by (auto simp: eap_tls_process_def Let_def)
      then show ?thesis using s2 by (simp add: tls_round_def)
    qed
  next
    case recv
    have "process_received ?env True st (set_state st s1) = Some (a, s')" using p(1) v recv by (auto simp: eap_tls_process_def)
    then show ?thesis using process_received_round [OF _ glue] r1 recv f by auto
  qed
  then show ?thesis using p by (auto simp: tls_round_def tls_rest_def)
qed

text \<open>The end of \<open>eap_tls_handshake_resume\<close>: more to send, established, or a failure.\<close>

lemma resume_end_round:
  assumes s: "ets_tls_session (es_opaque s) = Some t" "tls_rest (es_opaque s)" "\<not> ets_phase2 (es_opaque s)" "rd_request (es_this_round s) = eap_packet_zero"
  shows "\<exists>s'. (if 0 < rec_used (ts_dirty_out t) then do {
        (rc, s) \<leftarrow> eap_tls_request True s;
        Some (set_state EAP_TLS_HANDLED s) }
      else if ets_phase2 (es_opaque s) \<or> env_init_finished env (ts_ssl t) then
        Some (set_state EAP_TLS_ESTABLISHED (set_tls (t\<lparr>ts_content_type := SSL3_RT_APPLICATION_DATA\<rparr>) (s\<lparr>es_opaque := (es_opaque s)\<lparr>ets_phase2 := True\<rparr>\<rparr>)))
      else Some (set_state EAP_TLS_FAIL s)) = Some s' \<and> tls_round env UNLANG_ACTION_CALCULATE_RESULT s' \<and> (ets_state (es_opaque s') = EAP_TLS_HANDLED \<longrightarrow> tls_rest (es_opaque s'))"
proof -
  have live: "tls_live (es_opaque s)" using s(2) by (rule tls_rest_live)
  consider "0 < rec_used (ts_dirty_out t)" | "rec_used (ts_dirty_out t) = 0" "env_init_finished env (ts_ssl t)" | "rec_used (ts_dirty_out t) = 0" "\<not> env_init_finished env (ts_ssl t)" by blast
  then show ?thesis
  proof cases
    case 1
    then show ?thesis using request_live [OF live] s by (fastforce simp: tls_round_def eap_packet_zero_def)
  next
    case 2
    have "tls_rest ((es_opaque s)\<lparr>ets_tls_session := Some (t\<lparr>ts_content_type := SSL3_RT_APPLICATION_DATA\<rparr>)\<rparr>)" using s(1,2) by (auto simp: tls_rest_kept tls_kept_def in_ok_def)
    then show ?thesis using 2 s by (auto simp: tls_round_def tls_rest_kept in_ok_def tls_live_kept handshake_finished_def)
  next
    case 3
    then show ?thesis using s live by (simp add: tls_round_def)
  qed
qed

lemma handshake_resume_round:
  assumes glue: "glue_ok M" and t: "ets_tls_session (es_opaque s) = Some t" "tls_live (es_opaque s)" "ts_result t = FR_TLS_RESULT_SUCCESS \<longrightarrow> tls_rest (es_opaque s)"
    and s: "\<not> ets_phase2 (es_opaque s)" "ets_state (es_opaque s) = EAP_TLS_RECORD_RECV_COMPLETE" "rd_request (es_this_round s) = eap_packet_zero"
  shows "\<exists>s'. eap_tls_handshake_resume (tm_env M) True s = Some s' \<and> tls_round (tm_env M) UNLANG_ACTION_CALCULATE_RESULT s' \<and>
    (ets_state (es_opaque s') = EAP_TLS_HANDLED \<longrightarrow> tls_rest (es_opaque s'))"
proof -
  let ?env = "tm_env M"
  have k: "tls_kept t" "plain_flags (base_of s)" using t(1,2) by (auto simp: tls_live_kept)
  have deny: "tls_live ((es_opaque s)\<lparr>ets_tls_session := Some (env_cache_deny ?env t)\<rparr>)" using glue k by (simp add: glue_ok_def tls_live_kept)
  let ?reused = "env_session_reused ?env (ts_ssl t)"
  let ?send = "ts_version t = TLS1_3_VERSION \<and> (ts_client_cert_ok t \<or> ets_authentication_success (es_opaque s) \<or> ?reused) \<and> (es_type s = FR_EAP_METHOD_TLS \<or> ?reused)"
  show ?thesis
  proof (cases "ts_result t")
    case FR_TLS_RESULT_IN_PROGRESS
    then show ?thesis using t s by (simp add: eap_tls_handshake_resume_def tls_round_def)
  next
    case FR_TLS_RESULT_ERROR
    then show ?thesis using t s deny by (simp add: eap_tls_handshake_resume_def tls_round_def)
  next
    case FR_TLS_RESULT_SUCCESS
    obtain r where r: "record_from_buff (ts_clean_in t) [0] 1 = Some (min 1 (FR_TLS_MAX_RECORD_SIZE - rec_used (ts_clean_in t)), r)" "rec_ok r"
      using record_from_buff_ok [of "ts_clean_in t" 1 "[0]"] k(1) by (auto simp: tls_kept_def)
    define t1 where "t1 = (if ?send then t\<lparr>ts_clean_in := r\<rparr> else t)"
    define s1 where "s1 = (if ?send then s\<lparr>es_opaque := (es_opaque s)\<lparr>ets_authentication_success := True\<rparr>\<rparr> else s)"
    have t1: "tls_kept t1" "ts_dirty_in t1 = ts_dirty_in t" "ts_result t1 = FR_TLS_RESULT_SUCCESS" using k(1) r(2) FR_TLS_RESULT_SUCCESS by (auto simp: t1_def tls_kept_def)
    have run: "eap_tls_handshake_resume ?env True s =
      (let s = set_tls t1 s1 in if 0 < rec_used (ts_dirty_out t1) then do { (rc, s) \<leftarrow> eap_tls_request True s; Some (set_state EAP_TLS_HANDLED s) }
         else if ets_phase2 (es_opaque s) \<or> env_init_finished ?env (ts_ssl t1) then
           Some (set_state EAP_TLS_ESTABLISHED (set_tls (t1\<lparr>ts_content_type := SSL3_RT_APPLICATION_DATA\<rparr>) (s\<lparr>es_opaque := (es_opaque s)\<lparr>ets_phase2 := True\<rparr>\<rparr>)))
         else Some (set_state EAP_TLS_FAIL s))"
      using FR_TLS_RESULT_SUCCESS t(1) r(1) t1(3) by (auto simp: eap_tls_handshake_resume_def t1_def s1_def Let_def cong: if_cong)
    have "tls_rest (es_opaque (set_tls t1 s1))" using t(1,3) FR_TLS_RESULT_SUCCESS t1 by (auto simp: tls_rest_kept in_ok_def s1_def)
    moreover have "\<not> ets_phase2 (es_opaque s1)" "rd_request (es_this_round s1) = eap_packet_zero" using s by (simp_all add: s1_def)
    ultimately show ?thesis using run resume_end_round [of "set_tls t1 s1" t1 ?env] by (simp add: Let_def cong: if_cong)
  qed
qed

section \<open>A round of the method\<close>

definition tls_answer :: "tls_env \<Rightarrow> rlm_rcode \<Rightarrow> tls_eap_session \<Rightarrow> bool" where
  "tls_answer env rc s \<longleftrightarrow> rc = RLM_MODULE_FAIL \<or> rc = RLM_MODULE_INVALID \<or>
     (let request = rd_request (es_this_round s) in
      reply_ok request \<and> pk_code request \<noteq> FR_EAP_CODE_RESPONSE \<and> (pk_code request = FR_EAP_CODE_REQUEST \<longrightarrow> tls_rest (es_opaque s)) \<and>
      (pk_code request = FR_EAP_CODE_SUCCESS \<longrightarrow> tls_rest (es_opaque s) \<and> handshake_finished env (es_opaque s)))"

lemma mod_handshake_resume_answer:
  assumes glue: "glue_ok M" and s: "tls_round (tm_env M) a s" "ets_state (es_opaque s) = EAP_TLS_HANDLED \<longrightarrow> tls_rest (es_opaque s)"
  shows "\<exists>rc pairs child' s'. mod_handshake_resume M True child s = Some (rc, pairs, child', s') \<and> tls_answer (tm_env M) rc s'"
proof -
  obtain t where t: "ets_tls_session (es_opaque s) = Some t" "tls_kept t" "plain_flags (base_of s)" using s(1) by (auto simp: tls_round_def tls_live_kept)
  have f: "\<not> TLS_LENGTH_INCLUDED (base_of s)" using t(3) by (simp add: plain_flags_def)
  have zero: "reply_ok eap_packet_zero" "pk_code eap_packet_zero = 0" by (simp_all add: reply_ok_def eap_fits_def eap_packet_zero_def)
  consider (established) "ets_state (es_opaque s) = EAP_TLS_ESTABLISHED" | (handled) "ets_state (es_opaque s) = EAP_TLS_HANDLED"
    | (complete) "ets_state (es_opaque s) = EAP_TLS_RECORD_RECV_COMPLETE"
    | (failed) "ets_state (es_opaque s) \<notin> {EAP_TLS_ESTABLISHED, EAP_TLS_HANDLED, EAP_TLS_RECORD_RECV_COMPLETE}" by blast
  then show ?thesis
  proof cases
    case established
    let ?c = "set_request ((rd_request (es_this_round s))\<lparr>pk_type_data := Some [base_of s], pk_type_length := 1, pk_code := FR_EAP_CODE_SUCCESS\<rparr>) (s\<lparr>es_finished := True\<rparr>)"
    have c: "eap_tls_compose True (s\<lparr>es_finished := True\<rparr>) EAP_TLS_ESTABLISHED (base_of s) False 0 0 = Some (0, ?c)"
      using compose_control [OF f, of EAP_TLS_ESTABLISHED "s\<lparr>es_finished := True\<rparr>"] by (simp add: compose_eap_code_def)
    have "tls_answer (tm_env M) RLM_MODULE_OK ?c" using s(1) established by (simp add: tls_answer_def tls_round_def reply_ok_def eap_fits_def eap_packet_zero_def)
    then show ?thesis using established t(1) c
      by (auto simp: mod_handshake_resume_def eap_tls_success_def tls_answer_def Let_def split: option.splits)
  next
    case handled
    then show ?thesis using s t(1) by (auto simp: mod_handshake_resume_def tls_round_def tls_answer_def Let_def)
  next
    case complete
    then show ?thesis using t(1) compose_control [of "base_of s" EAP_TLS_FAIL] f by (auto simp: mod_handshake_resume_def eap_tls_fail_def tls_answer_def Let_def)
  next
    case failed
    then show ?thesis using s(1) t(1) zero by (cases "ets_state (es_opaque s)") (simp_all add: mod_handshake_resume_def tls_round_def tls_answer_def Let_def)
  qed
qed

lemma deliver_same: "response_ok (rd_response (es_this_round s)) \<Longrightarrow> pk_type_data (rd_response (es_this_round s)) = Some d \<Longrightarrow> deliver d s = s \<and> length d \<le> 65530"
  by (cases s; cases "es_this_round s"; cases "rd_response (es_this_round s)") (simp add: deliver_def response_ok_def)

lemma mod_handshake_process_answer:
  assumes glue: "glue_ok M" and s: "tls_rest (es_opaque s)" "rd_request (es_this_round s) = eap_packet_zero" "response_ok (rd_response (es_this_round s))"
  shows "\<exists>rc pairs child' s'. mod_handshake_process M True child s = Some (rc, pairs, child', s') \<and> tls_answer (tm_env M) rc s'"
proof -
  have "\<exists>a s'. eap_tls_process (tm_env M) True s = Some (a, s') \<and> tls_round (tm_env M) a s' \<and> (ets_state (es_opaque s') = EAP_TLS_HANDLED \<longrightarrow> tls_rest (es_opaque s'))"
  proof (cases "pk_type_data (rd_response (es_this_round s))")
    case None
    then have "eap_tls_process (tm_env M) True s = Some (UNLANG_ACTION_CALCULATE_RESULT, set_state EAP_TLS_INVALID s)"
      using s(3) by (simp add: eap_tls_process_def eap_tls_verify_def response_ok_def)
    then show ?thesis using s(1,2) tls_rest_live [OF s(1)] by (auto simp: tls_round_def)
  next
    case (Some d)
    then show ?thesis using eap_tls_process_round [OF glue s(1) _ s(2), of d] deliver_same [OF s(3) Some] by simp
  qed
  then obtain a s1 where p: "eap_tls_process (tm_env M) True s = Some (a, s1)" "tls_round (tm_env M) a s1"
    "ets_state (es_opaque s1) = EAP_TLS_HANDLED \<longrightarrow> tls_rest (es_opaque s1)" by blast
  consider "a = UNLANG_ACTION_FAIL" | "a = UNLANG_ACTION_PUSHED_CHILD" | "a \<noteq> UNLANG_ACTION_FAIL" "a \<noteq> UNLANG_ACTION_PUSHED_CHILD" by blast
  then show ?thesis
  proof cases
    case 1
    then show ?thesis using p(1) by (auto simp: mod_handshake_process_def tls_answer_def)
  next
    case 2
    then obtain s2 where r: "eap_tls_handshake_resume (tm_env M) True s1 = Some s2" "tls_round (tm_env M) UNLANG_ACTION_CALCULATE_RESULT s2"
      "ets_state (es_opaque s2) = EAP_TLS_HANDLED \<longrightarrow> tls_rest (es_opaque s2)"
      using handshake_resume_round [OF glue, of s1] p(2) by (fastforce simp: tls_round_def tls_live_kept)
    then show ?thesis using 2 p(1) mod_handshake_resume_answer [OF glue r(2,3), of child] by (auto simp: mod_handshake_process_def)
  next
    case 3
    then show ?thesis using p(1) mod_handshake_resume_answer [OF glue p(2,3), of child] by (cases a) (auto simp: mod_handshake_process_def)
  qed
qed

section \<open>Where the code goes wrong\<close>

text \<open>In TLS 1.3 the octet that should tell the peer of the end of the handshake stays in the buffer for OpenSSL: the handshake that would send it is pushed and never run.\<close>

lemma commitment_not_sent:
  assumes t: "ets_tls_session (es_opaque s) = Some t" "ts_result t = FR_TLS_RESULT_SUCCESS" "ts_version t = TLS1_3_VERSION" "ts_client_cert_ok t" "es_type s = FR_EAP_METHOD_TLS"
    and "rec_used (ts_dirty_out t) = 0" "env_init_finished env (ts_ssl t)" "rec_ok (ts_clean_in t)" "rec_used (ts_clean_in t) = 0"
  shows "\<exists>s' t'. eap_tls_handshake_resume env alloc s = Some s' \<and> ets_state (es_opaque s') = EAP_TLS_ESTABLISHED \<and> ets_tls_session (es_opaque s') = Some t' \<and>
    rec_contents (ts_clean_in t') = [0] \<and> rec_used (ts_dirty_out t') = 0"
proof -
  obtain r where "record_from_buff (ts_clean_in t) [0] 1 = Some (1, r)" "rec_contents r = [0]"
    using record_from_buff_ok [of "ts_clean_in t" 1 "[0]"] assms(8,9) by (auto simp: rec_contents_def)
  then show ?thesis using assms by (simp add: eap_tls_handshake_resume_def Let_def)
qed

end
