(* ===== verification/Eap_Methods.thy ===== *)
theory Eap_Methods
  imports Eap_Md5 Rlm_Eap_Tls
begin

text \<open>
  The methods EAP-MD5 (\<^verbatim>\<open>src/modules/rlm_eap/types/rlm_eap_md5/rlm_eap_md5.c\<close>) and EAP-TLS (\<^verbatim>\<open>rlm_eap_tls.c\<close>) under the EAP module: what they keep in the session, and their
  callbacks as the functions \<open>run_method\<close> calls.

  The methods satisfy the interface \<open>eap_submodule\<close> for all responses whose EAP-MD5 value lies inside them, so a round of the module with these methods ends and leaves sessions
  that can go on; and an Access-Accept needs the digest of the password or a finished TLS handshake.
\<close>

section \<open>The callbacks\<close>

datatype eap_opaque = Md5_challenge bytes | Tls_session eap_tls_session

text \<open>Code the methods call: \<open>password_find\<close> on the control list of the request, \<open>fr_rand\<close>, and the TLS side.\<close>

record eap_methods =
  em_password_find :: "pair_list \<Rightarrow> bytes option"
  em_rand :: "nat \<Rightarrow> u32"
  em_tls :: tls_method

text \<open>A callback that changes nothing.\<close>

definition sub_keep :: "rlm_rcode \<Rightarrow> 'o esession \<Rightarrow> eap_round \<Rightarrow> state_request \<Rightarrow> 'o sub_result" where
  "sub_keep rcode s round child =
     \<lparr>sb_rcode = rcode, sb_reply = rd_request round, sb_set_request_id = rd_set_request_id round, sb_process = ss_process s, sb_opaque = ss_opaque s, sb_tls = ss_tls s,
      sb_finished = ss_finished s, sb_pairs = [], sb_child = child\<rparr>"

text \<open>\<open>mod_process\<close> of EAP-MD5. A session without a challenge gives a null pointer, from which nothing can be read.\<close>

definition md5_mod_process :: "eap_methods \<Rightarrow> bool \<Rightarrow> eap_opaque esession \<Rightarrow> pair_list \<Rightarrow> state_request \<Rightarrow> eap_opaque sub_result option" where
  "md5_mod_process M alloc s control child = do {
     round \<leftarrow> ss_this_round s;
     (case em_password_find M control of
        None \<Rightarrow> Some (sub_keep RLM_MODULE_FAIL s round child)
      | Some known_good \<Rightarrow> do {
          packet \<leftarrow> eap_md5_extract alloc round;
          (case packet of
             None \<Rightarrow> Some (sub_keep RLM_MODULE_INVALID s round child)
           | Some packet \<Rightarrow> do {
               ok \<leftarrow> eap_md5_verify packet known_good (case ss_opaque s of Some (Md5_challenge c) \<Rightarrow> c | _ \<Rightarrow> []);
               let reply = \<lparr>mp_code = (if ok then FR_MD5_SUCCESS else FR_MD5_FAILURE), mp_id = pk_id (rd_request round), mp_length = 0, mp_value_size = 0, mp_value = [], mp_name = None\<rparr>;
               (_, request) \<leftarrow> eap_md5_compose alloc (rd_request round) reply;
               Some ((sub_keep RLM_MODULE_OK s round child)\<lparr>sb_reply := request\<rparr>) }) }) }"

definition md5_mod_session_init :: "eap_methods \<Rightarrow> bool \<Rightarrow> eap_opaque esession \<Rightarrow> state_request \<Rightarrow> eap_opaque sub_result option" where
  "md5_mod_session_init M alloc s child = do {
     round \<leftarrow> ss_this_round s;
     let value = map (\<lambda>i. ucast (em_rand M i)) [0..<MD5_CHALLENGE_LEN];
     let reply = \<lparr>mp_code = FR_MD5_CHALLENGE, mp_id = 0, mp_length = 1 + MD5_CHALLENGE_LEN, mp_value_size = MD5_CHALLENGE_LEN, mp_value = value, mp_name = None\<rparr>;
     (_, request) \<leftarrow> eap_md5_compose alloc (rd_request round) reply;
     Some ((sub_keep RLM_MODULE_HANDLED s round child)\<lparr>sb_reply := request, sb_opaque := Some (Md5_challenge value), sb_process := Process FR_EAP_METHOD_MD5\<rparr>) }"

text \<open>The session as the TLS code sees it, and what it leaves.\<close>

definition tls_session_of :: "'o esession \<Rightarrow> eap_round \<Rightarrow> state_request \<Rightarrow> eap_tls_session \<Rightarrow> tls_eap_session" where
  "tls_session_of s round child e =
     \<lparr>es_type = ss_type s, es_request = request.truncate child, es_prev_round = ss_prev_round s, es_this_round = round, es_finished = ss_finished s, es_opaque = e\<rparr>"

definition tls_leaves :: "rlm_rcode \<Rightarrow> eap_opaque esession \<Rightarrow> state_request \<Rightarrow> tls_eap_session \<Rightarrow> eap_opaque sub_result" where
  "tls_leaves rcode s child v = (sub_keep rcode s (es_this_round v) child)\<lparr>sb_opaque := Some (Tls_session (es_opaque v)), sb_finished := es_finished v\<rparr>"

text \<open>\<open>mod_session_init\<close> of EAP-TLS: the attribute that overrides the setting is looked up in the control list of the subrequest.\<close>

definition tls_mod_session_init :: "eap_methods \<Rightarrow> bool \<Rightarrow> eap_opaque esession \<Rightarrow> pair_list \<Rightarrow> state_request \<Rightarrow> eap_opaque sub_result option" where
  "tls_mod_session_init M alloc s sub_control child = do {
     round \<leftarrow> ss_this_round s;
     let s = s\<lparr>ss_tls := True\<rparr>;
     let client_cert = (case fr_pair_find_by_da sub_control ATTR_EAP_TLS_REQUIRE_CLIENT_CERT of Some v \<Rightarrow> pair_uint32 v \<noteq> 0 | None \<Rightarrow> tm_req_client_cert (em_tls M));
     (case eap_tls_session_init (em_tls M) client_cert of
        None \<Rightarrow> Some ((sub_keep RLM_MODULE_FAIL s round child)\<lparr>sb_opaque := None\<rparr>)
      | Some e \<Rightarrow> do {
          let e = e\<lparr>ets_include_length := tm_include_length (em_tls M)\<rparr>;
          (rc, v) \<leftarrow> eap_tls_start alloc (tls_session_of s round child e);
          if rc < 0 then Some ((tls_leaves RLM_MODULE_FAIL s child v)\<lparr>sb_opaque := None\<rparr>)
          else Some ((tls_leaves RLM_MODULE_HANDLED s child v)\<lparr>sb_process := Process FR_EAP_METHOD_TLS\<rparr>) }) }"

definition tls_mod_process :: "eap_methods \<Rightarrow> bool \<Rightarrow> eap_opaque esession \<Rightarrow> state_request \<Rightarrow> eap_opaque sub_result option" where
  "tls_mod_process M alloc s child = do {
     round \<leftarrow> ss_this_round s;
     (case ss_opaque s of
        Some (Tls_session e) \<Rightarrow> do {
          (rcode, pairs, child, v) \<leftarrow> mod_handshake_process (em_tls M) alloc child (tls_session_of s round child e);
          Some ((tls_leaves rcode s child v)\<lparr>sb_pairs := pairs\<rparr>) }
      | _ \<Rightarrow> None) }"

text \<open>The callbacks of the two methods, by type.\<close>

definition eap_submodules :: "eap_methods \<Rightarrow> bool \<Rightarrow> eap_opaque eap_method" where
  "eap_submodules M alloc process s control sub_control child =
     (if process = Session_init FR_EAP_METHOD_MD5 then md5_mod_session_init M alloc s child
      else if process = Process FR_EAP_METHOD_MD5 then md5_mod_process M alloc s control child
      else if process = Session_init FR_EAP_METHOD_TLS then tls_mod_session_init M alloc s sub_control child
      else if process = Process FR_EAP_METHOD_TLS then tls_mod_process M alloc s child
      else None)"

section \<open>The methods answer\<close>

text \<open>What the methods rely on: passwords that fit the buffer, and OpenSSL.\<close>

definition methods_ok :: "eap_methods \<Rightarrow> bool" where
  "methods_ok M \<longleftrightarrow> (\<forall>control password. em_password_find M control = Some password \<longrightarrow> length password \<le> 492) \<and> glue_ok (em_tls M)"

definition methods_valid :: "eap_methods \<Rightarrow> eap_process \<Rightarrow> eap_opaque option \<Rightarrow> bool" where
  "methods_valid M process x \<longleftrightarrow> methods_ok M \<and>
     (process = Session_init FR_EAP_METHOD_MD5 \<or> process = Session_init FR_EAP_METHOD_TLS \<or>
      process = Process FR_EAP_METHOD_MD5 \<and> (\<exists>c. x = Some (Md5_challenge c) \<and> length c = MD5_CHALLENGE_LEN) \<or>
      process = Process FR_EAP_METHOD_TLS \<and> (\<exists>e. x = Some (Tls_session e) \<and> tls_rest e))"

lemma md5_init_answers:
  assumes "methods_ok M" "ss_this_round s = Some round" "fresh_round A round"
  shows "\<exists>res. md5_mod_session_init M True s child = Some res \<and> sub_ok (methods_valid M) res \<and> pk_code (sb_reply res) = FR_EAP_CODE_REQUEST"
  using assms eap_md5_compose_challenge [of "map (\<lambda>i. ucast (em_rand M i)) [0..<16]" "rd_request round" 0]
  by (simp add: md5_mod_session_init_def sub_keep_def sub_ok_def reply_ok_def eap_fits_def fresh_round_def methods_valid_def Let_def) (simp add: eap_packet_zero_def)

lemma tls_init_answers:
  assumes M: "methods_ok M" and s: "ss_this_round s = Some round" "fresh_round A round"
  shows "\<exists>res. tls_mod_session_init M True s sub_control child = Some res \<and> sub_ok (methods_valid M) res \<and>
    (sb_rcode res \<noteq> RLM_MODULE_FAIL \<longrightarrow> pk_code (sb_reply res) = FR_EAP_CODE_REQUEST)"
proof -
  let ?c = "case fr_pair_find_by_da sub_control ATTR_EAP_TLS_REQUIRE_CLIENT_CERT of Some v \<Rightarrow> pair_uint32 v \<noteq> 0 | None \<Rightarrow> tm_req_client_cert (em_tls M)"
  show ?thesis
  proof (cases "tm_session_alloc (em_tls M) ?c")
    case None
    then show ?thesis using s by (simp add: tls_mod_session_init_def eap_tls_session_init_def sub_ok_def sub_keep_def)
  next
    case (Some t)
    have t: "tls_kept t" "rec_used (ts_dirty_in t) = 0" using M Some by (auto simp: methods_ok_def glue_ok_def)
    have f: "\<not> TLS_LENGTH_INCLUDED (SET_START 0)" "plain_flags 0" by (simp_all add: flag_defs plain_flags_def)
    note c = compose_control [OF f(1), of EAP_TLS_START_SEND]
    show ?thesis using Some s t f M
      by (simp add: tls_mod_session_init_def eap_tls_session_init_def eap_tls_start_def c compose_eap_code_def tls_session_of_def tls_leaves_def sub_keep_def sub_ok_def fresh_round_def
          reply_ok_def eap_fits_def eap_packet_zero_def methods_valid_def tls_rest_kept in_ok_def)
  qed
qed

lemma md5_process_answers:
  assumes M: "methods_ok M" and s: "ss_this_round s = Some round" "fresh_round md5_sane round" "ss_process s = Process FR_EAP_METHOD_MD5"
      "ss_opaque s = Some (Md5_challenge c)" "length c = MD5_CHALLENGE_LEN"
  shows "\<exists>res. md5_mod_process M True s control child = Some res \<and> sub_ok (methods_valid M) res \<and> pk_code (sb_reply res) \<noteq> FR_EAP_CODE_RESPONSE \<and>
    (pk_code (sb_reply res) = FR_EAP_CODE_SUCCESS \<longrightarrow>
      (\<exists>password name. em_password_find M control = Some password \<and> pk_type_data (rd_response round) = Some (16 # md5_answer (pk_id (rd_response round)) password c @ name)))"
proof (cases "em_password_find M control")
  case None
  then show ?thesis using s by (simp add: md5_mod_process_def sub_ok_def sub_keep_def fresh_round_def eap_packet_zero_def)
next
  case (Some password)
  have p: "length password \<le> 492" using M Some by (auto simp: methods_ok_def)
  obtain x where x: "eap_md5_extract True round = Some x"
    "\<forall>packet. x = Some packet \<longrightarrow> mp_id packet = pk_id (rd_response round) \<and> length (mp_value packet) = mp_value_size packet \<and>
      (\<exists>data. pk_type_data (rd_response round) = Some data \<and> data \<noteq> [] \<and> mp_value_size packet = unat (data ! 0) \<and> mp_value packet = take (unat (data ! 0)) (tl data))"
    using eap_md5_extract_sane [of round True] s(2) by (auto simp: fresh_round_def)
  have z: "pk_code (rd_request round) = 0" "rd_request round = eap_packet_zero" using s(2) by (simp_all add: fresh_round_def eap_packet_zero_def)
  show ?thesis
  proof (cases x)
    case None
    then show ?thesis using s Some x(1) z by (simp add: md5_mod_process_def sub_ok_def sub_keep_def)
  next
    case (Some packet)
    let ?ok = "mp_value_size packet = 16 \<and> mp_value packet = md5_answer (mp_id packet) password c"
    have v: "eap_md5_verify packet password c = Some ?ok" using eap_md5_verify_exact [OF _ p, of packet c] x(2) Some s(5) by simp
    obtain data where data: "mp_id packet = pk_id (rd_response round)" "pk_type_data (rd_response round) = Some data" "data \<noteq> []" "mp_value_size packet = unat (data ! 0)"
      "mp_value packet = take (unat (data ! 0)) (tl data)" using x(2) Some by blast
    have d: "data = 16 # md5_answer (pk_id (rd_response round)) password c @ drop 17 data" if ?ok
    proof -
      have "unat (data ! 0) = 16" using that data(4) by simp
      then have "unat (data ! 0) = unat (16 :: byte)" by simp
      then have "data ! 0 = 16" by (rule unsigned_word_eqI)
      moreover have "data = data ! 0 # take 16 (tl data) @ drop 17 data" using data(3) by (cases data) (simp_all add: drop_Cons')
      ultimately show ?thesis using that data(1,5) \<open>unat (data ! 0) = 16\<close> by metis
    qed
    show ?thesis using s \<open>em_password_find M control = Some password\<close> x(1) Some v z M d data(2)
      by (auto simp: md5_mod_process_def eap_md5_compose_def sub_keep_def sub_ok_def reply_ok_def eap_fits_def methods_valid_def Let_def) (auto simp: eap_packet_zero_def)
  qed
qed

text \<open>What a peer has to have shown before it is let in: the digest of the password and the challenge of the session, or a TLS handshake that OpenSSL has finished in this round.\<close>

definition peer_proved :: "eap_methods \<Rightarrow> pair_list \<Rightarrow> eap_opaque esession \<Rightarrow> eap_round \<Rightarrow> bool" where
  "peer_proved M control s round \<longleftrightarrow>
     (\<exists>c password name. ss_process s = Process FR_EAP_METHOD_MD5 \<and> ss_opaque s = Some (Md5_challenge c) \<and> em_password_find M control = Some password \<and>
        pk_type_data (rd_response round) = Some (16 # md5_answer (pk_id (rd_response round)) password c @ name)) \<or>
     (\<exists>e child rcode pairs child' v. ss_process s = Process FR_EAP_METHOD_TLS \<and> ss_opaque s = Some (Tls_session e) \<and>
        mod_handshake_process (em_tls M) True child (tls_session_of s round child e) = Some (rcode, pairs, child', v) \<and> handshake_finished (tm_env (em_tls M)) (es_opaque v))"

lemma tls_process_answers:
  assumes M: "methods_ok M" and s: "ss_this_round s = Some round" "fresh_round A round" "ss_process s = Process FR_EAP_METHOD_TLS" "ss_opaque s = Some (Tls_session e)" "tls_rest e"
  shows "\<exists>res. tls_mod_process M True s child = Some res \<and> sub_ok (methods_valid M) res \<and>
    (sb_rcode res = RLM_MODULE_FAIL \<or> sb_rcode res = RLM_MODULE_INVALID \<or> pk_code (sb_reply res) \<noteq> FR_EAP_CODE_RESPONSE \<and>
     (pk_code (sb_reply res) = FR_EAP_CODE_SUCCESS \<longrightarrow> peer_proved M control s round))"
proof -
  have g: "glue_ok (em_tls M)" using M by (simp add: methods_ok_def)
  let ?v = "tls_session_of s round child e"
  obtain rc pairs child' v where v: "mod_handshake_process (em_tls M) True child ?v = Some (rc, pairs, child', v)" "tls_answer (tm_env (em_tls M)) rc v"
    using mod_handshake_process_answer [OF g, of ?v child] s(2,5) by (auto simp: tls_session_of_def fresh_round_def)
  let ?res = "(tls_leaves rc s child' v)\<lparr>sb_pairs := pairs\<rparr>"
  have r: "tls_mod_process M True s child = Some ?res" using s(1,4) v(1) by (simp add: tls_mod_process_def)
  have "sub_ok (methods_valid M) ?res" using v(2) s(3) M by (auto simp: tls_answer_def sub_ok_def tls_leaves_def sub_keep_def methods_valid_def Let_def)
  moreover have "peer_proved M control s round" if "handshake_finished (tm_env (em_tls M)) (es_opaque v)"
    unfolding peer_proved_def using s(3,4) v(1) that by blast
  ultimately show ?thesis using r v(2) by (auto simp: tls_answer_def tls_leaves_def sub_keep_def Let_def)
qed

lemma submodules_answer:
  assumes V: "methods_valid M (ss_process s) (ss_opaque s)" and s: "ss_this_round s = Some round" "fresh_round md5_sane round"
  shows "\<exists>res. eap_submodules M True (ss_process s) s control sub_control child = Some res \<and> sub_ok (methods_valid M) res \<and>
    (sb_rcode res = RLM_MODULE_FAIL \<or> sb_rcode res = RLM_MODULE_INVALID \<or> pk_code (sb_reply res) \<noteq> FR_EAP_CODE_RESPONSE \<and>
     (pk_code (sb_reply res) = FR_EAP_CODE_SUCCESS \<longrightarrow> peer_proved M control s round))"
proof -
  have M: "methods_ok M" using V by (simp add: methods_valid_def)
  consider (a) "ss_process s = Session_init FR_EAP_METHOD_MD5" | (b) "ss_process s = Session_init FR_EAP_METHOD_TLS"
    | (c) c where "ss_process s = Process FR_EAP_METHOD_MD5" "ss_opaque s = Some (Md5_challenge c)" "length c = MD5_CHALLENGE_LEN"
    | (d) e where "ss_process s = Process FR_EAP_METHOD_TLS" "ss_opaque s = Some (Tls_session e)" "tls_rest e"
    using V by (auto simp: methods_valid_def)
  then show ?thesis
  proof cases
    case a
    then show ?thesis using md5_init_answers [OF M s, of child] by (auto simp: eap_submodules_def)
  next
    case b
    then show ?thesis using tls_init_answers [OF M s, of sub_control child] by (auto simp: eap_submodules_def)
  next
    case c
    then show ?thesis using md5_process_answers [OF M s c, of control child] unfolding peer_proved_def eap_submodules_def by fastforce
  next
    case d
    then show ?thesis using tls_process_answers [OF M s d, of child control] by (auto simp: eap_submodules_def)
  qed
qed

interpretation methods: eap_submodule "eap_submodules M True" "methods_valid M" md5_sane for M
  by unfold_locales (use submodules_answer in blast)

section \<open>Access-Accept\<close>

text \<open>Only a composed response or success makes the reply an Access-Accept.\<close>

lemma compose_accept:
  fixes v :: eap_session
  assumes "eap_compose alloc v = Some (rc, v')" "rq_reply_code (es_request v') = RADIUS_ACCESS_ACCEPT" "rq_reply_code (es_request v) \<noteq> RADIUS_ACCESS_ACCEPT"
  shows "pk_code (rd_request (es_this_round v)) = FR_EAP_CODE_RESPONSE \<or> pk_code (rd_request (es_this_round v)) = FR_EAP_CODE_SUCCESS"
proof -
  let ?r = "composed v"
  obtain rc1 reply where w: "eap_wireformat alloc ?r = Some (rc1, reply)" using assms(1) by (auto simp: eap_compose_def Let_def Option.bind_eq_Some_conv)
  have c: "pk_code reply = pk_code (rd_request (es_this_round v))"
    using w by (auto simp: eap_wireformat_def Let_def Option.bind_eq_Some_conv split: if_splits)
  show ?thesis
  proof (cases "rc1 < 0")
    case True
    then show ?thesis using assms w by (auto simp: eap_compose_def Let_def)
  next
    case False
    obtain rcode rad code where k: "compose_code (rq_proxy_eap (es_request v)) (pk_code reply) = (rcode, rad, code)" by (metis prod.collapse)
    have "rad = Some RADIUS_ACCESS_ACCEPT" using assms w False k by (auto simp: eap_compose_def Let_def Option.bind_eq_Some_conv split: option.splits)
    then show ?thesis using k c by (auto simp: compose_code_def split: if_splits)
  qed
qed

lemma fail_accept:
  fixes v :: eap_session
  assumes "eap_fail alloc v = Some (rc, v')" "rq_reply_code (es_request v) \<noteq> RADIUS_ACCESS_ACCEPT"
  shows "rq_reply_code (es_request v') \<noteq> RADIUS_ACCESS_ACCEPT"
  using assms by (auto simp: eap_fail_def Let_def dest: compose_accept)

abbreviation reply_code :: "'o eap_world \<Rightarrow> nat" where
  "reply_code W \<equiv> rq_reply_code (ew_request W)"

lemma on_session_code:
  assumes "on_session f a W = Some (rc, W')"
  shows "\<exists>s v v'. ew_sessions W a = Some s \<and> ss_this_round s = Some (es_this_round v) \<and> rq_reply_code (es_request v) = reply_code W \<and> f v = Some (rc, v') \<and>
    reply_code W' = rq_reply_code (es_request v')"
proof -
  obtain s round where s: "ew_sessions W a = Some s" "ss_request s \<noteq> None" "ss_this_round s = Some round"
    using assms by (auto simp: on_session_def eap_view_def Option.bind_eq_Some_conv split: if_splits)
  let ?v = "\<lparr>es_type = ss_type s, es_request = request.truncate (ew_request W), es_prev_round = ss_prev_round s, es_this_round = round, es_finished = ss_finished s\<rparr>"
  have "on_session f a W = do { (rcode, v) \<leftarrow> f ?v; Some (rcode, set_session a (s\<lparr>ss_this_round := Some (es_this_round v), ss_finished := es_finished v\<rparr>)
      (W\<lparr>ew_request := (ew_request W)\<lparr>rq_reply_pairs := rq_reply_pairs (es_request v), rq_reply_code := rq_reply_code (es_request v)\<rparr>\<rparr>)) }"
    using s by (auto simp: on_session_def eap_view_def)
  then obtain v' where "f ?v = Some (rc, v')" "reply_code W' = rq_reply_code (es_request v')" using assms by (cases "f ?v") auto
  then show ?thesis using s by (intro exI [of _ s] exI [of _ ?v] exI [of _ v']) (simp add: request.defs)
qed

lemma session_codes:
  "eap_session_destroy x W = Some W' \<Longrightarrow> reply_code W' = reply_code W"
  "eap_session_freeze x W = Some W' \<Longrightarrow> reply_code W' = reply_code W"
  "eap_session_thaw now W = Some (x, W') \<Longrightarrow> reply_code W' = reply_code W"
  "eap_session_alloc now new W = (x, W') \<Longrightarrow> reply_code W' = reply_code W"
  by (auto simp: eap_session_destroy_def eap_session_free_def eap_session_freeze_def eap_session_thaw_def eap_session_alloc_def Let_def Option.bind_eq_Some_conv
      split: option.splits if_splits prod.splits)

lemma result_accept:
  assumes run: "mod_authenticate_result alloc result a W = Some (rc, W')" and code: "reply_code W' = RADIUS_ACCESS_ACCEPT" "reply_code W \<noteq> RADIUS_ACCESS_ACCEPT"
  shows "result \<noteq> RLM_MODULE_FAIL \<and> result \<noteq> RLM_MODULE_INVALID \<and>
    (\<exists>s round. ew_sessions W a = Some s \<and> ss_this_round s = Some round \<and> (pk_code (rd_request round) = FR_EAP_CODE_RESPONSE \<or> pk_code (rd_request round) = FR_EAP_CODE_SUCCESS))"
proof (cases "result = RLM_MODULE_FAIL \<or> result = RLM_MODULE_INVALID")
  case True
  then obtain rc1 W1 where 1: "on_session (eap_fail alloc) a W = Some (rc1, W1)" "reply_code W' = reply_code W1"
    using run by (auto simp: mod_authenticate_result_def Option.bind_eq_Some_conv session_codes)
  then show ?thesis using on_session_code [OF 1(1)] fail_accept code by auto
next
  case False
  obtain W1 where 1: "(if result = RLM_MODULE_REJECT \<or> result = RLM_MODULE_DISALLOW then set_reply_code FR_EAP_CODE_FAILURE a W else Some W) = Some W1"
    using False run by (auto simp: mod_authenticate_result_def Option.bind_eq_Some_conv)
  obtain rc2 W2 where 2: "on_session (eap_compose alloc) a W1 = Some (rc2, W2)" "reply_code W' = reply_code W2"
  proof -
    have "\<exists>rc2 W2. on_session (eap_compose alloc) a W1 = Some (rc2, W2) \<and> reply_code W' = reply_code W2"
      using False run 1 by (auto simp: mod_authenticate_result_def Option.bind_eq_Some_conv session_codes split: if_splits)
    then show thesis using that by blast
  qed
  have c1: "reply_code W1 = reply_code W" using 1 by (auto simp: set_reply_code_def Option.bind_eq_Some_conv split: if_splits)
  obtain s and v v' :: eap_session where v: "ew_sessions W1 a = Some s" "ss_this_round s = Some (es_this_round v)" "rq_reply_code (es_request v) = reply_code W1"
    "eap_compose alloc v = Some (rc2, v')" "reply_code W2 = rq_reply_code (es_request v')" using on_session_code [OF 2(1)] by blast
  have s: "ew_sessions W1 a = Some s" "ss_this_round s = Some (es_this_round v)"
    "pk_code (rd_request (es_this_round v)) = FR_EAP_CODE_RESPONSE \<or> pk_code (rd_request (es_this_round v)) = FR_EAP_CODE_SUCCESS"
    using v(1,2) compose_accept [OF v(4)] v(3,5) code c1 2(2) by auto
  have "W1 = W"
  proof (cases "result = RLM_MODULE_REJECT \<or> result = RLM_MODULE_DISALLOW")
    case True
    then obtain s0 round where "s = s0\<lparr>ss_this_round := Some (round\<lparr>rd_request := (rd_request round)\<lparr>pk_code := FR_EAP_CODE_FAILURE\<rparr>\<rparr>)\<rparr>"
      using 1 s(1) by (auto simp: set_reply_code_def Option.bind_eq_Some_conv)
    then have "es_this_round v = round\<lparr>rd_request := (rd_request round)\<lparr>pk_code := FR_EAP_CODE_FAILURE\<rparr>\<rparr>" using s(2) by simp
    then show ?thesis using s(3) by simp
  next
    case False
    then show ?thesis using 1 by simp
  qed
  then show ?thesis using s False by blast
qed

lemma run_method_code:
  assumes "run_method ctx inst m a W = Some (rc, W')"
  shows "reply_code W' = reply_code W \<and> (\<exists>s round child res s' round'. ew_sessions W a = Some s \<and> ss_this_round s = Some round \<and> ss_process s \<noteq> No_process \<and>
    m (ss_process s) s (ec_control ctx) (child_control inst s (ec_control ctx)) child = Some res \<and> rc = sb_rcode res \<and>
    ew_sessions W' a = Some s' \<and> ss_this_round s' = Some round' \<and> rd_request round' = sb_reply res)"
proof -
  obtain s child r C round res where 1: "ew_sessions W a = Some s"
    "fr_state_restore_to_child a 0 (child_request inst (ec_child_number ctx) s (ew_request W)) (ew_request W) (ew_children W) = Some (child, r, C)"
    "ss_this_round s = Some round" "ss_process s \<noteq> No_process" "m (ss_process s) s (ec_control ctx) (child_control inst s (ec_control ctx)) child = Some res"
    using assms by (auto simp: run_method_def Option.bind_eq_Some_conv split: if_splits)
  let ?r = "r\<lparr>rq_reply_pairs := fold (\<lambda>(da, v). pair_update da v) (sb_pairs res) (rq_reply_pairs r)\<rparr>"
  obtain child' r' C' where 2: "fr_state_store_in_parent a 0 (ec_new_child ctx) (sb_child res) ?r C = (child', r', C')" by (metis prod.collapse)
  have "rq_reply_code r = reply_code W" using 1(2) by (auto simp: fr_state_restore_to_child_def Let_def Option.bind_eq_Some_conv split: if_splits prod.splits)
  moreover have "rq_reply_code r' = rq_reply_code r" using 2 by (auto simp: fr_state_store_in_parent_def Let_def split: if_splits prod.splits)
  moreover have "rc = sb_rcode res" "reply_code W' = rq_reply_code r'" "\<exists>s' round'. ew_sessions W' a = Some s' \<and> ss_this_round s' = Some round' \<and> rd_request round' = sb_reply res"
    using assms 1 2 by (auto simp: run_method_def Let_def)
  ultimately show ?thesis using 1 by metis
qed

lemma select_code:
  assumes "eap_method_select ctx inst a W = Some (x, W')" "ew_sessions W a = Some s" "ss_this_round s = Some round"
  shows "reply_code W' = reply_code W \<and> (x = None \<longrightarrow> (\<exists>s'. ew_sessions W' a = Some s' \<and>
    ((\<exists>n. ss_process s' = Session_init n) \<or> s' = s\<lparr>ss_type := pk_type_num (rd_response round)\<rparr> \<and> pk_type_num (rd_response round) \<noteq> FR_EAP_METHOD_NAK)))"
proof -
  let ?t = "pk_type_num (rd_response round)"
  obtain r C where d: "fr_state_discard_child a 0 (ew_request W) (ew_children W) = (r, C)" by (metis surj_pair)
  have r: "rq_reply_code r = reply_code W" using d by (auto simp: fr_state_discard_child_def Let_def split: if_splits prod.splits)
  consider "?t = 0 \<or> ?t \<ge> FR_EAP_METHOD_MAX \<or> ec_nested ctx" | "?t = FR_EAP_METHOD_IDENTITY" "\<not> ec_nested ctx" | "?t = FR_EAP_METHOD_NAK" "\<not> ec_nested ctx"
    | "0 < ?t" "?t < FR_EAP_METHOD_MAX" "\<not> ec_nested ctx" "?t \<noteq> FR_EAP_METHOD_IDENTITY" "?t \<noteq> FR_EAP_METHOD_NAK" by linarith
  then show ?thesis
  proof cases
    case 1
    then have "eap_method_select ctx inst a W = Some (Some RLM_MODULE_INVALID, W)" using assms(2,3) by (auto simp: eap_method_select_def Let_def)
    then show ?thesis using assms(1) by simp
  next
    case 2
    then show ?thesis using assms by (auto simp: eap_method_select_def select_init_def Let_def Option.bind_eq_Some_conv split: option.splits if_splits)
  next
    case 3
    then show ?thesis using assms d r by (auto simp: eap_method_select_def select_init_def Let_def Option.bind_eq_Some_conv split: if_splits)
  next
    case 4
    then show ?thesis using assms by (auto simp: eap_method_select_def Let_def split: if_splits)
  qed
qed

text \<open>A session that was just made has no callback.\<close>

lemma fold_free: "fold (\<lambda>a E. E(a := None)) xs E a = Some s \<Longrightarrow> E a = Some s"
proof (induction xs arbitrary: E)
  case (Cons x xs)
  then have "(E(x := None)) a = Some s" using Cons.IH [of "E(x := None)"] by simp
  then show ?case by (simp split: if_splits)
qed simp

lemma alloc_process: "eap_session_alloc now new W = (Some a, W') \<Longrightarrow> ew_sessions W' a = Some s \<Longrightarrow> ss_process s = No_process"
  by (auto simp: eap_session_alloc_def Let_def split: if_splits prod.splits dest!: fold_free)

lemma continue_round_code:
  assumes "continue_round alloc p a ok W = Some (x, W')"
  shows "reply_code W' = reply_code W" "x = Some b \<Longrightarrow> b = a \<and> (\<exists>s s'. ew_sessions W a = Some s \<and> ew_sessions W' a = Some s' \<and> ss_process s' = ss_process s)"
  using assms
  by (auto simp: continue_round_def continue_error_def continue_user_def Let_def Option.bind_eq_Some_conv dest!: session_codes(1) split: if_splits option.splits)

lemma continue_code:
  assumes "eap_session_continue now new alloc instance p W = Some (x, W')"
  shows "reply_code W' = reply_code W" "eap_session_thaw now W = Some (None, W0) \<Longrightarrow> x = Some a \<Longrightarrow> \<exists>s. ew_sessions W' a = Some s \<and> ss_process s = No_process"
proof -
  obtain old W1 where 1: "eap_session_thaw now W = Some (old, W1)" using assms by (auto simp: eap_session_continue_def Option.bind_eq_Some_conv)
  have c1: "reply_code W1 = reply_code W" using session_codes(3) [OF 1] .
  have "reply_code W' = reply_code W \<and> (old = None \<longrightarrow> x = Some a \<longrightarrow> (\<exists>s. ew_sessions W' a = Some s \<and> ss_process s = No_process))" for a
  proof (cases old)
    case (Some b)
    then obtain ok W2 where "continue_old p b W1 = Some (ok, W2)" "continue_round alloc p b ok W2 = Some (x, W')"
      using assms 1 by (auto simp: eap_session_continue_def Option.bind_eq_Some_conv)
    moreover then have "reply_code W2 = reply_code W1" by (auto simp: continue_old_def Let_def Option.bind_eq_Some_conv split: if_splits)
    ultimately show ?thesis using Some c1 continue_round_code(1) by fastforce
  next
    case None
    obtain b W2 where 2: "eap_session_alloc now new W1 = (b, W2)" by (metis surj_pair)
    show ?thesis
    proof (cases b)
      case b: None
      then show ?thesis using None assms 1 2 c1 session_codes(4) [OF 2] by (auto simp: eap_session_continue_def)
    next
      case b: (Some b)
      then obtain ok W3 where 3: "continue_new instance p b W2 = Some (ok, W3)" "continue_round alloc p b ok W3 = Some (x, W')"
        using None assms 1 2 by (auto simp: eap_session_continue_def Option.bind_eq_Some_conv)
      have 4: "reply_code W3 = reply_code W2" "\<exists>s s'. ew_sessions W2 b = Some s \<and> ew_sessions W3 b = Some s' \<and> ss_process s' = ss_process s"
        using 3(1) by (auto simp: continue_new_def Let_def Option.bind_eq_Some_conv split: if_splits)
      show ?thesis using continue_round_code [OF 3(2)] 4 c1 session_codes(4) [OF 2] alloc_process [OF 2 [unfolded b]] by fastforce
    qed
  qed
  then show "reply_code W' = reply_code W" "eap_session_thaw now W = Some (None, W0) \<Longrightarrow> x = Some a \<Longrightarrow> \<exists>s. ew_sessions W' a = Some s \<and> ss_process s = No_process"
    using 1 by auto
qed

text \<open>Once the method is chosen, only its answer can make the reply an Access-Accept.\<close>

lemma chosen_accept:
  assumes W: "eap_work (\<lambda>s. selected md5_sane s \<and> method_set (methods_valid M) inst s) a W"
    and run: "run_method ctx inst (eap_submodules M True) a W = Some (rc1, W1)" "mod_authenticate_result alloc rc1 a W1 = Some (rc, W')"
      "reply_code W' = RADIUS_ACCESS_ACCEPT" "reply_code W \<noteq> RADIUS_ACCESS_ACCEPT"
  shows "\<exists>s round. ew_sessions W a = Some s \<and> ss_this_round s = Some round \<and> ss_process s \<noteq> No_process \<and> peer_proved M (ec_control ctx) s round"
proof -
  obtain s round child res s1 round1 where r: "reply_code W1 = reply_code W" "ew_sessions W a = Some s" "ss_this_round s = Some round" "ss_process s \<noteq> No_process"
    "eap_submodules M True (ss_process s) s (ec_control ctx) (child_control inst s (ec_control ctx)) child = Some res" "rc1 = sb_rcode res"
    "ew_sessions W1 a = Some s1" "ss_this_round s1 = Some round1" "rd_request round1 = sb_reply res"
    using run_method_code [OF run(1)] by metis
  have res: "rc1 \<noteq> RLM_MODULE_FAIL" "rc1 \<noteq> RLM_MODULE_INVALID" "pk_code (sb_reply res) = FR_EAP_CODE_RESPONSE \<or> pk_code (sb_reply res) = FR_EAP_CODE_SUCCESS"
    using result_accept [OF run(2,3)] r run(4) by auto
  have f: "methods_valid M (ss_process s) (ss_opaque s)" "fresh_round md5_sane round" using W r(2,3) by (auto simp: at_work_def selected_def method_set_def)
  have "peer_proved M (ec_control ctx) s round"
    using submodules_answer [OF f(1) r(3) f(2), of "ec_control ctx" "child_control inst s (ec_control ctx)" child] r(5,6) res by auto
  then show ?thesis using r(2-4) by blast
qed

lemma accept_needs_proof:
  assumes rest: "inst_ok (methods_valid M) inst" "eap_rest (methods_valid M) inst W" "rd_abs (ew_data W) (ec_new_session ctx, 0) = None"
    and first: "rd_abs (ew_data W) (0, REQUEST_DATA_EAP_SESSION) = None \<longrightarrow> (\<forall>p. eap_received ctx W = Some (Some p) \<longrightarrow> \<not> ei_methods inst (unat (p ! 4)))"
    and sane: "\<forall>p round. eap_received ctx W = Some (Some p) \<longrightarrow> eap_round_build (ec_alloc ctx) p = Some (Some round) \<longrightarrow> md5_sane (rd_response round)"
    and run: "mod_authenticate ctx inst (eap_submodules M True) W = Some (rc, W')" "reply_code W' = RADIUS_ACCESS_ACCEPT" "reply_code W \<noteq> RADIUS_ACCESS_ACCEPT"
  shows "\<exists>a s p round. rd_abs (ew_data W) (0, REQUEST_DATA_EAP_SESSION) = Some a \<and> ew_sessions W a = Some s \<and> eap_received ctx W = Some (Some p) \<and>
    eap_round_build (ec_alloc ctx) p = Some (Some round) \<and> peer_proved M (ec_control ctx) s round"
proof -
  let ?V = "methods_valid M"
  obtain p where p: "eap_received ctx W = Some (Some p)" "eap_wf p" "fr_pair_find_by_da (rq_request_pairs (ew_request W)) ATTR_EAP_MESSAGE \<noteq> None"
    using run eap_packet_from_vp_wf [of "ec_alloc ctx" "pair_values (rq_request_pairs (ew_request W)) ATTR_EAP_MESSAGE"]
    by (auto simp: mod_authenticate_def split: if_splits option.splits)
  have t: "rd_abs (ew_data W) (0, REQUEST_DATA_EAP_SESSION) = None \<longrightarrow> unat (p ! 4) < FR_EAP_METHOD_MD5 \<or> \<not> ei_methods inst (unat (p ! 4))" using first p(1) by blast
  have A: "\<forall>round. eap_round_build (ec_alloc ctx) p = Some (Some round) \<longrightarrow> md5_sane (rd_response round)" using sane p(1) by blast
  obtain so W1 where 1: "eap_session_continue (ec_now ctx) (ec_new_session ctx) (ec_alloc ctx) (ei_instance inst) p W = Some (so, W1)"
    "case so of None \<Rightarrow> eap_rest ?V inst W1 | Some a \<Rightarrow> eap_work (working ?V md5_sane inst) a W1"
    using eap_session_continue_ok [OF rest(2) p(2) _ rest(3) t A, of "ei_instance inst"] rest(1) unfolding inst_ok_def by blast
  have c1: "reply_code W1 \<noteq> RADIUS_ACCESS_ACCEPT" using continue_code(1) [OF 1(1)] run(3) by simp
  obtain a where a: "so = Some a" using run p 1(1) c1 by (cases so) (auto simp: mod_authenticate_def)
  then have w: "eap_work (working ?V md5_sane inst) a W1" using 1(2) by simp
  then obtain s1 round where s1: "ew_sessions W1 a = Some s1" "ss_this_round s1 = Some round" by (auto simp: at_work_def working_def)
  obtain y W2 where 2: "eap_method_select ctx inst a W1 = Some (y, W2)" "eap_work (\<lambda>s. selected md5_sane s \<and> (y = None \<longrightarrow> method_set ?V inst s)) a W2"
      "y \<noteq> Some RLM_MODULE_OK" "y \<noteq> Some RLM_MODULE_UPDATED"
    using eap_method_select_ok [OF w rest(1), of ctx] by blast
  have c2: "reply_code W2 \<noteq> RADIUS_ACCESS_ACCEPT" using select_code [OF 2(1) s1] c1 by simp
  have y: "y = None"
  proof (rule ccontr)
    assume "y \<noteq> None"
    then obtain v W3 where 3: "on_session (eap_fail (ec_alloc ctx)) a W2 = Some (v, W3)" "eap_session_destroy (Some a) W3 = Some W'"
      using run(1) p 1(1) a 2(1,3,4) by (auto simp: mod_authenticate_def Option.bind_eq_Some_conv split: if_splits)
    then show False using on_session_code [OF 3(1)] fail_accept c2 run(2) session_codes(1) [OF 3(2)] by auto
  qed
  obtain rc3 W3 where 3: "run_method ctx inst (eap_submodules M True) a W2 = Some (rc3, W3)" "mod_authenticate_result (ec_alloc ctx) rc3 a W3 = Some (rc, W')"
    using run(1) p 1(1) a 2(1) y by (auto simp: mod_authenticate_def Option.bind_eq_Some_conv)
  have "eap_work (\<lambda>s. selected md5_sane s \<and> method_set ?V inst s) a W2" using 2(2) y by simp
  from chosen_accept [OF this 3 run(2) c2] obtain s2 round2 where r: "ew_sessions W2 a = Some s2" "ss_this_round s2 = Some round2" "ss_process s2 \<noteq> No_process"
    "peer_proved M (ec_control ctx) s2 round2" by blast
  have n: "\<nexists>n. ss_process s2 = Session_init n" using r(4) by (auto simp: peer_proved_def)
  then have s2: "s2 = s1\<lparr>ss_type := pk_type_num (rd_response round)\<rparr>" "pk_type_num (rd_response round) \<noteq> FR_EAP_METHOD_NAK" using select_code [OF 2(1) s1] y r(1) by auto
  show ?thesis
  proof (cases "rd_abs (ew_data W) (0, REQUEST_DATA_EAP_SESSION)")
    case None
    then have "eap_session_thaw (ec_now ctx) W = Some (None, W)" using thaw_rest [OF rest(2), of "ec_now ctx"] by simp
    then show ?thesis using continue_code(2) [OF 1(1) _ a] s1(1) s2(1) r(3) by auto
  next
    case (Some b)
    then obtain s where s: "ew_sessions W b = Some s" using rest(2) by (auto simp: at_rest_def)
    obtain round' where k: "a = b" "unat (p ! 4) = FR_EAP_METHOD_NAK \<or> unat (p ! 4) = ss_type s" "eap_round_build (ec_alloc ctx) p = Some (Some round')"
      "s1 = s\<lparr>ss_request := Some (sr_number (ew_request W)), ss_updated := ec_now ctx, ss_rounds := ss_rounds s + 1, ss_this_round := Some round'\<rparr>"
      using eap_session_continued [OF rest(2) Some s p(2) 1(1) [unfolded a]] s1(1) by auto
    have q: "round' = round" "pk_type_num (rd_response round) = ss_type s" "round2 = round"
      using k s1(2) s2 r(2) eap_wf_reads(5) [OF p(2), of "ec_alloc ctx"] by auto
    then have "peer_proved M (ec_control ctx) s round" using r(4) k(4) s2(1) by (simp add: peer_proved_def tls_session_of_def)
    then show ?thesis using Some s p(1) k(3) q(1) by blast
  qed
qed

section \<open>A peer that knows the password\<close>

lemma eap_md5_extract_answer:
  assumes "response_ok (rd_response round)" "pk_code (rd_response round) = FR_MD5_RESPONSE" "pk_type_num (rd_response round) = FR_EAP_METHOD_MD5"
    and d: "pk_type_data (rd_response round) = Some (word_of_nat (length value) # value @ name)" "0 < length value" "length value < 256"
  shows "\<exists>packet. eap_md5_extract True round = Some (Some packet) \<and> mp_id packet = pk_id (rd_response round) \<and> mp_value_size packet = length value \<and> mp_value packet = value"
proof -
  let ?n = "length value"
  have u: "unat (word_of_nat ?n :: byte) = ?n" "(word_of_nat ?n :: byte) \<noteq> 0" using d(2,3) by (simp_all add: unat_of_nat of_nat_neq_0)
  have l: "pk_length (rd_response round) = 6 + length (value @ name)" "Suc (length (value @ name)) \<le> 65530" using assms(1) d(1) by (simp_all add: response_ok_def)
  have m: "(65535 + Suc (length (value @ name)) - ?n) mod 65536 = length name" using md5_name_len [of ?n "Suc (length (value @ name))"] l(2) by simp
  show ?thesis using assms u l m by (simp add: eap_md5_extract_def Let_def chunk_def)
qed

lemma md5_mod_process_result:
  assumes s: "ss_this_round s = Some round" "fresh_round A round" "ss_opaque s = Some (Md5_challenge c)" "MD5_CHALLENGE_LEN \<le> length c"
    and r: "pk_code (rd_response round) = FR_MD5_RESPONSE" "pk_type_num (rd_response round) = FR_EAP_METHOD_MD5"
      "pk_type_data (rd_response round) = Some (word_of_nat (length value) # value @ name)" "0 < length value" "length value < 256"
    and pw: "em_password_find M control = Some password" "length password \<le> 492"
  shows "\<exists>res. md5_mod_process M True s control child = Some res \<and> sb_rcode res = RLM_MODULE_OK \<and>
    pk_code (sb_reply res) = (if value = md5_answer (pk_id (rd_response round)) password c then FR_EAP_CODE_SUCCESS else FR_EAP_CODE_FAILURE)"
proof -
  have ok: "response_ok (rd_response round)" using s(2) by (simp add: fresh_round_def)
  obtain packet where p: "eap_md5_extract True round = Some (Some packet)" "mp_id packet = pk_id (rd_response round)" "mp_value_size packet = length value" "mp_value packet = value"
    using eap_md5_extract_answer [OF ok r] by blast
  have "length (md5_answer i password c) = 16" for i by (simp add: md5_answer_def)
  then have v: "eap_md5_verify packet password c = Some (value = md5_answer (pk_id (rd_response round)) password c)"
    using eap_md5_verify_exact [of packet password c] pw(2) s(4) p by auto
  show ?thesis using s(1,3) pw(1) p(1) v by (simp add: md5_mod_process_def eap_md5_compose_def sub_keep_def)
qed

text \<open>Composing a success, and what the module makes of it.\<close>

lemma compose_success:
  assumes "reply_ok (rd_request (es_this_round v))" "pk_code (rd_request (es_this_round v)) = FR_EAP_CODE_SUCCESS"
  shows "\<exists>v'. eap_compose True v = Some (RLM_MODULE_OK, v') \<and> rq_reply_code (es_request v') = RADIUS_ACCESS_ACCEPT"
  using eap_compose_known [of v] assms by (auto simp: reply_ok_def compose_code_def)

lemma result_success:
  assumes W: "eap_work (\<lambda>s. ss_this_round s \<noteq> None \<and> answered V inst s) a W" and s: "ew_sessions W a = Some s" "ss_this_round s = Some round"
    and code: "pk_code (rd_request round) = FR_EAP_CODE_SUCCESS"
  shows "\<exists>W'. mod_authenticate_result True RLM_MODULE_OK a W = Some (RLM_MODULE_OK, W') \<and> reply_code W' = RADIUS_ACCESS_ACCEPT"
proof -
  obtain rc W' where r: "mod_authenticate_result True RLM_MODULE_OK a W = Some (rc, W')"
    using mod_authenticate_result_ok [of RLM_MODULE_OK V inst a W True] W by auto
  have q: "ss_request s \<noteq> None" "reply_ok (rd_request round)" using W s by (auto simp: at_work_def answered_def)
  let ?v = "\<lparr>es_type = ss_type s, es_request = request.truncate (ew_request W), es_prev_round = ss_prev_round s, es_this_round = round, es_finished = ss_finished s\<rparr>"
  obtain v' where v': "eap_compose True ?v = Some (RLM_MODULE_OK, v')" "rq_reply_code (es_request v') = RADIUS_ACCESS_ACCEPT"
    using compose_success [of ?v] q(2) code by auto
  have "\<exists>W2. on_session (eap_compose True) a W = Some (RLM_MODULE_OK, W2) \<and> reply_code W2 = RADIUS_ACCESS_ACCEPT"
    using s q(1) v' by (auto simp: on_session_def eap_view_def Let_def)
  then obtain W2 where 2: "on_session (eap_compose True) a W = Some (RLM_MODULE_OK, W2)" "reply_code W2 = RADIUS_ACCESS_ACCEPT" by blast
  then have "rc = RLM_MODULE_OK" "reply_code W' = reply_code W2"
    using r by (auto simp: mod_authenticate_result_def Option.bind_eq_Some_conv session_codes split: if_splits)
  then show ?thesis using r 2 by simp
qed

text \<open>The session of a response that passes the checks goes on.\<close>

lemma continue_passes:
  assumes W: "eap_rest V inst W" "rd_abs (ew_data W) (0, REQUEST_DATA_EAP_SESSION) = Some a" "ew_sessions W a = Some s" "eap_wf p"
    and p: "unat (p ! 4) = ss_type s" "ss_rounds s + 1 < 50" "eap_round_build alloc p = Some (Some round)"
    and user: "\<forall>user. fr_pair_find_by_da (rq_request_pairs (ew_request W)) ATTR_USER_NAME = Some user \<longrightarrow> ss_identity s = Some user"
  shows "\<exists>W'. eap_session_continue now new alloc instance p W = Some (Some a, W')"
proof -
  let ?s = "s\<lparr>ss_request := Some (sr_number (ew_request W)), ss_updated := now\<rparr>"
  have th: "eap_session_thaw now W = Some (Some a, set_session a ?s W)" "session_rest V inst s" using thaw_rest [OF W(1), of now] W(2,3) by auto
  obtain identity where i: "ss_identity s = Some identity" using th(2) by (auto simp: session_rest_def esession_ok_def)
  show ?thesis using th(1) eap_wf_reads(2) [OF W(4)] i p user
    by (cases "fr_pair_find_by_da (rq_request_pairs (ew_request W)) ATTR_USER_NAME")
       (simp_all add: eap_session_continue_def continue_old_def continue_round_def continue_user_def Let_def)
qed

text \<open>A response of the type of the session that passes the checks reaches the callback of the session.\<close>

lemma method_reached:
  assumes W: "inst_ok V inst" "eap_rest V inst W" "rd_abs (ew_data W) (0, REQUEST_DATA_EAP_SESSION) = Some a" "ew_sessions W a = Some s"
      "rd_abs (ew_data W) (ec_new_session ctx, 0) = None"
    and s: "ss_rounds s + 1 < 50" "\<forall>user. fr_pair_find_by_da (rq_request_pairs (ew_request W)) ATTR_USER_NAME = Some user \<longrightarrow> ss_identity s = Some user"
    and ctx: "ec_push ctx" "\<not> ec_nested ctx"
    and p: "eap_wf p" "eap_round_build (ec_alloc ctx) p = Some (Some round)" "pk_type_num (rd_response round) = ss_type s" "A (rd_response round)"
  defines "s' \<equiv> s\<lparr>ss_request := Some (sr_number (ew_request W)), ss_updated := ec_now ctx, ss_rounds := ss_rounds s + 1, ss_this_round := Some round\<rparr>"
  shows "\<exists>W1 W2. eap_session_continue (ec_now ctx) (ec_new_session ctx) (ec_alloc ctx) (ei_instance inst) p W = Some (Some a, W1) \<and>
    eap_method_select ctx inst a W1 = Some (None, W2) \<and> ew_sessions W2 a = Some s' \<and> eap_work (\<lambda>s. selected A s \<and> method_set V inst s) a W2"
proof -
  have t: "unat (p ! 4) = ss_type s" using eap_wf_reads(5) [OF p(1), of "ec_alloc ctx"] p(2,3) by auto
  have m: "FR_EAP_METHOD_MD5 \<le> ss_type s" "ss_type s < FR_EAP_METHOD_MAX" "ei_methods inst (ss_type s)"
    using W(2-4) by (auto simp: at_rest_def session_rest_def method_set_def)
  obtain W1 where 1: "eap_session_continue (ec_now ctx) (ec_new_session ctx) (ec_alloc ctx) (ei_instance inst) p W = Some (Some a, W1)"
    using continue_passes [OF W(2-4) p(1) t s(1) p(2) s(2)] by blast
  have w1: "eap_work (working V A inst) a W1"
    using eap_session_continue_ok [where now = "ec_now ctx", OF W(2) p(1) _ W(5), of "ei_instance inst" "ec_alloc ctx" A] W(1,3) 1 p(2,4) by (fastforce simp: inst_ok_def)
  have s1: "ew_sessions W1 a = Some s'" using eap_session_continued [OF W(2-4) p(1) 1] p(2) by (auto simp: s'_def)
  have "s'\<lparr>ss_type := ss_type s\<rparr> = s'" by (simp add: s'_def)
  then have 2: "eap_method_select ctx inst a W1 = Some (None, set_session a s' W1)" using s1 p(3) m ctx by (simp add: eap_method_select_def s'_def Let_def)
  then have "eap_work (\<lambda>s. selected A s \<and> method_set V inst s) a (set_session a s' W1)" using eap_method_select_ok [OF w1 W(1), of ctx] by auto
  then show ?thesis using 1 2 by auto
qed

lemma md5_login:
  assumes W: "inst_ok (methods_valid M) inst" "eap_rest (methods_valid M) inst W" "rd_abs (ew_data W) (0, REQUEST_DATA_EAP_SESSION) = Some a" "ew_sessions W a = Some s"
      "rd_abs (ew_data W) (ec_new_session ctx, 0) = None"
    and s: "ss_process s = Process FR_EAP_METHOD_MD5" "ss_opaque s = Some (Md5_challenge c)" "ss_type s = FR_EAP_METHOD_MD5" "ss_rounds s + 1 < 50"
      "\<forall>user. fr_pair_find_by_da (rq_request_pairs (ew_request W)) ATTR_USER_NAME = Some user \<longrightarrow> ss_identity s = Some user"
    and ctx: "ec_alloc ctx" "ec_push ctx" "\<not> ec_nested ctx" "em_password_find M (ec_control ctx) = Some password"
    and p: "fr_pair_find_by_da (rq_request_pairs (ew_request W)) ATTR_EAP_MESSAGE \<noteq> None" "eap_received ctx W = Some (Some p)"
      "eap_round_build True p = Some (Some round)" "pk_code (rd_response round) = FR_EAP_CODE_RESPONSE" "pk_type_num (rd_response round) = FR_EAP_METHOD_MD5"
      "pk_type_data (rd_response round) = Some (16 # md5_answer (pk_id (rd_response round)) password c @ name)"
  shows "\<exists>W'. mod_authenticate ctx inst (eap_submodules M True) W = Some (RLM_MODULE_OK, W') \<and> reply_code W' = RADIUS_ACCESS_ACCEPT"
proof -
  let ?V = "methods_valid M"
  have l: "length (md5_answer i password c) = 16" for i by (simp add: md5_answer_def)
  have wf: "eap_wf p" using eap_packet_from_vp_wf [of "ec_alloc ctx" "pair_values (rq_request_pairs (ew_request W)) ATTR_EAP_MESSAGE"] p(2) by auto
  have "?V (ss_process s) (ss_opaque s)" using W(2,3,4) by (auto simp: at_rest_def session_rest_def method_set_def)
  then have pw: "length password \<le> 492" "length c = 16" using ctx(4) s(1,2) by (auto simp: methods_valid_def methods_ok_def)
  have A: "md5_sane (rd_response round)" using p(6) l by (simp add: md5_sane_def)
  let ?s = "s\<lparr>ss_request := Some (sr_number (ew_request W)), ss_updated := ec_now ctx, ss_rounds := ss_rounds s + 1, ss_this_round := Some round\<rparr>"
  obtain W1 W2 where 1: "eap_session_continue (ec_now ctx) (ec_new_session ctx) (ec_alloc ctx) (ei_instance inst) p W = Some (Some a, W1)"
    and 2: "eap_method_select ctx inst a W1 = Some (None, W2)" and s2: "ew_sessions W2 a = Some ?s"
    and w2: "eap_work (\<lambda>s. selected md5_sane s \<and> method_set ?V inst s) a W2"
    using method_reached [OF W s(4,5) ctx(2,3) wf, of round md5_sane] p(3,5) s(3) A ctx(1) by auto
  obtain rc W3 where 3: "run_method ctx inst (eap_submodules M True) a W2 = Some (rc, W3)"
    "eap_work (\<lambda>s. ss_this_round s \<noteq> None \<and> (rc \<noteq> RLM_MODULE_FAIL \<and> rc \<noteq> RLM_MODULE_INVALID \<longrightarrow> answered ?V inst s)) a W3"
    using methods.run_method_ok [OF w2, of ctx] by blast
  have f: "fresh_round md5_sane round" using w2 s2 by (auto simp: at_work_def selected_def)
  obtain child res s3 round3 where r: "md5_mod_process M True ?s (ec_control ctx) child = Some res" "rc = sb_rcode res"
    "ew_sessions W3 a = Some s3" "ss_this_round s3 = Some round3" "rd_request round3 = sb_reply res"
    using run_method_code [OF 3(1)] s(1) s2 by (auto simp: eap_submodules_def)
  have ok: "rc = RLM_MODULE_OK" "pk_code (sb_reply res) = FR_EAP_CODE_SUCCESS"
    using md5_mod_process_result [OF _ f _ _ p(4,5) _ _ _ ctx(4) pw(1), of ?s c "md5_answer (pk_id (rd_response round)) password c" name child]
      s(2) p(6) l pw(2) r(1,2) by auto
  have w3: "eap_work (\<lambda>s. ss_this_round s \<noteq> None \<and> answered ?V inst s) a W3" using 3(2) ok(1) by simp
  show ?thesis using result_success [OF w3 r(3,4)] r(5) ok ctx(1) p(1,2) 1 2 3(1) by (auto simp: mod_authenticate_def)
qed

section \<open>Examples\<close>

definition ex_methods :: eap_methods where
  "ex_methods = \<lparr>em_password_find = (\<lambda>_. Some [115]), em_rand = (\<lambda>i. word_of_nat i),
     em_tls = \<lparr>tm_env = ex_env\<lparr>env_handshake_push := (\<lambda>t. (0, t\<lparr>ts_dirty_in := record_init (ts_dirty_in t)\<rparr>))\<rparr>, tm_session_alloc = (\<lambda>_. Some (ex_tls [])),
       tm_include_length = True, tm_req_client_cert = True, tm_export = (\<lambda>_ n _ _. Some (replicate n 0)), tm_protocol = (\<lambda>_. TLS1_3_VERSION), tm_randoms = (\<lambda>_. ([], [])),
       tm_cache_push = (\<lambda>_. Cache_idle)\<rparr>\<rparr>"

lemma ex_methods_ok: "methods_ok ex_methods" "inst_ok (methods_valid ex_methods) ex_inst"
proof -
  show m: "methods_ok ex_methods"
    by (auto simp: methods_ok_def ex_methods_def glue_ok_def tls_kept_def rec_ok_def record_init_def ex_env_def ex_tls_def ex_record_def)
  then show "inst_ok (methods_valid ex_methods) ex_inst" by (auto simp: inst_ok_def ex_inst_def methods_valid_def)
qed

text \<open>A session of EAP-MD5 that waits for the answer to a challenge, and a request with the answer.\<close>

abbreviation ex_challenge :: bytes where "ex_challenge \<equiv> replicate 16 7"

definition ex_md5_packet :: bytes where
  "ex_md5_packet = [2, 1, 0, 22, 4, 16] @ md5_answer 1 [115] ex_challenge"

definition ex_md5_session :: "eap_opaque esession" where
  "ex_md5_session = \<lparr>ss_inst = 1, ss_type = 4, ss_request = None, ss_identity = Some [98], ss_prev_round = Some (es_this_round ex_session), ss_this_round = None,
     ss_opaque = Some (Md5_challenge ex_challenge), ss_process = Process 4, ss_rounds = 0, ss_updated = 0, ss_tls = False, ss_finished = False\<rparr>"

definition ex_md5_world :: "eap_opaque eap_world" where
  "ex_md5_world = \<lparr>ew_request = ex_state_request\<lparr>rq_request_pairs := [(ATTR_EAP_MESSAGE, ex_md5_packet)], sr_data := [ex_item]\<rparr>, ew_sessions = [5 \<mapsto> ex_md5_session], ew_children = Map.empty\<rparr>"

definition ex_md5_round :: eap_round where
  "ex_md5_round = \<lparr>rd_response = eap_packet_zero\<lparr>pk_packet := Some ex_md5_packet, pk_code := 2, pk_id := 1, pk_type_num := 4, pk_length := 22,
     pk_type_data := Some (16 # md5_answer 1 [115] ex_challenge), pk_type_length := 17\<rparr>, rd_request = eap_packet_zero, rd_set_request_id = False\<rparr>"

lemma ex_md5_request:
  "eap_received ex_ctx ex_md5_world = Some (Some ex_md5_packet)" "eap_round_build True ex_md5_packet = Some (Some ex_md5_round)"
  "eap_rest (methods_valid ex_methods) ex_inst ex_md5_world" "rd_abs (ew_data ex_md5_world) (0, REQUEST_DATA_EAP_SESSION) = Some 5" "ew_sessions ex_md5_world 5 = Some ex_md5_session"
  "rd_abs (ew_data ex_md5_world) (ec_new_session ex_ctx, 0) = None" "fr_pair_find_by_da (rq_request_pairs (ew_request ex_md5_world)) ATTR_EAP_MESSAGE \<noteq> None"
  "fr_pair_find_by_da (rq_request_pairs (ew_request ex_md5_world)) ATTR_USER_NAME = None"
proof -
  obtain d where d: "md5_answer 1 [115] ex_challenge = d" "length d = 16" by (simp add: md5_answer_def)
  have p: "ex_md5_packet = 2 # 1 # 0 # 22 # 4 # 16 # d" by (simp add: ex_md5_packet_def d(1))
  show "eap_received ex_ctx ex_md5_world = Some (Some ex_md5_packet)"
    using d(2) by (simp add: ex_ctx_def ex_md5_world_def pair_values_def p patch_def eap_packet_from_vp_def eap_is_valid_def rd8_def rd_nbo16_def nbo16_def Let_def)
  show "eap_round_build True ex_md5_packet = Some (Some ex_md5_round)"
    using d by (simp add: p ex_md5_round_def eap_round_build_def eap_round_alloc_def rd8_def rd_nbo16_def nbo16_def rd_mem_def chunk_def Let_def)
  show "eap_rest (methods_valid ex_methods) ex_inst ex_md5_world"
    by (auto simp: ex_md5_world_def ex_md5_session_def at_rest_def data_ok_def rd_inv_def rd_abs_def session_rest_def esession_ok_def method_set_def ex_inst_def child_ok_def
        methods_valid_def ex_methods_ok)
qed (simp_all add: ex_md5_world_def rd_abs_def ex_ctx_def fr_pair_find_by_da_def)

section \<open>Properties\<close>

text \<open>(C1) A round of the EAP module with the methods EAP-MD5 and EAP-TLS ends with a result. No session is used after it was freed, no method is called that is not enabled and set,
and nothing outside of a buffer is read or written. What is left is no session, or one that is frozen, has had fewer than fifty rounds and keeps data its method can go on with. This
holds for every packet a peer can send but two kinds: the first packet of a conversation must not be of an enabled method (the code then calls a callback that is not set,
\<open>mod_authenticate_null_callback\<close>), and the value of an EAP-MD5 response must lie inside its packet (the code then reads beyond it, \<open>md5_mod_process_outside\<close>). The
passwords have at most 492 octets (a longer one overflows a buffer, \<open>eap_md5_verify_overflow\<close>), and OpenSSL and the glue around it keep the contract \<open>glue_ok\<close>; both are part of
\<open>methods_valid\<close>. The address of a new session is not in use.\<close>

theorem mod_authenticate_safe:
  assumes "inst_ok (methods_valid M) inst" "eap_rest (methods_valid M) inst W" "rd_abs (ew_data W) (ec_new_session ctx, 0) = None"
    and "rd_abs (ew_data W) (0, REQUEST_DATA_EAP_SESSION) = None \<longrightarrow> (\<forall>p. eap_received ctx W = Some (Some p) \<longrightarrow> \<not> ei_methods inst (unat (p ! 4)))"
    and "\<forall>p round. eap_received ctx W = Some (Some p) \<longrightarrow> eap_round_build (ec_alloc ctx) p = Some (Some round) \<longrightarrow> md5_sane (rd_response round)"
  shows "\<exists>rc W'. mod_authenticate ctx inst (eap_submodules M True) W = Some (rc, W') \<and> eap_rest (methods_valid M) inst W'"
  using assms by (rule methods.mod_authenticate_ok)

theorem mod_authenticate_safe_witness:
  "\<exists>rc W'. mod_authenticate ex_ctx ex_inst (eap_submodules ex_methods True) (ex_eap_world (Md5_challenge []) [2, 1, 0, 6, 1, 98] []) = Some (rc, W') \<and> eap_rest (methods_valid ex_methods) ex_inst W'"
  by (rule mod_authenticate_safe [OF ex_methods_ok(2) ex_world_rest(1)])
    (auto simp: ex_eap_world_def ex_ctx_def ex_packets pair_values_def rd_abs_def ex_inst_def eap_round_build_def eap_round_alloc_def rd8_def rd_nbo16_def nbo16_def rd_mem_def
      md5_sane_def Let_def)

text \<open>(C2) An Access-Accept is given only to a peer that has proved who it is: to a session that waits for an answer and a response that holds the digest of its identifier, the
password and the challenge of the session, or whose TLS handshake OpenSSL has finished, with nothing left to send.\<close>

theorem eap_accept_proved:
  assumes "inst_ok (methods_valid M) inst" "eap_rest (methods_valid M) inst W" "rd_abs (ew_data W) (ec_new_session ctx, 0) = None"
    and "rd_abs (ew_data W) (0, REQUEST_DATA_EAP_SESSION) = None \<longrightarrow> (\<forall>p. eap_received ctx W = Some (Some p) \<longrightarrow> \<not> ei_methods inst (unat (p ! 4)))"
    and "\<forall>p round. eap_received ctx W = Some (Some p) \<longrightarrow> eap_round_build (ec_alloc ctx) p = Some (Some round) \<longrightarrow> md5_sane (rd_response round)"
    and "mod_authenticate ctx inst (eap_submodules M True) W = Some (rc, W')" "reply_code W' = RADIUS_ACCESS_ACCEPT" "reply_code W \<noteq> RADIUS_ACCESS_ACCEPT"
  shows "\<exists>a s p round. rd_abs (ew_data W) (0, REQUEST_DATA_EAP_SESSION) = Some a \<and> ew_sessions W a = Some s \<and> eap_received ctx W = Some (Some p) \<and>
    eap_round_build (ec_alloc ctx) p = Some (Some round) \<and> peer_proved M (ec_control ctx) s round"
  using assms by (rule accept_needs_proof)

lemma ex_md5_login:
  "\<exists>W'. mod_authenticate ex_ctx ex_inst (eap_submodules ex_methods True) ex_md5_world = Some (RLM_MODULE_OK, W') \<and> reply_code W' = RADIUS_ACCESS_ACCEPT"
  by (rule md5_login [OF ex_methods_ok(2) ex_md5_request(3-6), where c = ex_challenge and password = "[115]" and name = "[]", OF _ _ _ _ _ _ _ _ _ ex_md5_request(7,1,2)])
    (simp_all add: ex_md5_request(8) [simplified] ex_md5_session_def ex_md5_round_def ex_ctx_def ex_methods_def)

theorem eap_accept_proved_witness:
  "\<exists>s round. ew_sessions ex_md5_world 5 = Some s \<and> eap_round_build True ex_md5_packet = Some (Some round) \<and> peer_proved ex_methods [] s round"
proof -
  obtain W' where W': "mod_authenticate ex_ctx ex_inst (eap_submodules ex_methods True) ex_md5_world = Some (RLM_MODULE_OK, W')" "reply_code W' = RADIUS_ACCESS_ACCEPT"
    using ex_md5_login by blast
  have n: "rd_abs (ew_data ex_md5_world) (0, REQUEST_DATA_EAP_SESSION) = None \<longrightarrow> (\<forall>p. eap_received ex_ctx ex_md5_world = Some (Some p) \<longrightarrow> \<not> ei_methods ex_inst (unat (p ! 4)))"
    by (simp add: ex_md5_request(4))
  have c: "ec_alloc ex_ctx" "ec_control ex_ctx = []" "reply_code ex_md5_world \<noteq> RADIUS_ACCESS_ACCEPT" by (simp_all add: ex_ctx_def ex_md5_world_def ex_state_request_def)
  have "length (md5_answer 1 [115] ex_challenge) = 16" by (simp add: md5_answer_def)
  then have sane: "\<forall>p round. eap_received ex_ctx ex_md5_world = Some (Some p) \<longrightarrow> eap_round_build (ec_alloc ex_ctx) p = Some (Some round) \<longrightarrow> md5_sane (rd_response round)"
    using ex_md5_request(1,2) c(1) by (auto simp: md5_sane_def ex_md5_round_def)
  from eap_accept_proved [OF ex_methods_ok(2) ex_md5_request(3,6) n sane W' c(3)] show ?thesis using ex_md5_request(1,4) c(1,2) by auto
qed

text \<open>(C8) A peer that knows the password gets in: a response of EAP-MD5 with the digest over its identifier, the password and the challenge of the session is answered with an
Access-Accept, if the User-Name is the identity of the session and the session is not at its last round.\<close>

theorem eap_md5_login:
  assumes "inst_ok (methods_valid M) inst" "eap_rest (methods_valid M) inst W" "rd_abs (ew_data W) (0, REQUEST_DATA_EAP_SESSION) = Some a" "ew_sessions W a = Some s"
      "rd_abs (ew_data W) (ec_new_session ctx, 0) = None"
    and "ss_process s = Process FR_EAP_METHOD_MD5" "ss_opaque s = Some (Md5_challenge c)" "ss_type s = FR_EAP_METHOD_MD5" "ss_rounds s + 1 < 50"
      "\<forall>user. fr_pair_find_by_da (rq_request_pairs (ew_request W)) ATTR_USER_NAME = Some user \<longrightarrow> ss_identity s = Some user"
    and "ec_alloc ctx" "ec_push ctx" "\<not> ec_nested ctx" "em_password_find M (ec_control ctx) = Some password"
    and "fr_pair_find_by_da (rq_request_pairs (ew_request W)) ATTR_EAP_MESSAGE \<noteq> None" "eap_received ctx W = Some (Some p)"
      "eap_round_build True p = Some (Some round)" "pk_code (rd_response round) = FR_EAP_CODE_RESPONSE" "pk_type_num (rd_response round) = FR_EAP_METHOD_MD5"
      "pk_type_data (rd_response round) = Some (16 # md5_answer (pk_id (rd_response round)) password c @ name)"
  shows "\<exists>W'. mod_authenticate ctx inst (eap_submodules M True) W = Some (RLM_MODULE_OK, W') \<and> reply_code W' = RADIUS_ACCESS_ACCEPT"
  using assms by (rule md5_login)

theorem eap_md5_login_witness:
  "\<exists>W'. mod_authenticate ex_ctx ex_inst (eap_submodules ex_methods True) ex_md5_world = Some (RLM_MODULE_OK, W') \<and> reply_code W' = RADIUS_ACCESS_ACCEPT"
  by (rule eap_md5_login [OF ex_methods_ok(2) ex_md5_request(3-6), where c = ex_challenge and password = "[115]" and name = "[]", OF _ _ _ _ _ _ _ _ _ ex_md5_request(7,1,2)])
    (simp_all add: ex_md5_request(8) [simplified] ex_md5_session_def ex_md5_round_def ex_ctx_def ex_methods_def)

section \<open>Where the methods go wrong\<close>

text \<open>A response whose value size is larger than the rest of its data makes EAP-MD5 read past the end.\<close>

lemma md5_mod_process_outside:
  assumes "ss_this_round s = Some round" "fresh_round A round" "em_password_find M control = Some password" "pk_type_data (rd_response round) = Some data"
    "pk_code (rd_response round) = FR_MD5_RESPONSE" "pk_type_num (rd_response round) = FR_EAP_METHOD_MD5" "data ! 0 \<noteq> 0" "length data \<le> unat (data ! 0)"
  shows "md5_mod_process M True s control child = None"
  using assms eap_md5_extract_outside [of round data] by (simp add: md5_mod_process_def fresh_round_def)

text \<open>The attribute that overrides \<open>require_client_cert\<close> has no effect: the control list of the subrequest is empty, the module does not copy the lists of its parent.\<close>

lemma require_client_cert_ignored:
  assumes "\<not> ei_clone_parent_lists inst (ss_type s)"
  shows "tls_mod_session_init M alloc s (child_control inst s control) child = tls_mod_session_init M alloc s [] child"
  using assms by (simp add: child_control_def)

text \<open>When the handshake has failed and the cache has an operation pending, its result replaces the reject, and the round has no reply: the module composes a packet with code \<open>0\<close>.\<close>

lemma failed_handshake_cache_result:
  assumes "ets_state (es_opaque s) = EAP_TLS_FAIL" "ets_tls_session (es_opaque s) = Some t" "tm_cache_push M (env_cache_deny (tm_env M) t) = Cache_ran rcode"
  shows "\<exists>s'. mod_handshake_resume M alloc child s = Some (rcode, [], child, s') \<and> rd_request (es_this_round s') = rd_request (es_this_round s)"
  using assms by (simp add: mod_handshake_resume_def Let_def)

lemma compose_code_zero:
  fixes v :: eap_session
  assumes "rd_request (es_this_round v) = eap_packet_zero" "\<not> rq_proxy_eap (es_request v)"
  shows "\<exists>v' packet. eap_compose True v = Some (RLM_MODULE_REJECT, v') \<and> packet ! 0 = 0 \<and> (ATTR_EAP_MESSAGE, packet) \<in> set (rq_reply_pairs (es_request v'))"
proof -
  let ?r = "composed v" and ?p = "[0, pk_id (composed v), 0, 5, 0] :: bytes"
  have r: "pk_packet ?r = None" "pk_code ?r = 0" "pk_type_data ?r = None" using assms(1) by (simp_all add: eap_packet_zero_def compose_type_def compose_id_def Let_def)
  have w: "eap_wireformat True ?r = Some (0, ?r\<lparr>pk_packet := Some ?p\<rparr>)" using r by (simp add: eap_wireformat_def Let_def patch_def put16_def)
  have n: "rd_nbo16 ?p 2 = Some 5" "rd_mem ?p 0 5 = Some ?p" by (simp_all add: rd_nbo16_def rd8_def nbo16_def rd_mem_def chunk_def)
  have c: "compose_code (rq_proxy_eap (es_request v)) 0 = (RLM_MODULE_REJECT, Some RADIUS_ACCESS_REJECT, FR_EAP_CODE_FAILURE)" using assms(2) by (simp add: compose_code_def)
  have "\<exists>v'. eap_compose True v = Some (RLM_MODULE_REJECT, v') \<and> (ATTR_EAP_MESSAGE, ?p) \<in> set (rq_reply_pairs (es_request v'))"
    using w n c r by (auto simp: eap_compose_def Let_def)
  then show ?thesis by (metis nth_Cons_0)
qed

end
