(* ===== verification/Spec2Isabelle.thy ===== *)
theory Spec2Isabelle
  imports Radius_Password Radius_Tlv Heap Control Eap_Methods
begin

text \<open>
  A verification of the authentication core of the organisation-management server.

  \<^bold>\<open>The program.\<close> The organisation keeps its members and their rights in smart contracts
  (\<^verbatim>\<open>smart-contracts/\<close>), opens doors with NFC devices (\<^verbatim>\<open>door-verifier/\<close>, \<^verbatim>\<open>door-module/\<close>) and lets
  devices into its network through a RADIUS server (\<^verbatim>\<open>radius-server/\<close>) that authenticates them by EAP-TLS.
  The C code is the RADIUS server, under \<^verbatim>\<open>radius-server/freeradius-server-git/src\<close>; paths below are
  relative to it. A request arrives as a RADIUS packet, is checked and authenticated
  (\<^verbatim>\<open>protocols/radius/base.c\<close>), its attributes are decoded, hidden ones revealed
  (\<^verbatim>\<open>protocols/radius/decode.c\<close>), the EAP-Message attributes are joined to an EAP packet
  (\<^verbatim>\<open>lib/eap/base.c\<close>) and handed to the EAP module with its session (\<^verbatim>\<open>modules/rlm_eap/rlm_eap.c\<close>, \<^verbatim>\<open>lib/eap/session.c\<close>), which calls a method
  (\<^verbatim>\<open>modules/rlm_eap/types\<close>); the EAP-TLS fragments in it are reassembled to TLS records (\<^verbatim>\<open>lib/eap/tls.c\<close>) and
  handed to OpenSSL. The answer goes the other way: records are cut into fragments, composed to EAP packets
  (\<^verbatim>\<open>lib/eap/compose.c\<close>), split into attributes and signed. An authentication takes several requests; what one leaves for the
  next (\<^verbatim>\<open>lib/server/request_data.c\<close>) is kept by the server under the \<open>State\<close> attribute of the challenge (\<^verbatim>\<open>lib/server/state.c\<close>), in a red-black tree
  (\<^verbatim>\<open>lib/util/rb.c\<close>). Packets and replies are scheduled with heaps
  (\<^verbatim>\<open>lib/util/heap.c\<close>). The network threads and the worker threads exchange pointers through lock-free queues
  (\<^verbatim>\<open>lib/io/atomic_queue.c\<close>) and signal each other with control messages (\<^verbatim>\<open>lib/io/control.c\<close>), whose memory comes from ring buffers
  (\<^verbatim>\<open>lib/io/ring_buffer.c\<close>).

  \<^bold>\<open>The theories.\<close>
  \<^item> \<^verbatim>\<open>Prelude\<close>: bytes, words, buffers with checked access (\<open>rd8\<close>, \<open>rd_mem\<close>, \<open>wr_mem\<close> in the option monad,
    \<open>None\<close> is an access outside the buffer), network byte order.
  \<^item> \<^verbatim>\<open>Md5\<close>: \<^verbatim>\<open>lib/util/md5.c\<close> and \<^verbatim>\<open>lib/util/hmac_md5.c\<close>. The unrolled transform equals the table-driven one of
    RFC 1321, the streaming interface computes the digest of the concatenation (locale \<open>stream_digest\<close>), HMAC is the one of
    RFC 2104. Bound: fewer than \<open>2 ^ 29 - 128\<close> octets, beyond which the bit count of the code loses a carry.
  \<^item> \<^verbatim>\<open>Radius_Packet\<close>: \<open>fr_radius_ok\<close>, \<open>fr_radius_sign\<close>, \<open>fr_radius_verify\<close> and \<open>fr_digest_cmp\<close>. Validation accepts exactly the packets
    whose attributes tile them; verification accepts exactly the packets with the right authenticators; signing and
    verifying are inverse; none leaves the packet.
  \<^item> \<^verbatim>\<open>Radius_Password\<close>: User-Password, Tunnel-Password, Ascend and CHAP secrets (\<^verbatim>\<open>encode.c\<close>, \<^verbatim>\<open>decode.c\<close>, \<^verbatim>\<open>base.c\<close>) and the
    random padding (\<^verbatim>\<open>lib/util/rand.c\<close>). Hiding is an abstract chain (locale \<open>hiding\<close>) that the loops implement;
    decoding what was encoded yields the password, with its tag if it has one, and decoding any attribute stays inside the buffer.
  \<^item> \<^verbatim>\<open>Radius_Tlv\<close>: \<open>fr_radius_decode_tlv_ok\<close> accepts exactly sequences of whole TLVs, or one attribute where there is no length field.
  \<^item> \<^verbatim>\<open>Heap\<close>: \<^verbatim>\<open>lib/util/heap.c\<close> with its array, 32-bit indices, growing, shrinking and failing allocation, and the
    comparators of \<^verbatim>\<open>lib/io/network.c\<close> and \<^verbatim>\<open>lib/server/module.c\<close>. Locales \<open>heap_order\<close> (the laws of a comparator),
    \<open>priority_queue\<close> (what the heap promises) and \<open>cmp_macro\<close>.
  \<^item> \<^verbatim>\<open>Eap_Packet\<close>: \<^verbatim>\<open>lib/eap/base.c\<close> and \<^verbatim>\<open>lib/eap/compose.c\<close>: validation, EAP-Message attributes, wire format, replies.
  \<^item> \<^verbatim>\<open>Eap_Tls\<close>: \<^verbatim>\<open>lib/eap/tls.c\<close> and the record buffers of \<^verbatim>\<open>lib/tls/session.c\<close>: fragments, acknowledgements, reassembly and
    the state machine, for any behaviour of OpenSSL (record \<open>tls_env\<close>).

  \<^item> \<^verbatim>\<open>Rb_Tree\<close>: \<^verbatim>\<open>lib/util/rb.c\<close> at the level of its pointers, a map from addresses to nodes with the shared sentinel \<open>NIL\<close>, and its relation to trees and
    paths (\<open>rep\<close>). \<^verbatim>\<open>Rb_Balance\<close>: the repair loops after insertion and deletion end and restore the red-black laws. \<^verbatim>\<open>Rb_Set\<close>: under the laws of a
    comparator (locale \<open>rb_order\<close>) insertion, search and removal keep the nodes sorted. \<^verbatim>\<open>Rb_Interface\<close>: sequences of calls refine a sorted list, searches are
    logarithmic, iteration goes in order and survives the deletion of the current node, freeing reaches every node.
  \<^item> \<^verbatim>\<open>Request_Data\<close>: \<^verbatim>\<open>lib/server/request_data.c\<close>: the data attached to a request is a map from pairs of a pointer and a number.
  \<^item> \<^verbatim>\<open>State_Tree\<close>: \<^verbatim>\<open>lib/server/state.c\<close> over both: what a request saves is what the request with its \<open>State\<close> gets back, once; tree, list of expiry and entries
    agree in everything a server does (\<open>served\<close>); the limit of sessions, timeouts, and child requests.
  \<^item> \<^verbatim>\<open>Eap_Session\<close>: \<^verbatim>\<open>lib/eap/session.c\<close> and \<^verbatim>\<open>modules/rlm_eap/rlm_eap.c\<close>: sessions that are frozen, carried by the state tree and thawed again; the choice of a method, NAKs, the
    call of the method and its reply. What the module relies on of a method is the locale \<open>eap_submodule\<close>; under it every round ends, no freed session is used, and a session keeps its
    peer and its method.
  \<^item> \<^verbatim>\<open>Eap_Md5\<close>: \<^verbatim>\<open>modules/rlm_eap/types/rlm_eap_md5/eap_md5.c\<close>, packets and digests of EAP-MD5. \<^verbatim>\<open>Rlm_Eap_Tls\<close>: the handshake of EAP-TLS above the framing
    (\<^verbatim>\<open>rlm_eap_tls.c\<close>, \<open>eap_tls_success\<close>, \<^verbatim>\<open>lib/eap/crypto.c\<close>). \<^verbatim>\<open>Eap_Methods\<close>: the callbacks of both (\<^verbatim>\<open>rlm_eap_md5.c\<close>, \<^verbatim>\<open>rlm_eap_tls.c\<close>) satisfy \<open>eap_submodule\<close>, so the
    whole module is safe; an Access-Accept is given only to a peer that has proved itself, and to one that answers an EAP-MD5 challenge with the password.

  \<^item> \<^verbatim>\<open>Atomic_Queue\<close>: \<^verbatim>\<open>lib/io/atomic_queue.c\<close> with any number of threads, one shared access at a time (\<open>aq_step\<close>). By an invariant of all
    reachable states it refines a bounded queue, delivers everything once and in order, refuses only with a reason and lets a thread that runs
    alone finish. \<^verbatim>\<open>Message_Queue\<close> derives the interface its clients use (locale \<open>bounded_fifo\<close>).
  \<^item> \<^verbatim>\<open>Ring_Buffer\<close>: \<^verbatim>\<open>lib/io/ring_buffer.c\<close>: blocks never overlap, the oldest can be freed, reserving and allocating agree, sizes are powers of two.
  \<^item> \<^verbatim>\<open>Control\<close>: \<^verbatim>\<open>lib/io/control.c\<close> on top of both, down to the bytes of the messages: they arrive once, in order and unchanged while their memory
    is reused.

  \<^bold>\<open>Correspondence.\<close> Structures are records, C enumerations datatypes, \<open>uint8_t\<close> and \<open>uint32_t\<close> words where their
  arithmetic matters and natural numbers with the modulus written out where they are sizes. A function
  returns the new state next to its result; failing allocation is an argument (\<open>alloc\<close>); every early
  return is a branch. Log messages, \<open>talloc\<close> bookkeeping and assertions that are compiled out are left out; the
  assertions of the ring buffer and the control plane are kept, a failed one is \<open>None\<close>.

  \<^bold>\<open>Loops.\<close> Loops are recursive functions with a measure, except the sift-down of the heap, a
  \<open>partial_function\<close> whose termination is proved with its result, and \<open>send_record\<close>, the calls a peer's
  acknowledgements trigger, which has fuel; the length of the record is shown to be enough. The retry loops of the atomic queue
  are steps of the threads; that they end for a thread that runs alone is a theorem, with six accesses as its bound. The garbage collection of control
  messages is a \<open>partial_function\<close>, shown to end in every state that can arise. So are the loops of the red-black tree, which follow pointers: each is shown to end on
  every tree that satisfies the invariant, together with its result.

  \<^bold>\<open>Not modelled.\<close> OpenSSL and the code that calls it (\<^verbatim>\<open>lib/tls\<close>) enter as parameters. The dictionary-driven encoders
  and decoders, the policy interpreter, sockets, event loops, message sets and channels, the optional modules and the other
  protocols are not modelled, nor is the weak memory order of the processor, so that atomic
  accesses take effect one after the other. Neither are the contracts and the Arduino sketches, which are not C. The state tree is entered by one thread at a time,
  as its mutex makes it. Of the EAP methods EAP-MD5 and EAP-TLS are modelled; where they look up passwords, draw random numbers, call OpenSSL or its session cache, these are
  parameters (\<open>eap_methods\<close>, \<open>tls_method\<close>), with what the methods rely on in \<open>methods_ok\<close> and \<open>glue_ok\<close>. The interpreter is not modelled: a callback and what it pushes run to their
  end before the module resumes, and a push that fails is a result \<open>RLM_MODULE_FAIL\<close>. The one push whose frame is dropped unrun is the second handshake in
  \<open>eap_tls_handshake_resume\<close>, which returns right after it; it changes nothing.
\<close>

section \<open>An exchange across requests\<close>

text \<open>The Message-Authenticator that \<open>eap_compose\<close> adds, and a round of EAP-TLS whose reply has no \<open>State\<close> yet.\<close>

definition add_ma :: "pair_list \<Rightarrow> pair_list" where
  "add_ma ps = (if fr_pair_find_by_da ps ATTR_MESSAGE_AUTHENTICATOR = None then [(ATTR_MESSAGE_AUTHENTICATOR, replicate 16 0)] else [])"

definition ex_round :: eap_session where
  "ex_round = ex_session\<lparr>es_request := ex_eap_request\<lparr>rq_reply_pairs := []\<rparr>\<rparr>"

lemma request_truncate_sel: "rq_reply_pairs (request.truncate r) = rq_reply_pairs r" "rq_reply_code (request.truncate r) = rq_reply_code r"
  by (simp_all add: request.truncate_def)

lemma find_state_composed:
  assumes "fr_pair_find_by_da ps ATTR_STATE = None"
  shows "fr_pair_find_by_da (ps @ (ATTR_EAP_MESSAGE, w) # add_ma ps) ATTR_STATE = None"
  using assms by (auto simp: fr_pair_find_by_da_def find_append add_ma_def split: option.splits)

text \<open>(C9) A round of EAP that \<open>eap_compose\<close> turns into a challenge, and whose session \<open>fr_request_to_state\<close> saves, answers with the EAP packet in wire format, a
Message-Authenticator and one new \<open>State\<close> attribute under the code Access-Challenge; every request that comes back with that \<open>State\<close> gets the session
of the round restored.\<close>

theorem challenge_exchange:
  assumes "pk_packet (rd_request (es_this_round s)) = None" "eap_fits (rd_request (es_this_round s))" "pk_code (rd_request (es_this_round s)) = FR_EAP_CODE_REQUEST"
    and "fr_pair_find_by_da (rq_reply_pairs (es_request s)) ATTR_STATE = None"
    and "eap_compose True s = Some (rc, s')" "request.truncate r = es_request s'"
    and "state_inv S" "rd_inv (sr_data r)" "usable (owned r S) new S" "length rand = 4" "sr_session r \<noteq> []"
    and "fr_request_to_state now version rand new r S = Some (0, r', S')"
  shows "\<exists>v. rc = RLM_MODULE_HANDLED \<and> rq_reply_code r' = RADIUS_ACCESS_CHALLENGE \<and>
    rq_reply_pairs r' = rq_reply_pairs (es_request s) @ (ATTR_EAP_MESSAGE, eap_wire (composed s)) # add_ma (rq_reply_pairs (es_request s)) @ [(ATTR_STATE, v)] \<and>
    (\<forall>q. fr_pair_find_by_da (rq_request_pairs q) ATTR_STATE = Some v \<and> rd_inv (sr_data q) \<and> rd_abs (sr_data q) (st_addr S, 0) = None \<longrightarrow>
      (\<exists>q' S''. fr_state_to_request q S' = Some (0, q', S'') \<and> sr_session q' = sr_session r))"
proof -
  let ?ps = "rq_reply_pairs (es_request s)"
  have c: "pk_code (rd_request (es_this_round s)) \<in> {1, 2, 3, 4}" "pk_code (composed s) = 1" using assms(3) by simp_all
  have p: "rc = RLM_MODULE_HANDLED" "rq_reply_code r = RADIUS_ACCESS_CHALLENGE" "rq_reply_pairs r = ?ps @ (ATTR_EAP_MESSAGE, eap_wire (composed s)) # add_ma ?ps"
    using eap_compose_known [OF assms(1,2) c(1)] assms(5) c(2) request_truncate_sel [of r, unfolded assms(6)]
    by (auto simp: compose_code_def add_ma_def)
  have n: "sr_session r \<noteq> [] \<or> persisted r S \<noteq> []" using assms(11) by simp
  obtain v a e where v: "state_inv S'" "held S' v = Some a" "st_entries S' a = Some e" "se_ctx e = Some (sr_session r)" "st_addr S' = st_addr S"
    "rq_reply_code r' = rq_reply_code r" "rq_reply_pairs r' = with_state v (rq_reply_pairs r)"
    using fr_request_to_state_saved [OF assms(7-10) n assms(12)] by metis
  have "\<exists>q' S''. fr_state_to_request q S' = Some (0, q', S'') \<and> sr_session q' = sr_session r"
    if "fr_pair_find_by_da (rq_request_pairs q) ATTR_STATE = Some v" "rd_inv (sr_data q)" "rd_abs (sr_data q) (st_addr S, 0) = None" for q
    using fr_state_to_request_restored [OF v(1) that(1) v(2,3) that(2)] that(3) v(4,5) by (metis option.inject)
  then show ?thesis using p v(6,7) find_state_composed [OF assms(4)] by (auto simp: with_state_def)
qed

theorem challenge_exchange_witness:
  "\<exists>s' r r' S' v q' S''. eap_compose True ex_round = Some (RLM_MODULE_HANDLED, s') \<and> request.truncate r = es_request s' \<and>
    fr_request_to_state 5 0x040000 [1, 2, 3, 4] 1 r (ex_tree 10) = Some (0, r', S') \<and>
    rq_reply_pairs r' = [(ATTR_EAP_MESSAGE, eap_wire (composed ex_round)), (ATTR_MESSAGE_AUTHENTICATOR, replicate 16 0), (ATTR_STATE, v)] \<and>
    fr_state_to_request (ex_state_request\<lparr>rq_request_pairs := [(ATTR_STATE, v)], sr_session := []\<rparr>) S' = Some (0, q', S'') \<and> sr_session q' = [(ATTR_OTHER 1, [7])]"
proof -
  let ?d = "rd_request (es_this_round ex_round)"
  have c: "pk_packet ?d = None" "eap_fits ?d" "pk_code ?d = FR_EAP_CODE_REQUEST" "rq_reply_pairs (es_request ex_round) = []" "pk_code ?d \<in> {1, 2, 3, 4}"
    by (simp_all add: ex_round_def ex_session_def ex_eap_request_def ex_eap_reply_def eap_packet_zero_def eap_fits_def)
  obtain rc s' where s': "eap_compose True ex_round = Some (rc, s')" using eap_compose_known [OF c(1,2,5)] by blast
  define r where "r = request.extend (es_request s') (state_request.fields 1 1 0 [(ATTR_OTHER 1, [7])] [])"
  have r: "request.truncate r = es_request s'" "sr_session r = [(ATTR_OTHER 1, [7])]" "sr_data r = []" "\<And>S. owned r S = None"
    by (simp_all add: r_def request.defs state_request.defs owned_def)
  obtain r' S' where s: "fr_request_to_state 5 0x040000 [1, 2, 3, 4] 1 r (ex_tree 10) = Some (0, r', S')"
    using ex_tree_saves [of r] r by (auto simp: rd_inv_def)
  have i: "state_inv (ex_tree 10)" by (rule fr_state_tree_init_ok [OF ex_tree_sel(6)])
  have "usable (owned r (ex_tree 10)) 1 (ex_tree 10)" by (simp add: usable_def ex_tree_sel r(4))
  from challenge_exchange [OF c(1-3) _ s' r(1) i _ this _ _ s] obtain v where
    v: "rc = RLM_MODULE_HANDLED" "rq_reply_pairs r' = (ATTR_EAP_MESSAGE, eap_wire (composed ex_round)) # add_ma [] @ [(ATTR_STATE, v)]"
    "\<forall>q. fr_pair_find_by_da (rq_request_pairs q) ATTR_STATE = Some v \<and> rd_inv (sr_data q) \<and> rd_abs (sr_data q) (st_addr (ex_tree 10), 0) = None \<longrightarrow>
      (\<exists>q' S''. fr_state_to_request q S' = Some (0, q', S'') \<and> sr_session q' = sr_session r)"
    using r c(4) by (auto simp: rd_inv_def fr_pair_find_by_da_def)
  have "\<exists>q' S''. fr_state_to_request (ex_state_request\<lparr>rq_request_pairs := [(ATTR_STATE, v)], sr_session := []\<rparr>) S' = Some (0, q', S'') \<and> sr_session q' = sr_session r"
    using v(3) ex_state_request_sel(1,2) by (simp add: fr_pair_find_by_da_def)
  moreover have "rq_reply_pairs r' = [(ATTR_EAP_MESSAGE, eap_wire (composed ex_round)), (ATTR_MESSAGE_AUTHENTICATOR, replicate 16 0), (ATTR_STATE, v)]"
    using v(2) by (simp add: add_ma_def fr_pair_find_by_da_def)
  ultimately show ?thesis using s' s r(1,2) v(1) by metis
qed

text \<open>(C7) The conversation goes on: what a round of the EAP module leaves is saved in the state tree, the request that comes back with the \<open>State\<close> has the same session, and the
EAP module with its methods treats it to the end, and again leaves a state in which this holds. The packet of that request is any packet but an EAP-MD5 response whose value reaches
beyond it (which the code reads out of bounds, \<open>md5_mod_process_outside\<close>). As in C1 the passwords have at most 492 octets, and OpenSSL and the glue around it keep the contract
\<open>glue_ok\<close>.\<close>

theorem eap_next_round:
  assumes "inst_ok (methods_valid M) inst" "eap_rest (methods_valid M) inst W" "rd_abs (ew_data W) (0, REQUEST_DATA_EAP_SESSION) = Some a" "a \<noteq> st_addr S"
    and "state_inv S" "usable (owned (ew_request W) S) new S" "length rand = 4" "fr_request_to_state now version rand new (ew_request W) S = Some (0, r', S')"
    and "fr_pair_find_by_da (rq_request_pairs q) ATTR_STATE = fr_pair_find_by_da (rq_reply_pairs r') ATTR_STATE" "sr_data q = []"
    and "rd_abs (ew_data W) (ec_new_session ctx, 0) = None" "ec_new_session ctx \<noteq> st_addr S"
    and "\<forall>p round. eap_received ctx (W\<lparr>ew_request := q\<rparr>) = Some (Some p) \<longrightarrow> eap_round_build (ec_alloc ctx) p = Some (Some round) \<longrightarrow> md5_sane (rd_response round)"
  shows "\<exists>q' S''. fr_state_to_request q S' = Some (0, q', S'') \<and> request_data_reference 0 REQUEST_DATA_EAP_SESSION (sr_data q') = a \<and>
    (\<exists>rc W'. mod_authenticate ctx inst (eap_submodules M True) (W\<lparr>ew_request := q'\<rparr>) = Some (rc, W') \<and> eap_rest (methods_valid M) inst W')"
proof -
  obtain s where s: "ew_sessions W a = Some s" using assms(2,3) by (auto simp: at_rest_def)
  obtain q' S'' where q': "fr_state_to_request q S' = Some (0, q', S'')" "eap_rest (methods_valid M) inst (W\<lparr>ew_request := q'\<rparr>)"
    "rd_abs (sr_data q') (0, REQUEST_DATA_EAP_SESSION) = Some a" "rq_request_pairs q' = rq_request_pairs q"
    "\<forall>k c. k \<noteq> (st_addr S, 0) \<longrightarrow> rd_abs (sr_data q') k = Some c \<longrightarrow> rd_abs (ew_data W) k = Some c"
    using eap_session_resumed [OF assms(2,3) s assms(4-10)] by blast
  have "rd_abs (sr_data q') (ec_new_session ctx, 0) = None" using q'(5) assms(11,12) by (metis option.distinct(1) option.exhaust prod.inject)
  then have "\<exists>rc W'. mod_authenticate ctx inst (eap_submodules M True) (W\<lparr>ew_request := q'\<rparr>) = Some (rc, W') \<and> eap_rest (methods_valid M) inst W'"
    using assms(13) by (intro methods.mod_authenticate_ok [OF assms(1) q'(2)]) (simp_all add: q'(3,4))
  then show ?thesis using q'(1,3) by (auto simp: request_data_reference_abs)
qed

abbreviation ex_tls_world :: "eap_opaque eap_world" where
  "ex_tls_world \<equiv> ex_eap_world (Tls_session (ex_eap_tls [])) [] [ex_item]"

abbreviation ex_answer :: bytes where "ex_answer \<equiv> [2, 1, 0, 6, 13, 0]"

lemma ex_tls_rest: "eap_rest (methods_valid ex_methods) ex_inst ex_tls_world"
  by (intro ex_world_rest(2)) (auto simp: methods_valid_def ex_methods_ok tls_rest_def tls_live_def transfer_ok_def session_ok_def in_ok_def plain_flags_def TLS_START_def TLS_MORE_FRAGMENTS_def TLS_LENGTH_INCLUDED_def ex_eap_tls_def ex_tls_def ex_record_def rec_ok_def)

lemma ex_answer_read:
  "eap_packet_from_vp True [ex_answer] = Some (Some ex_answer)"
  "eap_round_build True ex_answer = Some (Some round) \<Longrightarrow> md5_sane (rd_response round)"
  by (auto simp: ex_packets eap_round_build_def eap_round_alloc_def rd8_def rd_nbo16_def nbo16_def rd_mem_def chunk_def md5_sane_def Let_def)

theorem eap_next_round_witness:
  "\<exists>r' S' q' S'' rc W'. fr_request_to_state 5 0x040000 [1, 2, 3, 4] 1 (ew_request ex_tls_world) (ex_tree 10) = Some (0, r', S') \<and>
    fr_state_to_request (ex_state_request\<lparr>rq_request_pairs := (ATTR_EAP_MESSAGE, ex_answer) # rq_reply_pairs r'\<rparr>) S' = Some (0, q', S'') \<and>
    mod_authenticate ex_ctx ex_inst (eap_submodules ex_methods True) (ex_tls_world\<lparr>ew_request := q'\<rparr>) = Some (rc, W') \<and> eap_rest (methods_valid ex_methods) ex_inst W'"
proof -
  let ?W = ex_tls_world
  have o: "rd_inv (ew_data ?W)" "owned (ew_request ?W) (ex_tree 10) = None" "sr_session (ew_request ?W) \<noteq> []" "rd_abs (ew_data ?W) (0, REQUEST_DATA_EAP_SESSION) = Some 5"
    by (simp_all add: ex_eap_world_def rd_inv_def owned_def rd_keyed_def ex_state_request_def rd_abs_def)
  obtain r' S' where s: "fr_request_to_state 5 0x040000 [1, 2, 3, 4] 1 (ew_request ?W) (ex_tree 10) = Some (0, r', S')" using ex_tree_saves [OF o(1-3)] by blast
  have u: "usable (owned (ew_request ?W) (ex_tree 10)) 1 (ex_tree 10)" using o(2) by (simp add: usable_def ex_tree_sel)
  obtain v where "rq_reply_pairs r' = with_state v (rq_reply_pairs (ew_request ?W))"
    using fr_request_to_state_saved [OF fr_state_tree_init_ok [OF ex_tree_sel(6)] o(1) u _ _ s] o(3) by auto
  then have rp: "pair_values (rq_reply_pairs r') ATTR_EAP_MESSAGE = []"
    by (simp add: ex_eap_world_def ex_state_request_def with_state_def pair_values_def fr_pair_find_by_da_def)
  have sane: "\<forall>p round. eap_received ex_ctx (?W\<lparr>ew_request := ex_state_request\<lparr>rq_request_pairs := (ATTR_EAP_MESSAGE, ex_answer) # rq_reply_pairs r'\<rparr>\<rparr>) = Some (Some p) \<longrightarrow>
      eap_round_build (ec_alloc ex_ctx) p = Some (Some round) \<longrightarrow> md5_sane (rd_response round)"
    using rp ex_answer_read by (simp add: ex_ctx_def pair_values_def)
  let ?q = "ex_state_request\<lparr>rq_request_pairs := (ATTR_EAP_MESSAGE, ex_answer) # rq_reply_pairs r'\<rparr>"
  have "\<exists>q' S''. fr_state_to_request ?q S' = Some (0, q', S'') \<and> request_data_reference 0 REQUEST_DATA_EAP_SESSION (sr_data q') = 5 \<and>
    (\<exists>rc W'. mod_authenticate ex_ctx ex_inst (eap_submodules ex_methods True) (?W\<lparr>ew_request := q'\<rparr>) = Some (rc, W') \<and> eap_rest (methods_valid ex_methods) ex_inst W')"
    by (rule eap_next_round [OF ex_methods_ok(2) ex_tls_rest o(4) _ fr_state_tree_init_ok [OF ex_tree_sel(6)] u _ s])
      (use sane in \<open>simp_all add: ex_tree_sel ex_state_request_sel fr_pair_find_by_da_def ex_ctx_def ex_eap_world_def rd_abs_def\<close>)
  then show ?thesis using s by blast
qed

end
